(* ===== verification/Prelude.thy ===== *)
theory Prelude
  imports Main "HOL-Library.Word"
begin

text \<open>
  Shared vocabulary of the Zeronix development.

  The kernel is built with the dev profile (\<^verbatim>\<open>cargo kbuild\<close> copies the debug binary, see
  README.md), so plain integer arithmetic panics on overflow, slice indexing panics out of range
  and \<^verbatim>\<open>debug_assert!\<close> is live.  A computation that may panic has type \<open>'a run\<close>:
  \<open>Inl p\<close> is a kernel panic (or a loop that never returns, \<open>Diverge\<close>), \<open>Inr x\<close> a value.
  A \<^verbatim>\<open>usize\<close> is a natural number; every operation that could leave 64 bits writes the bound out.
\<close>

unbundle bit_operations_syntax

named_theorems run_simps \<open>evaluation of panicking computations\<close>
named_theorems usize_simps \<open>bounds and masks of 64-bit unsigned arithmetic\<close>

section \<open>Panics\<close>

datatype panic =
    Overflow
  | OutOfBounds
  | Assertion string
  | Expect string
  | Deadlock
  | Diverge

type_synonym 'a run = "panic + 'a"

type_synonym byte = "8 word"
type_synonym u8 = "8 word"
type_synonym u16 = "16 word"
type_synonym u32 = "32 word"
type_synonym u64 = "64 word"
type_synonym usize = nat

text \<open>Base of the higher half: physical address \<open>p\<close> is visible to the kernel at \<open>p + KERNEL_VMA\<close>
  (src/src/mem/page/pagemapper.rs).\<close>

abbreviation KERNEL_VMA :: usize where "KERNEL_VMA \<equiv> 18446603336221196288"

definition rbind :: "'e + 'a \<Rightarrow> ('a \<Rightarrow> 'e + 'b) \<Rightarrow> 'e + 'b" where
  "rbind m f = (case m of Inl e \<Rightarrow> Inl e | Inr x \<Rightarrow> f x)"

text \<open>The \<^verbatim>\<open>?\<close> operator on an \<^verbatim>\<open>Option\<close> inside code that may panic.\<close>

definition obind :: "'a option run \<Rightarrow> ('a \<Rightarrow> 'b option run) \<Rightarrow> 'b option run" where
  "obind m f = rbind m (\<lambda>r. case r of None \<Rightarrow> Inr None | Some x \<Rightarrow> f x)"

text \<open>The \<^verbatim>\<open>?\<close> operator on a \<^verbatim>\<open>Result\<close> inside code that may panic.\<close>

definition ebind :: "('e + 'a) run \<Rightarrow> ('a \<Rightarrow> ('e + 'b) run) \<Rightarrow> ('e + 'b) run" where
  "ebind m f = rbind m (\<lambda>r. case r of Inl e \<Rightarrow> Inr (Inl e) | Inr x \<Rightarrow> f x)"

definition map_err :: "('e \<Rightarrow> 'f) \<Rightarrow> 'e + 'a \<Rightarrow> 'f + 'a" where
  "map_err g r = (case r of Inl e \<Rightarrow> Inl (g e) | Inr x \<Rightarrow> Inr x)"

definition ok_or :: "'a option \<Rightarrow> 'e \<Rightarrow> 'e + 'a" where
  "ok_or v e = (case v of None \<Rightarrow> Inl e | Some x \<Rightarrow> Inr x)"

definition guard :: "bool \<Rightarrow> panic \<Rightarrow> unit run" where
  "guard c p = (if c then Inr () else Inl p)"

lemma rbind_simps [simp]:
  "rbind (Inl e) f = Inl e"
  "rbind (Inr x) f = f x"
  by (simp_all add: rbind_def)

lemma rbind_assoc: "rbind (rbind m f) g = rbind m (\<lambda>x. rbind (f x) g)"
  by (cases m) simp_all

lemma rbind_eq_InrE:
  assumes "rbind m f = Inr y"
  obtains x where "m = Inr x" and "f x = Inr y"
  using assms by (cases m) auto

lemma rbind_eq_Inr_iff: "rbind m f = Inr y \<longleftrightarrow> (\<exists>x. m = Inr x \<and> f x = Inr y)"
  by (cases m) auto

lemma rbind_eq_Inl_iff: "rbind m f = Inl e \<longleftrightarrow> m = Inl e \<or> (\<exists>x. m = Inr x \<and> f x = Inl e)"
  by (cases m) auto

lemma rbind_cong [fundef_cong]:
  assumes "m = m'" and "\<And>x. m' = Inr x \<Longrightarrow> f x = g x"
  shows "rbind m f = rbind m' g"
  using assms by (cases m') auto

lemma obind_simps [simp]:
  "obind (Inl e) f = Inl e"
  "obind (Inr None) f = Inr None"
  "obind (Inr (Some x)) f = f x"
  by (simp_all add: obind_def)

lemma obind_cong [fundef_cong]:
  assumes "m = m'" and "\<And>x. m' = Inr (Some x) \<Longrightarrow> f x = g x"
  shows "obind m f = obind m' g"
  using assms by (auto simp: obind_def split: option.splits intro!: rbind_cong)

lemma ebind_simps [simp]:
  "ebind (Inl e) f = Inl e"
  "ebind (Inr (Inl x)) f = Inr (Inl x)"
  "ebind (Inr (Inr y)) f = f y"
  by (simp_all add: ebind_def)

lemma ebind_cong [fundef_cong]:
  assumes "m = m'" and "\<And>x. m' = Inr (Inr x) \<Longrightarrow> f x = g x"
  shows "ebind m f = ebind m' g"
  using assms by (auto simp: ebind_def split: sum.splits intro!: rbind_cong)

lemma map_err_simps [simp]:
  "map_err g (Inl e) = Inl (g e)"
  "map_err g (Inr x) = Inr x"
  by (simp_all add: map_err_def)

lemma ok_or_simps [simp]:
  "ok_or None e = Inl e"
  "ok_or (Some x) e = Inr x"
  by (simp_all add: ok_or_def)

lemma ok_or_eq_iff [simp]:
  "ok_or v e = Inr x \<longleftrightarrow> v = Some x"
  "ok_or v e = Inl e' \<longleftrightarrow> v = None \<and> e' = e"
  by (cases v; auto)+

lemma guard_simps [simp]:
  "guard True p = Inr ()"
  "guard False p = Inl p"
  by (simp_all add: guard_def)

lemma guard_eq_iff [simp]:
  "guard c p = Inr u \<longleftrightarrow> c"
  "guard c p = Inl q \<longleftrightarrow> \<not> c \<and> q = p"
  by (auto simp: guard_def)

text \<open>\<open>run_le a b\<close>: a value of \<open>a\<close> is also the value of \<open>b\<close>.  Loops run with more fuel are
  compared in this order.\<close>

definition run_le :: "'e + 'a \<Rightarrow> 'e + 'a \<Rightarrow> bool" where
  "run_le a b \<longleftrightarrow> (\<forall>r. a = Inr r \<longrightarrow> b = Inr r)"

named_theorems run_le_intros \<open>monotonicity in the fuel\<close>

lemma run_leD: "run_le a b \<Longrightarrow> a = Inr r \<Longrightarrow> b = Inr r"
  by (simp add: run_le_def)

lemma run_le_refl [run_le_intros]: "run_le a a"
  by (simp add: run_le_def)

lemma run_le_Inl [run_le_intros]: "run_le (Inl e) a"
  by (simp add: run_le_def)

lemma run_le_bind [run_le_intros]:
  "run_le a b \<Longrightarrow> (\<And>x. a = Inr x \<Longrightarrow> run_le (f x) (g x)) \<Longrightarrow> run_le (rbind a f) (rbind b g)"
  by (auto simp: run_le_def rbind_eq_Inr_iff)

lemma run_le_if [run_le_intros]:
  "(c \<Longrightarrow> run_le a b) \<Longrightarrow> (\<not> c \<Longrightarrow> run_le a' b') \<Longrightarrow> run_le (if c then a else a') (if c then b else b')"
  by simp

lemma run_le_option [run_le_intros]:
  "(x = None \<Longrightarrow> run_le a b) \<Longrightarrow> (\<And>y. x = Some y \<Longrightarrow> run_le (f y) (g y)) \<Longrightarrow>
   run_le (case x of None \<Rightarrow> a | Some y \<Rightarrow> f y) (case x of None \<Rightarrow> b | Some y \<Rightarrow> g y)"
  by (cases x) simp_all

lemma run_le_prod [run_le_intros]:
  "(\<And>y z. x = (y, z) \<Longrightarrow> run_le (f y z) (g y z)) \<Longrightarrow>
   run_le (case x of (y, z) \<Rightarrow> f y z) (case x of (y, z) \<Rightarrow> g y z)"
  by (cases x) simp

text \<open>\<open>no_panic m\<close>: the computation ends with a value.  The introduction rules walk through a
  definition and leave the side conditions of its partial operations.\<close>

definition no_panic :: "'e + 'a \<Rightarrow> bool" where
  "no_panic m \<longleftrightarrow> (\<exists>r. m = Inr r)"

named_theorems no_panic_intros \<open>absence of panics, by the shape of the computation\<close>

lemma no_panicE: "no_panic m \<Longrightarrow> (\<And>r. m = Inr r \<Longrightarrow> P) \<Longrightarrow> P"
  by (auto simp: no_panic_def)

lemma no_panic_Inl [simp]: "\<not> no_panic (Inl e)"
  by (simp add: no_panic_def)

lemma no_panic_Inr [simp, no_panic_intros]: "no_panic (Inr x)"
  by (simp add: no_panic_def)

lemma no_panic_rbind [no_panic_intros]:
  "no_panic m \<Longrightarrow> (\<And>x. m = Inr x \<Longrightarrow> no_panic (f x)) \<Longrightarrow> no_panic (rbind m f)"
  by (cases m) auto

lemma no_panic_ebind [no_panic_intros]:
  "no_panic m \<Longrightarrow> (\<And>x. m = Inr (Inr x) \<Longrightarrow> no_panic (f x)) \<Longrightarrow> no_panic (ebind m f)"
  by (auto simp: ebind_def split: sum.splits intro!: no_panic_rbind)

lemma no_panic_if [no_panic_intros]:
  "(c \<Longrightarrow> no_panic a) \<Longrightarrow> (\<not> c \<Longrightarrow> no_panic b) \<Longrightarrow> no_panic (if c then a else b)"
  by simp

lemma no_panic_option [no_panic_intros]:
  "(x = None \<Longrightarrow> no_panic a) \<Longrightarrow> (\<And>y. x = Some y \<Longrightarrow> no_panic (f y)) \<Longrightarrow>
   no_panic (case x of None \<Rightarrow> a | Some y \<Rightarrow> f y)"
  by (cases x) simp_all

lemma no_panic_sum [no_panic_intros]:
  "(\<And>y. x = Inl y \<Longrightarrow> no_panic (f y)) \<Longrightarrow> (\<And>y. x = Inr y \<Longrightarrow> no_panic (g y)) \<Longrightarrow>
   no_panic (case x of Inl y \<Rightarrow> f y | Inr y \<Rightarrow> g y)"
  by (cases x) simp_all

lemma no_panic_prod [no_panic_intros]:
  "(\<And>y z. x = (y, z) \<Longrightarrow> no_panic (f y z)) \<Longrightarrow> no_panic (case x of (y, z) \<Rightarrow> f y z)"
  by (cases x) simp

section \<open>64-bit unsigned arithmetic\<close>

definition USIZE_MAX :: usize where
  "USIZE_MAX = 2 ^ 64 - 1"

definition ISIZE_MAX :: usize where
  "ISIZE_MAX = 2 ^ 63 - 1"

definition checked_add :: "usize \<Rightarrow> usize \<Rightarrow> usize option" where
  "checked_add a b = (if a + b \<le> USIZE_MAX then Some (a + b) else None)"

definition checked_sub :: "usize \<Rightarrow> usize \<Rightarrow> usize option" where
  "checked_sub a b = (if b \<le> a then Some (a - b) else None)"

definition saturating_add :: "usize \<Rightarrow> usize \<Rightarrow> usize" where
  "saturating_add a b = min USIZE_MAX (a + b)"

text \<open>Plain \<open>+\<close>, \<open>-\<close> and \<open>*\<close> of the dev profile.\<close>

definition add_usize :: "usize \<Rightarrow> usize \<Rightarrow> usize run" where
  "add_usize a b = (if a + b \<le> USIZE_MAX then Inr (a + b) else Inl Overflow)"

definition sub_usize :: "usize \<Rightarrow> usize \<Rightarrow> usize run" where
  "sub_usize a b = (if b \<le> a then Inr (a - b) else Inl Overflow)"

definition mul_usize :: "usize \<Rightarrow> usize \<Rightarrow> usize run" where
  "mul_usize a b = (if a * b \<le> USIZE_MAX then Inr (a * b) else Inl Overflow)"

text \<open>Bitwise complement of a 64-bit value.\<close>

definition not_usize :: "usize \<Rightarrow> usize" where
  "not_usize m = USIZE_MAX - m"

definition is_power_of_two :: "usize \<Rightarrow> bool" where
  "is_power_of_two n = list_ex (\<lambda>k. n = 2 ^ k) [0..<64]"

definition trailing_zeros :: "usize \<Rightarrow> nat" where
  "trailing_zeros n = length (takeWhile (\<lambda>i. \<not> bit n i) [0..<64])"

definition leading_zeros :: "usize \<Rightarrow> nat" where
  "leading_zeros n = length (takeWhile (\<lambda>i. \<not> bit n (63 - i)) [0..<64])"

lemma is_power_of_two_iff: "is_power_of_two n \<longleftrightarrow> (\<exists>k<64. n = 2 ^ k)"
  by (auto simp: is_power_of_two_def list_ex_iff)

lemma not_usize_mask_bit:
  assumes "k \<le> 64"
  shows "bit (not_usize (2 ^ k - 1)) n \<longleftrightarrow> k \<le> n \<and> n < 64"
proof -
  have "not_usize (2 ^ k - 1) = 2 ^ 64 - 2 ^ k"
    by (simp add: not_usize_def USIZE_MAX_def)
  also have "\<dots> = push_bit k (mask (64 - k) :: nat)"
  proof -
    have "(2::nat) ^ 64 = 2 ^ k * 2 ^ (64 - k)"
      using assms by (simp flip: power_add)
    then have "(2::nat) ^ 64 - 2 ^ k = (2 ^ (64 - k) - 1) * 2 ^ k"
      by (metis diff_mult_distrib mult.commute mult_1)
    then show ?thesis
      by (simp only: push_bit_eq_mult mask_eq_exp_minus_1)
  qed
  finally show ?thesis
    using assms by (auto simp: bit_push_bit_iff bit_mask_iff)
qed

text \<open>Masking with the complement of \<open>2 ^ k - 1\<close> rounds down to a multiple of \<open>2 ^ k\<close>.\<close>

lemma and_not_mask [usize_simps]:
  assumes "k \<le> 64" and "v \<le> USIZE_MAX"
  shows "v AND not_usize (2 ^ k - 1) = v - v mod 2 ^ k"
proof -
  have small: "\<not> bit v n" if "64 \<le> n" for n
  proof -
    have "v < 2 ^ 64" using assms(2) by (simp add: USIZE_MAX_def)
    also have "\<dots> \<le> 2 ^ n" using that by (rule power_increasing) simp
    finally show ?thesis by (simp add: bit_iff_odd)
  qed
  have "v AND not_usize (2 ^ k - 1) = push_bit k (drop_bit k v)"
  proof (rule bit_eqI)
    fix n
    show "bit (v AND not_usize (2 ^ k - 1)) n \<longleftrightarrow> bit (push_bit k (drop_bit k v)) n"
      using small [of n] not_usize_mask_bit [OF assms(1), of n]
      by (auto simp del: One_nat_def simp: bit_and_iff bit_push_bit_iff bit_drop_bit_eq)
  qed
  also have "\<dots> = v - v mod 2 ^ k"
    by (simp add: push_bit_eq_mult drop_bit_eq_div minus_mod_eq_div_mult)
  finally show ?thesis .
qed

lemma checked_add_Some [simp]:
  "checked_add a b = Some c \<longleftrightarrow> c = a + b \<and> a + b \<le> USIZE_MAX"
  by (auto simp: checked_add_def)

lemma checked_add_None [simp]: "checked_add a b = None \<longleftrightarrow> USIZE_MAX < a + b"
  by (auto simp: checked_add_def)

lemma checked_sub_Some [simp]: "checked_sub a b = Some c \<longleftrightarrow> b \<le> a \<and> c = a - b"
  by (auto simp: checked_sub_def)

lemma checked_sub_None [simp]: "checked_sub a b = None \<longleftrightarrow> a < b"
  by (auto simp: checked_sub_def)

lemma add_usize_Inr [simp]: "add_usize a b = Inr c \<longleftrightarrow> c = a + b \<and> a + b \<le> USIZE_MAX"
  by (auto simp: add_usize_def)

lemma sub_usize_Inr [simp]: "sub_usize a b = Inr c \<longleftrightarrow> b \<le> a \<and> c = a - b"
  by (auto simp: sub_usize_def)

lemma add_usize_ok [run_simps]: "a + b \<le> USIZE_MAX \<Longrightarrow> add_usize a b = Inr (a + b)"
  by (simp add: add_usize_def)

lemma sub_usize_ok [run_simps]: "b \<le> a \<Longrightarrow> sub_usize a b = Inr (a - b)"
  by (simp add: sub_usize_def)

lemma mul_usize_ok [run_simps]: "a * b \<le> USIZE_MAX \<Longrightarrow> mul_usize a b = Inr (a * b)"
  by (simp add: mul_usize_def)

section \<open>Slices with the bounds check of Rust\<close>

definition index :: "'a list \<Rightarrow> usize \<Rightarrow> 'a run" where
  "index xs i = (if i < length xs then Inr (xs ! i) else Inl OutOfBounds)"

definition index_upd :: "'a list \<Rightarrow> usize \<Rightarrow> ('a \<Rightarrow> 'a) \<Rightarrow> 'a list run" where
  "index_upd xs i f = (if i < length xs then Inr (xs[i := f (xs ! i)]) else Inl OutOfBounds)"

definition get :: "'a list \<Rightarrow> usize \<Rightarrow> 'a option" where
  "get xs i = (if i < length xs then Some (xs ! i) else None)"

lemma index_ok [run_simps]: "i < length xs \<Longrightarrow> index xs i = Inr (xs ! i)"
  by (simp add: index_def)

lemma index_Inr_iff [simp]: "index xs i = Inr x \<longleftrightarrow> i < length xs \<and> x = xs ! i"
  by (auto simp: index_def)

lemma index_upd_ok [run_simps]: "i < length xs \<Longrightarrow> index_upd xs i f = Inr (xs[i := f (xs ! i)])"
  by (simp add: index_upd_def)

lemma get_Some_iff [simp]: "get xs i = Some x \<longleftrightarrow> i < length xs \<and> x = xs ! i"
  by (auto simp: get_def)

lemma get_None_iff [simp]: "get xs i = None \<longleftrightarrow> length xs \<le> i"
  by (auto simp: get_def)

lemma find_SomeD: "find P xs = Some x \<Longrightarrow> x \<in> set xs \<and> P x"
  by (induction xs) (auto split: if_splits)

end
