(* ===== verification/Alloc_Layout.thy ===== *)
theory Alloc_Layout
  imports Prelude
begin

text \<open>
  src/src/alloc_layout.rs: where an allocation is placed inside a free block.  The geometry is the
  block header (24 bytes), its alignment and the back pointer in front of the user memory.
\<close>

unbundle bit_operations_syntax

section \<open>Layouts and geometry\<close>

text \<open>\<^verbatim>\<open>core::alloc::Layout\<close>: a size and an alignment.\<close>

record layout =
  lsize :: usize
  lalign :: usize

record allocation_geometry =
  header_size :: usize
  block_align :: usize
  back_ptr_size :: usize

record allocation_placement =
  user_ptr :: usize
  used_size :: usize

text \<open>\<^verbatim>\<open>Layout::from_size_align\<close>: the alignment is a power of two and the rounded size fits
  \<^verbatim>\<open>isize\<close>.\<close>

definition from_size_align :: "usize \<Rightarrow> usize \<Rightarrow> layout option" where
  "from_size_align sz align =
     (if is_power_of_two align \<and> sz \<le> ISIZE_MAX - (align - 1)
      then Some \<lparr>lsize = sz, lalign = align\<rparr> else None)"

definition normalize_layout :: "layout \<Rightarrow> usize \<Rightarrow> layout run" where
  "normalize_layout l min_align =
     (let sz = max (lsize l) 1; align = max (lalign l) min_align
      in case from_size_align sz align of
           None \<Rightarrow> Inl (Expect ''normalized layout must be valid'')
         | Some l' \<Rightarrow> Inr l')"

definition align_up :: "usize \<Rightarrow> usize \<Rightarrow> usize option run" where
  "align_up addr align =
     rbind (guard (is_power_of_two align) (Assertion ''align.is_power_of_two()'')) (\<lambda>_.
     obind (Inr (checked_sub align 1)) (\<lambda>mask.
     Inr (map_option (\<lambda>v. v AND not_usize mask) (checked_add addr mask))))"

definition user_ptr_for_block ::
  "usize \<Rightarrow> layout \<Rightarrow> allocation_geometry \<Rightarrow> usize option run" where
  "user_ptr_for_block block_start l g =
     obind (Inr (checked_add block_start (header_size g))) (\<lambda>after_header.
     obind (Inr (checked_add after_header (back_ptr_size g))) (\<lambda>after_back_ptr.
     align_up after_back_ptr (lalign l)))"

definition allocation_for_block ::
  "usize \<Rightarrow> usize \<Rightarrow> layout \<Rightarrow> allocation_geometry \<Rightarrow> allocation_placement option run" where
  "allocation_for_block block_start block_size l g =
     obind (user_ptr_for_block block_start l g) (\<lambda>uptr.
     obind (Inr (checked_add uptr (lsize l))) (\<lambda>allocation_end.
     obind (align_up allocation_end (block_align g)) (\<lambda>used_end.
     obind (Inr (checked_sub used_end block_start)) (\<lambda>used.
     Inr (if used \<le> block_size then Some \<lparr>user_ptr = uptr, used_size = used\<rparr> else None)))))"

definition required_block_size ::
  "usize \<Rightarrow> layout \<Rightarrow> allocation_geometry \<Rightarrow> usize option run" where
  "required_block_size block_start l g =
     obind (user_ptr_for_block block_start l g) (\<lambda>uptr.
     obind (Inr (checked_add uptr (lsize l))) (\<lambda>allocation_end.
     obind (align_up allocation_end (block_align g)) (\<lambda>used_end.
     Inr (checked_sub used_end block_start))))"

section \<open>Rounding\<close>

text \<open>The mathematical rounding that \<open>align_up\<close> computes with masks.\<close>

definition round_up :: "nat \<Rightarrow> nat \<Rightarrow> nat" where
  "round_up x a = (x + (a - 1)) - (x + (a - 1)) mod a"

lemma round_up_ge: "0 < a \<Longrightarrow> x \<le> round_up x a"
proof -
  assume "0 < a"
  then have "(x + (a - 1)) mod a \<le> a - 1"
    by (metis Suc_pred' less_Suc_eq_le mod_less_divisor)
  then show ?thesis by (simp add: round_up_def)
qed

lemma round_up_less: "0 < a \<Longrightarrow> round_up x a < x + a"
  by (simp add: round_up_def)

lemma round_up_dvd: "a dvd round_up x a"
  by (simp add: round_up_def)

lemma round_up_least: "0 < a \<Longrightarrow> a dvd y \<Longrightarrow> x \<le> y \<Longrightarrow> round_up x a \<le> y"
proof -
  assume a: "0 < a" "a dvd y" "x \<le> y"
  obtain k where k: "y = a * k" using a(2) ..
  obtain j where j: "round_up x a = a * j" using round_up_dvd [of a x] ..
  have "a * j < a * (k + 1)"
    using round_up_less [OF a(1), of x] a(3) j k by simp
  then have "j < k + 1" using a(1) by (simp only: nat_mult_less_cancel1)
  then show ?thesis using j k by simp
qed

lemma round_up_mono: "0 < a \<Longrightarrow> x \<le> y \<Longrightarrow> round_up x a \<le> round_up y a"
  by (meson order_trans round_up_dvd round_up_ge round_up_least)

lemma round_up_add: "0 < a \<Longrightarrow> a dvd b \<Longrightarrow> round_up (b + x) a = b + round_up x a"
proof -
  assume a: "0 < a" "a dvd b"
  have "(b + x + (a - 1)) mod a = (x + (a - 1)) mod a"
    using a(2) by (metis ab_semigroup_add_class.add_ac(1) dvd_imp_mod_0 mod_add_left_eq add_0)
  moreover have "(x + (a - 1)) mod a \<le> x + (a - 1)" by simp
  ultimately show ?thesis
    unfolding round_up_def by (metis add.assoc Nat.add_diff_assoc)
qed

lemma round_up_id: "0 < a \<Longrightarrow> a dvd x \<Longrightarrow> round_up x a = x"
  by (simp add: order_antisym round_up_ge round_up_least)

lemma is_power_of_two_pos: "is_power_of_two a \<Longrightarrow> 0 < a"
  by (auto simp: is_power_of_two_iff)

lemma align_up_eq:
  assumes "is_power_of_two a"
  shows "align_up x a =
    Inr (if x + (a - 1) \<le> USIZE_MAX then Some (round_up x a) else None)"
proof -
  obtain k where k: "k < 64" "a = 2 ^ k"
    using assms by (auto simp: is_power_of_two_iff)
  have "1 \<le> a"
    using is_power_of_two_pos [OF assms] by simp
  moreover have "(x + (a - 1)) AND not_usize (a - 1) = round_up x a"
    if "x + (a - 1) \<le> USIZE_MAX"
    unfolding round_up_def k(2) using that k by (intro and_not_mask) simp_all
  ultimately show ?thesis
    using assms by (simp add: align_up_def checked_add_def checked_sub_def del: One_nat_def)
qed

section \<open>Well-formed layouts\<close>

text \<open>What \<^verbatim>\<open>Layout\<close> guarantees of every value, and the geometry the heap passes.\<close>

definition layout_ok :: "layout \<Rightarrow> bool" where
  "layout_ok l \<longleftrightarrow> is_power_of_two (lalign l) \<and> lsize l \<le> ISIZE_MAX - (lalign l - 1)"

definition geometry_ok :: "allocation_geometry \<Rightarrow> bool" where
  "geometry_ok g \<longleftrightarrow> is_power_of_two (block_align g)"

text \<open>The end of the used part of a block, as pure arithmetic.\<close>

definition place_ptr :: "usize \<Rightarrow> layout \<Rightarrow> allocation_geometry \<Rightarrow> nat" where
  "place_ptr b l g = round_up (b + header_size g + back_ptr_size g) (lalign l)"

definition place_end :: "usize \<Rightarrow> layout \<Rightarrow> allocation_geometry \<Rightarrow> nat" where
  "place_end b l g = round_up (place_ptr b l g + lsize l) (block_align g)"

definition place_fits :: "usize \<Rightarrow> layout \<Rightarrow> allocation_geometry \<Rightarrow> bool" where
  "place_fits b l g \<longleftrightarrow>
     b + header_size g + back_ptr_size g + (lalign l - 1) \<le> USIZE_MAX \<and>
     place_ptr b l g + lsize l + (block_align g - 1) \<le> USIZE_MAX"

lemma place_ptr_ge:
  "layout_ok l \<Longrightarrow> b + header_size g + back_ptr_size g \<le> place_ptr b l g"
  by (simp add: place_ptr_def layout_ok_def is_power_of_two_pos round_up_ge)

lemma place_end_ge:
  "geometry_ok g \<Longrightarrow> place_ptr b l g + lsize l \<le> place_end b l g"
  by (simp add: place_end_def geometry_ok_def is_power_of_two_pos round_up_ge)

lemma user_ptr_for_block_eq:
  assumes "layout_ok l"
  shows "user_ptr_for_block b l g =
    Inr (if b + header_size g + back_ptr_size g + (lalign l - 1) \<le> USIZE_MAX
         then Some (place_ptr b l g) else None)"
  using assms
  by (auto simp: user_ptr_for_block_def layout_ok_def checked_add_def align_up_eq place_ptr_def)

lemma required_block_size_eq:
  assumes "layout_ok l" and "geometry_ok g"
  shows "required_block_size b l g =
    Inr (if place_fits b l g then Some (place_end b l g - b) else None)"
proof -
  have "b \<le> place_end b l g"
    using place_ptr_ge [OF assms(1), of b g] place_end_ge [OF assms(2), of b l] by linarith
  then show ?thesis
    using assms
    by (auto simp: required_block_size_def user_ptr_for_block_eq checked_add_def checked_sub_def
        align_up_eq geometry_ok_def place_fits_def place_end_def)
qed

lemma allocation_for_block_required:
  "allocation_for_block b s l g =
     obind (user_ptr_for_block b l g) (\<lambda>uptr.
     obind (required_block_size b l g) (\<lambda>r.
     Inr (if r \<le> s then Some \<lparr>user_ptr = uptr, used_size = r\<rparr> else None)))"
  by (cases "user_ptr_for_block b l g")
    (auto simp: allocation_for_block_def required_block_size_def obind_def rbind_def
      split: sum.splits option.splits)

lemma allocation_for_block_eq:
  assumes "layout_ok l" and "geometry_ok g"
  shows "allocation_for_block b s l g =
    Inr (if place_fits b l g \<and> place_end b l g - b \<le> s
         then Some \<lparr>user_ptr = place_ptr b l g, used_size = place_end b l g - b\<rparr> else None)"
  using assms
  by (auto simp: allocation_for_block_required required_block_size_eq user_ptr_for_block_eq
      place_fits_def)

section \<open>Properties\<close>

text \<open>C39: a placement chosen by \<open>allocation_for_block\<close> is sound.  For a valid layout the function
  never panics, and when it answers, the user pointer has the requested alignment, leaves room for
  the header and the back pointer in front of it, the user bytes end inside the used part, the used
  part fits the block, and its end keeps the block alignment.\<close>

theorem allocation_for_block_sound:
  assumes "layout_ok l" and "geometry_ok g"
  shows "\<exists>r. allocation_for_block b s l g = Inr r \<and>
    (\<forall>p. r = Some p \<longrightarrow>
       lalign l dvd user_ptr p \<and>
       b + header_size g + back_ptr_size g \<le> user_ptr p \<and>
       user_ptr p + lsize l \<le> b + used_size p \<and>
       used_size p \<le> s \<and>
       block_align g dvd b + used_size p \<and>
       b + used_size p \<le> USIZE_MAX)"
proof -
  have ge: "b \<le> place_ptr b l g" "place_ptr b l g + lsize l \<le> place_end b l g"
    using place_ptr_ge [OF assms(1), of b g] place_end_ge [OF assms(2), of b l] by linarith+
  have "lalign l dvd place_ptr b l g" and "block_align g dvd place_end b l g"
    by (simp_all add: place_ptr_def place_end_def round_up_dvd)
  moreover have "place_end b l g \<le> USIZE_MAX" if "place_fits b l g"
    using that assms(2) round_up_less [of "block_align g" "place_ptr b l g + lsize l"]
      is_power_of_two_pos [of "block_align g"]
    by (auto simp: place_fits_def place_end_def geometry_ok_def)
  ultimately show ?thesis
    using ge place_ptr_ge [OF assms(1), of b g]
    by (auto simp: allocation_for_block_eq [OF assms])
qed

theorem allocation_for_block_sound_witness:
  "\<exists>r. allocation_for_block 4099 512 \<lparr>lsize = 13, lalign = 64\<rparr>
        \<lparr>header_size = 24, block_align = 8, back_ptr_size = 8\<rparr> = Inr r \<and>
    (\<forall>p. r = Some p \<longrightarrow> 64 dvd user_ptr p \<and> 4099 + 32 \<le> user_ptr p
       \<and> user_ptr p + 13 \<le> 4099 + used_size p \<and> used_size p \<le> 512)"
proof -
  have l: "layout_ok \<lparr>lsize = 13, lalign = 64\<rparr>"
    by (simp add: layout_ok_def is_power_of_two_def ISIZE_MAX_def upt_rec)
  have g: "geometry_ok \<lparr>header_size = 24, block_align = 8, back_ptr_size = 8\<rparr>"
    by (simp add: geometry_ok_def is_power_of_two_def upt_rec)
  show ?thesis
    using allocation_for_block_sound [OF l g, of 4099 512] by auto
qed

text \<open>C40: \<open>allocation_for_block\<close> accepts a block exactly when \<open>required_block_size\<close> is at most
  the block's size, and then uses exactly that many bytes: the test the allocator makes before it
  grows the heap agrees with the placement it makes afterwards.\<close>

theorem allocation_for_block_iff_required:
  assumes "layout_ok l" and "geometry_ok g"
  shows "(\<exists>p. allocation_for_block b s l g = Inr (Some p) \<and> used_size p = n) \<longleftrightarrow>
    required_block_size b l g = Inr (Some n) \<and> n \<le> s"
  by (auto simp: allocation_for_block_eq [OF assms] required_block_size_eq [OF assms])

theorem allocation_for_block_iff_required_witness:
  "(\<exists>p. allocation_for_block 4096 128 \<lparr>lsize = 1, lalign = 8\<rparr>
        \<lparr>header_size = 24, block_align = 8, back_ptr_size = 8\<rparr> = Inr (Some p)
      \<and> used_size p = 40)"
proof -
  have l: "layout_ok \<lparr>lsize = 1, lalign = 8\<rparr>"
    by (simp add: layout_ok_def is_power_of_two_def ISIZE_MAX_def upt_rec)
  have g: "geometry_ok \<lparr>header_size = 24, block_align = 8, back_ptr_size = 8\<rparr>"
    by (simp add: geometry_ok_def is_power_of_two_def upt_rec)
  have "required_block_size 4096 \<lparr>lsize = 1, lalign = 8\<rparr>
      \<lparr>header_size = 24, block_align = 8, back_ptr_size = 8\<rparr> = Inr (Some 40)"
    unfolding required_block_size_eq [OF l g]
    by (simp add: place_fits_def place_end_def place_ptr_def
        round_up_def USIZE_MAX_def)
  then show ?thesis
    using allocation_for_block_iff_required [OF l g, of 4096 128 40] by simp
qed

end
