(* ===== verification/Buddy.thy ===== *)
theory Buddy
  imports Prelude
begin

text \<open>
  src/src/mem/page/pagealloc.rs: the buddy allocator of physical page frames.

  The metadata array holds one packed \<^verbatim>\<open>PageInfo\<close> per frame (order, two flag bits, and the two
  links of the free list, each a frame number plus one in 32 bits).  \<open>buddy\<close> is
  \<^verbatim>\<open>BuddyAllocator\<close>; every access to the metadata or to the heads is a checked slice access.
  This theory holds the definitions only; the free lists and the invariant are in
  \<open>Buddy_Lists\<close>, \<open>Buddy_Inv\<close> and \<open>Buddy_Correct\<close>.
\<close>

unbundle bit_operations_syntax

abbreviation PAGE_SIZE :: usize where "PAGE_SIZE \<equiv> 4096"
abbreviation PAGE_SHIFT :: usize where "PAGE_SHIFT \<equiv> 12"
abbreviation MAX_ORDER :: usize where "MAX_ORDER \<equiv> 11"

section \<open>Page metadata\<close>

record page_info =
  pg_order :: u8
  pg_flags :: u8
  pg_next :: u32
  pg_prev :: u32

definition page_next :: "page_info \<Rightarrow> usize option" where
  "page_next p = (if pg_next p = 0 then None else Some (unat (pg_next p - 1)))"

definition set_next :: "usize option \<Rightarrow> page_info \<Rightarrow> page_info" where
  "set_next v p = p\<lparr>pg_next := (case v of None \<Rightarrow> 0 | Some x \<Rightarrow> of_nat (x + 1))\<rparr>"

definition page_prev :: "page_info \<Rightarrow> usize option" where
  "page_prev p = (if pg_prev p = 0 then None else Some (unat (pg_prev p - 1)))"

definition set_prev :: "usize option \<Rightarrow> page_info \<Rightarrow> page_info" where
  "set_prev v p = p\<lparr>pg_prev := (case v of None \<Rightarrow> 0 | Some x \<Rightarrow> of_nat (x + 1))\<rparr>"

definition is_head :: "page_info \<Rightarrow> bool" where
  "is_head p \<longleftrightarrow> pg_flags p AND 1 \<noteq> 0"

definition set_head :: "bool \<Rightarrow> page_info \<Rightarrow> page_info" where
  "set_head v p = p\<lparr>pg_flags := if v then pg_flags p OR 1 else pg_flags p AND NOT 1\<rparr>"

definition is_free :: "page_info \<Rightarrow> bool" where
  "is_free p \<longleftrightarrow> pg_flags p AND 2 \<noteq> 0"

definition set_free :: "bool \<Rightarrow> page_info \<Rightarrow> page_info" where
  "set_free v p = p\<lparr>pg_flags := if v then pg_flags p OR 2 else pg_flags p AND NOT 2\<rparr>"

definition set_order :: "nat \<Rightarrow> page_info \<Rightarrow> page_info" where
  "set_order n p = p\<lparr>pg_order := of_nat n\<rparr>"

definition default_page :: page_info where
  "default_page = \<lparr>pg_order = 255, pg_flags = 0, pg_next = 0, pg_prev = 0\<rparr>"

section \<open>The allocator\<close>

text \<open>Order of the chunks the kernel heap takes (src/src/mem/alloc.rs).\<close>

abbreviation CHUNK_ORDER :: usize where "CHUNK_ORDER \<equiv> 10"

record buddy =
  metadata :: "page_info list"
  free_heads :: "usize option list"
  total_pages :: usize

text \<open>\<^verbatim>\<open>self.metadata[i].f()\<close> and \<^verbatim>\<open>self.free_heads[o] = v\<close>.\<close>

definition upd_page :: "usize \<Rightarrow> (page_info \<Rightarrow> page_info) \<Rightarrow> buddy \<Rightarrow> buddy run" where
  "upd_page i f b = rbind (index_upd (metadata b) i f) (\<lambda>md. Inr (b\<lparr>metadata := md\<rparr>))"

definition set_free_head :: "usize \<Rightarrow> usize option \<Rightarrow> buddy \<Rightarrow> buddy run" where
  "set_free_head ord v b =
     rbind (index_upd (free_heads b) ord (\<lambda>_. v)) (\<lambda>hs. Inr (b\<lparr>free_heads := hs\<rparr>))"

text \<open>\<^verbatim>\<open>for i in is { f(i, &mut self.metadata[pfn + i]) }\<close>\<close>

fun for_pages :: "(nat \<Rightarrow> page_info \<Rightarrow> page_info) \<Rightarrow> usize \<Rightarrow> nat list \<Rightarrow> buddy \<Rightarrow> buddy run" where
  "for_pages f pfn [] b = Inr b"
| "for_pages f pfn (i # is) b = rbind (upd_page (pfn + i) (f i) b) (for_pages f pfn is)"

definition push_free :: "usize \<Rightarrow> usize \<Rightarrow> buddy \<Rightarrow> buddy run" where
  "push_free pfn ord b =
     rbind (index (free_heads b) ord) (\<lambda>head.
     rbind (upd_page pfn (\<lambda>p. set_prev None (set_next head (set_free True p))) b) (\<lambda>b.
     rbind (case head of None \<Rightarrow> Inr b | Some old \<Rightarrow> upd_page old (set_prev (Some pfn)) b) (\<lambda>b.
     set_free_head ord (Some pfn) b)))"

definition remove_from_free :: "usize \<Rightarrow> usize \<Rightarrow> buddy \<Rightarrow> buddy run" where
  "remove_from_free pfn ord b =
     rbind (index (metadata b) pfn) (\<lambda>node.
     let prev = page_prev node; nxt = page_next node in
     rbind (case prev of Some p \<Rightarrow> upd_page p (set_next nxt) b
                       | None \<Rightarrow> set_free_head ord nxt b) (\<lambda>b.
     case nxt of Some n \<Rightarrow> upd_page n (set_prev prev) b | None \<Rightarrow> Inr b))"

text \<open>The list walk of \<^verbatim>\<open>find_free\<close>; the fuel bounds the \<^verbatim>\<open>while let\<close> loop.\<close>

fun find_free_loop ::
  "nat \<Rightarrow> page_info list \<Rightarrow> (usize \<Rightarrow> bool) \<Rightarrow> usize option \<Rightarrow> usize option run" where
  "find_free_loop 0 md pred current = Inl Diverge"
| "find_free_loop (Suc fuel) md pred current =
     (case current of None \<Rightarrow> Inr None
      | Some pfn \<Rightarrow> if pred pfn then Inr (Some pfn)
          else rbind (index md pfn) (\<lambda>p. find_free_loop fuel md pred (page_next p)))"

definition find_free :: "usize \<Rightarrow> (usize \<Rightarrow> bool) \<Rightarrow> buddy \<Rightarrow> usize option run" where
  "find_free ord pred b =
     rbind (index (free_heads b) ord)
       (find_free_loop (Suc (length (metadata b))) (metadata b) pred)"

definition pop_free :: "usize \<Rightarrow> buddy \<Rightarrow> (usize option \<times> buddy) run" where
  "pop_free ord b =
     rbind (index (free_heads b) ord) (\<lambda>h. case h of None \<Rightarrow> Inr (None, b) | Some pfn \<Rightarrow>
     rbind (index (metadata b) pfn) (\<lambda>p. let nxt = page_next p in
     rbind (set_free_head ord nxt b) (\<lambda>b.
     rbind (case nxt of None \<Rightarrow> Inr b | Some n \<Rightarrow> upd_page n (set_prev None) b) (\<lambda>b.
     rbind (upd_page pfn (\<lambda>p. set_prev None (set_next None (set_free False p))) b) (\<lambda>b.
     Inr (Some pfn, b))))))"

text \<open>The splitting loop: the upper half of the block goes back to the free list of its order,
  until the requested order is reached.\<close>

fun split_block :: "usize \<Rightarrow> usize \<Rightarrow> nat \<Rightarrow> buddy \<Rightarrow> buddy run" where
  "split_block pfn ord 0 b = Inr b"
| "split_block pfn ord (Suc split) b =
     (if ord < Suc split then
        let buddy_pfn = pfn XOR 2 ^ split in
        rbind (for_pages (\<lambda>i p. set_free True (set_head (i = 0) (set_order split p)))
                 buddy_pfn [0..<2 ^ split] b) (\<lambda>b.
        rbind (push_free buddy_pfn split b) (\<lambda>b.
        split_block pfn ord split b))
      else Inr b)"

text \<open>The body of the \<^verbatim>\<open>for\<close> loop once a free block \<open>pfn\<close> of order \<open>found\<close> is known.\<close>

definition take_block :: "usize \<Rightarrow> usize \<Rightarrow> usize \<Rightarrow> buddy \<Rightarrow> (usize option \<times> buddy) run" where
  "take_block pfn found ord b =
     rbind (remove_from_free pfn found b) (\<lambda>b.
     rbind (upd_page pfn (set_free False) b) (\<lambda>b.
     rbind (upd_page pfn (set_next None) b) (\<lambda>b.
     rbind (upd_page pfn (set_prev None) b) (\<lambda>b.
     rbind (split_block pfn ord found b) (\<lambda>b.
     rbind (for_pages (\<lambda>i p. set_head (i = 0) (set_free False (set_order ord p)))
              pfn [0..<2 ^ ord] b) (\<lambda>b.
     rbind (mul_usize pfn PAGE_SIZE) (\<lambda>addr.
     Inr (Some addr, b))))))))"

fun allocate_scan ::
  "(usize \<Rightarrow> bool) \<Rightarrow> usize \<Rightarrow> nat list \<Rightarrow> buddy \<Rightarrow> (usize option \<times> buddy) run" where
  "allocate_scan pred ord [] b = Inr (None, b)"
| "allocate_scan pred ord (q # qs) b =
     rbind (find_free q pred b) (\<lambda>r. case r of
         Some pfn \<Rightarrow> take_block pfn q ord b
       | None \<Rightarrow> allocate_scan pred ord qs b)"

definition allocate_where ::
  "usize \<Rightarrow> (usize \<Rightarrow> bool) \<Rightarrow> buddy \<Rightarrow> (usize option \<times> buddy) run" where
  "allocate_where ord pred b =
     (if MAX_ORDER \<le> ord then Inr (None, b)
      else allocate_scan pred ord [ord..<MAX_ORDER] b)"

definition allocate :: "usize \<Rightarrow> buddy \<Rightarrow> (usize option \<times> buddy) run" where
  "allocate ord b = allocate_where ord (\<lambda>_. True) b"

definition block_below :: "usize \<Rightarrow> usize \<Rightarrow> usize \<Rightarrow> bool" where
  "block_below ord limit pfn =
     (case checked_add (pfn * PAGE_SIZE) (2 ^ ord * PAGE_SIZE) of
        None \<Rightarrow> False | Some e \<Rightarrow> e \<le> limit)"

definition allocate_below :: "usize \<Rightarrow> usize \<Rightarrow> buddy \<Rightarrow> (usize option \<times> buddy) run" where
  "allocate_below ord limit b = allocate_where ord (block_below ord limit) b"

text \<open>The merging loop of \<^verbatim>\<open>deallocate\<close>: while the buddy is a free head of the same order, it
  is unlinked and the block doubles.\<close>

function merge_up :: "usize \<Rightarrow> usize \<Rightarrow> buddy \<Rightarrow> (usize \<times> usize \<times> buddy) run" where
  "merge_up ord current b =
     (if MAX_ORDER \<le> ord + 1 then Inr (ord, current, b)
      else let buddy_pfn = current XOR 2 ^ ord in
        if total_pages b \<le> buddy_pfn then Inr (ord, current, b)
        else rbind (index (metadata b) buddy_pfn) (\<lambda>p.
          if \<not> is_free p \<or> unat (pg_order p) \<noteq> ord \<or> \<not> is_head p then Inr (ord, current, b)
          else rbind (remove_from_free buddy_pfn ord b) (\<lambda>b'.
            merge_up (ord + 1) (min current buddy_pfn) b')))"
  by pat_completeness auto
termination
  by (relation "measure (\<lambda>(ord, _, _). MAX_ORDER - ord)") auto

declare merge_up.simps [simp del]

definition deallocate :: "usize \<Rightarrow> buddy \<Rightarrow> buddy run" where
  "deallocate addr b =
     (let pfn = addr div PAGE_SIZE in
      rbind (index (metadata b) pfn) (\<lambda>p.
      rbind (guard (is_head p) (Assertion ''must free block head'')) (\<lambda>_.
      rbind (guard (\<not> is_free p) (Assertion ''double free'')) (\<lambda>_.
      rbind (merge_up (unat (pg_order p)) pfn b) (\<lambda>(ord, current, b).
      rbind (for_pages (\<lambda>i p. set_head (i = 0) (set_free True (set_order ord p)))
               current [0..<2 ^ ord] b) (\<lambda>b.
      push_free current ord b))))))"

section \<open>Construction from the memory map\<close>

definition page_align_up :: "usize \<Rightarrow> usize \<Rightarrow> usize run" where
  "page_align_up addr align =
     rbind (add_usize addr align) (\<lambda>x.
     rbind (sub_usize x 1) (\<lambda>y.
     rbind (sub_usize align 1) (\<lambda>m. Inr (y AND not_usize m))))"

definition page_align_down :: "usize \<Rightarrow> usize \<Rightarrow> usize" where
  "page_align_down addr align = addr AND not_usize (align - 1)"

definition in_region :: "usize \<Rightarrow> usize \<times> usize \<Rightarrow> bool" where
  "in_region a r \<longleftrightarrow> fst r \<le> a \<and> a < snd r"

definition next_boundary :: "(usize \<times> usize) list \<Rightarrow> usize \<Rightarrow> usize \<Rightarrow> usize" where
  "next_boundary reserved start fin =
     (let bs = map fst (filter (\<lambda>r. start < fst r) reserved)
      in min (if bs = [] then fin else min_list bs) fin)"

definition region_order :: "usize \<Rightarrow> nat \<Rightarrow> nat" where
  "region_order start pages =
     (let order_by_align = trailing_zeros start - PAGE_SHIFT;
          order_by_size = min (64 - 1 - leading_zeros pages) (MAX_ORDER - 1)
      in min (min order_by_align order_by_size) (MAX_ORDER - 1))"

text \<open>The loop of \<^verbatim>\<open>add_region\<close>.  Every turn moves \<open>start\<close> up, so the distance to the end
  is enough fuel (\<open>add_region_loop_total\<close> in \<open>Buddy_Init\<close>).\<close>

fun add_region_loop ::
  "nat \<Rightarrow> usize \<Rightarrow> usize \<Rightarrow> (usize \<times> usize) list \<Rightarrow> buddy \<Rightarrow> buddy run" where
  "add_region_loop 0 start fin reserved b = Inl Diverge"
| "add_region_loop (Suc fuel) start fin reserved b =
     (if \<not> start < fin then Inr b
      else case find (in_region start) reserved of
        Some r \<Rightarrow> rbind (page_align_up (snd r) PAGE_SIZE)
                   (\<lambda>start'. add_region_loop fuel start' fin reserved b)
      | None \<Rightarrow>
          let pages = drop_bit PAGE_SHIFT (next_boundary reserved start fin - start) in
          if pages = 0
          then add_region_loop fuel (saturating_add start PAGE_SIZE) fin reserved b
          else let ord = region_order start pages; block_pages = 2 ^ ord;
                   pfn = drop_bit PAGE_SHIFT start in
            if total_pages b < pfn + block_pages then Inr b
            else rbind (for_pages (\<lambda>i p. set_prev None (set_next None
                          (set_free True (set_head (i = 0) (set_order ord p)))))
                          pfn [0..<block_pages] b) (\<lambda>b.
                 rbind (push_free pfn ord b) (\<lambda>b.
                 rbind (add_usize start (block_pages * PAGE_SIZE)) (\<lambda>start'.
                 add_region_loop fuel start' fin reserved b))))"

definition add_region ::
  "usize \<Rightarrow> usize \<Rightarrow> (usize \<times> usize) list \<Rightarrow> buddy \<Rightarrow> buddy run" where
  "add_region start fin reserved b =
     rbind (page_align_up start PAGE_SIZE) (\<lambda>start.
     let fin = page_align_down fin PAGE_SIZE in
     add_region_loop (Suc (fin - start)) start fin reserved b)"

text \<open>A memory area of the Multiboot2 map: type id, start and end address.  Type 1 is available
  memory.\<close>

type_synonym memory_area = "nat \<times> usize \<times> usize"

fun add_areas :: "memory_area list \<Rightarrow> (usize \<times> usize) list \<Rightarrow> buddy \<Rightarrow> buddy run" where
  "add_areas [] reserved b = Inr b"
| "add_areas ((typ, start, fin) # areas) reserved b =
     rbind (if typ = 1 then add_region start fin reserved b else Inr b)
       (add_areas areas reserved)"

definition buddy_new :: "nat \<Rightarrow> memory_area list \<Rightarrow> (usize \<times> usize) list \<Rightarrow> buddy run" where
  "buddy_new n areas reserved =
     add_areas areas reserved
       \<lparr>metadata = replicate n default_page,
        free_heads = replicate MAX_ORDER None,
        total_pages = n\<rparr>"

end
