(* ===== verification/Buddy_Lists.thy ===== *)
theory Buddy_Lists
  imports Buddy
begin

text \<open>
  The free lists of the buddy allocator: the accessors of \<^verbatim>\<open>PageInfo\<close>, the doubly linked list
  threaded through the metadata (\<open>chain\<close>), and what unlinking and pushing do to it.
\<close>

unbundle bit_operations_syntax

named_theorems page_simps \<open>reading a page field after a setter\<close>

section \<open>Accessors and setters of page metadata\<close>

lemma flag_nonzero_iff:
  "(x :: u8) AND 1 \<noteq> 0 \<longleftrightarrow> bit x 0"
  "(x :: u8) AND 2 \<noteq> 0 \<longleftrightarrow> bit x 1"
  using and_exp_eq_0_iff_not_bit [of x 0] and_exp_eq_0_iff_not_bit [of x 1] by simp_all

lemma is_head_bit: "is_head p \<longleftrightarrow> bit (pg_flags p) 0"
  unfolding is_head_def by (rule flag_nonzero_iff(1))

lemma is_free_bit: "is_free p \<longleftrightarrow> bit (pg_flags p) 1"
  unfolding is_free_def by (rule flag_nonzero_iff(2))

lemma flag_bits:
  fixes x :: u8
  shows "bit (x OR 1) 0" "bit (x OR 1) 1 = bit x 1"
    "\<not> bit (x AND NOT 1) 0" "bit (x AND NOT 1) 1 = bit x 1"
    "bit (x OR 2) 1" "bit (x OR 2) 0 = bit x 0"
    "\<not> bit (x AND NOT 2) 1" "bit (x AND NOT 2) 0 = bit x 0"
proof -
  have c: "bit (1::u8) 0" "\<not> bit (1::u8) 1" "bit (2::u8) 1" "\<not> bit (2::u8) 0"
    by (simp_all add: bit_simps)
  have n: "bit (NOT y) k \<longleftrightarrow> \<not> bit y k" if "k < 8" for y :: u8 and k
    using that by (simp add: bit_simps)
  have n01: "bit (NOT y) 0 \<longleftrightarrow> \<not> bit y 0" "bit (NOT y) 1 \<longleftrightarrow> \<not> bit y 1" for y :: u8
    by (rule n, simp)+
  show "bit (x OR 1) 0" "bit (x OR 1) 1 = bit x 1"
    "\<not> bit (x AND NOT 1) 0" "bit (x AND NOT 1) 1 = bit x 1"
    "bit (x OR 2) 1" "bit (x OR 2) 0 = bit x 0"
    "\<not> bit (x AND NOT 2) 1" "bit (x AND NOT 2) 0 = bit x 0"
    by (simp_all only: bit_or_iff bit_and_iff n01 c simp_thms)
qed

lemma pg_flags_set_head:
  "pg_flags (set_head v p) = (if v then pg_flags p OR 1 else pg_flags p AND NOT 1)"
  by (simp add: set_head_def)

lemma set_head_fields [simp, page_simps]:
  "is_head (set_head v p) = v" "is_free (set_head v p) = is_free p"
  "page_next (set_head v p) = page_next p" "page_prev (set_head v p) = page_prev p"
  "pg_order (set_head v p) = pg_order p"
  unfolding is_head_bit is_free_bit pg_flags_set_head
  by (simp_all only: flag_bits simp_thms split: if_split)
    (simp_all add: set_head_def page_next_def page_prev_def)

lemma pg_flags_set_free:
  "pg_flags (set_free v p) = (if v then pg_flags p OR 2 else pg_flags p AND NOT 2)"
  by (simp add: set_free_def)

lemma set_free_fields [simp, page_simps]:
  "is_free (set_free v p) = v" "is_head (set_free v p) = is_head p"
  "page_next (set_free v p) = page_next p" "page_prev (set_free v p) = page_prev p"
  "pg_order (set_free v p) = pg_order p"
  unfolding is_head_bit is_free_bit pg_flags_set_free
  by (simp_all only: flag_bits simp_thms split: if_split)
    (simp_all add: set_free_def page_next_def page_prev_def)

lemma set_order_fields [simp, page_simps]:
  "is_free (set_order n p) = is_free p" "is_head (set_order n p) = is_head p"
  "page_next (set_order n p) = page_next p" "page_prev (set_order n p) = page_prev p"
  "pg_order (set_order n p) = of_nat n"
  by (simp_all add: is_head_def is_free_def set_order_def page_next_def page_prev_def)

lemma set_links_fields [simp, page_simps]:
  "is_free (set_next v p) = is_free p" "is_head (set_next v p) = is_head p"
  "page_prev (set_next v p) = page_prev p" "pg_order (set_next v p) = pg_order p"
  "is_free (set_prev v p) = is_free p" "is_head (set_prev v p) = is_head p"
  "page_next (set_prev v p) = page_next p" "pg_order (set_prev v p) = pg_order p"
  by (simp_all add: is_head_def is_free_def set_next_def set_prev_def page_next_def page_prev_def)

text \<open>A link survives the packing into 32 bits: frame number plus one, zero for none.\<close>

lemma link_pack:
  assumes "x < 2 ^ 32 - 1"
  shows "(of_nat (x + 1) :: u32) \<noteq> 0" and "unat ((of_nat (x + 1) :: u32) - 1) = x"
proof -
  have "unat (of_nat (x + 1) :: u32) = x + 1"
    unfolding unat_of_nat using assms by simp
  then show "(of_nat (x + 1) :: u32) \<noteq> 0"
    by (metis add_is_0 one_neq_zero unat_eq_zero)
  have "(of_nat (x + 1) :: u32) - 1 = of_nat x" by simp
  then show "unat ((of_nat (x + 1) :: u32) - 1) = x"
    using assms by (simp add: unat_of_nat)
qed

definition link_fits :: "usize option \<Rightarrow> bool" where
  "link_fits v \<longleftrightarrow> (\<forall>x. v = Some x \<longrightarrow> x < 2 ^ 32 - 1)"

lemma link_fits_simps [simp]: "link_fits None" "link_fits (Some x) \<longleftrightarrow> x < 2 ^ 32 - 1"
  by (simp_all add: link_fits_def)

lemma page_next_set_next [page_simps]: "link_fits v \<Longrightarrow> page_next (set_next v p) = v"
  by (cases v; cases p) (simp_all only: page_next_def set_next_def page_info.select_convs
      page_info.update_convs option.case link_pack link_fits_simps if_True if_False simp_thms)

lemma page_prev_set_prev [page_simps]: "link_fits v \<Longrightarrow> page_prev (set_prev v p) = v"
  by (cases v; cases p) (simp_all only: page_prev_def set_prev_def page_info.select_convs
      page_info.update_convs option.case link_pack link_fits_simps if_True if_False simp_thms)

section \<open>The linked list through the metadata\<close>

definition first_of :: "'a list \<Rightarrow> 'a option" where
  "first_of xs = (case xs of [] \<Rightarrow> None | x # _ \<Rightarrow> Some x)"

lemma first_of_simps [simp]: "first_of [] = None" "first_of (x # xs) = Some x"
  by (simp_all add: first_of_def)

fun chain :: "page_info list \<Rightarrow> usize option \<Rightarrow> usize option \<Rightarrow> usize list \<Rightarrow> bool" where
  "chain md prev cur [] \<longleftrightarrow> cur = None"
| "chain md prev cur (x # xs) \<longleftrightarrow>
     cur = Some x \<and> x < length md \<and> page_prev (md ! x) = prev \<and>
     chain md (Some x) (page_next (md ! x)) xs"

lemma chain_first: "chain md prev cur xs \<Longrightarrow> cur = first_of xs"
  by (cases xs) auto

lemma chain_bound: "chain md prev cur xs \<Longrightarrow> set xs \<subseteq> {..<length md}"
  by (induction xs arbitrary: prev cur) auto

lemma chain_cong:
  assumes "length md' = length md"
    and "\<And>x. x \<in> set xs \<Longrightarrow>
      page_next (md' ! x) = page_next (md ! x) \<and> page_prev (md' ! x) = page_prev (md ! x)"
  shows "chain md' prev cur xs = chain md prev cur xs"
  using assms(2) by (induction xs arbitrary: prev cur) (auto simp: assms(1))

lemma chain_append:
  "chain md prev cur (ys @ zs) \<Longrightarrow>
     chain md (if ys = [] then prev else Some (last ys))
       (if ys = [] then cur else page_next (md ! last ys)) zs"
  by (induction ys arbitrary: prev cur) (auto split: if_splits)

lemma chain_mid:
  assumes "chain md prev cur (ys @ p # zs)"
  shows "p < length md" and "page_next (md ! p) = first_of zs"
    and "page_prev (md ! p) = (if ys = [] then prev else Some (last ys))"
  using chain_append [OF assms] by (auto dest: chain_first)

text \<open>Unlinking \<open>p\<close>: the neighbours are redirected, everything else keeps its links.\<close>

lemma chain_unlink:
  assumes "chain md prev cur (ys @ p # zs)" and "distinct (ys @ p # zs)"
    and "length md' = length md"
    and "\<And>x. x \<in> set ys \<union> set zs \<Longrightarrow>
      page_next (md' ! x) = (if ys \<noteq> [] \<and> x = last ys then first_of zs else page_next (md ! x))"
    and "\<And>x. x \<in> set ys \<union> set zs \<Longrightarrow>
      page_prev (md' ! x) = (if zs \<noteq> [] \<and> x = hd zs
        then (if ys = [] then prev else Some (last ys)) else page_prev (md ! x))"
  shows "chain md' prev (if ys = [] then first_of zs else cur) (ys @ zs)"
  using assms
proof (induction ys arbitrary: prev cur)
  case Nil
  show ?case
  proof (cases zs)
    case (Cons z zs')
    have "chain md' (Some z) (page_next (md ! z)) zs' = chain md (Some z) (page_next (md ! z)) zs'"
      using Nil.prems(2-5) Cons by (intro chain_cong) auto
    then show ?thesis using Nil.prems Cons by auto
  qed simp
next
  case (Cons y ys)
  have prev_z: "page_prev (md' ! x) = (if zs \<noteq> [] \<and> x = hd zs
      then (if ys = [] then Some y else Some (last ys)) else page_prev (md ! x))"
    if "x \<in> set ys \<union> set zs" for x
    using Cons.prems(5) [of x] that by (auto split: if_splits)
  have next_x: "page_next (md' ! x) = (if ys \<noteq> [] \<and> x = last ys then first_of zs
      else page_next (md ! x))" if "x \<in> set ys \<union> set zs" for x
    using Cons.prems(4) [of x] Cons.prems(2) that by auto
  have "chain md' (Some y) (if ys = [] then first_of zs else page_next (md ! y)) (ys @ zs)"
    using Cons.prems(1-3) prev_z next_x by (intro Cons.IH) auto
  moreover have "page_next (md' ! y) = (if ys = [] then first_of zs else page_next (md ! y))"
    using Cons.prems(2) Cons.prems(4) [of y] by auto
  moreover have "page_prev (md' ! y) = page_prev (md ! y)"
    using Cons.prems(2) Cons.prems(5) [of y] by (cases zs) auto
  ultimately show ?case using Cons.prems(1,3) by auto
qed

text \<open>Pushing \<open>p\<close> in front.\<close>

lemma chain_push:
  assumes "chain md None cur xs" and "p \<notin> set xs" and "distinct xs" and "p < length md'"
    and "length md' = length md"
    and "page_next (md' ! p) = cur" and "page_prev (md' ! p) = None"
    and "\<And>x. x \<in> set xs \<Longrightarrow> page_next (md' ! x) = page_next (md ! x)"
    and "\<And>x. x \<in> set xs \<Longrightarrow>
      page_prev (md' ! x) = (if x = hd xs then Some p else page_prev (md ! x))"
  shows "chain md' None (Some p) (p # xs)"
proof (cases xs)
  case (Cons z zs)
  have "chain md' (Some z) (page_next (md ! z)) zs = chain md (Some z) (page_next (md ! z)) zs"
    using assms Cons by (intro chain_cong) auto
  then show ?thesis using assms Cons by auto
qed (use assms in auto)

lemma find_free_loop_eq:
  assumes "chain md prev cur xs" and "length xs < fuel"
  shows "find_free_loop fuel md pred cur = Inr (find pred xs)"
  using assms
proof (induction xs arbitrary: prev cur fuel)
  case Nil
  then show ?case by (cases fuel) auto
next
  case (Cons x xs)
  then obtain f where "fuel = Suc f" by (cases fuel) auto
  with Cons show ?case by (auto simp: run_simps)
qed

section \<open>Updates as list updates\<close>

lemma upd_page_ok [run_simps]:
  "i < length (metadata b) \<Longrightarrow>
     upd_page i f b = Inr (b\<lparr>metadata := (metadata b)[i := f (metadata b ! i)]\<rparr>)"
  by (simp add: upd_page_def run_simps)

lemma set_free_head_ok [run_simps]:
  "ord < length (free_heads b) \<Longrightarrow>
     set_free_head ord v b = Inr (b\<lparr>free_heads := (free_heads b)[ord := v]\<rparr>)"
  by (simp add: set_free_head_def run_simps)

lemma for_pages_append:
  "for_pages f pfn (is @ js) b = rbind (for_pages f pfn is b) (for_pages f pfn js)"
proof (induction "is" arbitrary: b)
  case (Cons i "is")
  then have "for_pages f pfn (is @ js) = (\<lambda>b. rbind (for_pages f pfn is b) (for_pages f pfn js))"
    by blast
  then show ?case by (simp add: rbind_assoc)
qed simp

text \<open>A marking loop over \<open>n\<close> consecutive frames rewrites exactly those frames.\<close>

lemma for_pages_eq:
  assumes "pfn + n \<le> length (metadata b)"
  shows "\<exists>md. for_pages f pfn [0..<n] b = Inr (b\<lparr>metadata := md\<rparr>) \<and>
    length md = length (metadata b) \<and>
    (\<forall>q<length (metadata b). md ! q =
      (if pfn \<le> q \<and> q < pfn + n then f (q - pfn) (metadata b ! q) else metadata b ! q))"
  using assms
proof (induction n)
  case 0
  show ?case by (rule exI [of _ "metadata b"]) auto
next
  case (Suc n)
  then obtain md where md: "for_pages f pfn [0..<n] b = Inr (b\<lparr>metadata := md\<rparr>)"
    "length md = length (metadata b)"
    "\<forall>q<length (metadata b). md ! q =
      (if pfn \<le> q \<and> q < pfn + n then f (q - pfn) (metadata b ! q) else metadata b ! q)"
    by auto
  let ?md = "md[pfn + n := f n (md ! (pfn + n))]"
  have "for_pages f pfn [0..<Suc n] b = Inr (b\<lparr>metadata := ?md\<rparr>)"
    using Suc.prems md(1,2) by (simp add: for_pages_append run_simps)
  moreover have "\<forall>q<length (metadata b). ?md ! q =
      (if pfn \<le> q \<and> q < pfn + Suc n then f (q - pfn) (metadata b ! q) else metadata b ! q)"
    using md(2,3) Suc.prems by (auto simp: nth_list_update)
  ultimately show ?case using md(2) by (intro exI [of _ ?md]) simp
qed

end
