(* ===== verification/Buddy_Inv.thy ===== *)
theory Buddy_Inv
  imports Buddy_Lists
begin

text \<open>
  The invariant of the buddy allocator.  \<open>wf_open S b\<close> says that the blocks outside the page set
  \<open>S\<close> are well formed and that the free lists hold exactly the free heads outside \<open>S\<close>; pages of
  \<open>S\<close> are being rearranged.  \<open>buddy_inv\<close> is the case \<open>S = {}\<close>.  Four steps carry every
  operation: a free block is taken off its list into \<open>S\<close>, an allocated block is opened into
  \<open>S\<close>, a range of \<open>S\<close> is closed as a free block, or as an allocated one.
\<close>

unbundle bit_operations_syntax

section \<open>Blocks\<close>

definition ord_at :: "page_info list \<Rightarrow> nat \<Rightarrow> nat" where
  "ord_at md p = unat (pg_order (md ! p))"

definition head_at :: "page_info list \<Rightarrow> nat \<Rightarrow> bool" where
  "head_at md p \<longleftrightarrow> p < length md \<and> is_head (md ! p)"

definition free_at :: "page_info list \<Rightarrow> nat \<Rightarrow> bool" where
  "free_at md p \<longleftrightarrow> p < length md \<and> is_free (md ! p)"

definition frames :: "nat \<Rightarrow> nat \<Rightarrow> nat set" where
  "frames p k = {p..<p + 2 ^ k}"

abbreviation span :: "page_info list \<Rightarrow> nat \<Rightarrow> nat set" where
  "span md p \<equiv> frames p (ord_at md p)"

definition block_ok :: "page_info list \<Rightarrow> nat \<Rightarrow> bool" where
  "block_ok md p \<longleftrightarrow>
     ord_at md p < MAX_ORDER \<and> 2 ^ ord_at md p dvd p \<and> p + 2 ^ ord_at md p \<le> length md \<and>
     (\<forall>q \<in> span md p. ord_at md q = ord_at md p \<and>
        is_free (md ! q) = is_free (md ! p) \<and> (is_head (md ! q) \<longleftrightarrow> q = p))"

definition free_blocks :: "page_info list \<Rightarrow> nat set \<Rightarrow> nat \<Rightarrow> nat set" where
  "free_blocks md S k = {p. head_at md p \<and> p \<notin> S \<and> free_at md p \<and> ord_at md p = k}"

definition list_ok :: "nat set \<Rightarrow> buddy \<Rightarrow> nat \<Rightarrow> bool" where
  "list_ok S b k \<longleftrightarrow> (\<exists>xs. chain (metadata b) None (free_heads b ! k) xs \<and> distinct xs \<and>
     set xs = free_blocks (metadata b) S k)"

definition blocks_ok :: "nat set \<Rightarrow> page_info list \<Rightarrow> bool" where
  "blocks_ok S md \<longleftrightarrow>
     (\<forall>p. head_at md p \<longrightarrow> p \<notin> S \<longrightarrow> block_ok md p \<and> span md p \<inter> S = {})"

definition cover_ok :: "nat set \<Rightarrow> page_info list \<Rightarrow> bool" where
  "cover_ok S md \<longleftrightarrow>
     (\<forall>q. free_at md q \<longrightarrow> q \<notin> S \<longrightarrow> (\<exists>p. head_at md p \<and> p \<notin> S \<and> q \<in> span md p))"

definition sizes_ok :: "buddy \<Rightarrow> bool" where
  "sizes_ok b \<longleftrightarrow> length (metadata b) = total_pages b \<and> total_pages b < 2 ^ 32 \<and>
     length (free_heads b) = MAX_ORDER"

definition wf_open :: "nat set \<Rightarrow> buddy \<Rightarrow> bool" where
  "wf_open S b \<longleftrightarrow> sizes_ok b \<and> blocks_ok S (metadata b) \<and> cover_ok S (metadata b) \<and>
     (\<forall>k<MAX_ORDER. list_ok S b k)"

definition buddy_inv :: "buddy \<Rightarrow> bool" where
  "buddy_inv b \<longleftrightarrow> wf_open {} b"

definition free_pages :: "buddy \<Rightarrow> nat set" where
  "free_pages b = {q. free_at (metadata b) q}"

text \<open>Two metadata arrays with the same order, head and free bits.\<close>

definition same_tags :: "page_info list \<Rightarrow> page_info list \<Rightarrow> bool" where
  "same_tags md md' \<longleftrightarrow> length md' = length md \<and>
     (\<forall>q<length md. pg_order (md' ! q) = pg_order (md ! q) \<and>
        is_head (md' ! q) = is_head (md ! q) \<and> is_free (md' ! q) = is_free (md ! q))"

lemma same_tags_refl [simp]: "same_tags md md"
  by (simp add: same_tags_def)

lemma same_tags_upd:
  assumes "same_tags md md'" and "\<And>p. pg_order (f p) = pg_order p"
    and "\<And>p. is_head (f p) = is_head p" and "\<And>p. is_free (f p) = is_free p"
  shows "same_tags md (md'[i := f (md' ! i)])"
  using assms by (cases "i < length md'") (auto simp: same_tags_def nth_list_update)

lemma same_tags_at:
  assumes "same_tags md md'"
  shows "head_at md' = head_at md" and "free_at md' = free_at md"
    and "free_blocks md' S k = free_blocks md S k"
    and "p < length md \<Longrightarrow> ord_at md' p = ord_at md p"
  using assms by (auto simp: same_tags_def head_at_def free_at_def ord_at_def free_blocks_def
      fun_eq_iff)

lemma same_tags_block:
  assumes "same_tags md md'" and "head_at md p"
  shows "block_ok md' p = block_ok md p" and "span md' p = span md p"
proof -
  have p: "p < length md" using assms(2) by (simp add: head_at_def)
  then show span: "span md' p = span md p"
    using same_tags_at(4) [OF assms(1) p] by simp
  have "q < length md" if "p + 2 ^ ord_at md p \<le> length md" "q \<in> span md p" for q
    using that by (simp add: frames_def)
  then show "block_ok md' p = block_ok md p"
    using assms p unfolding block_ok_def span same_tags_at(4) [OF assms(1) p]
    by (auto simp: same_tags_def ord_at_def)
qed

section \<open>Geometry of frames\<close>

lemma frames_iff [simp]: "q \<in> frames p k \<longleftrightarrow> p \<le> q \<and> q < p + 2 ^ k"
  by (simp add: frames_def)

lemma frames_split: "frames p (Suc k) = frames p k \<union> frames (p + 2 ^ k) k"
  by (auto simp: frames_def)

lemma frames_mono:
  assumes "j \<le> k" shows "frames p j \<subseteq> frames p k"
proof -
  have "p + 2 ^ j \<le> p + (2::nat) ^ k" using assms by simp
  then show ?thesis unfolding frames_def by (intro ivl_subset [THEN iffD2] disjI2 conjI order_refl)
qed

lemma head_in_frames [simp]: "p \<in> frames p k"
  by simp

lemma xor_low:
  fixes p :: nat
  assumes "2 ^ Suc k dvd p"
  shows "p XOR 2 ^ k = p + 2 ^ k"
proof -
  have "\<not> bit p k" using assms by (auto simp: bit_iff_odd)
  then have "p AND 2 ^ k = 0" by (simp add: and_exp_eq_0_iff_not_bit)
  then show ?thesis by (simp add: disjunctive_add_eq_xor)
qed

lemma xor_high:
  fixes p :: nat
  assumes "2 ^ k dvd p" and "\<not> 2 ^ Suc k dvd p"
  shows "p XOR 2 ^ k = p - 2 ^ k" and "2 ^ k \<le> p" and "2 ^ Suc k dvd p - 2 ^ k"
proof -
  obtain j where j: "p = 2 ^ k * j" using assms(1) ..
  have odd: "odd j" using assms(2) j by (auto elim!: evenE)
  then obtain i where i: "j = 2 * i + 1" by (auto elim: oddE)
  have p: "p = 2 ^ Suc k * i + 2 ^ k" using i j by (simp add: algebra_simps)
  then show "2 ^ k \<le> p" by simp
  show "2 ^ Suc k dvd p - 2 ^ k" using p by simp
  have "(2 ^ Suc k * i) XOR 2 ^ k = p" using xor_low [of k "2 ^ Suc k * i"] p by simp
  then have "p XOR 2 ^ k = 2 ^ Suc k * i"
    by (metis xor.assoc xor.right_neutral xor_self_eq)
  then show "p XOR 2 ^ k = p - 2 ^ k" using p by simp
qed

text \<open>A block and its buddy make up the block of the next order.\<close>

lemma buddy_merge:
  fixes p :: nat
  assumes "2 ^ k dvd p"
  defines "q \<equiv> p XOR 2 ^ k"
  shows "frames p k \<union> frames q k = frames (min p q) (Suc k)"
    and "frames p k \<inter> frames q k = {}"
    and "2 ^ Suc k dvd min p q"
proof -
  have "frames p k \<union> frames q k = frames (min p q) (Suc k) \<and> frames p k \<inter> frames q k = {} \<and>
    2 ^ Suc k dvd min p q"
  proof (cases "2 ^ Suc k dvd p")
    case True
    then have "q = p + 2 ^ k" by (simp add: q_def xor_low)
    then show ?thesis using True by (auto simp: min_def frames_def)
  next
    case False
    note h = xor_high [OF assms(1) False]
    then have "p = q + 2 ^ k" by (simp add: q_def)
    moreover have "min p q = q" using calculation by simp
    ultimately show ?thesis using h by (auto simp: frames_def q_def)
  qed
  then show "frames p k \<union> frames q k = frames (min p q) (Suc k)"
    and "frames p k \<inter> frames q k = {}" and "2 ^ Suc k dvd min p q" by auto
qed

section \<open>Consequences of the invariant\<close>

lemma wf_openD:
  assumes "wf_open S b"
  shows "length (metadata b) = total_pages b" and "total_pages b < 2 ^ 32"
    and "length (free_heads b) = MAX_ORDER"
    and "blocks_ok S (metadata b)" and "cover_ok S (metadata b)"
    and "k < MAX_ORDER \<Longrightarrow> list_ok S b k"
  using assms by (simp_all add: wf_open_def sizes_ok_def)

lemma wf_openI:
  assumes "sizes_ok b" and "blocks_ok S (metadata b)" and "cover_ok S (metadata b)"
    and "\<And>k. k < MAX_ORDER \<Longrightarrow> list_ok S b k"
  shows "wf_open S b"
  using assms by (simp add: wf_open_def)

lemma blocks_okD:
  assumes "blocks_ok S md" and "head_at md p" and "p \<notin> S"
  shows "block_ok md p" and "span md p \<inter> S = {}"
  using assms unfolding blocks_ok_def by blast+

lemma cover_okD:
  assumes "cover_ok S md" and "free_at md q" and "q \<notin> S"
  obtains p where "head_at md p" and "p \<notin> S" and "q \<in> span md p"
  using assms unfolding cover_ok_def by blast

lemma list_okE:
  assumes "list_ok S b k"
  obtains xs where "chain (metadata b) None (free_heads b ! k) xs" and "distinct xs"
    and "set xs = free_blocks (metadata b) S k"
  using assms unfolding list_ok_def by blast

lemma block_ok_span:
  assumes "block_ok md p" and "q \<in> span md p"
  shows "q < length md" and "ord_at md q = ord_at md p"
    and "is_free (md ! q) = is_free (md ! p)" and "is_head (md ! q) \<longleftrightarrow> q = p"
proof -
  have "q < p + 2 ^ ord_at md p" using assms(2) by simp
  also have "\<dots> \<le> length md" using assms(1) unfolding block_ok_def by blast
  finally show "q < length md" .
qed (use assms in \<open>unfold block_ok_def, blast+\<close>)

text \<open>Distinct blocks are disjoint: no page inside a block is the head of another.\<close>

lemma blocks_disjoint:
  assumes "block_ok md p" "block_ok md q" "head_at md p" "head_at md q" "p \<noteq> q"
  shows "span md p \<inter> span md q = {}"
proof (rule ccontr)
  assume "span md p \<inter> span md q \<noteq> {}"
  then obtain r where "r \<in> span md p" "r \<in> span md q" by blast
  then have "q \<in> span md p \<or> p \<in> span md q" by auto
  then show False
    using assms block_ok_span(4) [OF assms(1), of q] block_ok_span(4) [OF assms(2), of p]
    by (auto simp: head_at_def)
qed

lemma chain_links_fit:
  assumes "wf_open S b" and "chain (metadata b) prev cur xs"
  shows "\<forall>x \<in> set xs. x < 2 ^ 32 - 1"
  using chain_bound [OF assms(2)] wf_openD(1,2) [OF assms(1)] by force

lemma block_ok_cong:
  assumes "\<And>q. q \<in> span md p \<Longrightarrow> md' ! q = md ! q" and "length md' = length md"
  shows "span md' p = span md p" and "block_ok md' p = block_ok md p"
proof -
  have o: "ord_at md' q = ord_at md q" if "q \<in> span md p" for q
    using assms(1) [OF that] by (simp add: ord_at_def)
  have op: "ord_at md' p = ord_at md p" by (rule o) simp
  then show "span md' p = span md p" by simp
  show "block_ok md' p = block_ok md p"
    unfolding block_ok_def op assms(2) using assms(1) [OF head_in_frames] assms(1) o by auto
qed

text \<open>Pages of \<open>S\<close> do not matter to \<open>wf_open S\<close>.\<close>

lemma wf_open_frame:
  assumes "wf_open S b"
    and "\<And>q. q \<notin> S \<Longrightarrow> q < length (metadata b) \<Longrightarrow> md ! q = metadata b ! q"
    and "length md = length (metadata b)"
  shows "wf_open S (b\<lparr>metadata := md\<rparr>)"
proof -
  have at: "head_at md p = head_at (metadata b) p" "free_at md p = free_at (metadata b) p"
    if "p \<notin> S" for p
    using assms that by (auto simp: head_at_def free_at_def)
  have fb: "free_blocks md S k = free_blocks (metadata b) S k" for k
    using at assms(2,3) by (auto simp: free_blocks_def ord_at_def head_at_def)
  have span: "md ! q = metadata b ! q"
    if "head_at (metadata b) p" "p \<notin> S" "q \<in> span (metadata b) p" for p q
    using blocks_okD [OF wf_openD(4) [OF assms(1)] that(1,2)] that(3) assms(2)
      block_ok_span(1) by blast
  have same: "span md p = span (metadata b) p" "block_ok md p = block_ok (metadata b) p"
    if "head_at (metadata b) p" "p \<notin> S" for p
    using block_ok_cong [OF span [OF that] assms(3)] by blast+
  have "blocks_ok S md"
    using blocks_okD [OF wf_openD(4) [OF assms(1)]] at(1) same unfolding blocks_ok_def by metis
  moreover have "cover_ok S md"
    using wf_openD(5) [OF assms(1)] at same unfolding cover_ok_def by metis
  moreover have "list_ok S (b\<lparr>metadata := md\<rparr>) k" if k: "k < MAX_ORDER" for k
  proof -
    obtain xs where xs: "chain (metadata b) None (free_heads b ! k) xs" "distinct xs"
      "set xs = free_blocks (metadata b) S k"
      using wf_openD(6) [OF assms(1) k] by (rule list_okE)
    have "chain md None (free_heads b ! k) xs"
      using xs assms(2,3) by (subst chain_cong [where md = "metadata b"]) (auto simp: free_blocks_def head_at_def)
    then show ?thesis using xs fb by (auto simp: list_ok_def)
  qed
  ultimately show ?thesis
    using wf_openD(1-3) [OF assms(1)] assms(3) by (intro wf_openI) (simp_all add: sizes_ok_def)
qed

end
