(* ===== verification/Buddy_Steps.thy ===== *)
theory Buddy_Steps
  imports Buddy_Inv
begin

text \<open>
  The four steps between open states of the buddy allocator: unlinking a free block
  (\<open>remove_from_free\<close>), opening an allocated block, closing a marked range as a free block
  (\<open>push_free\<close>) and closing it as an allocated block.
\<close>

unbundle bit_operations_syntax

section \<open>Opening a block\<close>

lemma head_in_span:
  assumes "blocks_ok S md" "head_at md p" "p \<notin> S" "head_at md q" "q \<in> span md p"
  shows "q = p"
  using block_ok_span(4) [OF blocks_okD(1) [OF assms(1-3)] assms(5)] assms(4)
  by (simp add: head_at_def)

lemma blocks_ok_open:
  assumes "blocks_ok S md" "head_at md p" "p \<notin> S"
  shows "blocks_ok (S \<union> span md p) md"
  unfolding blocks_ok_def
proof (intro allI impI)
  fix q
  assume q: "head_at md q" "q \<notin> S \<union> span md p"
  then have "q \<noteq> p" by auto
  then have "span md p \<inter> span md q = {}"
    using assms q blocks_disjoint [OF blocks_okD(1) [OF assms] blocks_okD(1) [OF assms(1) q(1)]]
    by blast
  then show "block_ok md q \<and> span md q \<inter> (S \<union> span md p) = {}"
    using blocks_okD [OF assms(1) q(1)] q(2) by blast
qed

lemma cover_ok_open:
  assumes "blocks_ok S md" "cover_ok S md" "head_at md p" "p \<notin> S"
  shows "cover_ok (S \<union> span md p) md"
  unfolding cover_ok_def
proof (intro allI impI)
  fix q
  assume q: "free_at md q" "q \<notin> S \<union> span md p"
  then obtain r where r: "head_at md r" "r \<notin> S" "q \<in> span md r"
    using cover_okD [OF assms(2)] by blast
  then have "r \<notin> span md p" using head_in_span [OF assms(1,3,4) r(1)] q(2) by blast
  then show "\<exists>p'. head_at md p' \<and> p' \<notin> S \<union> span md p \<and> q \<in> span md p'" using r by blast
qed

lemma free_blocks_open:
  assumes "blocks_ok S md" "head_at md p" "p \<notin> S"
  shows "free_blocks md (S \<union> span md p) k = free_blocks md S k - {p}"
  using head_in_span [OF assms] by (auto simp: free_blocks_def simp del: frames_iff)

lemma open_allocated:
  assumes "wf_open S b" "head_at (metadata b) p" "p \<notin> S" "\<not> free_at (metadata b) p"
  shows "wf_open (S \<union> span (metadata b) p) b"
proof (rule wf_openI)
  note wf = wf_openD [OF assms(1)]
  show "sizes_ok b" using assms(1) by (simp add: wf_open_def)
  show "blocks_ok (S \<union> span (metadata b) p) (metadata b)"
    by (rule blocks_ok_open [OF wf(4) assms(2,3)])
  show "cover_ok (S \<union> span (metadata b) p) (metadata b)"
    by (rule cover_ok_open [OF wf(4,5) assms(2,3)])
  have "free_blocks (metadata b) (S \<union> span (metadata b) p) k = free_blocks (metadata b) S k" for k
    using free_blocks_open [OF wf(4) assms(2,3)] assms(4) by (auto simp: free_blocks_def)
  then show "list_ok (S \<union> span (metadata b) p) b k" if "k < MAX_ORDER" for k
    using wf(6) [OF that] by (simp add: list_ok_def)
qed

section \<open>Taking a free block off its list\<close>

lemma remove_from_free_effect:
  assumes ch: "chain (metadata b) None (free_heads b ! k) (ys @ p # zs)"
    and dist: "distinct (ys @ p # zs)" and k: "k < length (free_heads b)"
    and fit: "\<forall>x \<in> set (ys @ p # zs). x < 2 ^ 32 - 1"
  shows "\<exists>md'. remove_from_free p k b = Inr (b\<lparr>metadata := md',
        free_heads := if ys = [] then (free_heads b)[k := first_of zs] else free_heads b\<rparr>) \<and>
    same_tags (metadata b) md' \<and>
    (\<forall>x<length (metadata b). page_next (md' ! x) =
      (if ys \<noteq> [] \<and> x = last ys then first_of zs else page_next (metadata b ! x))) \<and>
    (\<forall>x<length (metadata b). page_prev (md' ! x) =
      (if zs \<noteq> [] \<and> x = hd zs then (if ys = [] then None else Some (last ys))
       else page_prev (metadata b ! x)))"
proof -
  let ?md = "metadata b" and ?pv = "if ys = [] then None else Some (last ys)"
  note mid = chain_mid [OF ch]
  have bound: "x < length ?md" if "x \<in> set (ys @ p # zs)" for x
    using chain_bound [OF ch] that by blast
  have ends: "ys \<noteq> [] \<Longrightarrow> last ys < length ?md" "zs \<noteq> [] \<Longrightarrow> hd zs < length ?md"
    using bound by simp_all
  define m1 where "m1 = (if ys = [] then ?md
    else ?md[last ys := set_next (first_of zs) (?md ! last ys)])"
  define m2 where "m2 = (if zs = [] then m1 else m1[hd zs := set_prev ?pv (m1 ! hd zs)])"
  have len: "length m1 = length ?md" "length m2 = length ?md"
    by (simp_all add: m1_def m2_def)
  have fits: "link_fits (first_of zs)" "link_fits ?pv"
    using fit by (cases zs; simp) (use fit in auto)
  have tags: "same_tags ?md m1"
    unfolding m1_def by (auto intro!: same_tags_upd [where f = "set_next (first_of zs)"])
  have tags2: "same_tags ?md m2"
  proof (cases "zs = []")
    case False
    then show ?thesis
      unfolding m2_def by (simp only: if_False) (rule same_tags_upd [OF tags], simp_all)
  qed (use tags in \<open>simp add: m2_def\<close>)
  have "remove_from_free p k b = Inr (b\<lparr>metadata := m2,
      free_heads := if ys = [] then (free_heads b)[k := first_of zs] else free_heads b\<rparr>)"
    using mid k bound len
    by (cases zs; cases "ys = []")
      (auto simp: remove_from_free_def Let_def run_simps m2_def m1_def)
  moreover have "\<forall>x<length ?md. page_next (m2 ! x) =
      (if ys \<noteq> [] \<and> x = last ys then first_of zs else page_next (?md ! x))"
    using fits ends by (auto simp: m2_def m1_def nth_list_update page_simps)
  moreover have "\<forall>x<length ?md. page_prev (m2 ! x) =
      (if zs \<noteq> [] \<and> x = hd zs then ?pv else page_prev (?md ! x))"
    using fits len ends by (auto simp: m2_def m1_def nth_list_update page_simps)
  ultimately show ?thesis using tags2 by blast
qed

lemma blocks_ok_tags:
  assumes "same_tags md md'" shows "blocks_ok S md' = blocks_ok S md"
  using same_tags_block [OF assms] same_tags_at(1) [OF assms] by (simp add: blocks_ok_def)

lemma cover_ok_tags:
  assumes "same_tags md md'" shows "cover_ok S md' = cover_ok S md"
proof -
  have "(head_at md p \<and> p \<notin> S \<and> q \<in> span md' p) = (head_at md p \<and> p \<notin> S \<and> q \<in> span md p)" for p q
    using same_tags_block(2) [OF assms, of p] by blast
  then show ?thesis
    unfolding cover_ok_def same_tags_at(1) [OF assms] same_tags_at(2) [OF assms] by simp
qed

lemma sizes_ok_tags:
  assumes "sizes_ok b" "same_tags (metadata b) (metadata b')" "total_pages b' = total_pages b"
    "length (free_heads b') = length (free_heads b)"
  shows "sizes_ok b'"
  using assms by (simp add: sizes_ok_def same_tags_def)

text \<open>The lists of the other orders share no page with the list being changed.\<close>

lemma other_list_ok:
  assumes old: "list_ok S b j" and "same_tags (metadata b) (metadata b')"
    and heads: "free_heads b' ! j = free_heads b ! j"
    and links: "\<And>x. x < length (metadata b) \<Longrightarrow> x \<in> free_blocks (metadata b) S j \<Longrightarrow>
      page_next (metadata b' ! x) = page_next (metadata b ! x) \<and>
      page_prev (metadata b' ! x) = page_prev (metadata b ! x)"
    and blocks: "free_blocks (metadata b) S' j = free_blocks (metadata b) S j"
  shows "list_ok S' b' j"
proof -
  obtain xs where xs: "chain (metadata b) None (free_heads b ! j) xs" "distinct xs"
    "set xs = free_blocks (metadata b) S j"
    using old by (rule list_okE)
  have "chain (metadata b') None (free_heads b ! j) xs"
    using xs links assms(2) chain_bound [OF xs(1)]
    by (subst chain_cong [where md = "metadata b"]) (auto simp: same_tags_def)
  then show ?thesis
    using xs blocks heads same_tags_at(3) [OF assms(2)] by (auto simp: list_ok_def)
qed

lemma take_free_block:
  assumes wf: "wf_open S b" and p: "p \<in> free_blocks (metadata b) S k"
  shows "\<exists>b'. remove_from_free p k b = Inr b' \<and> wf_open (S \<union> frames p k) b' \<and>
    same_tags (metadata b) (metadata b') \<and> total_pages b' = total_pages b"
proof -
  note W = wf_openD [OF wf]
  have hp: "head_at (metadata b) p" "p \<notin> S" "ord_at (metadata b) p = k" "free_at (metadata b) p"
    using p by (auto simp: free_blocks_def)
  have k: "k < MAX_ORDER"
    using blocks_okD(1) [OF W(4) hp(1,2)] hp(3) by (simp add: block_ok_def)
  obtain xs where xs: "chain (metadata b) None (free_heads b ! k) xs" "distinct xs"
    "set xs = free_blocks (metadata b) S k"
    using W(6) [OF k] by (rule list_okE)
  then obtain ys zs where split: "xs = ys @ p # zs" using p by (metis split_list)
  obtain md' where md': "remove_from_free p k b = Inr (b\<lparr>metadata := md',
        free_heads := if ys = [] then (free_heads b)[k := first_of zs] else free_heads b\<rparr>)"
    "same_tags (metadata b) md'"
    "\<forall>x<length (metadata b). page_next (md' ! x) =
      (if ys \<noteq> [] \<and> x = last ys then first_of zs else page_next (metadata b ! x))"
    "\<forall>x<length (metadata b). page_prev (md' ! x) =
      (if zs \<noteq> [] \<and> x = hd zs then (if ys = [] then None else Some (last ys))
       else page_prev (metadata b ! x))"
    using remove_from_free_effect [of b k ys p zs] xs(1,2) split k W(3) chain_links_fit [OF wf xs(1)]
    by auto
  define b' where "b' = b\<lparr>metadata := md',
        free_heads := if ys = [] then (free_heads b)[k := first_of zs] else free_heads b\<rparr>"
  have fb: "free_blocks (metadata b) (S \<union> frames p k) j = free_blocks (metadata b) S j - {p}" for j
    using free_blocks_open [OF W(4) hp(1,2)] hp(3) by simp
  have bound: "set xs \<subseteq> {..<length (metadata b)}" using xs(1) by (rule chain_bound)
  have "wf_open (S \<union> frames p k) b'"
  proof (rule wf_openI)
    show "sizes_ok b'"
      using wf md'(2) by (auto simp: b'_def wf_open_def intro: sizes_ok_tags [of b])
    show "blocks_ok (S \<union> frames p k) (metadata b')" "cover_ok (S \<union> frames p k) (metadata b')"
      using blocks_ok_open [OF W(4) hp(1,2)] cover_ok_open [OF W(4,5) hp(1,2)] md'(2) hp(3)
      by (simp_all add: b'_def blocks_ok_tags cover_ok_tags)
  next
    fix j assume j: "j < MAX_ORDER"
    show "list_ok (S \<union> frames p k) b' j"
    proof (cases "j = k")
      case True
      have "chain md' None (if ys = [] then first_of zs else free_heads b ! k) (ys @ zs)"
        using xs(1,2) split md'(2-4) bound
        by (intro chain_unlink [where md = "metadata b" and p = p]) (auto simp: same_tags_def)
      moreover have "free_heads b' ! k = (if ys = [] then first_of zs else free_heads b ! k)"
        using k W(3) by (simp add: b'_def)
      moreover have "set (ys @ zs) = free_blocks md' (S \<union> frames p k) k"
        using xs(2,3) split fb [of k] same_tags_at(3) [OF md'(2)] by auto
      ultimately show ?thesis
        using True xs(2) split by (auto simp: list_ok_def b'_def)
    next
      case False
      have diff: "x \<notin> set xs" if "x \<in> free_blocks (metadata b) S j" for x
        using that False xs(3) by (auto simp: free_blocks_def)
      have "ys \<noteq> [] \<Longrightarrow> last ys \<in> set xs" "zs \<noteq> [] \<Longrightarrow> hd zs \<in> set xs"
        using split by auto
      then show ?thesis
        using diff md'(2-4) False hp(3) fb [of j]
        by (intro other_list_ok [OF W(6) [OF j]]) (auto simp: b'_def free_blocks_def)
    qed
  qed
  then show ?thesis using md'(1,2) by (auto simp: b'_def)
qed

section \<open>Pushing a block on its list\<close>

lemma push_free_effect:
  assumes ch: "chain (metadata b) None (free_heads b ! k) xs" and k: "k < length (free_heads b)"
    and p: "p < length (metadata b)" "p \<notin> set xs" "is_free (metadata b ! p)"
    and fit: "\<forall>x \<in> set xs. x < 2 ^ 32 - 1" "p < 2 ^ 32 - 1"
  shows "\<exists>md'. push_free p k b = Inr (b\<lparr>metadata := md',
        free_heads := (free_heads b)[k := Some p]\<rparr>) \<and>
    same_tags (metadata b) md' \<and>
    page_next (md' ! p) = first_of xs \<and> page_prev (md' ! p) = None \<and>
    (\<forall>x<length (metadata b). x \<noteq> p \<longrightarrow> page_next (md' ! x) = page_next (metadata b ! x) \<and>
      page_prev (md' ! x) = (if xs \<noteq> [] \<and> x = hd xs then Some p else page_prev (metadata b ! x)))"
proof -
  let ?md = "metadata b"
  define m1 where "m1 = ?md[p := set_prev None (set_next (first_of xs) (set_free True (?md ! p)))]"
  define m2 where "m2 = (if xs = [] then m1 else m1[hd xs := set_prev (Some p) (m1 ! hd xs)])"
  have len: "length m1 = length ?md" "length m2 = length ?md"
    by (simp_all add: m1_def m2_def)
  have hd: "hd xs < length ?md" "hd xs \<noteq> p" if "xs \<noteq> []"
    using chain_bound [OF ch] that p(2) by (cases xs; auto)+
  have fits: "link_fits (first_of xs)" "link_fits (Some p)"
    using fit by (cases xs; simp)+
  have "same_tags ?md m1"
    using p(1,3) by (auto simp: m1_def same_tags_def nth_list_update)
  then have "same_tags ?md m2"
    by (cases "xs = []") (auto simp: m2_def intro!: same_tags_upd)
  moreover have "push_free p k b = Inr (b\<lparr>metadata := m2,
      free_heads := (free_heads b)[k := Some p]\<rparr>)"
    using chain_first [OF ch] k p(1) hd len
    by (cases xs) (auto simp: push_free_def run_simps m2_def m1_def)
  moreover have "page_next (m2 ! p) = first_of xs" "page_prev (m2 ! p) = None"
    using fits p(1) hd len by (auto simp: m2_def m1_def nth_list_update page_simps)
  moreover have "\<forall>x<length ?md. x \<noteq> p \<longrightarrow> page_next (m2 ! x) = page_next (?md ! x) \<and>
      page_prev (m2 ! x) = (if xs \<noteq> [] \<and> x = hd xs then Some p else page_prev (?md ! x))"
    using fits hd len by (auto simp: m2_def m1_def nth_list_update page_simps)
  ultimately show ?thesis by blast
qed

section \<open>Closing a range\<close>

definition marked :: "page_info list \<Rightarrow> nat \<Rightarrow> nat \<Rightarrow> bool \<Rightarrow> bool" where
  "marked md p k fr \<longleftrightarrow> (\<forall>q \<in> frames p k. pg_order (md ! q) = of_nat k \<and>
     is_free (md ! q) = fr \<and> (is_head (md ! q) \<longleftrightarrow> q = p))"

definition placeable :: "page_info list \<Rightarrow> nat \<Rightarrow> nat \<Rightarrow> bool" where
  "placeable md p k \<longleftrightarrow> k < MAX_ORDER \<and> 2 ^ k dvd p \<and> p + 2 ^ k \<le> length md"

lemma placeable_mono:
  assumes "placeable md p k" "j \<le> k" shows "placeable md p j"
proof -
  have "p + 2 ^ j \<le> p + (2::nat) ^ k" using assms(2) by simp
  moreover have "(2::nat) ^ j dvd 2 ^ k" using assms(2) by (rule le_imp_power_dvd)
  ultimately show ?thesis
    using assms unfolding placeable_def by (meson dvd_trans le_trans order_le_less_trans)
qed

lemma unat_order: "k < MAX_ORDER \<Longrightarrow> unat (of_nat k :: u8) = k"
  by (simp add: unat_of_nat)

lemma marked_at:
  assumes "marked md p k fr" "placeable md p k"
  shows "ord_at md p = k" "head_at md p" "free_at md p \<longleftrightarrow> fr" "block_ok md p"
    "\<And>q. q \<in> frames p k \<Longrightarrow> head_at md q \<Longrightarrow> q = p"
proof -
  have k: "k < MAX_ORDER" and p: "p < length md"
    using assms(2) by (auto simp: placeable_def intro: less_le_trans [rotated])
  have m: "ord_at md q = k" "is_free (md ! q) = fr" "is_head (md ! q) \<longleftrightarrow> q = p"
    if "q \<in> frames p k" for q
    using assms(1) that unat_order [OF k] by (simp_all add: marked_def ord_at_def)
  show o: "ord_at md p = k" by (rule m(1)) simp
  show "head_at md p" "free_at md p \<longleftrightarrow> fr" using m(2,3) [of p] p by (simp_all add: head_at_def free_at_def)
  show "block_ok md p"
    unfolding block_ok_def o using assms(2) m m(2) [of p]
    by (simp add: placeable_def del: frames_iff)
  show "q = p" if "q \<in> frames p k" "head_at md q" for q
    using m(3) [OF that(1)] that(2) by (simp add: head_at_def)
qed

lemma blocks_ok_close:
  assumes "blocks_ok S md" "marked md p k fr" "placeable md p k" "frames p k \<subseteq> S"
  shows "blocks_ok (S - frames p k) md"
  unfolding blocks_ok_def
proof (intro allI impI)
  fix q
  assume q: "head_at md q" "q \<notin> S - frames p k"
  show "block_ok md q \<and> span md q \<inter> (S - frames p k) = {}"
  proof (cases "q \<in> S")
    case True
    then have "q = p" using q marked_at(5) [OF assms(2,3)] by blast
    then show ?thesis using marked_at(1,4) [OF assms(2,3)] by auto
  next
    case False
    then show ?thesis using blocks_okD [OF assms(1) q(1)] by blast
  qed
qed

lemma cover_ok_close:
  assumes "cover_ok S md" "marked md p k fr" "placeable md p k" "frames p k \<subseteq> S"
  shows "cover_ok (S - frames p k) md"
  unfolding cover_ok_def
proof (intro allI impI)
  fix q
  assume q: "free_at md q" "q \<notin> S - frames p k"
  show "\<exists>r. head_at md r \<and> r \<notin> S - frames p k \<and> q \<in> span md r"
  proof (cases "q \<in> S")
    case True
    then have "q \<in> frames p k" using q by blast
    then show ?thesis
      using marked_at(1,2) [OF assms(2,3)] by (intro exI [of _ p]) simp
  next
    case False
    then show ?thesis using cover_okD [OF assms(1) q(1)] by (metis DiffD1)
  qed
qed

lemma free_blocks_close:
  assumes "marked md p k fr" "placeable md p k" "frames p k \<subseteq> S"
  shows "free_blocks md (S - frames p k) j = free_blocks md S j \<union> (if fr \<and> j = k then {p} else {})"
  using marked_at [OF assms(1,2)] assms(3)
  by (auto simp: free_blocks_def simp del: frames_iff)

lemma close_allocated:
  assumes "wf_open S b" "marked (metadata b) p k False" "placeable (metadata b) p k"
    "frames p k \<subseteq> S"
  shows "wf_open (S - frames p k) b"
proof (rule wf_openI)
  note W = wf_openD [OF assms(1)]
  show "sizes_ok b" using assms(1) by (simp add: wf_open_def)
  show "blocks_ok (S - frames p k) (metadata b)" by (rule blocks_ok_close [OF W(4) assms(2-4)])
  show "cover_ok (S - frames p k) (metadata b)" by (rule cover_ok_close [OF W(5) assms(2-4)])
  show "list_ok (S - frames p k) b j" if "j < MAX_ORDER" for j
    using W(6) [OF that] free_blocks_close [OF assms(2-4), of j] by (simp add: list_ok_def)
qed

lemma close_free:
  assumes wf: "wf_open S b" and mark: "marked (metadata b) p k True"
    and pl: "placeable (metadata b) p k" and sub: "frames p k \<subseteq> S"
  shows "\<exists>b'. push_free p k b = Inr b' \<and> wf_open (S - frames p k) b' \<and>
    same_tags (metadata b) (metadata b') \<and> total_pages b' = total_pages b"
proof -
  note W = wf_openD [OF wf]
  have k: "k < MAX_ORDER" using pl by (simp add: placeable_def)
  have pS: "p \<in> S" using sub by auto
  obtain xs where xs: "chain (metadata b) None (free_heads b ! k) xs" "distinct xs"
    "set xs = free_blocks (metadata b) S k"
    using W(6) [OF k] by (rule list_okE)
  have pxs: "p \<notin> set xs" using xs(3) pS by (simp add: free_blocks_def)
  have p: "p < length (metadata b)" "is_free (metadata b ! p)"
    using marked_at(3) [OF mark pl] by (simp_all add: free_at_def)
  obtain md' where md': "push_free p k b = Inr (b\<lparr>metadata := md',
        free_heads := (free_heads b)[k := Some p]\<rparr>)"
    "same_tags (metadata b) md'" "page_next (md' ! p) = first_of xs" "page_prev (md' ! p) = None"
    "\<forall>x<length (metadata b). x \<noteq> p \<longrightarrow> page_next (md' ! x) = page_next (metadata b ! x) \<and>
      page_prev (md' ! x) = (if xs \<noteq> [] \<and> x = hd xs then Some p else page_prev (metadata b ! x))"
    using push_free_effect [OF xs(1) _ p(1) pxs p(2) chain_links_fit [OF wf xs(1)]] k W(1-3) p(1)
    by auto
  define b' where "b' = b\<lparr>metadata := md', free_heads := (free_heads b)[k := Some p]\<rparr>"
  have bound: "set xs \<subseteq> {..<length (metadata b)}" using xs(1) by (rule chain_bound)
  have "wf_open (S - frames p k) b'"
  proof (rule wf_openI)
    show "sizes_ok b'"
      using wf md'(2) by (auto simp: b'_def wf_open_def intro: sizes_ok_tags [of b])
    show "blocks_ok (S - frames p k) (metadata b')" "cover_ok (S - frames p k) (metadata b')"
      using blocks_ok_close [OF W(4) mark pl sub] cover_ok_close [OF W(5) mark pl sub] md'(2)
      by (simp_all add: b'_def blocks_ok_tags cover_ok_tags)
  next
    fix j assume j: "j < MAX_ORDER"
    show "list_ok (S - frames p k) b' j"
    proof (cases "j = k")
      case True
      have "chain md' None (Some p) (p # xs)"
      proof (rule chain_push [OF xs(1) pxs xs(2)])
        show "p < length md'" "length md' = length (metadata b)"
          using p(1) md'(2) by (simp_all add: same_tags_def)
        show "page_next (md' ! p) = free_heads b ! k" "page_prev (md' ! p) = None"
          using md'(3,4) chain_first [OF xs(1)] by simp_all
        fix x assume "x \<in> set xs"
        moreover have "x < length (metadata b)" "x \<noteq> p" using calculation bound pxs by auto
        ultimately show "page_next (md' ! x) = page_next (metadata b ! x)"
          "page_prev (md' ! x) = (if x = hd xs then Some p else page_prev (metadata b ! x))"
          using md'(5) by auto
      qed
      moreover have "set (p # xs) = free_blocks md' (S - frames p k) k"
        using xs(3) free_blocks_close [OF mark pl sub, of k] same_tags_at(3) [OF md'(2)] by auto
      ultimately show ?thesis
        using True xs(2) pxs k W(3) unfolding list_ok_def
        by (intro exI [of _ "p # xs"]) (simp add: b'_def)
    next
      case False
      have diff: "x \<notin> set xs \<and> x \<noteq> p" if "x \<in> free_blocks (metadata b) S j" for x
        using that False xs(3) pS by (auto simp: free_blocks_def)
      show ?thesis
      proof (rule other_list_ok [OF W(6) [OF j]])
        show "same_tags (metadata b) (metadata b')" "free_heads b' ! j = free_heads b ! j"
          using md'(2) False by (simp_all add: b'_def)
        show "free_blocks (metadata b) (S - frames p k) j = free_blocks (metadata b) S j"
          using free_blocks_close [OF mark pl sub, of j] False by simp
        fix x assume x: "x < length (metadata b)" "x \<in> free_blocks (metadata b) S j"
        have "\<not> (xs \<noteq> [] \<and> x = hd xs)" using diff [OF x(2)] by auto
        then show "page_next (metadata b' ! x) = page_next (metadata b ! x) \<and>
            page_prev (metadata b' ! x) = page_prev (metadata b ! x)"
          using md'(5) x(1) diff [OF x(2)] by (auto simp: b'_def)
      qed
    qed
  qed
  then show ?thesis using md'(1,2) by (auto simp: b'_def)
qed

section \<open>Marking loops followed by a close\<close>

definition tags_off :: "nat set \<Rightarrow> page_info list \<Rightarrow> page_info list \<Rightarrow> bool" where
  "tags_off F md md' \<longleftrightarrow> length md' = length md \<and>
     (\<forall>q<length md. q \<notin> F \<longrightarrow> pg_order (md' ! q) = pg_order (md ! q) \<and>
        is_head (md' ! q) = is_head (md ! q) \<and> is_free (md' ! q) = is_free (md ! q))"

lemma same_tags_imp_off: "same_tags md md' \<Longrightarrow> tags_off F md md'"
  by (simp add: same_tags_def tags_off_def)

lemma tags_off_trans: "tags_off F md md' \<Longrightarrow> tags_off G md' md'' \<Longrightarrow> tags_off (F \<union> G) md md''"
  by (simp add: tags_off_def)

lemma tags_off_mono: "tags_off F md md' \<Longrightarrow> F \<subseteq> G \<Longrightarrow> tags_off G md md'"
  by (auto simp: tags_off_def)

lemma mark_range:
  assumes wf: "wf_open S b" and pl: "placeable (metadata b) p k" and sub: "frames p k \<subseteq> S"
    and f: "\<And>i q. pg_order (f i q) = of_nat k" "\<And>i q. is_head (f i q) \<longleftrightarrow> i = 0"
      "\<And>i q. is_free (f i q) = fr"
  shows "\<exists>b'. for_pages f p [0..<2 ^ k] b = Inr b' \<and> wf_open S b' \<and> marked (metadata b') p k fr \<and>
    tags_off (frames p k) (metadata b) (metadata b') \<and> total_pages b' = total_pages b"
proof -
  obtain md where md: "for_pages f p [0..<2 ^ k] b = Inr (b\<lparr>metadata := md\<rparr>)"
    "length md = length (metadata b)"
    "\<forall>q<length (metadata b). md ! q =
      (if p \<le> q \<and> q < p + 2 ^ k then f (q - p) (metadata b ! q) else metadata b ! q)"
    using for_pages_eq [of p "2 ^ k" b f] pl by (auto simp: placeable_def)
  have out: "md ! q = metadata b ! q" if "q \<notin> S" "q < length (metadata b)" for q
    using md(2,3) sub that by auto
  have "wf_open S (b\<lparr>metadata := md\<rparr>)"
    by (rule wf_open_frame [OF wf out md(2)])
  moreover have "marked md p k fr"
    using md(2,3) pl f by (auto simp: marked_def placeable_def)
  moreover have "tags_off (frames p k) (metadata b) md"
    using md(2,3) by (auto simp: tags_off_def)
  ultimately show ?thesis using md(1) by auto
qed

lemma give_free_block:
  assumes wf: "wf_open S b" and pl: "placeable (metadata b) p k" and sub: "frames p k \<subseteq> S"
    and f: "\<And>i q. pg_order (f i q) = of_nat k" "\<And>i q. is_head (f i q) \<longleftrightarrow> i = 0"
      "\<And>i q. is_free (f i q)"
  shows "\<exists>b1 b'. for_pages f p [0..<2 ^ k] b = Inr b1 \<and> push_free p k b1 = Inr b' \<and>
    wf_open (S - frames p k) b' \<and> marked (metadata b') p k True \<and>
    tags_off (frames p k) (metadata b) (metadata b') \<and> total_pages b' = total_pages b"
proof -
  obtain b1 where b1: "for_pages f p [0..<2 ^ k] b = Inr b1" "wf_open S b1"
    "marked (metadata b1) p k True" "tags_off (frames p k) (metadata b) (metadata b1)"
    "total_pages b1 = total_pages b"
    using mark_range [OF wf pl sub, of f True] f by auto
  have pl1: "placeable (metadata b1) p k"
    using pl b1(4) by (simp add: placeable_def tags_off_def)
  obtain b' where b': "push_free p k b1 = Inr b'" "wf_open (S - frames p k) b'"
    "same_tags (metadata b1) (metadata b')" "total_pages b' = total_pages b1"
    using close_free [OF b1(2,3) pl1 sub] by blast
  have "marked (metadata b') p k True"
    using b1(3) b'(3) pl1 by (auto simp: marked_def same_tags_def placeable_def)
  moreover have "tags_off (frames p k) (metadata b) (metadata b')"
    using tags_off_trans [OF b1(4) same_tags_imp_off [OF b'(3), of "frames p k"]] by simp
  ultimately show ?thesis using b1 b' by auto
qed

end
