(* ===== verification/Buddy_Correct.thy ===== *)
theory Buddy_Correct
  imports Buddy_Steps
begin

text \<open>
  Correctness of \<open>allocate\<close>, \<open>allocate_below\<close> and \<open>deallocate\<close>: the invariant is kept, nothing
  panics or runs forever, and the sets of free pages and of allocated blocks change by exactly the
  block handed out or returned.
\<close>

unbundle bit_operations_syntax

definition alloc_blocks :: "buddy \<Rightarrow> (nat \<times> nat) set" where
  "alloc_blocks b = {(p, k). head_at (metadata b) p \<and> \<not> free_at (metadata b) p \<and>
     ord_at (metadata b) p = k}"

section \<open>Finding a free block\<close>

lemma find_free_eq:
  assumes "wf_open S b" and "k < MAX_ORDER"
  shows "\<exists>xs. find_free k pred b = Inr (find pred xs) \<and> set xs = free_blocks (metadata b) S k"
proof -
  obtain xs where xs: "chain (metadata b) None (free_heads b ! k) xs" "distinct xs"
    "set xs = free_blocks (metadata b) S k"
    using wf_openD(6) [OF assms] by (rule list_okE)
  have "card (set xs) \<le> card {..<length (metadata b)}"
    by (rule card_mono) (use chain_bound [OF xs(1)] in auto)
  then have "length xs < Suc (length (metadata b))"
    using distinct_card [OF xs(2)] by simp
  then have "find_free_loop (Suc (length (metadata b))) (metadata b) pred (free_heads b ! k) =
      Inr (find pred xs)"
    by (rule find_free_loop_eq [OF xs(1)])
  then have "find_free k pred b = Inr (find pred xs)"
    using assms(2) wf_openD(3) [OF assms(1)]
    by (simp add: find_free_def run_simps del: find_free_loop.simps)
  then show ?thesis using xs(3) by blast
qed

section \<open>Splitting\<close>

lemma placeable_half:
  assumes "placeable md p (Suc k)"
  shows "placeable md p k" and "placeable md (p + 2 ^ k) k"
  using assms by (auto simp: placeable_def dest: dvd_mult_left)

lemma split_block_correct:
  assumes "wf_open (frames p s) b" "placeable (metadata b) p s" "ord \<le> s"
  shows "\<exists>b'. split_block p ord s b = Inr b' \<and> wf_open (frames p ord) b' \<and>
    total_pages b' = total_pages b \<and> tags_off (frames p s) (metadata b) (metadata b') \<and>
    (\<forall>q \<in> frames p s - frames p ord. free_at (metadata b') q)"
  using assms
proof (induction s arbitrary: b)
  case 0
  then show ?case by (simp add: tags_off_def)
next
  case (Suc s)
  show ?case
  proof (cases "ord < Suc s")
    case False
    then have "ord = Suc s" using Suc.prems by simp
    then show ?thesis using Suc.prems by (simp add: tags_off_def)
  next
    case True
    let ?q = "p + 2 ^ s"
    have x: "p XOR 2 ^ s = ?q"
      using Suc.prems(2) by (intro xor_low) (simp add: placeable_def)
    note pl = placeable_half [OF Suc.prems(2)]
    have sub: "frames ?q s \<subseteq> frames p (Suc s)" and rest: "frames p (Suc s) - frames ?q s = frames p s"
      by auto
    obtain b1 b2 where b: "for_pages (\<lambda>i p. set_free True (set_head (i = 0) (set_order s p))) ?q
        [0..<2 ^ s] b = Inr b1" "push_free ?q s b1 = Inr b2" "wf_open (frames p s) b2"
      "marked (metadata b2) ?q s True" "tags_off (frames ?q s) (metadata b) (metadata b2)"
      "total_pages b2 = total_pages b"
      using give_free_block [OF Suc.prems(1) pl(2) sub,
          of "\<lambda>i p. set_free True (set_head (i = 0) (set_order s p))"] rest by auto
    have "placeable (metadata b2) p s"
      using pl(1) b(5) by (simp add: placeable_def tags_off_def)
    then obtain b' where b': "split_block p ord s b2 = Inr b'" "wf_open (frames p ord) b'"
      "total_pages b' = total_pages b2" "tags_off (frames p s) (metadata b2) (metadata b')"
      "\<forall>q \<in> frames p s - frames p ord. free_at (metadata b') q"
      using Suc.IH [OF b(3)] True by auto
    have "tags_off (frames p (Suc s)) (metadata b) (metadata b')"
      using tags_off_trans [OF b(5) b'(4)] by (rule tags_off_mono) auto
    moreover have "free_at (metadata b') q" if "q \<in> frames ?q s" for q
    proof -
      have "q < length (metadata b2)" "is_free (metadata b2 ! q)" "q \<notin> frames p s"
        using that b(4,5) pl(2) by (auto simp: marked_def placeable_def tags_off_def)
      then show ?thesis using b'(4) by (auto simp: tags_off_def free_at_def)
    qed
    then have "\<forall>q \<in> frames p (Suc s) - frames p ord. free_at (metadata b') q"
      using b'(5) by (metis DiffE DiffI UnE frames_split)
    ultimately show ?thesis
      using True x b b' by (simp add: Let_def)
  qed
qed

section \<open>Handing out a block\<close>

lemma upd_page_in_open:
  assumes "wf_open S b" "p \<in> S" "p < length (metadata b)"
  shows "\<exists>b'. upd_page p f b = Inr b' \<and> wf_open S b' \<and> total_pages b' = total_pages b \<and>
    length (metadata b') = length (metadata b) \<and>
    (\<forall>q. q \<noteq> p \<longrightarrow> metadata b' ! q = metadata b ! q)"
proof -
  have "wf_open S (b\<lparr>metadata := (metadata b)[p := f (metadata b ! p)]\<rparr>)"
    by (rule wf_open_frame [OF assms(1)]) (use assms(2,3) in \<open>auto simp: nth_list_update\<close>)
  then show ?thesis using assms(3) by (auto simp: run_simps)
qed

lemma free_block_frames:
  assumes "wf_open S b" "p \<in> free_blocks (metadata b) S k"
  shows "placeable (metadata b) p k" and "q \<in> frames p k \<Longrightarrow> free_at (metadata b) q"
    and "q \<in> frames p k \<Longrightarrow> head_at (metadata b) q \<Longrightarrow> q = p"
proof -
  have h: "head_at (metadata b) p" "p \<notin> S" "free_at (metadata b) p" "ord_at (metadata b) p = k"
    using assms(2) by (auto simp: free_blocks_def)
  note ok = blocks_okD(1) [OF wf_openD(4) [OF assms(1)] h(1,2)]
  show "placeable (metadata b) p k"
    using ok h(4) by (simp add: block_ok_def placeable_def)
  show "free_at (metadata b) q" if "q \<in> frames p k"
    using block_ok_span [OF ok, of q] that h(3,4) by (simp add: free_at_def)
  show "q = p" if "q \<in> frames p k" "head_at (metadata b) q"
    using block_ok_span(4) [OF ok, of q] that h(4) by (simp add: head_at_def)
qed

lemma take_block_correct:
  assumes inv: "buddy_inv b" and p: "p \<in> free_blocks (metadata b) {} k" and ord: "ord \<le> k"
  shows "\<exists>b'. take_block p k ord b = Inr (Some (p * PAGE_SIZE), b') \<and> buddy_inv b' \<and>
    total_pages b' = total_pages b \<and> tags_off (frames p k) (metadata b) (metadata b') \<and>
    marked (metadata b') p ord False \<and>
    (\<forall>q \<in> frames p k - frames p ord. free_at (metadata b') q)"
proof -
  have wf: "wf_open {} b" using inv by (simp add: buddy_inv_def)
  note fb = free_block_frames [OF wf p]
  obtain b0 where b0: "remove_from_free p k b = Inr b0" "wf_open (frames p k) b0"
    "same_tags (metadata b) (metadata b0)" "total_pages b0 = total_pages b"
    using take_free_block [OF wf p] by auto
  have p0: "p < length (metadata b0)" "p \<in> frames p k"
    using fb(2) [of p] b0(3) by (simp_all add: free_at_def same_tags_def)
  obtain b1 where b1: "upd_page p (set_free False) b0 = Inr b1" "wf_open (frames p k) b1"
    "total_pages b1 = total_pages b0" "length (metadata b1) = length (metadata b0)"
    "\<forall>q. q \<noteq> p \<longrightarrow> metadata b1 ! q = metadata b0 ! q"
    using upd_page_in_open [OF b0(2) p0(2,1)] by blast
  obtain b2 where b2: "upd_page p (set_next None) b1 = Inr b2" "wf_open (frames p k) b2"
    "total_pages b2 = total_pages b1" "length (metadata b2) = length (metadata b1)"
    "\<forall>q. q \<noteq> p \<longrightarrow> metadata b2 ! q = metadata b1 ! q"
    using upd_page_in_open [OF b1(2) p0(2)] p0(1) b1(4) by metis
  obtain b3 where b3: "upd_page p (set_prev None) b2 = Inr b3" "wf_open (frames p k) b3"
    "total_pages b3 = total_pages b2" "length (metadata b3) = length (metadata b2)"
    "\<forall>q. q \<noteq> p \<longrightarrow> metadata b3 ! q = metadata b2 ! q"
    using upd_page_in_open [OF b2(2) p0(2)] p0(1) b1(4) b2(4) by metis
  have off3: "tags_off (frames p k) (metadata b) (metadata b3)"
    unfolding tags_off_def
  proof (intro conjI allI impI)
    show "length (metadata b3) = length (metadata b)"
      using b0(3) b1(4) b2(4) b3(4) by (simp add: same_tags_def)
    fix q assume q: "q < length (metadata b)" "q \<notin> frames p k"
    then have "q \<noteq> p" by auto
    then have "metadata b3 ! q = metadata b0 ! q" using b1(5) b2(5) b3(5) by simp
    then show "pg_order (metadata b3 ! q) = pg_order (metadata b ! q)"
      "is_head (metadata b3 ! q) = is_head (metadata b ! q)"
      "is_free (metadata b3 ! q) = is_free (metadata b ! q)"
      using b0(3) q(1) by (simp_all add: same_tags_def)
  qed
  have pl3: "placeable (metadata b3) p k"
    using fb(1) off3 by (simp add: placeable_def tags_off_def)
  obtain b4 where b4: "split_block p ord k b3 = Inr b4" "wf_open (frames p ord) b4"
    "total_pages b4 = total_pages b3" "tags_off (frames p k) (metadata b3) (metadata b4)"
    "\<forall>q \<in> frames p k - frames p ord. free_at (metadata b4) q"
    using split_block_correct [OF b3(2) pl3 ord] by blast
  have pl4: "placeable (metadata b4) p ord"
    using placeable_mono [OF pl3 ord] b4(4) by (simp add: placeable_def tags_off_def)
  obtain b5 where b5: "for_pages (\<lambda>i p. set_head (i = 0) (set_free False (set_order ord p)))
      p [0..<2 ^ ord] b4 = Inr b5" "wf_open (frames p ord) b5" "marked (metadata b5) p ord False"
    "tags_off (frames p ord) (metadata b4) (metadata b5)" "total_pages b5 = total_pages b4"
    using mark_range [OF b4(2) pl4, of "\<lambda>i p. set_head (i = 0) (set_free False (set_order ord p))" False]
    by auto
  have pl5: "placeable (metadata b5) p ord"
    using pl4 b5(4) by (simp add: placeable_def tags_off_def)
  have "wf_open {} b5"
    using close_allocated [OF b5(2,3) pl5] by simp
  moreover have "mul_usize p PAGE_SIZE = Inr (p * PAGE_SIZE)"
    using p0(1) b0(3) wf_openD(1,2) [OF wf] by (simp add: mul_usize_def same_tags_def USIZE_MAX_def)
  then have "take_block p k ord b = Inr (Some (p * PAGE_SIZE), b5)"
    using b0(1) b1(1) b2(1) b3(1) b4(1) b5(1) by (simp add: take_block_def)
  moreover have sub: "frames p ord \<subseteq> frames p k"
    by (rule frames_mono [OF ord])
  have "tags_off (frames p k) (metadata b) (metadata b5)"
    using tags_off_trans [OF off3 tags_off_trans [OF b4(4) b5(4)]] sub by (simp add: Un_absorb2)
  moreover have "\<forall>q \<in> frames p k - frames p ord. free_at (metadata b5) q"
    using b4(5) b5(4) by (auto simp: tags_off_def free_at_def simp del: frames_iff)
  ultimately show ?thesis
    using b5(3,5) b4(3) b3(3) b2(3) b1(3) b0(4) by (auto simp: buddy_inv_def)
qed

lemma take_block_sets:
  assumes inv: "buddy_inv b" and p: "p \<in> free_blocks (metadata b) {} k" and ord: "ord \<le> k"
    and off: "tags_off (frames p k) (metadata b) (metadata b')"
    and mark: "marked (metadata b') p ord False"
    and rest: "\<forall>q \<in> frames p k - frames p ord. free_at (metadata b') q"
  shows "frames p ord \<subseteq> free_pages b" and "free_pages b' = free_pages b - frames p ord"
    and "alloc_blocks b' = insert (p, ord) (alloc_blocks b)" and "2 ^ ord dvd p"
proof -
  have wf: "wf_open {} b" using inv by (simp add: buddy_inv_def)
  note fb = free_block_frames [OF wf p]
  have sub: "frames p ord \<subseteq> frames p k"
    by (rule frames_mono [OF ord])
  show "frames p ord \<subseteq> free_pages b" using fb(2) sub by (auto simp: free_pages_def)
  show "2 ^ ord dvd p"
    using placeable_mono [OF fb(1) ord] by (simp add: placeable_def)
  have pl: "placeable (metadata b') p ord"
    using placeable_mono [OF fb(1) ord] off by (simp add: placeable_def tags_off_def)
  have same: "free_at (metadata b') q = free_at (metadata b) q"
    "head_at (metadata b') q = head_at (metadata b) q"
    "q < length (metadata b) \<Longrightarrow> ord_at (metadata b') q = ord_at (metadata b) q"
    if "q \<notin> frames p k" for q
    using off that by (auto simp: tags_off_def free_at_def head_at_def ord_at_def)
  have nf: "\<not> free_at (metadata b') q" if "q \<in> frames p ord" for q
    using mark that by (auto simp: marked_def free_at_def)
  show "free_pages b' = free_pages b - frames p ord"
  proof (rule set_eqI)
    fix q
    consider "q \<notin> frames p k" | "q \<in> frames p k - frames p ord" | "q \<in> frames p ord" by blast
    then show "q \<in> free_pages b' \<longleftrightarrow> q \<in> free_pages b - frames p ord"
      using same(1) [of q] rest fb(2) [of q] nf sub by cases (auto simp: free_pages_def)
  qed
  have "(q, j) \<in> alloc_blocks b' \<longleftrightarrow> (q, j) \<in> insert (p, ord) (alloc_blocks b)" for q j
  proof -
    consider "q \<notin> frames p k" | "q \<in> frames p k - frames p ord" | "q \<in> frames p ord" by blast
    then show ?thesis
    proof cases
      case 1
      then have "q \<noteq> p" by auto
      then show ?thesis using same [OF 1] by (auto simp: alloc_blocks_def head_at_def)
    next
      case 2
      then have "q \<noteq> p" by auto
      then show ?thesis using 2 rest fb(2) [of q] by (auto simp: alloc_blocks_def)
    next
      case 3
      then show ?thesis
        using nf [OF 3] marked_at(1,2) [OF mark pl] marked_at(5) [OF mark pl 3] fb(2) [of q] sub
        by (auto simp: alloc_blocks_def)
    qed
  qed
  then show "alloc_blocks b' = insert (p, ord) (alloc_blocks b)" by auto
qed

text \<open>What a successful allocation of \<open>2 ^ ord\<close> pages does.\<close>

definition alloc_step :: "nat \<Rightarrow> nat \<Rightarrow> buddy \<Rightarrow> buddy \<Rightarrow> bool" where
  "alloc_step ord pfn b b' \<longleftrightarrow> buddy_inv b' \<and> total_pages b' = total_pages b \<and>
     2 ^ ord dvd pfn \<and> frames pfn ord \<subseteq> free_pages b \<and>
     free_pages b' = free_pages b - frames pfn ord \<and>
     alloc_blocks b' = insert (pfn, ord) (alloc_blocks b)"

lemma allocate_scan_correct:
  assumes inv: "buddy_inv b" and "\<forall>q \<in> set qs. ord \<le> q \<and> q < MAX_ORDER"
  shows "(\<exists>p b'. allocate_scan pred ord qs b = Inr (Some (p * PAGE_SIZE), b') \<and> pred p \<and>
      alloc_step ord p b b') \<or>
    (allocate_scan pred ord qs b = Inr (None, b) \<and>
      (\<forall>q \<in> set qs. \<forall>p \<in> free_blocks (metadata b) {} q. \<not> pred p))"
  using assms(2)
proof (induction qs)
  case Nil
  then show ?case by simp
next
  case (Cons q qs)
  have wf: "wf_open {} b" using inv by (simp add: buddy_inv_def)
  obtain xs where xs: "find_free q pred b = Inr (find pred xs)"
    "set xs = free_blocks (metadata b) {} q"
    using find_free_eq [OF wf, of q pred] Cons.prems by auto
  show ?case
  proof (cases "find pred xs")
    case None
    then have "\<forall>p \<in> free_blocks (metadata b) {} q. \<not> pred p"
      using xs(2) by (auto simp: find_None_iff)
    then show ?thesis using Cons None xs(1) by auto
  next
    case (Some p)
    then have p: "p \<in> free_blocks (metadata b) {} q" "pred p"
      using xs(2) by (auto simp: find_Some_iff)
    have "ord \<le> q" using Cons.prems by simp
    then show ?thesis
      using take_block_correct [OF inv p(1)] take_block_sets [OF inv p(1)] Some xs(1) p(2)
      by (fastforce simp: alloc_step_def)
  qed
qed

lemma allocate_where_correct:
  assumes "buddy_inv b"
  shows "(\<exists>p b'. allocate_where ord pred b = Inr (Some (p * PAGE_SIZE), b') \<and> pred p \<and>
      alloc_step ord p b b') \<or>
    (allocate_where ord pred b = Inr (None, b) \<and>
      (\<forall>q<MAX_ORDER. ord \<le> q \<longrightarrow> (\<forall>p \<in> free_blocks (metadata b) {} q. \<not> pred p)))"
proof (cases "MAX_ORDER \<le> ord")
  case True
  then show ?thesis by (simp add: allocate_where_def)
next
  case False
  then show ?thesis
    using allocate_scan_correct [OF assms, of "[ord..<MAX_ORDER]" ord pred]
    by (fastforce simp: allocate_where_def)
qed

end
