(* ===== verification/Buddy_Dealloc.thy ===== *)
theory Buddy_Dealloc
  imports Buddy_Correct
begin

text \<open>
  Correctness of \<open>deallocate\<close> (merging with free buddies, the two assertions), and the interface
  of the page allocator as a locale, interpreted on the buddy allocator.
\<close>

unbundle bit_operations_syntax

section \<open>Merging\<close>

lemma placeable_merge:
  assumes "placeable md p k" "placeable md q k" "q = p XOR 2 ^ k" "Suc k < MAX_ORDER"
  shows "placeable md (min p q) (Suc k)"
proof -
  have d: "2 ^ k dvd p" using assms(1) by (simp add: placeable_def)
  note m = buddy_merge [OF d, folded assms(3)]
  have "frames p k \<union> frames q k \<subseteq> {..<length md}"
    using assms(1,2) by (auto simp: placeable_def)
  moreover have "(1::nat) \<le> 2 ^ Suc k" by simp
  then have "min p q + 2 ^ Suc k - 1 \<in> frames (min p q) (Suc k)"
    unfolding frames_iff by linarith
  ultimately have "min p q + 2 ^ Suc k - 1 < length md" using m(1) by (metis lessThan_iff subsetD)
  then show ?thesis using m(3) assms(4) by (simp add: placeable_def)
qed

lemma same_tags_trans: "same_tags a b \<Longrightarrow> same_tags b c \<Longrightarrow> same_tags a c"
  by (simp add: same_tags_def)

lemma merge_up_correct:
  assumes "wf_open (frames p k) b" "placeable (metadata b) p k"
  shows "\<exists>k' p' b'. merge_up k p b = Inr (k', p', b') \<and> wf_open (frames p' k') b' \<and>
    placeable (metadata b') p' k' \<and> same_tags (metadata b) (metadata b') \<and>
    total_pages b' = total_pages b \<and> frames p k \<subseteq> frames p' k' \<and>
    (\<forall>q \<in> frames p' k' - frames p k. free_at (metadata b) q)"
  using assms
proof (induction k p b rule: merge_up.induct)
  case (1 k p b)
  let ?q = "p XOR 2 ^ k" and ?md = "metadata b"
  have stop: ?case if "merge_up k p b = Inr (k, p, b)"
    using that "1.prems" by simp
  show ?case
  proof (cases "\<not> MAX_ORDER \<le> k + 1 \<and> \<not> total_pages b \<le> ?q \<and>
      is_free (?md ! ?q) \<and> ord_at ?md ?q = k \<and> is_head (?md ! ?q)")
    case False
    have "length ?md = total_pages b" using wf_openD(1) [OF "1.prems"(1)] .
    then have "merge_up k p b = Inr (k, p, b)"
      using False by (auto simp: merge_up.simps [of k p b] Let_def run_simps ord_at_def)
    then show ?thesis by (rule stop)
  next
    case True
    have q: "?q < length ?md" using True wf_openD(1) [OF "1.prems"(1)] by simp
    have d: "2 ^ k dvd p" using "1.prems"(2) by (simp add: placeable_def)
    note m = buddy_merge [OF d]
    have "?q \<notin> frames p k" using m(2) by (metis disjoint_iff head_in_frames)
    then have fb: "?q \<in> free_blocks ?md (frames p k) k"
      using True q by (simp add: free_blocks_def head_at_def free_at_def)
    obtain b1 where b1: "remove_from_free ?q k b = Inr b1" "wf_open (frames p k \<union> frames ?q k) b1"
      "same_tags ?md (metadata b1)" "total_pages b1 = total_pages b"
      using take_free_block [OF "1.prems"(1) fb] by blast
    note fr = free_block_frames [OF "1.prems"(1) fb]
    have "placeable ?md (min p ?q) (Suc k)"
      using placeable_merge [OF "1.prems"(2) fr(1)] True by simp
    then have pl: "placeable (metadata b1) (min p ?q) (k + 1)"
      using b1(3) by (simp add: placeable_def same_tags_def)
    have wf1: "wf_open (frames (min p ?q) (k + 1)) b1" using b1(2) m(1) by simp
    have step: "merge_up k p b = merge_up (k + 1) (min p ?q) b1"
      using True q b1(1) by (simp add: merge_up.simps [of k p b] Let_def run_simps ord_at_def)
    obtain k' p' b' where ih: "merge_up (k + 1) (min p ?q) b1 = Inr (k', p', b')"
      "wf_open (frames p' k') b'" "placeable (metadata b') p' k'"
      "same_tags (metadata b1) (metadata b')" "total_pages b' = total_pages b1"
      "frames (min p ?q) (k + 1) \<subseteq> frames p' k'"
      "\<forall>q \<in> frames p' k' - frames (min p ?q) (k + 1). free_at (metadata b1) q"
      using "1.IH" [of ?q "?md ! ?q" b1] True q b1(1) wf1 pl
      by (auto simp: run_simps ord_at_def simp del: frames_iff)
    have "free_at ?md r" if "r \<in> frames p' k' - frames p k" for r
      using that ih(7) same_tags_at(2) [OF b1(3)] fr(2) m(1) by (metis Diff_iff Suc_eq_plus1 UnE)
    moreover have "frames p k \<subseteq> frames p' k'" using ih(6) m(1) by auto
    ultimately show ?thesis
      using step ih b1(3,4) same_tags_trans [OF b1(3) ih(4)] by (simp del: frames_iff)
  qed
qed

section \<open>Returning a block\<close>

definition dealloc_step :: "nat \<Rightarrow> nat \<Rightarrow> buddy \<Rightarrow> buddy \<Rightarrow> bool" where
  "dealloc_step k p b b' \<longleftrightarrow> buddy_inv b' \<and> total_pages b' = total_pages b \<and>
     free_pages b' = free_pages b \<union> frames p k \<and> frames p k \<inter> free_pages b = {} \<and>
     alloc_blocks b' = alloc_blocks b - {(p, k)}"

lemma alloc_block_frames:
  assumes "buddy_inv b" "(p, k) \<in> alloc_blocks b"
  shows "placeable (metadata b) p k" and "q \<in> frames p k \<Longrightarrow> \<not> free_at (metadata b) q"
    and "q \<in> frames p k \<Longrightarrow> head_at (metadata b) q \<Longrightarrow> q = p"
    and "head_at (metadata b) p" and "ord_at (metadata b) p = k"
proof -
  have h: "head_at (metadata b) p" "\<not> free_at (metadata b) p" "ord_at (metadata b) p = k"
    using assms(2) by (auto simp: alloc_blocks_def)
  have wf: "wf_open {} b" using assms(1) by (simp add: buddy_inv_def)
  note ok = blocks_okD(1) [OF wf_openD(4) [OF wf] h(1)]
  show "placeable (metadata b) p k" using ok h(3) by (simp add: block_ok_def placeable_def)
  show "\<not> free_at (metadata b) q" if "q \<in> frames p k"
    using block_ok_span [OF ok, of q] that h by (simp add: free_at_def head_at_def)
  show "q = p" if "q \<in> frames p k" "head_at (metadata b) q"
    using block_ok_span(4) [OF ok, of q] that h(3) by (simp add: head_at_def)
  show "head_at (metadata b) p" "ord_at (metadata b) p = k" using h by simp_all
qed

lemma deallocate_block:
  assumes inv: "buddy_inv b" and p: "(p, k) \<in> alloc_blocks b" and addr: "addr div PAGE_SIZE = p"
  shows "\<exists>b'. deallocate addr b = Inr b' \<and> dealloc_step k p b b' \<and>
    (\<forall>q \<in> frames p k. free_at (metadata b') q)"
proof -
  have wf: "wf_open {} b" using inv by (simp add: buddy_inv_def)
  note ab = alloc_block_frames [OF inv p]
  have nf: "\<not> free_at (metadata b) p" using ab(2) [of p] by simp
  have "wf_open (frames p k) b"
    using open_allocated [OF wf ab(4)] nf ab(5) by simp
  then obtain k' p' b1 where m: "merge_up k p b = Inr (k', p', b1)" "wf_open (frames p' k') b1"
    "placeable (metadata b1) p' k'" "same_tags (metadata b) (metadata b1)"
    "total_pages b1 = total_pages b" "frames p k \<subseteq> frames p' k'"
    "\<forall>q \<in> frames p' k' - frames p k. free_at (metadata b) q"
    using merge_up_correct [OF _ ab(1)] by blast
  obtain b2 b' where g: "for_pages (\<lambda>i p. set_head (i = 0) (set_free True (set_order k' p))) p'
      [0..<2 ^ k'] b1 = Inr b2" "push_free p' k' b2 = Inr b'" "wf_open {} b'"
    "marked (metadata b') p' k' True" "tags_off (frames p' k') (metadata b1) (metadata b')"
    "total_pages b' = total_pages b1"
    using give_free_block [OF m(2,3), of "\<lambda>i p. set_head (i = 0) (set_free True (set_order k' p))"]
    by auto
  have run: "deallocate addr b = Inr b'"
    using ab(4,5) nf m(1) g(1,2) addr
    by (simp add: deallocate_def Let_def run_simps head_at_def free_at_def ord_at_def)
  have pl: "placeable (metadata b') p' k'"
    using m(3) g(5) by (simp add: placeable_def tags_off_def)
  have inside: "free_at (metadata b') q" if "q \<in> frames p' k'" for q
    using g(4) pl that by (auto simp: marked_def placeable_def free_at_def)
  have outside: "free_at (metadata b') q = free_at (metadata b) q"
    "head_at (metadata b') q = head_at (metadata b) q"
    "q < length (metadata b) \<Longrightarrow> ord_at (metadata b') q = ord_at (metadata b) q"
    if "q \<notin> frames p' k'" for q
    using g(5) m(4) that by (auto simp: tags_off_def same_tags_def free_at_def head_at_def ord_at_def)
  have "free_pages b' = free_pages b \<union> frames p k"
  proof (rule set_eqI)
    fix q
    consider "q \<notin> frames p' k'" | "q \<in> frames p' k' - frames p k" | "q \<in> frames p k" by blast
    then show "q \<in> free_pages b' \<longleftrightarrow> q \<in> free_pages b \<union> frames p k"
      using outside(1) [of q] inside [of q] m(6,7) by cases (auto simp: free_pages_def)
  qed
  moreover have "frames p k \<inter> free_pages b = {}"
    using ab(2) by (auto simp: free_pages_def simp del: frames_iff)
  moreover have "(q, j) \<in> alloc_blocks b' \<longleftrightarrow> (q, j) \<in> alloc_blocks b - {(p, k)}" for q j
  proof (cases "q \<in> frames p' k'")
    case True
    moreover have "free_at (metadata b) q \<or> (head_at (metadata b) q \<longrightarrow> q = p)"
      using True m(7) ab(3) by blast
    ultimately show ?thesis using inside ab(5) by (auto simp: alloc_blocks_def)
  next
    case False
    moreover have "q \<noteq> p" using False m(6) head_in_frames [of p k] by blast
    ultimately show ?thesis using outside [OF False] by (auto simp: alloc_blocks_def head_at_def)
  qed
  then have "alloc_blocks b' = alloc_blocks b - {(p, k)}" by auto
  ultimately show ?thesis
    using run g(3,6) m(5,6) inside by (auto simp: dealloc_step_def buddy_inv_def)
qed

lemma deallocate_fails:
  assumes inv: "buddy_inv b" and no: "\<And>k. (addr div PAGE_SIZE, k) \<notin> alloc_blocks b"
  shows "deallocate addr b =
    Inl (if total_pages b \<le> addr div PAGE_SIZE then OutOfBounds
         else if head_at (metadata b) (addr div PAGE_SIZE) then Assertion ''double free''
         else Assertion ''must free block head'')"
proof -
  let ?p = "addr div PAGE_SIZE"
  have len: "length (metadata b) = total_pages b"
    using inv wf_openD(1) by (simp add: buddy_inv_def)
  have "head_at (metadata b) ?p \<Longrightarrow> free_at (metadata b) ?p"
    using no by (auto simp: alloc_blocks_def)
  then show ?thesis
    by (auto simp: deallocate_def Let_def index_def guard_def len head_at_def free_at_def)
qed

section \<open>The page allocator as an interface\<close>

text \<open>
  What the rest of the kernel relies on: \<open>alloc\<close> and \<open>dealloc\<close> keep the invariant, \<open>alloc\<close> hands
  out pages that were free and takes exactly those, \<open>dealloc\<close> gives exactly the block back.
\<close>

locale page_allocator =
  fixes inv :: "'s \<Rightarrow> bool"
    and free :: "'s \<Rightarrow> nat set"
    and live :: "'s \<Rightarrow> (nat \<times> nat) set"
    and alloc :: "nat \<Rightarrow> nat \<Rightarrow> 's \<Rightarrow> (nat option \<times> 's) run"
    and dealloc :: "nat \<Rightarrow> 's \<Rightarrow> 's run"
  assumes alloc_total: "inv s \<Longrightarrow> \<exists>r. alloc k lim s = Inr r"
    and alloc_none: "inv s \<Longrightarrow> alloc k lim s = Inr (None, s') \<Longrightarrow> s' = s"
    and alloc_some: "inv s \<Longrightarrow> alloc k lim s = Inr (Some a, s') \<Longrightarrow>
      inv s' \<and> (\<exists>p. a = p * PAGE_SIZE \<and> a + 2 ^ k * PAGE_SIZE \<le> lim \<and> 2 ^ k dvd p \<and>
        {p..<p + 2 ^ k} \<subseteq> free s \<and> free s' = free s - {p..<p + 2 ^ k} \<and>
        live s' = insert (p, k) (live s))"
    and live_busy: "inv s \<Longrightarrow> (p, k) \<in> live s \<Longrightarrow> {p..<p + 2 ^ k} \<inter> free s = {}"
    and live_disjoint: "inv s \<Longrightarrow> (p, k) \<in> live s \<Longrightarrow> (q, j) \<in> live s \<Longrightarrow> (p, k) \<noteq> (q, j) \<Longrightarrow>
      {p..<p + 2 ^ k} \<inter> {q..<q + 2 ^ j} = {}"
    and dealloc_live: "inv s \<Longrightarrow> (p, k) \<in> live s \<Longrightarrow>
      \<exists>s'. dealloc (p * PAGE_SIZE) s = Inr s' \<and> inv s' \<and>
        free s' = free s \<union> {p..<p + 2 ^ k} \<and> live s' = live s - {(p, k)}"
begin

text \<open>A block just handed out overlaps no block handed out before and not yet returned.\<close>

lemma alloc_fresh:
  assumes "inv s" "alloc k lim s = Inr (Some a, s')" "(q, j) \<in> live s"
  shows "{a div PAGE_SIZE..<a div PAGE_SIZE + 2 ^ k} \<inter> {q..<q + 2 ^ j} = {}"
proof -
  obtain p where p: "a = p * PAGE_SIZE" "{p..<p + 2 ^ k} \<subseteq> free s"
    using alloc_some [OF assms(1,2)] by blast
  then have "a div PAGE_SIZE = p" by simp
  then show ?thesis using live_busy [OF assms(1,3)] p(2) by blast
qed

text \<open>Returning a block restores the free pages and the live blocks it came from.\<close>

lemma alloc_dealloc:
  assumes "inv s" "alloc k lim s = Inr (Some a, s')"
  shows "\<exists>s''. dealloc a s' = Inr s'' \<and> inv s'' \<and> free s'' = free s \<and> live s'' = live s"
proof -
  obtain p where p: "inv s'" "a = p * PAGE_SIZE" "{p..<p + 2 ^ k} \<subseteq> free s"
    "free s' = free s - {p..<p + 2 ^ k}" "live s' = insert (p, k) (live s)"
    using alloc_some [OF assms] by blast
  have "p \<in> {p..<p + 2 ^ k}" by simp
  then have new: "(p, k) \<notin> live s" using live_busy [OF assms(1)] p(3) by blast
  obtain s'' where s'': "dealloc a s' = Inr s''" "inv s''"
    "free s'' = free s' \<union> {p..<p + 2 ^ k}" "live s'' = live s' - {(p, k)}"
    using dealloc_live [OF p(1), of p k] p(2,5) by auto
  then show ?thesis using p(3,4,5) new by auto
qed

end

lemma block_below_iff:
  "block_below k lim p \<longleftrightarrow>
     p * PAGE_SIZE + 2 ^ k * PAGE_SIZE \<le> lim \<and> p * PAGE_SIZE + 2 ^ k * PAGE_SIZE \<le> USIZE_MAX"
  by (auto simp: block_below_def checked_add_def)

lemma allocate_below_cases:
  assumes "buddy_inv b"
  obtains p b' where "allocate_below k lim b = Inr (Some (p * PAGE_SIZE), b')"
      and "p * PAGE_SIZE + 2 ^ k * PAGE_SIZE \<le> lim" and "alloc_step k p b b'"
  | "allocate_below k lim b = Inr (None, b)"
  using allocate_where_correct [OF assms, of k "block_below k lim"]
  by (auto simp: allocate_below_def block_below_iff)

lemma allocate_cases:
  assumes "buddy_inv b"
  obtains p b' where "allocate k b = Inr (Some (p * PAGE_SIZE), b')" and "alloc_step k p b b'"
  | "allocate k b = Inr (None, b)"
    and "\<forall>q<MAX_ORDER. k \<le> q \<longrightarrow> free_blocks (metadata b) {} q = {}"
  using allocate_where_correct [OF assms, of k "\<lambda>_. True"]
  by (auto simp: allocate_def)

lemma alloc_blocks_disjoint:
  assumes "buddy_inv b" "(p, k) \<in> alloc_blocks b" "(q, j) \<in> alloc_blocks b" "(p, k) \<noteq> (q, j)"
  shows "frames p k \<inter> frames q j = {}"
proof -
  have wf: "wf_open {} b" using assms(1) by (simp add: buddy_inv_def)
  note a = alloc_block_frames [OF assms(1,2)] and c = alloc_block_frames [OF assms(1,3)]
  have "p \<noteq> q" using assms(4) a(5) c(5) by auto
  then have "span (metadata b) p \<inter> span (metadata b) q = {}"
    using blocks_okD(1) [OF wf_openD(4) [OF wf]] a(4) c(4) by (intro blocks_disjoint) auto
  then show ?thesis using a(5) c(5) by simp
qed

interpretation frame_source: page_allocator buddy_inv free_pages alloc_blocks allocate_below deallocate
proof unfold_locales
  fix s s' :: buddy and k lim a
  assume inv: "buddy_inv s"
  show "\<exists>r. allocate_below k lim s = Inr r"
    by (rule allocate_below_cases [OF inv, of k lim]) auto
  show "s' = s" if "allocate_below k lim s = Inr (None, s')"
    by (rule allocate_below_cases [OF inv, of k lim]) (use that in auto)
  show "buddy_inv s' \<and> (\<exists>p. a = p * PAGE_SIZE \<and> a + 2 ^ k * PAGE_SIZE \<le> lim \<and> 2 ^ k dvd p \<and>
      {p..<p + 2 ^ k} \<subseteq> free_pages s \<and> free_pages s' = free_pages s - {p..<p + 2 ^ k} \<and>
      alloc_blocks s' = insert (p, k) (alloc_blocks s))"
    if "allocate_below k lim s = Inr (Some a, s')"
    by (rule allocate_below_cases [OF inv, of k lim])
      (use that in \<open>auto simp: alloc_step_def frames_def\<close>)
next
  fix s :: buddy and p k q j
  assume inv: "buddy_inv s" and p: "(p, k) \<in> alloc_blocks s"
  show "{p..<p + 2 ^ k} \<inter> free_pages s = {}"
    using alloc_block_frames(2) [OF inv p] by (auto simp: free_pages_def)
  show "{p..<p + 2 ^ k} \<inter> {q..<q + 2 ^ j} = {}" if "(q, j) \<in> alloc_blocks s" "(p, k) \<noteq> (q, j)"
    using alloc_blocks_disjoint [OF inv p that] by (simp add: frames_def)
  show "\<exists>s'. deallocate (p * PAGE_SIZE) s = Inr s' \<and> buddy_inv s' \<and>
      free_pages s' = free_pages s \<union> {p..<p + 2 ^ k} \<and> alloc_blocks s' = alloc_blocks s - {(p, k)}"
    using deallocate_block [OF inv p, of "p * PAGE_SIZE"] by (auto simp: dealloc_step_def frames_def)
qed

end
