(* ===== verification/Buddy_Init.thy ===== *)
theory Buddy_Init
  imports Buddy_Dealloc
begin

text \<open>
  Construction of the buddy allocator from the memory map: \<open>add_region\<close> turns exactly the usable
  whole pages of a region into free blocks, and \<open>buddy_new\<close> starts from an allocator that manages
  nothing.
\<close>

unbundle bit_operations_syntax

section \<open>Counting zero bits\<close>

lemma trailing_zeros_dvd:
  assumes "k \<le> trailing_zeros n" shows "2 ^ k dvd n"
proof -
  have "\<not> bit n i" if "i < k" for i
  proof -
    let ?w = "takeWhile (\<lambda>i. \<not> bit n i) [0..<64]"
    have i: "i < length ?w" using that assms by (simp add: trailing_zeros_def)
    then have "i < 64" using length_takeWhile_le [of "\<lambda>i. \<not> bit n i" "[0..<64]"] by simp
    then have "?w ! i = i" using i by (simp add: takeWhile_nth)
    then show ?thesis using nth_mem [OF i] set_takeWhileD by metis
  qed
  then have "take_bit k n = 0" by (intro bit_eqI) (auto simp: bit_take_bit_iff)
  then show ?thesis by (simp add: take_bit_eq_0_iff)
qed

lemma bit_imp_le: "bit (n::nat) k \<Longrightarrow> 2 ^ k \<le> n"
proof (rule ccontr)
  assume "bit n k" "\<not> 2 ^ k \<le> n"
  then have "n div 2 ^ k = 0" by simp
  then show False using \<open>bit n k\<close> by (simp add: bit_iff_odd)
qed

lemma length_takeWhile_less_ex:
  assumes "\<not> P x" "x \<in> set xs" shows "length (takeWhile P xs) < length xs"
proof -
  have "takeWhile P xs \<noteq> xs" using assms by (auto simp: takeWhile_eq_all_conv)
  then show ?thesis
    using length_takeWhile_le [of P xs] takeWhile_eq_take [of P xs] by (cases "length (takeWhile P xs) = length xs") auto
qed

lemma leading_zeros_le:
  assumes "0 < n" "n \<le> USIZE_MAX"
  shows "2 ^ (64 - 1 - leading_zeros n) \<le> n"
proof -
  let ?P = "\<lambda>i. \<not> bit n (63 - i)"
  have "\<exists>k. bit n k"
  proof (rule ccontr)
    assume "\<nexists>k. bit n k"
    then have "n = 0" by (intro bit_eqI) simp
    then show False using assms(1) by simp
  qed
  then obtain k where k: "bit n k" ..
  have "k < 64"
  proof (rule ccontr)
    assume "\<not> k < 64"
    then have "(2::nat) ^ 64 \<le> 2 ^ k" by (intro power_increasing) simp_all
    then show False using bit_imp_le [OF k] assms(2) by (simp add: USIZE_MAX_def)
  qed
  then have "\<not> ?P (63 - k)" "63 - k \<in> set [0..<64]" using k by auto
  then have lt: "length (takeWhile ?P [0..<64]) < length [0..<64]"
    by (rule length_takeWhile_less_ex)
  then have "bit n (63 - leading_zeros n)"
    using nth_length_takeWhile [OF lt] by (simp add: leading_zeros_def)
  then show ?thesis using bit_imp_le by simp
qed

lemma trailing_zeros_ge:
  assumes "2 ^ k dvd n" "k \<le> 64" shows "k \<le> trailing_zeros n"
proof -
  have "\<not> bit n i" if "i < k" for i
    using assms(1) that by (metis bit_take_bit_iff take_bit_eq_0_iff bit_0_eq bot_apply bot_bool_def)
  then have "\<forall>i\<in>set [0..<k]. \<not> bit n i" by simp
  then have "takeWhile (\<lambda>i. \<not> bit n i) ([0..<k] @ [k..<64]) = [0..<k] @ takeWhile (\<lambda>i. \<not> bit n i) [k..<64]"
    by (intro takeWhile_append2) blast
  moreover have "[0..<64] = [0..<k] @ [k..<64]" using upt_add_eq_append [of 0 k "64 - k"] assms(2) by simp
  ultimately show ?thesis by (simp add: trailing_zeros_def)
qed

lemma leading_zeros_ge:
  assumes "2 ^ k \<le> n" "n \<le> USIZE_MAX"
  shows "k \<le> 64 - 1 - leading_zeros n"
proof -
  have "\<exists>j\<ge>k. bit n j"
  proof (rule ccontr)
    assume "\<not> (\<exists>j\<ge>k. bit n j)"
    then have "take_bit k n = n" by (intro bit_eqI) (auto simp: bit_take_bit_iff not_le)
    then show False using assms(1) take_bit_nat_less_exp [of k n] by simp
  qed
  then obtain j where j: "k \<le> j" "bit n j" by blast
  have "j < 64"
  proof (rule ccontr)
    assume "\<not> j < 64"
    then have "(2::nat) ^ 64 \<le> 2 ^ j" by (intro power_increasing) simp_all
    then show False using bit_imp_le [OF j(2)] assms(2) by (simp add: USIZE_MAX_def)
  qed
  have "leading_zeros n \<le> 63 - j"
  proof (rule ccontr)
    assume "\<not> leading_zeros n \<le> 63 - j"
    then have lt: "63 - j < length (takeWhile (\<lambda>i. \<not> bit n (63 - i)) [0..<64])" by (simp add: leading_zeros_def)
    have "63 - j < 64" by simp
    then have "takeWhile (\<lambda>i. \<not> bit n (63 - i)) [0..<64] ! (63 - j) = 63 - j"
      using takeWhile_nth [OF lt] by (simp del: upt_rec_numeral)
    then have "\<not> bit n (63 - (63 - j))" using nth_mem [OF lt] set_takeWhileD by metis
    then show False using j(2) \<open>j < 64\<close> by simp
  qed
  then show ?thesis using j(1) \<open>j < 64\<close> by linarith
qed

section \<open>Rounding to pages\<close>

lemma page_align_down_eq:
  "a \<le> USIZE_MAX \<Longrightarrow> page_align_down a PAGE_SIZE = a - a mod PAGE_SIZE"
  using and_not_mask [of 12 a] by (simp add: page_align_down_def)

lemma page_align_up_eq:
  assumes "a + PAGE_SIZE \<le> USIZE_MAX"
  shows "\<exists>c. page_align_up a PAGE_SIZE = Inr c \<and> PAGE_SIZE dvd c \<and> a \<le> c \<and> c < a + PAGE_SIZE"
proof -
  let ?c = "4095 + a - (4095 + a) mod 4096"
  have "page_align_up a PAGE_SIZE = Inr ?c"
    using assms and_not_mask [of 12 "4095 + a"]
    by (simp add: page_align_up_def run_simps add.commute)
  moreover have "4096 dvd ?c" by simp
  moreover have "a \<le> ?c" "?c < a + 4096"
    using mod_less_divisor [of 4096 "4095 + a"] by linarith+
  ultimately show ?thesis by blast
qed

section \<open>Managed and usable pages\<close>

definition managed :: "buddy \<Rightarrow> nat set" where
  "managed b = {q. \<exists>p. head_at (metadata b) p \<and> q \<in> span (metadata b) p}"

text \<open>Whole pages of \<open>[lo, hi)\<close> that no reserved range touches.\<close>

definition usable :: "(usize \<times> usize) list \<Rightarrow> usize \<Rightarrow> usize \<Rightarrow> nat set" where
  "usable reserved lo hi = {q. lo \<le> q * PAGE_SIZE \<and> q * PAGE_SIZE + PAGE_SIZE \<le> hi \<and>
     (\<forall>r \<in> set reserved. q * PAGE_SIZE + PAGE_SIZE \<le> fst r \<or> snd r \<le> q * PAGE_SIZE)}"

lemma open_unmanaged:
  assumes "buddy_inv b" "T \<inter> managed b = {}"
  shows "wf_open T b"
proof (rule wf_openI)
  have wf: "wf_open {} b" using assms(1) by (simp add: buddy_inv_def)
  note W = wf_openD [OF wf]
  have T: "span (metadata b) p \<inter> T = {}" "p \<notin> T" if "head_at (metadata b) p" for p
    using assms(2) that head_in_frames unfolding managed_def by blast+
  show "sizes_ok b" using wf by (simp add: wf_open_def)
  show "blocks_ok T (metadata b)"
    using blocks_okD(1) [OF W(4)] T by (simp add: blocks_ok_def)
  show "cover_ok T (metadata b)"
    using W(5) T unfolding cover_ok_def by blast
  have "free_blocks (metadata b) T k = free_blocks (metadata b) {} k" for k
    using T by (auto simp: free_blocks_def)
  then show "list_ok T b k" if "k < MAX_ORDER" for k
    using W(6) [OF that] by (simp add: list_ok_def)
qed

lemma unmanaged_not_free:
  assumes "buddy_inv b" shows "free_pages b \<subseteq> managed b"
  using assms cover_okD [OF wf_openD(5), of "{}" b]
  by (auto simp: buddy_inv_def free_pages_def managed_def simp del: frames_iff)

text \<open>Turning an unmanaged aligned range into a free block.\<close>

lemma add_free_block:
  assumes inv: "buddy_inv b" and pl: "placeable (metadata b) p k"
    and un: "frames p k \<inter> managed b = {}"
    and f: "\<And>i q. pg_order (f i q) = of_nat k" "\<And>i q. is_head (f i q) \<longleftrightarrow> i = 0"
      "\<And>i q. is_free (f i q)"
  shows "\<exists>b1 b'. for_pages f p [0..<2 ^ k] b = Inr b1 \<and> push_free p k b1 = Inr b' \<and>
    buddy_inv b' \<and> total_pages b' = total_pages b \<and>
    free_pages b' = free_pages b \<union> frames p k \<and> managed b' = managed b \<union> frames p k \<and>
    alloc_blocks b' = alloc_blocks b \<and>
    p \<in> free_blocks (metadata b') {} k \<and> (\<forall>j. free_blocks (metadata b) {} j \<subseteq> free_blocks (metadata b') {} j) \<and>
    (\<forall>j. free_blocks (metadata b') {} j \<subseteq> free_blocks (metadata b) {} j \<union> (if j = k then {p} else {}))"
proof -
  obtain b1 b' where g: "for_pages f p [0..<2 ^ k] b = Inr b1" "push_free p k b1 = Inr b'"
    "wf_open {} b'" "marked (metadata b') p k True"
    "tags_off (frames p k) (metadata b) (metadata b')" "total_pages b' = total_pages b"
    using give_free_block [OF open_unmanaged [OF inv un] pl order_refl, of f] f by auto
  have pl': "placeable (metadata b') p k" using pl g(5) by (simp add: placeable_def tags_off_def)
  note mk = marked_at [OF g(4) pl']
  have inside: "free_at (metadata b') q" if "q \<in> frames p k" for q
    using g(4) pl' that by (auto simp: marked_def placeable_def free_at_def)
  have out: "free_at (metadata b') q = free_at (metadata b) q"
    "head_at (metadata b') q = head_at (metadata b) q"
    "q < length (metadata b) \<Longrightarrow> ord_at (metadata b') q = ord_at (metadata b) q"
    if "q \<notin> frames p k" for q
    using g(5) that by (auto simp: tags_off_def free_at_def head_at_def ord_at_def)
  have no_head: "\<not> head_at (metadata b) q" if "q \<in> frames p k" for q
    using un that head_in_frames unfolding managed_def by blast
  have ord_eq: "ord_at (metadata b') q = ord_at (metadata b) q"
    if "q \<notin> frames p k" "head_at (metadata b) q" for q
    using out(3) [OF that(1)] that(2) by (simp add: head_at_def)
  have "free_pages b' = free_pages b \<union> frames p k"
    using inside out(1) by (auto simp: free_pages_def simp del: frames_iff)
  moreover have "managed b' = managed b \<union> frames p k"
  proof (rule set_eqI)
    fix q
    have "(\<exists>r. head_at (metadata b') r \<and> q \<in> span (metadata b') r) \<longleftrightarrow>
      (\<exists>r. head_at (metadata b) r \<and> q \<in> span (metadata b) r) \<or> q \<in> frames p k"
      using mk(1,2,5) out(2) ord_eq no_head by metis
    then show "q \<in> managed b' \<longleftrightarrow> q \<in> managed b \<union> frames p k" by (simp add: managed_def)
  qed
  moreover have "(q, j) \<in> alloc_blocks b' \<longleftrightarrow> (q, j) \<in> alloc_blocks b" for q j
    using inside [of q] out(1,2) [of q] ord_eq [of q] no_head [of q]
    by (cases "q \<in> frames p k") (auto simp: alloc_blocks_def simp del: frames_iff)
  then have "alloc_blocks b' = alloc_blocks b" by auto
  moreover have "p \<in> free_blocks (metadata b') {} k"
    using mk(1,2) inside [of p] by (simp add: free_blocks_def)
  moreover
  have "q \<in> free_blocks (metadata b') {} j" if "q \<in> free_blocks (metadata b) {} j" for q j
    using that out [of q] ord_eq [of q] no_head [of q] by (auto simp: free_blocks_def simp del: frames_iff)
  then have "\<forall>j. free_blocks (metadata b) {} j \<subseteq> free_blocks (metadata b') {} j" by blast
  moreover have "q \<in> free_blocks (metadata b) {} j \<union> (if j = k then {p} else {})" if q: "q \<in> free_blocks (metadata b') {} j" for q j
  proof (cases "q \<in> frames p k")
    case True
    then have "q = p" using mk(5) [of q] q by (simp add: free_blocks_def)
    then show ?thesis using q mk(1) by (simp add: free_blocks_def)
  next
    case False
    then show ?thesis using q out [of q] ord_eq [of q] by (auto simp: free_blocks_def simp del: frames_iff)
  qed
  then have "\<forall>j. free_blocks (metadata b') {} j \<subseteq> free_blocks (metadata b) {} j \<union> (if j = k then {p} else {})" by blast
  ultimately show ?thesis using g(1,2,3,6) unfolding buddy_inv_def by blast
qed


section \<open>The loop of \<open>add_region\<close>\<close>

lemma region_order_bounds:
  assumes "0 < pages" "pages \<le> USIZE_MAX" "PAGE_SIZE dvd start"
  shows "region_order start pages < MAX_ORDER" "2 ^ region_order start pages \<le> pages"
    "2 ^ region_order start pages dvd start div PAGE_SIZE"
proof -
  let ?o = "region_order start pages"
  show "?o < MAX_ORDER" by (simp add: region_order_def)
  have "?o \<le> 64 - 1 - leading_zeros pages" by (simp add: region_order_def)
  then have "(2::nat) ^ ?o \<le> 2 ^ (64 - 1 - leading_zeros pages)" by simp
  then show "2 ^ ?o \<le> pages" using leading_zeros_le [OF assms(1,2)] by linarith
  have le: "?o \<le> trailing_zeros start - 12" by (simp add: region_order_def)
  show "2 ^ ?o dvd start div PAGE_SIZE"
  proof (cases "?o = 0")
    case False
    then have "2 ^ (?o + 12) dvd start" using le by (intro trailing_zeros_dvd) linarith
    then have "2 ^ ?o * 4096 dvd start" by (simp add: power_add)
    then have "2 ^ ?o * 4096 div 4096 dvd start div 4096"
      by (intro div_dvd_div [THEN iffD2]) (auto intro: dvd_trans assms(3))
    then show ?thesis by simp
  qed simp
qed

lemma next_boundary_bounds:
  assumes "start < fin" "find (in_region start) reserved = None"
  shows "start < next_boundary reserved start fin" "next_boundary reserved start fin \<le> fin"
    "\<And>r. r \<in> set reserved \<Longrightarrow> next_boundary reserved start fin \<le> fst r \<or> snd r \<le> start"
    "next_boundary reserved start fin < fin \<Longrightarrow>
       \<exists>r\<in>set reserved. fst r = next_boundary reserved start fin"
proof -
  define bs where "bs = map fst (filter (\<lambda>r. start < fst r) reserved)"
  have nb: "next_boundary reserved start fin = min (if bs = [] then fin else min_list bs) fin"
    by (simp add: next_boundary_def bs_def)
  have mem: "min_list bs \<in> set bs" "\<And>x. x \<in> set bs \<Longrightarrow> min_list bs \<le> x" if "bs \<noteq> []"
    using that by (simp_all add: min_list_Min)
  have bs: "x \<in> set bs \<longleftrightarrow> (\<exists>r\<in>set reserved. x = fst r \<and> start < x)" for x
    by (auto simp: bs_def)
  show "start < next_boundary reserved start fin"
    using assms(1) mem(1) bs [of "min_list bs"] by (auto simp: nb)
  show "next_boundary reserved start fin \<le> fin" by (simp add: nb)
  show "next_boundary reserved start fin \<le> fst r \<or> snd r \<le> start" if r: "r \<in> set reserved" for r
  proof (cases "start < fst r")
    case True
    then have "fst r \<in> set bs" using r by (auto simp: bs)
    then show ?thesis using mem(2) [of "fst r"] by (auto simp: nb min_def)
  next
    case False
    then show ?thesis using assms(2) r unfolding find_None_iff in_region_def by (metis leI)
  qed
  show "\<exists>r\<in>set reserved. fst r = next_boundary reserved start fin"
    if "next_boundary reserved start fin < fin"
    using that mem(1) bs [of "min_list bs"] unfolding nb by (metis min_def nat_less_le)
qed

lemma page_lt: "PAGE_SIZE dvd m \<Longrightarrow> q * PAGE_SIZE < m \<longleftrightarrow> q * PAGE_SIZE + PAGE_SIZE \<le> m"
  by (auto elim!: dvdE)

text \<open>A page that meets a reserved range is not usable.\<close>

lemma usable_skip:
  assumes "start \<le> mid" "\<And>q. start \<le> q * PAGE_SIZE \<Longrightarrow> q * PAGE_SIZE < mid \<Longrightarrow>
    \<exists>r\<in>set reserved. fst r < q * PAGE_SIZE + PAGE_SIZE \<and> q * PAGE_SIZE < snd r"
  shows "usable reserved start fin = usable reserved mid fin"
proof (rule set_eqI)
  fix q
  show "q \<in> usable reserved start fin \<longleftrightarrow> q \<in> usable reserved mid fin"
    using assms(1) assms(2) [of q] by (fastforce simp: usable_def not_le)
qed

lemma usable_skip_region:
  assumes "find (in_region start) reserved = Some r" "snd r \<le> mid" "mid < snd r + PAGE_SIZE"
    "PAGE_SIZE dvd mid"
  shows "usable reserved start fin = usable reserved mid fin" "start < mid"
proof -
  have r: "r \<in> set reserved" "fst r \<le> start" "start < snd r"
    using assms(1) by (auto simp: find_Some_iff in_region_def)
  then show "start < mid" using assms(2) by simp
  then show "usable reserved start fin = usable reserved mid fin"
    using r assms(3) page_lt [OF assms(4)] by (intro usable_skip bexI [of _ r]) auto
qed

lemma usable_skip_page:
  assumes "find (in_region start) reserved = None" "start < fin" "PAGE_SIZE dvd start"
    "PAGE_SIZE dvd fin" "\<forall>r\<in>set reserved. fst r < snd r"
    "next_boundary reserved start fin < start + PAGE_SIZE"
  shows "usable reserved start fin = usable reserved (start + PAGE_SIZE) fin"
proof -
  note nb = next_boundary_bounds [OF assms(2,1)]
  have "start + PAGE_SIZE \<le> fin" using assms(2,3,4) by (auto elim!: dvdE)
  then obtain r where r: "r \<in> set reserved" "fst r = next_boundary reserved start fin"
    using nb(4) assms(6) by auto
  have "fst r < q * PAGE_SIZE + PAGE_SIZE \<and> q * PAGE_SIZE < snd r"
    if "start \<le> q * PAGE_SIZE" "q * PAGE_SIZE < start + PAGE_SIZE" for q
  proof -
    have "q * PAGE_SIZE = start" using that assms(3) by (auto elim!: dvdE)
    moreover have "fst r < snd r" using assms(5) r(1) by blast
    ultimately show ?thesis using r(2) nb(1) assms(6) by simp
  qed
  then show ?thesis using r(1) by (intro usable_skip) auto
qed

text \<open>The block carved out of a gap between reserved ranges is made of usable pages.\<close>

lemma usable_block:
  assumes "find (in_region start) reserved = None" "start < fin" "PAGE_SIZE dvd start"
    "start + n * PAGE_SIZE \<le> next_boundary reserved start fin"
  shows "usable reserved start fin =
    {start div PAGE_SIZE..<start div PAGE_SIZE + n} \<union> usable reserved (start + n * PAGE_SIZE) fin"
proof -
  note nb = next_boundary_bounds [OF assms(2,1)]
  obtain s where s: "start = PAGE_SIZE * s" using assms(3) by (auto elim: dvdE)
  have "q \<in> usable reserved start fin" if "s \<le> q" "q < s + n" for q
  proof -
    have "q * PAGE_SIZE + PAGE_SIZE \<le> next_boundary reserved start fin"
      using that assms(4) by (simp add: s)
    then show ?thesis using nb(2) nb(3) that by (fastforce simp: usable_def s)
  qed
  moreover have "q \<in> usable reserved start fin \<longleftrightarrow> q \<in> usable reserved (start + n * PAGE_SIZE) fin"
    if "\<not> (s \<le> q \<and> q < s + n)" for q
    using that by (auto simp: usable_def s)
  moreover have "q \<notin> usable reserved (start + n * PAGE_SIZE) fin" if "q < s + n" for q
    using that by (auto simp: usable_def s)
  ultimately have "q \<in> usable reserved start fin \<longleftrightarrow>
    s \<le> q \<and> q < s + n \<or> q \<in> usable reserved (start + n * PAGE_SIZE) fin" for q by metis
  moreover have "start div PAGE_SIZE = s" by (simp add: s)
  ultimately show ?thesis by (intro set_eqI) (simp only: Un_iff atLeastLessThan_iff)
qed


text \<open>The block the loop takes out of a gap: either it does not fit below \<open>total_pages\<close>, and
  then no usable page of the rest does, or it becomes a free block.\<close>

lemma aligned_le:
  assumes "(d::nat) dvd a" "d dvd c" "a < c + d" shows "a \<le> c"
proof -
  obtain x y where "a = d * x" "c = d * y" using assms(1,2) by (auto elim!: dvdE)
  moreover from this have "d * x < d * Suc y" using assms(3) by simp
  ultimately show ?thesis using mult_less_cancel1 [of d x "Suc y"] by simp
qed

lemma region_block:
  assumes "find (in_region start) reserved = None" "start < fin" "PAGE_SIZE dvd start"
    "fin \<le> USIZE_MAX" "start + PAGE_SIZE \<le> next_boundary reserved start fin"
    "n = (next_boundary reserved start fin - start) div PAGE_SIZE"
    "ord = region_order start n" "pfn = start div PAGE_SIZE"
    "fin \<le> tot * PAGE_SIZE \<or> 1024 dvd tot"
  shows "ord < MAX_ORDER" "2 ^ ord dvd pfn" "start + 2 ^ ord * PAGE_SIZE \<le> fin"
    "usable reserved start fin = frames pfn ord \<union> usable reserved (start + 2 ^ ord * PAGE_SIZE) fin"
    "tot < pfn + 2 ^ ord \<Longrightarrow> usable reserved start fin \<inter> {..<tot} = {}"
proof -
  note nb = next_boundary_bounds [OF assms(2,1)]
  have n: "0 < n" "n \<le> USIZE_MAX" "start + n * PAGE_SIZE \<le> next_boundary reserved start fin"
    using assms(4,5,6) nb(2) by (auto simp: div_greater_zero_iff intro: order_trans div_le_dividend)
  note rb = region_order_bounds [OF n(1,2) assms(3), folded assms(7)]
  show "ord < MAX_ORDER" "2 ^ ord dvd pfn" using rb assms(8) by simp_all
  have le: "start + 2 ^ ord * PAGE_SIZE \<le> next_boundary reserved start fin"
    using rb(2) n(3) mult_le_mono1 [OF rb(2), of PAGE_SIZE] by linarith
  then show fin: "start + 2 ^ ord * PAGE_SIZE \<le> fin" using nb(2) by linarith
  show "usable reserved start fin = frames pfn ord \<union> usable reserved (start + 2 ^ ord * PAGE_SIZE) fin"
    using usable_block [OF assms(1-3) le] assms(8) by (simp add: frames_def)
  have start: "start = pfn * PAGE_SIZE" using assms(3,8) by simp
  show "usable reserved start fin \<inter> {..<tot} = {}" if beyond: "tot < pfn + 2 ^ ord"
  proof -
    have "\<not> fin \<le> tot * PAGE_SIZE" using beyond fin start by linarith
    then have "1024 dvd tot" using assms(9) by blast
    moreover have "(2::nat) ^ ord dvd 2 ^ 10" using rb(1) by (intro le_imp_power_dvd) simp
    ultimately have "2 ^ ord dvd tot" by (simp add: dvd_trans)
    then have "tot \<le> pfn" using \<open>2 ^ ord dvd pfn\<close> beyond aligned_le by blast
    then show ?thesis using start by (auto simp: usable_def)
  qed
qed

text \<open>Aligned runs of the largest block size become blocks of that size.\<close>

definition runs_in :: "nat set \<Rightarrow> nat set" where
  "runs_in U = {p. 1024 dvd p \<and> frames p 10 \<subseteq> U}"

lemma runs_in_empty [simp]: "runs_in {} = {}"
  by (simp add: runs_in_def frames_def)

lemma region_order_full:
  assumes "1024 dvd pfn" "1024 \<le> n" "n \<le> USIZE_MAX"
  shows "region_order (pfn * PAGE_SIZE) n = 10"
proof -
  have "2 ^ 22 dvd pfn * PAGE_SIZE" using assms(1) by (auto elim!: dvdE)
  then have "22 \<le> trailing_zeros (pfn * PAGE_SIZE)" by (intro trailing_zeros_ge) simp_all
  moreover have "10 \<le> 64 - 1 - leading_zeros n" using assms(2,3) by (intro leading_zeros_ge) simp_all
  ultimately show ?thesis by (simp add: region_order_def)
qed

lemma next_boundary_full:
  assumes "{pfn..<pfn + n} \<subseteq> usable reserved (pfn * PAGE_SIZE) fin" "0 < n" "\<forall>r\<in>set reserved. fst r < snd r"
    "pfn * PAGE_SIZE < fin" "find (in_region (pfn * PAGE_SIZE)) reserved = None"
  shows "(pfn + n) * PAGE_SIZE \<le> next_boundary reserved (pfn * PAGE_SIZE) fin"
proof (rule ccontr)
  let ?nb = "next_boundary reserved (pfn * PAGE_SIZE) fin"
  assume less: "\<not> (pfn + n) * PAGE_SIZE \<le> ?nb"
  note nb = next_boundary_bounds [OF assms(4,5)]
  have "pfn + n - 1 \<in> usable reserved (pfn * PAGE_SIZE) fin" using assms(1,2) by (intro subsetD [OF assms(1)]) auto
  then have "(pfn + n - 1) * PAGE_SIZE + PAGE_SIZE \<le> fin" by (simp add: usable_def)
  moreover have "(pfn + n) * PAGE_SIZE = (pfn + n - 1) * PAGE_SIZE + PAGE_SIZE" using assms(2) by (cases n) simp_all
  ultimately have "(pfn + n) * PAGE_SIZE \<le> fin" by (simp only:)
  then have "?nb < fin" using less by (meson not_le order_less_le_trans)
  then obtain r where r: "r \<in> set reserved" "fst r = ?nb" using nb(4) by blast
  define q where "q = ?nb div PAGE_SIZE"
  have "?nb mod PAGE_SIZE < PAGE_SIZE" by simp
  then have q: "q * PAGE_SIZE \<le> ?nb" "?nb < q * PAGE_SIZE + PAGE_SIZE"
    using div_mult_mod_eq [of ?nb PAGE_SIZE] unfolding q_def by linarith+
  have "pfn * PAGE_SIZE < (q + 1) * PAGE_SIZE" "q * PAGE_SIZE < (pfn + n) * PAGE_SIZE" using q nb(1) less by simp_all
  then have "q \<in> {pfn..<pfn + n}" by auto
  then have "q \<in> usable reserved (pfn * PAGE_SIZE) fin" using assms(1) by blast
  then have "q * PAGE_SIZE + PAGE_SIZE \<le> fst r \<or> snd r \<le> q * PAGE_SIZE" using r(1) by (simp add: usable_def)
  then show False using q r(2) assms(3) r(1) by fastforce
qed

lemma runs_block:
  assumes "find (in_region start) reserved = None" "start < fin" "PAGE_SIZE dvd start" "fin \<le> USIZE_MAX"
    "\<forall>r\<in>set reserved. fst r < snd r" "n = (next_boundary reserved start fin - start) div PAGE_SIZE"
    "ord = region_order start n" "pfn = start div PAGE_SIZE" "ord < MAX_ORDER" "2 ^ ord dvd pfn"
    "usable reserved start fin = frames pfn ord \<union> usable reserved s' fin"
    "p \<in> runs_in (usable reserved start fin \<inter> X)"
  shows "p \<in> runs_in (usable reserved s' fin \<inter> X) \<or> p = pfn \<and> ord = 10"
proof (cases "frames p 10 \<inter> frames pfn ord = {}")
  case True
  then have "p \<in> runs_in (usable reserved s' fin \<inter> X)" using assms(11,12) unfolding runs_in_def by blast
  then show ?thesis ..
next
  case False
  have start: "start = pfn * PAGE_SIZE" using assms(3,8) by simp
  have p: "1024 dvd p" "frames p 10 \<subseteq> usable reserved start fin" using assms(12) by (auto simp: runs_in_def)
  have "p \<in> usable reserved start fin" using p(2) head_in_frames by blast
  then have "pfn \<le> p" by (simp add: usable_def start)
  moreover have "p \<le> pfn"
  proof -
    have "p < pfn + 2 ^ ord" using False by auto
    moreover have "(2::nat) ^ ord dvd 2 ^ 10" using assms(9) by (intro le_imp_power_dvd) simp
    then have "2 ^ ord dvd p" by (rule dvd_trans) (use p(1) in simp)
    ultimately show ?thesis using assms(10) aligned_le by blast
  qed
  ultimately have eq: "p = pfn" by simp
  have sub: "{pfn..<pfn + 1024} \<subseteq> usable reserved (pfn * PAGE_SIZE) fin" using p(2) by (auto simp: eq start frames_def)
  have "(pfn + 1024) * PAGE_SIZE \<le> next_boundary reserved (pfn * PAGE_SIZE) fin"
    by (rule next_boundary_full [OF sub _ assms(5) assms(2,1) [unfolded start]]) simp
  moreover have "next_boundary reserved start fin \<le> USIZE_MAX" using next_boundary_bounds(2) [OF assms(2,1)] assms(4) by linarith
  ultimately have nb: "1024 * PAGE_SIZE \<le> next_boundary reserved start fin - start" "next_boundary reserved start fin - start \<le> USIZE_MAX"
    unfolding start add_mult_distrib by (metis add_le_imp_le_diff add.commute, metis diff_le_self order_trans)
  have "1024 \<le> n" unfolding assms(6) using div_le_mono [OF nb(1), of PAGE_SIZE] by simp
  moreover have "n \<le> USIZE_MAX" unfolding assms(6) using nb(2) by (rule order_trans [OF div_le_dividend])
  ultimately have "ord = 10" using region_order_full [of pfn n] p(1) by (simp add: assms(7) start eq)
  then show ?thesis using eq by blast
qed

text \<open>A page becomes a block of its own only when its partner is missing: an even page whose
  successor is usable too starts a block of at least two pages.\<close>

definition singles :: "nat set \<Rightarrow> nat set" where
  "singles U = {p \<in> U. even p \<longrightarrow> p + 1 \<notin> U}"

lemma region_order_single:
  assumes "region_order start n = 0" "PAGE_SIZE dvd start" "even (start div PAGE_SIZE)" "0 < n" "n \<le> USIZE_MAX"
  shows "n = 1"
proof (rule ccontr)
  assume "n \<noteq> 1"
  then have "2 ^ 1 \<le> n" using assms(4) by simp
  then have l: "1 \<le> 64 - 1 - leading_zeros n" using assms(5) by (intro leading_zeros_ge) simp_all
  obtain q where q: "start = PAGE_SIZE * q" using assms(2) by (auto elim: dvdE)
  show False
  proof (cases "q = 0")
    case True
    have "takeWhile (\<lambda>i. \<not> bit (0 :: nat) i) [0..<64] = [0..<64]" unfolding takeWhile_eq_all_conv by simp
    then have "trailing_zeros 0 = 64" unfolding trailing_zeros_def by (simp only: length_upt)
    then show False using True assms(1) l by (simp add: q region_order_def)
  next
    case False
    have "2 ^ 13 dvd start" using assms(3) by (auto simp: q elim!: evenE)
    then have "13 \<le> trailing_zeros start" using False by (intro trailing_zeros_ge) (simp_all add: q)
    then show False using assms(1) l by (simp add: region_order_def)
  qed
qed

lemma singles_block:
  assumes "find (in_region start) reserved = None" "start < fin" "PAGE_SIZE dvd start" "fin \<le> USIZE_MAX"
    "\<forall>r\<in>set reserved. fst r < snd r" "n = (next_boundary reserved start fin - start) div PAGE_SIZE" "0 < n"
    "region_order start n = 0" "pfn = start div PAGE_SIZE" "pfn \<in> U" "U \<subseteq> usable reserved start fin"
  shows "pfn \<in> singles U"
proof -
  have "pfn + 1 \<notin> U" if ev: "even pfn"
  proof
    assume nxt: "pfn + 1 \<in> U"
    have start: "start = pfn * PAGE_SIZE" using assms(3,9) by simp
    have "next_boundary reserved start fin - start \<le> USIZE_MAX" using next_boundary_bounds(2) [OF assms(2,1)] assms(4) by linarith
    then have "n \<le> USIZE_MAX" unfolding assms(6) by (rule order_trans [OF div_le_dividend])
    then have n: "n = 1" using region_order_single [OF assms(8,3)] ev assms(7,9) by simp
    have "{pfn..<pfn + 2} \<subseteq> usable reserved (pfn * PAGE_SIZE) fin"
      using assms(10,11) nxt by (auto simp: start less_Suc_eq numeral_2_eq_2)
    then have "(pfn + 2) * PAGE_SIZE \<le> next_boundary reserved (pfn * PAGE_SIZE) fin"
      by (rule next_boundary_full) (use assms(1,2,5) start in simp_all)
    then have "2 * PAGE_SIZE \<le> next_boundary reserved start fin - start" unfolding start by simp
    then have "2 \<le> n" unfolding assms(6) using div_le_mono [of "2 * PAGE_SIZE" _ PAGE_SIZE] by simp
    then show False using n by simp
  qed
  then show ?thesis using assms(10) by (simp add: singles_def)
qed

lemma singles_later:
  assumes "U = F \<union> V" "\<And>x y. x \<in> F \<Longrightarrow> y \<in> V \<Longrightarrow> x < y"
  shows "singles V \<subseteq> singles U"
  using assms by (fastforce simp: singles_def)

lemma add_region_loop_total:
  assumes "buddy_inv b" "PAGE_SIZE dvd start" "PAGE_SIZE dvd fin" "fin \<le> USIZE_MAX"
    "\<forall>r\<in>set reserved. fst r < snd r \<and> snd r + PAGE_SIZE \<le> USIZE_MAX"
    "fin \<le> total_pages b * PAGE_SIZE \<or> 1024 dvd total_pages b"
    "usable reserved start fin \<inter> managed b = {}" "fin - start < fuel"
  shows "\<exists>b'. add_region_loop fuel start fin reserved b = Inr b' \<and> buddy_inv b' \<and>
    total_pages b' = total_pages b \<and> alloc_blocks b' = alloc_blocks b \<and>
    free_pages b' = free_pages b \<union> usable reserved start fin \<inter> {..<total_pages b} \<and>
    managed b' = managed b \<union> usable reserved start fin \<inter> {..<total_pages b} \<and>
    free_blocks (metadata b) {} 10 \<union> runs_in (usable reserved start fin \<inter> {..<total_pages b}) \<subseteq> free_blocks (metadata b') {} 10 \<and>
    free_blocks (metadata b') {} 0 \<subseteq> free_blocks (metadata b) {} 0 \<union> singles (usable reserved start fin \<inter> {..<total_pages b})"
  using assms
proof (induction fuel arbitrary: start b)
  case (Suc fuel)
  note IH = Suc.IH and prems = Suc.prems
  show ?case
  proof (cases "start < fin")
    case False
    then have "usable reserved start fin = {}" by (auto simp: usable_def)
    then show ?thesis using False prems(1) by simp
  next
    case lt: True
    show ?thesis
    proof (cases "find (in_region start) reserved")
      case (Some r)
      then have r: "r \<in> set reserved" by (auto simp: find_Some_iff)
      obtain m where m: "page_align_up (snd r) PAGE_SIZE = Inr m" "PAGE_SIZE dvd m" "snd r \<le> m"
        "m < snd r + PAGE_SIZE"
        using page_align_up_eq [of "snd r"] prems(5) r by auto
      note sk = usable_skip_region [OF Some m(3,4,2)]
      show ?thesis
        using IH [OF prems(1) m(2) prems(3-6), unfolded sk(1) [symmetric], OF prems(7)]
          lt Some m(1) sk(2) prems(8) by simp
    next
      case None
      note nb = next_boundary_bounds [OF lt None]
      let ?n = "next_boundary reserved start fin - start"
      show ?thesis
      proof (cases "?n < PAGE_SIZE")
        case True
        then have sk: "usable reserved start fin = usable reserved (start + PAGE_SIZE) fin"
          using nb(1) prems(2,3,5) lt None by (intro usable_skip_page) auto
        have "start + PAGE_SIZE \<le> fin" using prems(2,3) lt by (auto elim!: dvdE)
        then have "saturating_add start PAGE_SIZE = start + PAGE_SIZE"
          using prems(4) by (simp add: saturating_add_def)
        moreover have "PAGE_SIZE dvd start + PAGE_SIZE" using prems(2) by simp
        ultimately show ?thesis
          using IH [OF prems(1) _ prems(3-6), of "start + PAGE_SIZE", folded sk, OF _ prems(7)]
            lt None True prems(8) by (simp add: drop_bit_eq_div)
      next
        case False
        define n ord pfn where "n = ?n div PAGE_SIZE" and "ord = region_order start n"
          and "pfn = start div PAGE_SIZE"
        have "start + PAGE_SIZE \<le> next_boundary reserved start fin" using False nb(1) by simp
        note rb = region_block [OF None lt prems(2,4) this n_def ord_def pfn_def prems(6)]
        let ?f = "\<lambda>i p. set_prev None (set_next None (set_free True (set_head (i = 0) (set_order ord p))))"
        let ?k = "if total_pages b < pfn + 2 ^ ord then Inr b
          else rbind (for_pages ?f pfn [0..<2 ^ ord] b) (\<lambda>b. rbind (push_free pfn ord b) (\<lambda>b.
            rbind (add_usize start (2 ^ ord * PAGE_SIZE)) (\<lambda>s. add_region_loop fuel s fin reserved b)))"
        have run: "add_region_loop (Suc fuel) start fin reserved b = ?k"
          using lt None False
          by (simp add: drop_bit_eq_div n_def ord_def pfn_def Let_def div_eq_0_iff)
        show ?thesis
        proof (cases "total_pages b < pfn + 2 ^ ord")
          case True
          then show ?thesis using run rb(5) prems(1) by simp
        next
          case fits: False
          have "placeable (metadata b) pfn ord"
            using rb(1,2) fits prems(1) by (simp add: placeable_def buddy_inv_def wf_open_def sizes_ok_def)
          moreover have "frames pfn ord \<inter> managed b = {}" using prems(7) rb(4) by blast
          ultimately obtain b1 b2 where b2: "for_pages ?f pfn [0..<2 ^ ord] b = Inr b1"
            "push_free pfn ord b1 = Inr b2" "buddy_inv b2" "total_pages b2 = total_pages b"
            "free_pages b2 = free_pages b \<union> frames pfn ord"
            "managed b2 = managed b \<union> frames pfn ord" "alloc_blocks b2 = alloc_blocks b"
            "pfn \<in> free_blocks (metadata b2) {} ord" "free_blocks (metadata b) {} 10 \<subseteq> free_blocks (metadata b2) {} 10"
            "\<forall>j. free_blocks (metadata b2) {} j \<subseteq> free_blocks (metadata b) {} j \<union> (if j = ord then {pfn} else {})"
            using add_free_block [OF prems(1), of pfn ord ?f] by (auto simp: page_simps)
          let ?s = "start + 2 ^ ord * PAGE_SIZE"
          have sub: "frames pfn ord \<subseteq> {..<total_pages b}" using fits by (auto simp: frames_def)
          have "usable reserved ?s fin \<inter> frames pfn ord = {}"
            using prems(2) by (auto simp: usable_def frames_def pfn_def elim!: dvdE)
          then have "usable reserved ?s fin \<inter> managed b2 = {}" using prems(7) rb(4) b2(6) by blast
          moreover have "PAGE_SIZE dvd ?s" using prems(2) by simp
          moreover have "(0::nat) < 2 ^ ord" by simp
          then have "fin - ?s < fuel" using lt prems(8) by linarith
          moreover note IH [of b2 ?s, OF b2(3) _ prems(3-5)]
          ultimately obtain b' where b': "add_region_loop fuel ?s fin reserved b2 = Inr b'" "buddy_inv b'"
            "total_pages b' = total_pages b" "alloc_blocks b' = alloc_blocks b"
            "free_pages b' = free_pages b \<union> (frames pfn ord \<union> usable reserved ?s fin \<inter> {..<total_pages b})"
            "managed b' = managed b \<union> (frames pfn ord \<union> usable reserved ?s fin \<inter> {..<total_pages b})"
            "free_blocks (metadata b2) {} 10 \<union> runs_in (usable reserved ?s fin \<inter> {..<total_pages b}) \<subseteq> free_blocks (metadata b') {} 10"
            "free_blocks (metadata b') {} 0 \<subseteq> free_blocks (metadata b2) {} 0 \<union> singles (usable reserved ?s fin \<inter> {..<total_pages b})"
            using b2(4-7) prems(6) by (auto simp: Un_assoc)
          have "runs_in (usable reserved start fin \<inter> {..<total_pages b}) \<subseteq>
              free_blocks (metadata b2) {} 10 \<union> runs_in (usable reserved ?s fin \<inter> {..<total_pages b})"
            using runs_block [OF None lt prems(2,4) _ n_def ord_def pfn_def rb(1,2,4)] prems(5) b2(8) by blast
          then have "free_blocks (metadata b) {} 10 \<union> runs_in (usable reserved start fin \<inter> {..<total_pages b}) \<subseteq> free_blocks (metadata b') {} 10"
            using b'(7) b2(9) by blast
          moreover have eq: "usable reserved start fin \<inter> {..<total_pages b} = frames pfn ord \<union> usable reserved ?s fin \<inter> {..<total_pages b}"
            using rb(4) sub by blast
          moreover have "free_blocks (metadata b') {} 0 \<subseteq> free_blocks (metadata b) {} 0 \<union> singles (usable reserved start fin \<inter> {..<total_pages b})"
          proof -
            have "x < y" if "x \<in> frames pfn ord" "y \<in> usable reserved ?s fin \<inter> {..<total_pages b}" for x y
              using that prems(2) by (auto simp: usable_def frames_def pfn_def elim!: dvdE)
            then have later: "singles (usable reserved ?s fin \<inter> {..<total_pages b}) \<subseteq> singles (usable reserved start fin \<inter> {..<total_pages b})"
              by (rule singles_later [OF eq])
            have "pfn \<in> usable reserved start fin \<inter> {..<total_pages b}" unfolding eq using head_in_frames by blast
            then have "pfn \<in> singles (usable reserved start fin \<inter> {..<total_pages b})" if "ord = 0"
              using singles_block [OF None lt prems(2,4) _ n_def _ _ pfn_def] prems(5) that False
              by (auto simp: ord_def n_def div_greater_zero_iff)
            then show ?thesis using b'(8) b2(10) [rule_format, of 0] later by (auto split: if_splits)
          qed
          ultimately show ?thesis
            using run fits b2(1,2) b' rb(3) prems(4) by (simp add: run_simps del: add_region_loop.simps)
        qed
      qed
    qed
  qed
qed simp


section \<open>Regions, memory map and construction\<close>

text \<open>The ranges the boot code reserves are non-empty and end a page below the top of the
  address space.\<close>

definition reserved_ok :: "(usize \<times> usize) list \<Rightarrow> bool" where
  "reserved_ok reserved \<longleftrightarrow>
     list_all (\<lambda>r. fst r < snd r \<and> snd r + PAGE_SIZE \<le> USIZE_MAX) reserved"

lemma usable_align:
  assumes "start + PAGE_SIZE \<le> USIZE_MAX" "fin \<le> USIZE_MAX"
  shows "\<exists>c. page_align_up start PAGE_SIZE = Inr c \<and> PAGE_SIZE dvd c \<and>
    PAGE_SIZE dvd page_align_down fin PAGE_SIZE \<and> page_align_down fin PAGE_SIZE \<le> fin \<and>
    usable reserved c (page_align_down fin PAGE_SIZE) = usable reserved start fin"
proof -
  obtain c where c: "page_align_up start PAGE_SIZE = Inr c" "PAGE_SIZE dvd c" "start \<le> c"
    "c < start + PAGE_SIZE" using page_align_up_eq [OF assms(1)] by blast
  let ?d = "fin - fin mod PAGE_SIZE"
  have d: "page_align_down fin PAGE_SIZE = ?d" "PAGE_SIZE dvd ?d"
    using page_align_down_eq [OF assms(2)] by auto
  have "c \<le> q * PAGE_SIZE \<longleftrightarrow> start \<le> q * PAGE_SIZE" for q
    using c(2,3,4) aligned_le [of PAGE_SIZE c "q * PAGE_SIZE"] by auto
  moreover have "q * PAGE_SIZE + PAGE_SIZE \<le> ?d \<longleftrightarrow> q * PAGE_SIZE + PAGE_SIZE \<le> fin" for q
  proof -
    have "fin mod PAGE_SIZE < PAGE_SIZE" by simp
    then have "fin < ?d + PAGE_SIZE" by linarith
    then show ?thesis
      using aligned_le [of PAGE_SIZE "q * PAGE_SIZE + PAGE_SIZE" ?d] d(2) by auto
  qed
  ultimately have "usable reserved c ?d = usable reserved start fin" by (simp add: usable_def)
  then show ?thesis using c d by auto
qed

lemma add_region_correct:
  assumes inv: "buddy_inv b" and fin: "start + PAGE_SIZE \<le> USIZE_MAX" "fin \<le> USIZE_MAX"
    and res: "reserved_ok reserved"
    and tot: "fin \<le> total_pages b * PAGE_SIZE \<or> 1024 dvd total_pages b"
    and un: "usable reserved start fin \<inter> managed b = {}"
  shows "\<exists>b'. add_region start fin reserved b = Inr b' \<and> buddy_inv b' \<and>
    total_pages b' = total_pages b \<and> alloc_blocks b' = alloc_blocks b \<and>
    free_pages b' = free_pages b \<union> usable reserved start fin \<inter> {..<total_pages b} \<and>
    managed b' = managed b \<union> usable reserved start fin \<inter> {..<total_pages b} \<and>
    free_blocks (metadata b) {} 10 \<union> runs_in (usable reserved start fin \<inter> {..<total_pages b}) \<subseteq> free_blocks (metadata b') {} 10 \<and>
    free_blocks (metadata b') {} 0 \<subseteq> free_blocks (metadata b) {} 0 \<union> singles (usable reserved start fin \<inter> {..<total_pages b})"
proof -
  obtain c where c: "page_align_up start PAGE_SIZE = Inr c" "PAGE_SIZE dvd c"
    "PAGE_SIZE dvd page_align_down fin PAGE_SIZE" "page_align_down fin PAGE_SIZE \<le> fin"
    "usable reserved c (page_align_down fin PAGE_SIZE) = usable reserved start fin"
    using usable_align [OF fin, of reserved] by blast
  show ?thesis
    using add_region_loop_total [OF inv c(2,3), of reserved
        "Suc (page_align_down fin PAGE_SIZE - c)", unfolded c(5)] c(1,4) fin(2) res tot un
    by (auto simp: add_region_def Let_def reserved_ok_def list_all_iff)
qed

text \<open>The available areas of a memory map, and the pages they offer.\<close>

definition area_pages :: "(usize \<times> usize) list \<Rightarrow> memory_area list \<Rightarrow> nat set" where
  "area_pages reserved areas =
     (\<Union>a \<in> set (filter (\<lambda>a. fst a = 1) areas). usable reserved (fst (snd a)) (snd (snd a)))"

text \<open>The aligned runs of 4 MiB that lie inside one area.\<close>

definition area_runs :: "nat \<Rightarrow> (usize \<times> usize) list \<Rightarrow> memory_area list \<Rightarrow> nat set" where
  "area_runs n reserved areas =
     (\<Union>a \<in> set (filter (\<lambda>a. fst a = 1) areas). runs_in (usable reserved (fst (snd a)) (snd (snd a)) \<inter> {..<n}))"

definition area_singles :: "nat \<Rightarrow> (usize \<times> usize) list \<Rightarrow> memory_area list \<Rightarrow> nat set" where
  "area_singles n reserved areas =
     (\<Union>a \<in> set (filter (\<lambda>a. fst a = 1) areas). singles (usable reserved (fst (snd a)) (snd (snd a)) \<inter> {..<n}))"

fun areas_ok :: "nat \<Rightarrow> memory_area list \<Rightarrow> bool" where
  "areas_ok n [] \<longleftrightarrow> True"
| "areas_ok n ((typ, start, fin) # areas) \<longleftrightarrow> areas_ok n areas \<and> (typ = 1 \<longrightarrow>
     start + PAGE_SIZE \<le> USIZE_MAX \<and> fin \<le> USIZE_MAX \<and> (fin \<le> n * PAGE_SIZE \<or> 1024 dvd n) \<and>
     list_all (\<lambda>a. fst a = 1 \<longrightarrow> fin \<le> fst (snd a) \<or> snd (snd a) \<le> start) areas)"

lemma usable_disjoint:
  "fin \<le> start' \<or> fin' \<le> start \<Longrightarrow> usable rs start fin \<inter> usable rs start' fin' = {}"
  by (auto simp: usable_def)

lemma add_areas_correct:
  assumes "buddy_inv b" "reserved_ok reserved" "areas_ok (total_pages b) areas"
    "area_pages reserved areas \<inter> managed b = {}"
  shows "\<exists>b'. add_areas areas reserved b = Inr b' \<and> buddy_inv b' \<and>
    total_pages b' = total_pages b \<and> alloc_blocks b' = alloc_blocks b \<and>
    free_pages b' = free_pages b \<union> area_pages reserved areas \<inter> {..<total_pages b} \<and>
    free_blocks (metadata b) {} 10 \<union> area_runs (total_pages b) reserved areas \<subseteq> free_blocks (metadata b') {} 10 \<and>
    free_blocks (metadata b') {} 0 \<subseteq> free_blocks (metadata b) {} 0 \<union> area_singles (total_pages b) reserved areas"
  using assms
proof (induction areas arbitrary: b)
  case (Cons a areas)
  obtain ty start fin where a: "a = (ty, start, fin)" by (cases a)
  show ?case
  proof (cases "ty = 1")
    case True
    let ?u = "usable reserved start fin"
    have ap: "area_pages reserved (a # areas) = ?u \<union> area_pages reserved areas"
      using True by (simp add: area_pages_def a)
    have "?u \<inter> managed b = {}" using Cons.prems(4) unfolding ap by blast
    then obtain b1 where b1: "add_region start fin reserved b = Inr b1" "buddy_inv b1"
      "total_pages b1 = total_pages b" "alloc_blocks b1 = alloc_blocks b"
      "free_pages b1 = free_pages b \<union> ?u \<inter> {..<total_pages b}"
      "managed b1 = managed b \<union> ?u \<inter> {..<total_pages b}"
      "free_blocks (metadata b) {} 10 \<union> runs_in (?u \<inter> {..<total_pages b}) \<subseteq> free_blocks (metadata b1) {} 10"
      "free_blocks (metadata b1) {} 0 \<subseteq> free_blocks (metadata b) {} 0 \<union> singles (?u \<inter> {..<total_pages b})"
      using add_region_correct [OF Cons.prems(1), of start fin reserved] Cons.prems(2,3) True
      by (auto simp: a)
    have "?u \<inter> area_pages reserved areas = {}"
    proof -
      have "?u \<inter> usable reserved (fst (snd x)) (snd (snd x)) = {}"
        if "x \<in> set areas" "fst x = 1" for x
        using Cons.prems(3) True that by (intro usable_disjoint) (simp add: a list_all_iff)
      then show ?thesis by (auto simp: area_pages_def simp del: split_paired_All)
    qed
    then have "area_pages reserved areas \<inter> managed b1 = {}"
      using Cons.prems(4) unfolding ap b1(6) by blast
    moreover have "areas_ok (total_pages b1) areas" using Cons.prems(3) b1(3) by (simp add: a)
    moreover have ar: "area_runs n reserved (a # areas) = runs_in (?u \<inter> {..<n}) \<union> area_runs n reserved areas" for n
      using True by (simp add: area_runs_def a)
    moreover have sg: "area_singles n reserved (a # areas) = singles (?u \<inter> {..<n}) \<union> area_singles n reserved areas" for n
      using True by (simp add: area_singles_def a)
    ultimately obtain b' where b': "add_areas areas reserved b1 = Inr b'" "buddy_inv b'" "total_pages b' = total_pages b"
      "alloc_blocks b' = alloc_blocks b" "free_pages b' = free_pages b \<union> area_pages reserved (a # areas) \<inter> {..<total_pages b}"
      "free_blocks (metadata b1) {} 10 \<union> area_runs (total_pages b) reserved areas \<subseteq> free_blocks (metadata b') {} 10"
      "free_blocks (metadata b') {} 0 \<subseteq> free_blocks (metadata b1) {} 0 \<union> area_singles (total_pages b) reserved areas"
      using Cons.IH [OF b1(2) Cons.prems(2)] b1(3-5) ap by (auto simp: Int_Un_distrib2 Un_assoc)
    have "free_blocks (metadata b) {} 10 \<union> area_runs (total_pages b) reserved (a # areas) \<subseteq> free_blocks (metadata b') {} 10"
      unfolding ar using b'(6) b1(7) by blast
    moreover have "free_blocks (metadata b') {} 0 \<subseteq> free_blocks (metadata b) {} 0 \<union> area_singles (total_pages b) reserved (a # areas)"
      unfolding sg using b'(7) b1(8) by blast
    ultimately show ?thesis using b'(1-5) b1(1) True by (auto simp: a)
  next
    case False
    then show ?thesis
      using Cons.IH [OF Cons.prems(1,2)] Cons.prems(3,4) by (simp add: a area_pages_def area_runs_def area_singles_def)
  qed
qed (simp add: area_pages_def area_runs_def)


text \<open>The allocator before any region is added: no page is managed.\<close>

definition buddy_empty :: "nat \<Rightarrow> buddy" where
  "buddy_empty n = \<lparr>metadata = replicate n default_page,
     free_heads = replicate MAX_ORDER None, total_pages = n\<rparr>"

lemma buddy_empty_tags [simp]:
  "\<not> head_at (metadata (buddy_empty n)) p" "\<not> free_at (metadata (buddy_empty n)) p"
  by (auto simp: head_at_def free_at_def buddy_empty_def default_page_def is_head_def is_free_def)

lemma buddy_empty_inv:
  assumes "n < 2 ^ 32"
  shows "buddy_inv (buddy_empty n)" "total_pages (buddy_empty n) = n"
    "managed (buddy_empty n) = {}" "free_pages (buddy_empty n) = {}"
    "alloc_blocks (buddy_empty n) = {}"
proof -
  have "list_ok {} (buddy_empty n) k" if "k < MAX_ORDER" for k
    unfolding list_ok_def using that
    by (intro exI [of _ "[]"]) (auto simp: buddy_empty_def free_blocks_def
        head_at_def default_page_def is_head_def)
  then show "buddy_inv (buddy_empty n)"
    using assms by (auto simp: buddy_inv_def wf_open_def sizes_ok_def blocks_ok_def cover_ok_def)
      (simp_all add: buddy_empty_def)
qed (auto simp: managed_def free_pages_def alloc_blocks_def, simp add: buddy_empty_def)

lemma buddy_new_correct:
  assumes "n < 2 ^ 32" "reserved_ok reserved" "areas_ok n areas"
  shows "\<exists>b. buddy_new n areas reserved = Inr b \<and> buddy_inv b \<and> total_pages b = n \<and>
    alloc_blocks b = {} \<and> free_pages b = area_pages reserved areas \<inter> {..<n} \<and>
    area_runs n reserved areas \<subseteq> free_blocks (metadata b) {} 10 \<and>
    free_blocks (metadata b) {} 0 \<subseteq> area_singles n reserved areas"
proof -
  have "free_blocks (metadata (buddy_empty n)) {} 0 = {}" by (auto simp: free_blocks_def)
  then show ?thesis
    using add_areas_correct [of "buddy_empty n" reserved areas] buddy_empty_inv [OF assms(1)] assms
    by (auto simp: buddy_new_def buddy_empty_def [symmetric])
qed

end
