(* ===== verification/Buddy_Theorems.thy ===== *)
theory Buddy_Theorems
  imports Buddy_Init
begin

text \<open>
  What the buddy allocator of src/src/mem/page/pagealloc.rs guarantees to its callers: the pages it
  starts with, allocation, release, the panics of \<open>deallocate\<close>, and conservation of pages along
  every sequence of calls.
\<close>

section \<open>Sequences of calls\<close>

inductive buddy_step :: "buddy \<Rightarrow> buddy \<Rightarrow> bool" where
  step_allocate: "allocate k b = Inr (r, b') \<Longrightarrow> buddy_step b b'"
| step_allocate_below: "allocate_below k lim b = Inr (r, b') \<Longrightarrow> buddy_step b b'"
| step_deallocate: "deallocate addr b = Inr b' \<Longrightarrow> buddy_step b b'"

inductive_cases buddy_stepE: "buddy_step b b'"

text \<open>The pages of the blocks handed out and not yet returned.\<close>

definition live_pages :: "buddy \<Rightarrow> nat set" where
  "live_pages b = (\<Union>(p, k) \<in> alloc_blocks b. frames p k)"

lemma alloc_step_pages:
  assumes "alloc_step k p b b'"
  shows "buddy_inv b'" "free_pages b' \<union> live_pages b' = free_pages b \<union> live_pages b"
  using assms by (auto simp: alloc_step_def live_pages_def simp del: frames_iff)

lemma live_pages_remove:
  assumes "(p, k) \<in> alloc_blocks b" "alloc_blocks b' = alloc_blocks b - {(p, k)}"
  shows "frames p k \<union> live_pages b' = live_pages b"
proof -
  have "alloc_blocks b = insert (p, k) (alloc_blocks b')" using assms by auto
  then show ?thesis by (simp add: live_pages_def)
qed

lemma dealloc_pages:
  assumes "buddy_inv b" "deallocate addr b = Inr b'"
  shows "buddy_inv b'" "free_pages b' \<union> live_pages b' = free_pages b \<union> live_pages b"
proof -
  obtain k where k: "(addr div PAGE_SIZE, k) \<in> alloc_blocks b"
    using deallocate_fails [OF assms(1), of addr] assms(2) by auto
  then have st: "dealloc_step k (addr div PAGE_SIZE) b b'"
    using deallocate_block [OF assms(1) k refl] assms(2) by auto
  then show "buddy_inv b'" by (simp add: dealloc_step_def)
  have fp: "free_pages b' = free_pages b \<union> frames (addr div PAGE_SIZE) k"
    and ab: "alloc_blocks b' = alloc_blocks b - {(addr div PAGE_SIZE, k)}"
    using st by (auto simp: dealloc_step_def)
  show "free_pages b' \<union> live_pages b' = free_pages b \<union> live_pages b"
    using live_pages_remove [OF k ab] unfolding fp by blast
qed

lemma buddy_step_pages:
  assumes "buddy_step b b'" "buddy_inv b"
  shows "buddy_inv b' \<and> free_pages b' \<union> live_pages b' = free_pages b \<union> live_pages b"
  using assms(1)
proof (rule buddy_stepE)
  fix k r assume "allocate k b = Inr (r, b')"
  then show ?thesis
    using allocate_cases [OF assms(2), of k] alloc_step_pages assms(2) by (metis Inr_inject Pair_inject)
next
  fix k lim r assume "allocate_below k lim b = Inr (r, b')"
  then show ?thesis
    using allocate_below_cases [OF assms(2), of k lim] alloc_step_pages assms(2)
    by (metis Inr_inject Pair_inject)
qed (use dealloc_pages [OF assms(2)] in blast)

lemma buddy_steps_pages:
  assumes "buddy_step\<^sup>*\<^sup>* b b'" "buddy_inv b"
  shows "buddy_inv b' \<and> free_pages b' \<union> live_pages b' = free_pages b \<union> live_pages b"
  using assms by (induction rule: rtranclp_induct) (use buddy_step_pages in auto)

text \<open>A page is free only inside a free block, so a single page can be had while any is free.\<close>

lemma free_page_block:
  assumes "buddy_inv b" "q \<in> free_pages b"
  shows "\<exists>p k. k < MAX_ORDER \<and> p \<in> free_blocks (metadata b) {} k \<and> q \<in> frames p k"
proof -
  have wf: "wf_open {} b" using assms(1) by (simp add: buddy_inv_def)
  have q: "free_at (metadata b) q" using assms(2) by (simp add: free_pages_def)
  then obtain p where p: "head_at (metadata b) p" "q \<in> span (metadata b) p"
    using wf_openD(5) [OF wf] unfolding cover_ok_def by blast
  note ok = blocks_okD(1) [OF wf_openD(4) [OF wf] p(1)]
  have "free_at (metadata b) p"
    using block_ok_span [OF ok p(2)] q p(1) by (simp add: free_at_def head_at_def)
  moreover have "ord_at (metadata b) p < MAX_ORDER" using ok unfolding block_ok_def by blast
  ultimately show ?thesis
    using p by (intro exI [of _ p] exI [of _ "ord_at (metadata b) p"])
      (simp add: free_blocks_def del: frames_iff)
qed

lemma allocate_below_succeeds:
  assumes "buddy_inv b" "q \<in> free_pages b" "q * PAGE_SIZE + PAGE_SIZE \<le> limit" "limit \<le> USIZE_MAX"
  obtains a b' where "allocate_below 0 limit b = Inr (Some a, b')"
proof -
  obtain p k where p: "k < MAX_ORDER" "p \<in> free_blocks (metadata b) {} k" "q \<in> frames p k"
    using free_page_block [OF assms(1,2)] by blast
  have "block_below 0 limit p" using p(3) assms(3,4) by (simp add: block_below_iff)
  then show ?thesis
    using that p(1,2)
      allocate_where_correct [OF assms(1), of 0 "block_below 0 limit", folded allocate_below_def]
    by blast
qed

text \<open>A sixteen page machine with two reserved ranges, for the witnesses.\<close>

abbreviation demo_areas :: "memory_area list" where
  "demo_areas \<equiv> [(1, 0, 65536), (2, 65536, 131072)]"

abbreviation demo_reserved :: "(usize \<times> usize) list" where
  "demo_reserved \<equiv> [(0, 4096), (20480, 20500)]"

lemma demo_new:
  obtains b where "buddy_new 16 demo_areas demo_reserved = Inr b" "buddy_inv b"
    "alloc_blocks b = {}" "free_pages b = area_pages demo_reserved demo_areas \<inter> {..<16}"
  using buddy_new_correct [of 16 demo_reserved demo_areas]
  by (auto simp: reserved_ok_def USIZE_MAX_def)

lemma demo_free:
  "area_pages demo_reserved demo_areas \<inter> {..<16} = {1..<16} - {5}"
proof -
  have "q \<in> area_pages demo_reserved demo_areas \<longleftrightarrow> 1 \<le> q \<and> q < 16 \<and> q \<noteq> 5" for q
    unfolding area_pages_def usable_def by (simp, arith)
  then show ?thesis by (intro set_eqI) (simp, linarith)
qed

section \<open>Properties\<close>

text \<open>C19: started from a memory map whose available areas do not overlap, the allocator offers
  exactly the whole pages of the available areas that no reserved range touches, and has handed out
  nothing.\<close>

theorem buddy_new_free_pages:
  assumes "n < 2 ^ 32" "reserved_ok reserved" "areas_ok n areas"
  shows "\<exists>b. buddy_new n areas reserved = Inr b \<and> buddy_inv b \<and> alloc_blocks b = {} \<and>
    free_pages b = area_pages reserved areas \<inter> {..<n}"
  using buddy_new_correct [OF assms] by blast

theorem buddy_new_free_pages_witness:
  "\<exists>b. buddy_new 16 demo_areas demo_reserved = Inr b \<and> buddy_inv b \<and> free_pages b = {1..<16} - {5}"
  using buddy_new_free_pages [of 16 demo_reserved demo_areas] demo_free
  by (auto simp: reserved_ok_def USIZE_MAX_def)

text \<open>C16: \<open>allocate\<close> never panics.  It fails only when no free block of the order or of a larger
  one exists, and then changes nothing; otherwise it returns the address of an aligned run of
  \<open>2 ^ ord\<close> pages that were all free, takes exactly those and keeps every other block.\<close>

theorem allocate_correct:
  assumes "buddy_inv b"
  shows "\<exists>r b'. allocate ord b = Inr (r, b') \<and> buddy_inv b' \<and> (case r of
      None \<Rightarrow> b' = b \<and> (\<forall>q<MAX_ORDER. ord \<le> q \<longrightarrow> free_blocks (metadata b) {} q = {})
    | Some a \<Rightarrow> \<exists>p. a = p * PAGE_SIZE \<and> 2 ^ ord dvd p \<and> {p..<p + 2 ^ ord} \<subseteq> free_pages b \<and>
        free_pages b' = free_pages b - {p..<p + 2 ^ ord} \<and>
        alloc_blocks b' = insert (p, ord) (alloc_blocks b))"
proof (rule allocate_cases [OF assms, of ord])
  fix p b' assume "allocate ord b = Inr (Some (p * PAGE_SIZE), b')" "alloc_step ord p b b'"
  then show ?thesis by (auto simp: alloc_step_def frames_def)
qed (use assms in auto)

theorem allocate_correct_witness:
  "\<exists>b r b'. buddy_new 16 demo_areas demo_reserved = Inr b \<and> allocate 2 b = Inr (r, b') \<and> buddy_inv b'"
proof -
  obtain b where b: "buddy_new 16 demo_areas demo_reserved = Inr b" "buddy_inv b" by (rule demo_new)
  show ?thesis using allocate_correct [OF b(2), of 2] b(1) by blast
qed

text \<open>C17: \<open>allocate_below\<close> never panics; a block it returns lies wholly below the limit, is aligned,
  and overlaps no block handed out before.  When it returns nothing, every free block large enough
  ends beyond the limit.\<close>

theorem allocate_below_correct:
  assumes "buddy_inv b"
  shows "\<exists>r b'. allocate_below ord limit b = Inr (r, b') \<and> buddy_inv b' \<and> (case r of
      None \<Rightarrow> b' = b \<and> (\<forall>q<MAX_ORDER. ord \<le> q \<longrightarrow>
        (\<forall>p \<in> free_blocks (metadata b) {} q. \<not> block_below ord limit p))
    | Some a \<Rightarrow> a + 2 ^ ord * PAGE_SIZE \<le> limit \<and> (2 ^ ord * PAGE_SIZE) dvd a \<and>
        (\<forall>(q, j) \<in> alloc_blocks b.
          {a div PAGE_SIZE..<a div PAGE_SIZE + 2 ^ ord} \<inter> {q..<q + 2 ^ j} = {}))"
proof -
  obtain r b' where run: "allocate_below ord limit b = Inr (r, b')"
    using frame_source.alloc_total [OF assms] by (metis prod.exhaust)
  show ?thesis
  proof (cases r)
    case None
    then show ?thesis
      using run frame_source.alloc_none [OF assms]
        allocate_where_correct [OF assms, of ord "block_below ord limit", folded allocate_below_def] assms
      by auto
  next
    case (Some a)
    then obtain p where p: "buddy_inv b'" "a = p * PAGE_SIZE" "a + 2 ^ ord * PAGE_SIZE \<le> limit"
      "2 ^ ord dvd p" using frame_source.alloc_some [OF assms] run by blast
    moreover have "\<forall>(q, j) \<in> alloc_blocks b.
      {a div PAGE_SIZE..<a div PAGE_SIZE + 2 ^ ord} \<inter> {q..<q + 2 ^ j} = {}"
      using frame_source.alloc_fresh [OF assms] run Some by blast
    ultimately show ?thesis using run Some by (auto intro: mult_dvd_mono)
  qed
qed

theorem allocate_below_correct_witness:
  "\<exists>b r b'. buddy_new 16 demo_areas demo_reserved = Inr b \<and>
     allocate_below 1 32768 b = Inr (r, b') \<and> buddy_inv b'"
proof -
  obtain b where b: "buddy_new 16 demo_areas demo_reserved = Inr b" "buddy_inv b" by (rule demo_new)
  show ?thesis using allocate_below_correct [OF b(2), of 1 32768] b(1) by blast
qed

text \<open>A block can be returned exactly as it was handed out: releasing what \<open>allocate_below\<close>
  returned succeeds and restores the free pages and the live blocks of the state before.\<close>

lemma allocate_deallocate_roundtrip:
  assumes "buddy_inv b" "allocate_below ord limit b = Inr (Some a, b1)"
  shows "\<exists>b2. deallocate a b1 = Inr b2 \<and> buddy_inv b2 \<and>
    free_pages b2 = free_pages b \<and> alloc_blocks b2 = alloc_blocks b"
  by (rule frame_source.alloc_dealloc [OF assms])

text \<open>A request for one page is served if and only if a free page exists: fragmentation can
  never make a single page unavailable.\<close>

lemma allocate_page_complete:
  assumes "buddy_inv b"
  shows "(\<exists>a b'. allocate 0 b = Inr (Some a, b')) \<longleftrightarrow> free_pages b \<noteq> {}"
proof (rule allocate_cases [OF assms, of 0])
  fix p b' assume "allocate 0 b = Inr (Some (p * PAGE_SIZE), b')" "alloc_step 0 p b b'"
  then show ?thesis by (auto simp: alloc_step_def frames_def)
qed (use free_page_block [OF assms] in fastforce)

text \<open>C18: \<open>deallocate\<close> succeeds exactly on an address inside the first page of a live block; it
  then frees exactly the pages of that block, and releasing the same address again panics.  On
  every other address it panics.\<close>

theorem deallocate_exactly_live:
  assumes "buddy_inv b"
  shows "case deallocate addr b of
      Inl _ \<Rightarrow> \<forall>k. (addr div PAGE_SIZE, k) \<notin> alloc_blocks b
    | Inr b' \<Rightarrow> (\<exists>k. (addr div PAGE_SIZE, k) \<in> alloc_blocks b \<and> buddy_inv b' \<and>
        free_pages b' = free_pages b \<union> {addr div PAGE_SIZE..<addr div PAGE_SIZE + 2 ^ k} \<and>
        alloc_blocks b' = alloc_blocks b - {(addr div PAGE_SIZE, k)}) \<and>
      (\<exists>e. deallocate addr b' = Inl e)"
proof -
  let ?p = "addr div PAGE_SIZE"
  show ?thesis
  proof (cases "\<exists>k. (?p, k) \<in> alloc_blocks b")
    case False
    then show ?thesis using deallocate_fails [OF assms] by simp
  next
    case True
    then obtain k where k: "(?p, k) \<in> alloc_blocks b" ..
    obtain b' where run: "deallocate addr b = Inr b'" and st: "dealloc_step k ?p b b'"
      using deallocate_block [OF assms k refl] by auto
    have "j = k" if "(?p, j) \<in> alloc_blocks b" for j
      using that k by (simp add: alloc_blocks_def)
    then have "(?p, j) \<notin> alloc_blocks b'" for j using st by (auto simp: dealloc_step_def)
    then have "\<exists>e. deallocate addr b' = Inl e"
      using deallocate_fails [of b' addr] st by (auto simp: dealloc_step_def)
    then show ?thesis using run st k by (auto simp: dealloc_step_def frames_def)
  qed
qed

theorem deallocate_exactly_live_witness:
  "\<exists>b e. buddy_new 16 demo_areas demo_reserved = Inr b \<and> deallocate 4096 b = Inl e"
proof -
  obtain b where b: "buddy_new 16 demo_areas demo_reserved = Inr b" "buddy_inv b" "alloc_blocks b = {}"
    by (rule demo_new)
  show ?thesis using deallocate_exactly_live [OF b(2), of 4096] b(1,3)
    by (auto split: sum.splits)
qed

text \<open>C1: along every sequence of \<open>allocate\<close>, \<open>allocate_below\<close> and \<open>deallocate\<close> calls that return,
  pages are conserved: free pages and live pages together are always the pages the memory map
  offered (so no reserved page is ever handed out), no page is both, and two live blocks never
  overlap.\<close>

theorem buddy_pages_conserved:
  assumes "n < 2 ^ 32" "reserved_ok reserved" "areas_ok n areas"
    "buddy_new n areas reserved = Inr b0" "buddy_step\<^sup>*\<^sup>* b0 b"
  shows "free_pages b \<union> live_pages b = area_pages reserved areas \<inter> {..<n} \<and>
    free_pages b \<inter> live_pages b = {} \<and>
    (\<forall>p k q j. (p, k) \<in> alloc_blocks b \<longrightarrow> (q, j) \<in> alloc_blocks b \<longrightarrow> p \<noteq> q \<longrightarrow>
      {p..<p + 2 ^ k} \<inter> {q..<q + 2 ^ j} = {})"
proof -
  have b0: "buddy_inv b0" "alloc_blocks b0 = {}" "free_pages b0 = area_pages reserved areas \<inter> {..<n}"
    using buddy_new_correct [OF assms(1-3)] assms(4) by auto
  note st = buddy_steps_pages [OF assms(5) b0(1)]
  then have inv: "buddy_inv b" ..
  have "free_pages b \<union> live_pages b = area_pages reserved areas \<inter> {..<n}"
    using st b0 by (simp add: live_pages_def)
  moreover have "free_pages b \<inter> live_pages b = {}"
    using frame_source.live_busy [OF inv] by (fastforce simp: live_pages_def frames_def)
  moreover have "{p..<p + 2 ^ k} \<inter> {q..<q + 2 ^ j} = {}"
    if "(p, k) \<in> alloc_blocks b" "(q, j) \<in> alloc_blocks b" "p \<noteq> q" for p k q j
    using frame_source.live_disjoint [OF inv that(1,2)] that(3) by simp
  ultimately show ?thesis by blast
qed

theorem buddy_pages_conserved_witness:
  "\<exists>b a b1. buddy_new 16 demo_areas demo_reserved = Inr b \<and>
     allocate_below 0 65536 b = Inr (Some a, b1) \<and>
     free_pages b1 \<union> live_pages b1 = {1..<16} - {5} \<and> free_pages b1 \<inter> live_pages b1 = {}"
proof -
  obtain b where b: "buddy_new 16 demo_areas demo_reserved = Inr b" "buddy_inv b"
    "free_pages b = {1..<16} - {5}" using demo_new demo_free by metis
  obtain a b1 where a: "allocate_below 0 65536 b = Inr (Some a, b1)"
    using allocate_below_succeeds [OF b(2), of 1 65536] b(3) by (auto simp: USIZE_MAX_def)
  then have "buddy_step\<^sup>*\<^sup>* b b1" by (blast intro: step_allocate_below)
  then show ?thesis
    using buddy_pages_conserved [OF _ _ _ b(1)] a b(1)
    by (simp add: reserved_ok_def USIZE_MAX_def demo_free del: One_nat_def)
qed

end
