(* ===== verification/Intrusive_List.thy ===== *)
theory Intrusive_List
  imports Prelude
begin

text \<open>
  src/src/list.rs: the intrusive circular doubly linked list.

  Memory is a map from the byte address of a 64-bit cell to its contents.  A \<^verbatim>\<open>ListNode\<close> at address
  \<open>n\<close> has its \<^verbatim>\<open>next\<close> pointer in cell \<open>n\<close> and its \<^verbatim>\<open>prev\<close> pointer in cell \<open>n + 8\<close>, so aliasing between
  nodes is visible in the model.  \<open>clist m h xs\<close> says that the nodes \<open>xs\<close> hang off the list head \<open>h\<close>
  in this order; every operation is shown to refine the list operation it stands for and to touch
  only cells of the nodes involved.
\<close>

type_synonym memory = "usize \<Rightarrow> usize"

section \<open>Operations\<close>

definition init_at :: "usize \<Rightarrow> memory \<Rightarrow> memory" where
  "init_at n m = m(n := n, n + 8 := n)"

definition container_of :: "usize \<Rightarrow> usize \<Rightarrow> usize run" where
  "container_of ptr offset = sub_usize ptr offset"

definition list_empty :: "usize \<Rightarrow> memory \<Rightarrow> bool" where
  "list_empty head m \<longleftrightarrow> head = 0 \<or> (m (head + 8) = 0 \<or> m head = 0) \<or>
     (m head = head \<and> m (head + 8) = head)"

definition list_insert :: "usize \<Rightarrow> usize \<Rightarrow> usize \<Rightarrow> memory \<Rightarrow> memory" where
  "list_insert new prev nxt m = m(prev := new, nxt + 8 := new, new + 8 := prev, new := nxt)"

definition list_unlink :: "usize \<Rightarrow> usize \<Rightarrow> memory \<Rightarrow> memory" where
  "list_unlink prev nxt m = m(prev := nxt, nxt + 8 := prev)"

definition list_add :: "usize \<Rightarrow> usize \<Rightarrow> memory \<Rightarrow> memory" where
  "list_add new head m = list_insert new head (m head) m"

definition list_append :: "usize \<Rightarrow> usize \<Rightarrow> memory \<Rightarrow> memory" where
  "list_append new head m = list_insert new (m (head + 8)) head m"

definition list_remove :: "usize \<Rightarrow> memory \<Rightarrow> memory" where
  "list_remove old m = init_at old (list_unlink (m (old + 8)) (m old) m)"

definition list_move :: "usize \<Rightarrow> usize \<Rightarrow> memory \<Rightarrow> memory" where
  "list_move entry head m = list_add entry head (list_remove entry m)"

definition list_move_tail :: "usize \<Rightarrow> usize \<Rightarrow> memory \<Rightarrow> memory" where
  "list_move_tail entry head m = list_append entry head (list_remove entry m)"

text \<open>The iteration macros.  The body works on the memory and on the variables it captures; the
  fuel bounds the \<^verbatim>\<open>while\<close> loop.\<close>

fun for_each_loop ::
  "nat \<Rightarrow> usize \<Rightarrow> (usize \<Rightarrow> memory \<times> 's \<Rightarrow> memory \<times> 's) \<Rightarrow> usize \<Rightarrow> memory \<times> 's \<Rightarrow> (memory \<times> 's) run" where
  "for_each_loop 0 head body pos ms = Inl Diverge"
| "for_each_loop (Suc fuel) head body pos ms =
     (if pos = head then Inr ms
      else let ms' = body pos ms in for_each_loop fuel head body (fst ms' pos) ms')"

definition list_for_each ::
  "nat \<Rightarrow> usize \<Rightarrow> (usize \<Rightarrow> memory \<times> 's \<Rightarrow> memory \<times> 's) \<Rightarrow> memory \<times> 's \<Rightarrow> (memory \<times> 's) run" where
  "list_for_each fuel head body ms = for_each_loop fuel head body (fst ms head) ms"

fun for_each_safe_loop ::
  "nat \<Rightarrow> usize \<Rightarrow> (usize \<Rightarrow> memory \<times> 's \<Rightarrow> memory \<times> 's) \<Rightarrow> usize \<Rightarrow> memory \<times> 's \<Rightarrow> (memory \<times> 's) run" where
  "for_each_safe_loop 0 head body pos ms = Inl Diverge"
| "for_each_safe_loop (Suc fuel) head body pos ms =
     (if pos = head then Inr ms
      else let n = fst ms pos in for_each_safe_loop fuel head body n (body pos ms))"

definition list_for_each_safe ::
  "nat \<Rightarrow> usize \<Rightarrow> (usize \<Rightarrow> memory \<times> 's \<Rightarrow> memory \<times> 's) \<Rightarrow> memory \<times> 's \<Rightarrow> (memory \<times> 's) run" where
  "list_for_each_safe fuel head body ms = for_each_safe_loop fuel head body (fst ms head) ms"

text \<open>The entry variants iterate over containers whose node field is at byte \<open>offset\<close>.\<close>

fun for_each_entry_loop ::
  "nat \<Rightarrow> usize \<Rightarrow> usize \<Rightarrow> (usize \<Rightarrow> memory \<times> 's \<Rightarrow> memory \<times> 's) \<Rightarrow> usize \<Rightarrow> memory \<times> 's \<Rightarrow>
     (memory \<times> 's) run" where
  "for_each_entry_loop 0 head offset body pos ms = Inl Diverge"
| "for_each_entry_loop (Suc fuel) head offset body pos ms =
     (if pos + offset = head then Inr ms
      else let ms' = body pos ms in
        rbind (container_of (fst ms' (pos + offset)) offset) (\<lambda>pos'.
        for_each_entry_loop fuel head offset body pos' ms'))"

definition list_for_each_entry ::
  "nat \<Rightarrow> usize \<Rightarrow> usize \<Rightarrow> (usize \<Rightarrow> memory \<times> 's \<Rightarrow> memory \<times> 's) \<Rightarrow> memory \<times> 's \<Rightarrow> (memory \<times> 's) run" where
  "list_for_each_entry fuel head offset body ms =
     rbind (container_of (fst ms head) offset) (\<lambda>pos.
     for_each_entry_loop fuel head offset body pos ms)"

fun for_each_entry_safe_loop ::
  "nat \<Rightarrow> usize \<Rightarrow> usize \<Rightarrow> (usize \<Rightarrow> memory \<times> 's \<Rightarrow> memory \<times> 's) \<Rightarrow> usize \<Rightarrow> memory \<times> 's \<Rightarrow>
     (memory \<times> 's) run" where
  "for_each_entry_safe_loop 0 head offset body pos ms = Inl Diverge"
| "for_each_entry_safe_loop (Suc fuel) head offset body pos ms =
     (if pos + offset = head then Inr ms
      else rbind (container_of (fst ms (pos + offset)) offset) (\<lambda>n.
        for_each_entry_safe_loop fuel head offset body n (body pos ms)))"

definition list_for_each_entry_safe ::
  "nat \<Rightarrow> usize \<Rightarrow> usize \<Rightarrow> (usize \<Rightarrow> memory \<times> 's \<Rightarrow> memory \<times> 's) \<Rightarrow> memory \<times> 's \<Rightarrow> (memory \<times> 's) run" where
  "list_for_each_entry_safe fuel head offset body ms =
     rbind (container_of (fst ms head) offset) (\<lambda>pos.
     for_each_entry_safe_loop fuel head offset body pos ms)"

section \<open>The circular list predicate\<close>

fun links :: "memory \<Rightarrow> usize list \<Rightarrow> bool" where
  "links m (x # y # zs) \<longleftrightarrow> m x = y \<and> m (y + 8) = x \<and> links m (y # zs)"
| "links m _ \<longleftrightarrow> True"

text \<open>Nodes that do not overlap: distinct, not eight bytes apart, none at the null address.\<close>

definition apart :: "usize list \<Rightarrow> bool" where
  "apart ns \<longleftrightarrow> distinct ns \<and> 0 \<notin> set ns \<and> (\<forall>a \<in> set ns. a + 8 \<notin> set ns)"

definition clist :: "memory \<Rightarrow> usize \<Rightarrow> usize list \<Rightarrow> bool" where
  "clist m h xs \<longleftrightarrow> links m (h # xs @ [h]) \<and> apart (h # xs)"

definition node_cells :: "usize list \<Rightarrow> usize set" where
  "node_cells ns = set ns \<union> (\<lambda>n. n + 8) ` set ns"

lemma links_append:
  "links m (xs @ y # ys) \<longleftrightarrow> links m (xs @ [y]) \<and> links m (y # ys)"
  by (induction xs rule: induct_list012) auto

lemma links_frame:
  assumes "links m ns" "\<And>u. u \<in> set (butlast ns) \<Longrightarrow> m' u = m u"
    "\<And>v. v \<in> set (tl ns) \<Longrightarrow> m' (v + 8) = m (v + 8)"
  shows "links m' ns"
  using assms
proof (induction m ns rule: links.induct)
  case (1 m x y zs)
  then show ?case by (cases zs) auto
qed auto

lemma links_split:
  assumes "ls \<noteq> []" "rs \<noteq> []"
  shows "links m (ls @ rs) \<longleftrightarrow> links m ls \<and> links m rs \<and> m (last ls) = hd rs \<and> m (hd rs + 8) = last ls"
  using assms by (induction ls rule: induct_list012) (auto simp: neq_Nil_conv)

lemma links_insert:
  assumes "links m (ls @ rs)" "ls \<noteq> []" "rs \<noteq> []"
    "m' = m(last ls := new, hd rs + 8 := new, new + 8 := last ls, new := hd rs)"
    "new \<notin> set ls \<union> set rs" "new + 8 \<notin> set ls \<union> set rs" "\<forall>a\<in>set ls \<union> set rs. a + 8 \<noteq> new"
    "last ls \<notin> set (butlast ls) \<union> set (butlast rs)" "hd rs \<notin> set (tl ls) \<union> set (tl rs)"
    "\<forall>a \<in> set ls \<union> set rs. \<forall>b \<in> set ls \<union> set rs. a + 8 \<noteq> b"
  shows "links m' (ls @ new # rs)"
proof -
  have mem: "last ls \<in> set ls" "hd rs \<in> set rs" using assms(2,3) by auto
  have sub: "set (butlast ls) \<subseteq> set ls" "set (butlast rs) \<subseteq> set rs"
    "set (tl ls) \<subseteq> set ls" "set (tl rs) \<subseteq> set rs"
    by (auto dest: in_set_butlastD list.set_sel(2) [rotated] simp: tl_Nil)
      (metis list.sel(2) list.set_sel(2))+
  let ?N = "set ls \<union> set rs"
  have N: "last ls \<in> ?N" "hd rs \<in> ?N" using mem by blast+
  have m'n: "m' u = m u" if "u \<in> set (butlast ls) \<union> set (butlast rs)" for u
  proof -
    have "u \<in> ?N" "u \<noteq> last ls" using that sub assms(8) by blast+
    moreover have "u \<noteq> hd rs + 8" "u \<noteq> new + 8" "u \<noteq> new" using \<open>u \<in> ?N\<close> N assms(5,6,10) by blast+
    ultimately show ?thesis by (simp add: assms(4))
  qed
  have m'p: "m' (v + 8) = m (v + 8)" if "v \<in> set (tl ls) \<union> set (tl rs)" for v
  proof -
    have "v \<in> ?N" "v \<noteq> hd rs" using that sub assms(9) by blast+
    moreover have "v + 8 \<noteq> last ls" "v + 8 \<noteq> new" "v \<noteq> new" using \<open>v \<in> ?N\<close> N assms(5,7,10) by blast+
    ultimately show ?thesis by (simp add: assms(4))
  qed
  have "links m ls" "links m rs" using assms(1) links_split [OF assms(2,3)] by auto
  then have "links m' ls" "links m' rs" by (auto intro: links_frame m'n m'p)
  moreover have "m' (last ls) = new" "m' (hd rs + 8) = new" "m' (new + 8) = last ls" "m' new = hd rs"
    using assms(5-7,10) N by (auto simp: assms(4) simp del: Un_iff)
  ultimately show ?thesis
    using links_split [of ls "new # rs" m'] links_split [of "[new]" rs m'] assms(2,3) by auto
qed

lemma links_delete:
  assumes "links m (ls @ x # rs)" "ls \<noteq> []" "rs \<noteq> []"
    "m' = m(last ls := hd rs, hd rs + 8 := last ls, x := x, x + 8 := x)"
    "x \<notin> set ls \<union> set rs" "x + 8 \<notin> set ls \<union> set rs" "\<forall>a\<in>set ls \<union> set rs. a + 8 \<noteq> x"
    "last ls \<notin> set (butlast ls) \<union> set (butlast rs)" "hd rs \<notin> set (tl ls) \<union> set (tl rs)"
    "\<forall>a \<in> set ls \<union> set rs. \<forall>b \<in> set ls \<union> set rs. a + 8 \<noteq> b"
  shows "links m' (ls @ rs)"
proof -
  let ?N = "set ls \<union> set rs"
  have N: "last ls \<in> ?N" "hd rs \<in> ?N" using assms(2,3) by auto
  have sub: "set (butlast ls) \<union> set (butlast rs) \<subseteq> ?N" "set (tl ls) \<union> set (tl rs) \<subseteq> ?N"
    by (auto dest: in_set_butlastD) (metis list.sel(2) list.set_sel(2))+
  have m'n: "m' u = m u" if "u \<in> set (butlast ls) \<union> set (butlast rs)" for u
  proof -
    have "u \<in> ?N" "u \<noteq> last ls" using that sub assms(8) by blast+
    moreover have "u \<noteq> hd rs + 8" "u \<noteq> x + 8" "u \<noteq> x" using \<open>u \<in> ?N\<close> N assms(5,6,10) by blast+
    ultimately show ?thesis by (simp add: assms(4))
  qed
  have m'p: "m' (v + 8) = m (v + 8)" if "v \<in> set (tl ls) \<union> set (tl rs)" for v
  proof -
    have "v \<in> ?N" "v \<noteq> hd rs" using that sub assms(9) by blast+
    moreover have "v + 8 \<noteq> last ls" "v + 8 \<noteq> x" "v \<noteq> x" using \<open>v \<in> ?N\<close> N assms(5,7,10) by blast+
    ultimately show ?thesis by (simp add: assms(4))
  qed
  have "links m ls" "links m rs"
    using assms(1) links_split [of ls "x # rs" m] links_split [of "[x]" rs m] assms(2,3) by auto
  then have "links m' ls" "links m' rs" by (auto intro: links_frame m'n m'p)
  moreover have "last ls \<noteq> hd rs + 8" "last ls \<noteq> x" "last ls \<noteq> x + 8" "hd rs + 8 \<noteq> x" "hd rs \<noteq> x"
    using assms(5-7,10) N by metis+
  then have "m' (last ls) = hd rs" "m' (hd rs + 8) = last ls" by (simp_all add: assms(4))
  ultimately show ?thesis using links_split [OF assms(2,3)] by auto
qed

text \<open>Side conditions of the two lemmas above, from \<open>apart\<close>.\<close>

lemma apart_parts:
  assumes "apart (x # h # xs @ ys)"
  shows "x \<notin> set (h # xs) \<union> set (ys @ [h])" "x + 8 \<notin> set (h # xs) \<union> set (ys @ [h])"
    "\<forall>a\<in>set (h # xs) \<union> set (ys @ [h]). a + 8 \<noteq> x"
    "last (h # xs) \<notin> set (butlast (h # xs)) \<union> set (butlast (ys @ [h]))"
    "hd (ys @ [h]) \<notin> set (tl (h # xs)) \<union> set (tl (ys @ [h]))"
    "\<forall>a \<in> set (h # xs) \<union> set (ys @ [h]). \<forall>b \<in> set (h # xs) \<union> set (ys @ [h]). a + 8 \<noteq> b"
proof -
  have d: "distinct (h # xs)" "distinct (h # ys)" "set xs \<inter> set ys = {}"
    using assms by (auto simp: apart_def)
  show "x \<notin> set (h # xs) \<union> set (ys @ [h])" "x + 8 \<notin> set (h # xs) \<union> set (ys @ [h])"
    "\<forall>a\<in>set (h # xs) \<union> set (ys @ [h]). a + 8 \<noteq> x"
    "\<forall>a \<in> set (h # xs) \<union> set (ys @ [h]). \<forall>b \<in> set (h # xs) \<union> set (ys @ [h]). a + 8 \<noteq> b"
    using assms by (fastforce simp: apart_def)+
  show "last (h # xs) \<notin> set (butlast (h # xs)) \<union> set (butlast (ys @ [h]))"
    using d by (cases xs rule: rev_cases) auto
  show "hd (ys @ [h]) \<notin> set (tl (h # xs)) \<union> set (tl (ys @ [h]))"
    using d by (cases ys) auto
qed

lemma clist_list_insert:
  assumes "clist m h (xs @ ys)" "apart (new # h # xs @ ys)"
  shows "clist (list_insert new (last (h # xs)) (hd (ys @ [h])) m) h (xs @ new # ys)"
proof -
  have "links m ((h # xs) @ ys @ [h])" using assms(1) by (simp add: clist_def)
  from links_insert [OF this _ _ refl apart_parts [OF assms(2)]]
  have "links (list_insert new (last (h # xs)) (hd (ys @ [h])) m) ((h # xs) @ new # ys @ [h])"
    by (simp add: list_insert_def)
  moreover have "apart (h # xs @ new # ys)" using assms(2) by (auto simp: apart_def)
  ultimately show ?thesis by (simp add: clist_def)
qed

lemma clist_ends:
  assumes "clist m h (xs @ ys)"
  shows "m (last (h # xs)) = hd (ys @ [h])" "m (hd (ys @ [h]) + 8) = last (h # xs)"
  using assms links_split [of "h # xs" "ys @ [h]" m] by (auto simp: clist_def)

lemma clist_node:
  assumes "clist m h (xs @ x # ys)"
  shows "m x = hd (ys @ [h])" "m (x + 8) = last (h # xs)" "apart (x # h # xs @ ys)" "x \<noteq> h"
proof -
  show "m x = hd (ys @ [h])" using clist_ends(1) [of m h "xs @ [x]" ys] assms by simp
  show "m (x + 8) = last (h # xs)" using clist_ends(2) [of m h xs "x # ys"] assms by simp
  show "apart (x # h # xs @ ys)" "x \<noteq> h" using assms by (auto simp: clist_def apart_def)
qed

lemma clist_list_remove:
  assumes "clist m h (xs @ x # ys)"
  shows "clist (list_remove x m) h (xs @ ys)" "clist (list_remove x m) x []"
proof -
  note nd = clist_node [OF assms]
  have "links m ((h # xs) @ x # ys @ [h])" using assms by (simp add: clist_def)
  from links_delete [OF this _ _ refl apart_parts [OF nd(3)]]
  have "links (list_remove x m) (h # xs @ ys @ [h])"
    by (simp add: list_remove_def list_unlink_def init_at_def nd(1,2))
  moreover have "apart (h # xs @ ys)" using assms by (auto simp: clist_def apart_def)
  ultimately show "clist (list_remove x m) h (xs @ ys)" by (simp add: clist_def)
  show "clist (list_remove x m) x []"
    using assms by (auto simp: clist_def apart_def list_remove_def init_at_def)
qed

lemma clist_frame:
  assumes "clist m h xs" "\<And>c. c \<in> node_cells (h # xs) \<Longrightarrow> m' c = m c"
  shows "clist m' h xs"
proof -
  have "links m' (h # xs @ [h])"
  proof (rule links_frame [of m])
    show "links m (h # xs @ [h])" using assms(1) by (simp add: clist_def)
    show "m' u = m u" if "u \<in> set (butlast (h # xs @ [h]))" for u
      using that by (intro assms(2)) (auto simp: node_cells_def butlast_append split: if_splits)
    show "m' (v + 8) = m (v + 8)" if "v \<in> set (tl (h # xs @ [h]))" for v
      using that by (intro assms(2)) (auto simp: node_cells_def)
  qed
  then show ?thesis using assms(1) by (simp add: clist_def)
qed

text \<open>The cells an operation may change.\<close>

lemma list_insert_other:
  "c \<notin> node_cells [new, prev, nxt] \<Longrightarrow> list_insert new prev nxt m c = m c"
  by (auto simp: list_insert_def node_cells_def)

lemma list_remove_other:
  assumes "clist m h (xs @ x # ys)" "c \<notin> node_cells (h # xs @ x # ys)"
  shows "list_remove x m c = m c"
proof -
  have "m x \<in> set (h # xs @ x # ys)" "m (x + 8) \<in> set (h # xs @ x # ys)"
    unfolding clist_node(1,2) [OF assms(1)] by (cases ys; simp) (cases xs rule: rev_cases; simp)
  then show ?thesis
    using assms(2) by (auto simp: list_remove_def list_unlink_def init_at_def node_cells_def)
qed

lemma clist_init_at: "apart [h] \<Longrightarrow> clist (init_at h m) h []"
  by (auto simp: clist_def init_at_def apart_def)

lemma clist_list_add:
  assumes "clist m h xs" "apart (new # h # xs)"
  shows "clist (list_add new h m) h (new # xs)"
  using clist_list_insert [of m h "[]" xs new] clist_ends(1) [of m h "[]" xs] assms
  by (simp add: list_add_def)

lemma clist_list_append:
  assumes "clist m h xs" "apart (new # h # xs)"
  shows "clist (list_append new h m) h (xs @ [new])"
  using clist_list_insert [of m h xs "[]" new] clist_ends(2) [of m h xs "[]"] assms
  by (simp add: list_append_def)

lemma clist_head_nonzero:
  assumes "clist m h xs"
  shows "m h = hd (xs @ [h])" "m (h + 8) = last (h # xs)" "h \<noteq> 0" "m h \<noteq> 0" "m (h + 8) \<noteq> 0" "h \<notin> set xs"
proof -
  show e: "m h = hd (xs @ [h])" "m (h + 8) = last (h # xs)"
    using clist_ends(1) [of m h "[]" xs] clist_ends(2) [of m h xs "[]"] assms by simp_all
  have "m h \<in> set (h # xs)" "m (h + 8) \<in> set (h # xs)"
    unfolding e by (cases xs; simp) (cases xs rule: rev_cases; simp)
  moreover have "0 \<notin> set (h # xs)" "h \<notin> set xs" using assms by (auto simp: clist_def apart_def)
  ultimately show "h \<noteq> 0" "m h \<noteq> 0" "m (h + 8) \<noteq> 0" "h \<notin> set xs" by (auto intro!: gr0I)
qed

lemma clist_list_empty: "clist m h xs \<Longrightarrow> list_empty h m \<longleftrightarrow> xs = []"
  using clist_head_nonzero [of m h xs] by (cases xs) (auto simp: list_empty_def)

lemma list_add_other:
  assumes "clist m h xs" "c \<notin> node_cells (new # h # xs)"
  shows "list_add new h m c = m c"
proof -
  have "m h \<in> set (h # xs)" using clist_ends(1) [of m h "[]" xs] assms(1) by (cases xs) auto
  then show ?thesis
    unfolding list_add_def using assms(2) by (intro list_insert_other) (auto simp: node_cells_def)
qed

lemma list_append_other:
  assumes "clist m h xs" "c \<notin> node_cells (new # h # xs)"
  shows "list_append new h m c = m c"
proof -
  have "m (h + 8) \<in> set (h # xs)"
    using clist_ends(2) [of m h xs "[]"] assms(1) by (cases xs rule: rev_cases) auto
  then show ?thesis
    unfolding list_append_def using assms(2) by (intro list_insert_other) (auto simp: node_cells_def)
qed

text \<open>Moving a node between two lists that share no cell.\<close>

lemma apart_disjoint_cells:
  assumes "apart (xs @ ys)" shows "node_cells xs \<inter> node_cells ys = {}"
proof -
  have s: "a + 8 \<noteq> b" "b + 8 \<noteq> a" "a \<noteq> b" if "a \<in> set xs" "b \<in> set ys" for a b
    using assms that by (auto simp: apart_def)
  show ?thesis unfolding node_cells_def using s by (fastforce dest: s)
qed

lemma clist_list_move:
  assumes "clist m h (xs @ x # ys)" "clist m k zs" "apart (h # xs @ x # ys @ k # zs)"
  shows "clist (list_move x k m) h (xs @ ys) \<and> clist (list_move x k m) k (x # zs)"
    "clist (list_move_tail x k m) h (xs @ ys) \<and> clist (list_move_tail x k m) k (zs @ [x])"
proof -
  let ?r = "list_remove x m"
  have d: "node_cells (h # xs @ x # ys) \<inter> node_cells (k # zs) = {}"
    using apart_disjoint_cells [of "h # xs @ x # ys" "k # zs"] assms(3) by simp
  have r: "clist ?r h (xs @ ys)" by (rule clist_list_remove [OF assms(1)])
  have k: "clist ?r k zs"
    using list_remove_other [OF assms(1)] d by (intro clist_frame [OF assms(2)]) blast
  have ap: "apart (x # k # zs)" using assms(3) by (auto simp: apart_def)
  have "apart ((h # xs @ ys) @ (x # k # zs))" using assms(3) by (auto simp: apart_def)
  note d2 = apart_disjoint_cells [OF this]
  have "list_add x k ?r c = ?r c" "list_append x k ?r c = ?r c" if "c \<in> node_cells (h # xs @ ys)" for c
    using that d2 by (auto intro!: list_add_other [OF k] list_append_other [OF k])
  then show "clist (list_move x k m) h (xs @ ys) \<and> clist (list_move x k m) k (x # zs)"
    "clist (list_move_tail x k m) h (xs @ ys) \<and> clist (list_move_tail x k m) k (zs @ [x])"
    using clist_list_add [OF k ap] clist_list_append [OF k ap] clist_frame [OF r]
    by (auto simp: list_move_def list_move_tail_def)
qed

section \<open>Iteration\<close>

lemma for_each_loop_eq:
  assumes "clist m h (xs @ ys)" "length ys < fuel"
  shows "for_each_loop fuel h (\<lambda>p (m, s). (m, f p s)) (hd (ys @ [h])) (m, s) = Inr (m, fold f ys s)"
  using assms
proof (induction ys arbitrary: xs fuel s)
  case Nil
  then show ?case by (cases fuel) auto
next
  case (Cons y ys)
  note nd = clist_node [OF Cons.prems(1)]
  obtain g where g: "fuel = Suc g" using Cons.prems(2) by (cases fuel) auto
  show ?case using Cons.IH [of "xs @ [y]" g "f y s"] Cons.prems nd(1,4) by (simp add: g)
qed

lemma for_each_entry_loop_eq:
  assumes "clist m h (xs @ ys)" "length ys < fuel" "off \<le> h" "\<forall>y\<in>set ys. off \<le> y"
  shows "for_each_entry_loop fuel h off (\<lambda>p (m, s). (m, f p s)) (hd (ys @ [h]) - off) (m, s) =
    Inr (m, fold (\<lambda>n. f (n - off)) ys s)"
  using assms
proof (induction ys arbitrary: xs fuel s)
  case Nil
  then show ?case by (cases fuel) auto
next
  case (Cons y ys)
  note nd = clist_node [OF Cons.prems(1)]
  obtain g where g: "fuel = Suc g" using Cons.prems(2) by (cases fuel) auto
  have "off \<le> hd (ys @ [h])" using Cons.prems(3,4) by (cases ys) auto
  then show ?case
    using Cons.IH [of "xs @ [y]" g "f (y - off) s"] Cons.prems nd(1,4)
    by (simp add: g container_of_def run_simps)
qed

text \<open>The safe loops keep working when the body unlinks the current node.  \<open>rm\<close> says, from the node and
  the variables of the body, which nodes it unlinks; \<open>survivors\<close> are the others.\<close>

fun survivors :: "(usize \<Rightarrow> 's \<Rightarrow> bool) \<Rightarrow> (usize \<Rightarrow> 's \<Rightarrow> 's) \<Rightarrow> usize list \<Rightarrow> 's \<Rightarrow> usize list" where
  "survivors rm f [] s = []"
| "survivors rm f (x # xs) s = (if rm x s then [] else [x]) @ survivors rm f xs (f x s)"

lemma clist_after_visit:
  assumes "clist m h (xs @ y # ys)"
  shows "clist (if r then list_remove y m else m) h ((xs @ (if r then [] else [y])) @ ys)"
  using clist_list_remove(1) [OF assms] assms by simp

lemma for_each_safe_loop_eq:
  assumes "clist m h (xs @ ys)" "length ys < fuel"
  shows "\<exists>m'. for_each_safe_loop fuel h (\<lambda>p (m, s). (if rm p s then list_remove p m else m, f p s)) (hd (ys @ [h])) (m, s) =
      Inr (m', fold f ys s) \<and> clist m' h (xs @ survivors rm f ys s)"
  using assms
proof (induction ys arbitrary: xs m fuel s)
  case Nil
  then show ?case by (cases fuel) auto
next
  case (Cons y ys)
  note nd = clist_node [OF Cons.prems(1)]
  obtain g where g: "fuel = Suc g" using Cons.prems(2) by (cases fuel) auto
  show ?case
    using Cons.IH [OF clist_after_visit [OF Cons.prems(1), of "rm y s"], of g "f y s"] Cons.prems nd(1,4)
    by (simp add: g)
qed

lemma for_each_entry_safe_loop_eq:
  assumes "clist m h (xs @ ys)" "length ys < fuel" "off \<le> h" "\<forall>y\<in>set ys. off \<le> y"
  shows "\<exists>m'. for_each_entry_safe_loop fuel h off (\<lambda>p (m, s). (if rm p s then list_remove (p + off) m else m, f p s))
      (hd (ys @ [h]) - off) (m, s) = Inr (m', fold (\<lambda>n. f (n - off)) ys s) \<and>
      clist m' h (xs @ survivors (\<lambda>n. rm (n - off)) (\<lambda>n. f (n - off)) ys s)"
  using assms
proof (induction ys arbitrary: xs m fuel s)
  case Nil
  then show ?case by (cases fuel) auto
next
  case (Cons y ys)
  note nd = clist_node [OF Cons.prems(1)]
  obtain g where g: "fuel = Suc g" using Cons.prems(2) by (cases fuel) auto
  have "off \<le> hd (ys @ [h])" using Cons.prems(3,4) by (cases ys) auto
  then show ?case
    using Cons.IH [OF clist_after_visit [OF Cons.prems(1), of "rm (y - off) s"], of g "f (y - off) s"] Cons.prems nd(1,4)
    by (cases "rm (y - off) s") (simp_all add: g container_of_def run_simps)
qed

lemma list_move_other:
  assumes "clist m h (xs @ x # ys)" "clist m k zs" "apart (h # xs @ x # ys @ k # zs)" "c \<notin> node_cells (h # xs @ x # ys @ k # zs)"
  shows "list_move x k m c = m c" "list_move_tail x k m c = m c"
proof -
  have d: "node_cells (h # xs @ x # ys) \<inter> node_cells (k # zs) = {}"
    using apart_disjoint_cells [of "h # xs @ x # ys" "k # zs"] assms(3) by simp
  have k: "clist (list_remove x m) k zs"
    using list_remove_other [OF assms(1)] d by (intro clist_frame [OF assms(2)]) blast
  have "c \<notin> node_cells (x # k # zs)" "c \<notin> node_cells (h # xs @ x # ys)" using assms(4) by (auto simp: node_cells_def)
  then show "list_move x k m c = m c" "list_move_tail x k m c = m c"
    using list_add_other [OF k] list_append_other [OF k] list_remove_other [OF assms(1)]
    by (simp_all add: list_move_def list_move_tail_def)
qed

section \<open>Properties\<close>

text \<open>C36: on a well formed list \<open>list_add\<close> pushes a fresh node to the front, \<open>list_append\<close> to the
  back, \<open>list_empty\<close> tests for the empty list, and no operation changes a cell outside the nodes of
  the list and the new node.\<close>

theorem list_insertion_refines:
  assumes "clist m h xs" "apart (new # h # xs)"
  shows "clist (list_add new h m) h (new # xs) \<and> clist (list_append new h m) h (xs @ [new]) \<and>
    (list_empty h m \<longleftrightarrow> xs = []) \<and>
    (\<forall>c. c \<notin> node_cells (new # h # xs) \<longrightarrow> list_add new h m c = m c \<and> list_append new h m c = m c)"
  using clist_list_add [OF assms] clist_list_append [OF assms] clist_list_empty [OF assms(1)]
    list_add_other [OF assms(1)] list_append_other [OF assms(1)] by blast

theorem list_insertion_refines_witness:
  "clist (list_append 64 16 (list_append 32 16 (init_at 16 (\<lambda>_. 0)))) 16 [32, 64]"
proof -
  have a: "clist (init_at 16 (\<lambda>_. 0)) 16 []" by (rule clist_init_at) (simp add: apart_def)
  have "clist (list_append 32 16 (init_at 16 (\<lambda>_. 0))) 16 [32]"
    using list_insertion_refines [OF a, of 32] by (simp add: apart_def)
  from list_insertion_refines [OF this, of 64] show ?thesis by (simp add: apart_def)
qed

text \<open>C37: \<open>list_remove\<close> takes exactly the given node out of its list, leaves it linked to itself and
  keeps the order of the others; \<open>list_move\<close> and \<open>list_move_tail\<close> carry it over to the front or the
  back of another list that shares no cell with the first.  No operation changes a cell outside the
  nodes of the two lists.\<close>

theorem list_removal_refines:
  assumes "clist m h (xs @ x # ys)" "clist m k zs" "apart (h # xs @ x # ys @ k # zs)"
  shows "clist (list_remove x m) h (xs @ ys) \<and> clist (list_remove x m) x [] \<and>
    clist (list_remove x m) k zs \<and>
    clist (list_move x k m) h (xs @ ys) \<and> clist (list_move x k m) k (x # zs) \<and>
    clist (list_move_tail x k m) h (xs @ ys) \<and> clist (list_move_tail x k m) k (zs @ [x]) \<and>
    (\<forall>c. c \<notin> node_cells (h # xs @ x # ys @ k # zs) \<longrightarrow>
      list_remove x m c = m c \<and> list_move x k m c = m c \<and> list_move_tail x k m c = m c)"
proof -
  have other: "list_remove x m c = m c" if "c \<notin> node_cells (h # xs @ x # ys @ k # zs)" for c
    using that by (intro list_remove_other [OF assms(1)]) (auto simp: node_cells_def)
  have "node_cells (h # xs @ x # ys) \<inter> node_cells (k # zs) = {}"
    using apart_disjoint_cells [of "h # xs @ x # ys" "k # zs"] assms(3) by simp
  then have "clist (list_remove x m) k zs"
    using list_remove_other [OF assms(1)] by (intro clist_frame [OF assms(2)]) blast
  then show ?thesis using clist_list_remove [OF assms(1)] clist_list_move [OF assms] other list_move_other [OF assms] by blast
qed

theorem list_removal_refines_witness:
  "clist (list_move 32 128 (init_at 128 (list_append 32 16 (init_at 16 (\<lambda>_. 0))))) 128 [32]"
proof -
  let ?m = "init_at 128 (list_append 32 16 (init_at 16 (\<lambda>_. 0)))"
  have "clist ?m 16 ([] @ 32 # [])" "clist ?m 128 []"
    by (simp_all add: clist_def apart_def init_at_def list_append_def list_insert_def)
  from list_removal_refines [OF this] show ?thesis by (simp add: apart_def)
qed

text \<open>C38: the four iteration macros return and visit every node, or every containing structure, once and
  in list order.  The safe variants do so also when the body unlinks nodes as it visits them, chosen in
  any way; the list then consists of the nodes the body did not unlink, in their order.\<close>

theorem list_iteration_visits_all:
  assumes "clist m h xs" "length xs < fuel" "off \<le> h" "\<forall>x\<in>set xs. off \<le> x"
  shows "list_for_each fuel h (\<lambda>p (m, s). (m, f p s)) (m, s) = Inr (m, fold f xs s) \<and>
    (\<exists>m'. list_for_each_safe fuel h (\<lambda>p (m, s). (if rm p s then list_remove p m else m, f p s)) (m, s) =
      Inr (m', fold f xs s) \<and> clist m' h (survivors rm f xs s)) \<and>
    list_for_each_entry fuel h off (\<lambda>p (m, s). (m, f p s)) (m, s) =
      Inr (m, fold f (map (\<lambda>x. x - off) xs) s) \<and>
    (\<exists>m'. list_for_each_entry_safe fuel h off (\<lambda>p (m, s). (if rm p s then list_remove (p + off) m else m, f p s)) (m, s) =
      Inr (m', fold f (map (\<lambda>x. x - off) xs) s) \<and> clist m' h (survivors (\<lambda>n. rm (n - off)) (\<lambda>n. f (n - off)) xs s))"
proof -
  have hd: "m h = hd (xs @ [h])" using clist_ends(1) [of m h "[]" xs] assms(1) by simp
  have le: "off \<le> hd (xs @ [h])" using assms(3,4) by (cases xs) auto
  have "fold f (map (\<lambda>x. x - off) xs) s = fold (\<lambda>n. f (n - off)) xs s" by (simp add: fold_map comp_def)
  then show ?thesis
    using for_each_loop_eq [of m h "[]" xs fuel f s] for_each_entry_loop_eq [of m h "[]" xs fuel off f s]
      for_each_safe_loop_eq [of m h "[]" xs fuel rm f s] for_each_entry_safe_loop_eq [of m h "[]" xs fuel off rm f s] assms hd le
    by (simp add: list_for_each_def list_for_each_safe_def list_for_each_entry_def list_for_each_entry_safe_def
        container_of_def run_simps)
qed

theorem list_iteration_visits_all_witness:
  "list_for_each_entry 3 16 8 (\<lambda>p (m, s). (m, s @ [p]))
     (list_append 64 16 (list_append 32 16 (init_at 16 (\<lambda>_. 0))), []) =
   Inr (list_append 64 16 (list_append 32 16 (init_at 16 (\<lambda>_. 0))), [24, 56]) \<and>
   (\<exists>m'. list_for_each_safe 3 16 (\<lambda>p (m, s). (if p = 32 then list_remove p m else m, s @ [p]))
     (list_append 64 16 (list_append 32 16 (init_at 16 (\<lambda>_. 0))), []) = Inr (m', [32, 64]) \<and> clist m' 16 [64])"
proof -
  let ?m = "list_append 64 16 (list_append 32 16 (init_at 16 (\<lambda>_. 0)))"
  have "clist ?m 16 [32, 64]"
    by (simp add: clist_def apart_def init_at_def list_append_def list_insert_def)
  from list_iteration_visits_all [OF this, of 3 8 "\<lambda>p s. s @ [p]" "[]" "\<lambda>p s. p = 32"] show ?thesis by simp
qed

end
