(* ===== verification/Heap_List.thy ===== *)
theory Heap_List
  imports Intrusive_List Alloc_Layout
begin

text \<open>
  src/src/mem/alloc.rs, first part: free blocks of the kernel heap and their address-ordered list.

  A \<^verbatim>\<open>HeapNode\<close> at address \<open>b\<close> keeps its size in cell \<open>b\<close> and its list node at \<open>b + 8\<close>
  (24 bytes).  \<open>free_list m h bs\<close> abstracts the list in memory to the list of pairs (address, size);
  \<open>insert_and_coalesce\<close> is shown to implement \<open>coalesce\<close> on it.
\<close>

section \<open>Operations\<close>

definition heap_node_init :: "usize \<Rightarrow> usize \<Rightarrow> memory \<Rightarrow> memory" where
  "heap_node_init ptr sz m = init_at (ptr + 8) (m(ptr := sz, ptr + 8 := 0, ptr + 8 + 8 := 0))"

definition ensure_head_initialized :: "usize \<Rightarrow> memory \<Rightarrow> memory" where
  "ensure_head_initialized head m = (if m head = 0 \<or> m (head + 8) = 0 then init_at head m else m)"

definition blocks_are_adjacent :: "usize \<Rightarrow> usize \<Rightarrow> memory \<Rightarrow> bool" where
  "blocks_are_adjacent left right m \<longleftrightarrow> saturating_add left (m left) = right"

text \<open>The walk to the insertion point; the fuel bounds the \<^verbatim>\<open>while\<close> loop.\<close>

fun insert_point :: "nat \<Rightarrow> usize \<Rightarrow> usize \<Rightarrow> usize \<Rightarrow> usize \<Rightarrow> memory \<Rightarrow> (usize \<times> usize) run" where
  "insert_point 0 head block_addr prev current m = Inl Diverge"
| "insert_point (Suc fuel) head block_addr prev current m =
     (if current = head then Inr (prev, current)
      else rbind (container_of current 8) (\<lambda>current_block.
        if block_addr \<le> current_block then Inr (prev, current)
        else insert_point fuel head block_addr current (m current) m))"

text \<open>Adding the size of the right block to the left one and unlinking the right one.\<close>

definition absorb :: "usize \<Rightarrow> usize \<Rightarrow> memory \<Rightarrow> memory run" where
  "absorb left right m =
     rbind (add_usize (m left) (m right)) (\<lambda>sz.
     Inr (list_remove (right + 8) (m(left := sz))))"

definition merge_prev :: "usize \<Rightarrow> usize \<Rightarrow> usize \<Rightarrow> memory \<Rightarrow> (usize \<times> memory) run" where
  "merge_prev head prev merged m =
     (if prev \<noteq> head then
        rbind (container_of prev 8) (\<lambda>prev_block.
        if blocks_are_adjacent prev_block merged m
        then rbind (absorb prev_block merged m) (\<lambda>m. Inr (prev_block, m))
        else Inr (merged, m))
      else Inr (merged, m))"

definition merge_next :: "usize \<Rightarrow> usize \<Rightarrow> memory \<Rightarrow> memory run" where
  "merge_next head merged m =
     (let nxt = m (merged + 8) in
      if nxt \<noteq> head then
        rbind (container_of nxt 8) (\<lambda>next_block.
        if blocks_are_adjacent merged next_block m then absorb merged next_block m else Inr m)
      else Inr m)"

definition insert_and_coalesce :: "nat \<Rightarrow> usize \<Rightarrow> usize \<Rightarrow> memory \<Rightarrow> memory run" where
  "insert_and_coalesce fuel head block m =
     rbind (insert_point fuel head block head (m head) m) (\<lambda>(prev, current).
     let node = block + 8;
         m = m(node + 8 := prev, node := current, prev := node, current + 8 := node)
     in rbind (merge_prev head prev block m) (\<lambda>(merged, m).
        merge_next head merged m))"

section \<open>Blocks and the free list\<close>

type_synonym hblock = "usize \<times> usize"

definition bytes :: "hblock list \<Rightarrow> usize set" where
  "bytes bs = (\<Union>x \<in> set bs. {fst x..<fst x + snd x})"

definition hblock_ok :: "usize \<Rightarrow> hblock \<Rightarrow> bool" where
  "hblock_ok h x \<longleftrightarrow> 8 dvd fst x \<and> 8 dvd snd x \<and> 24 \<le> snd x \<and> fst x + snd x \<le> USIZE_MAX \<and>
     (h + 16 \<le> fst x \<or> fst x + snd x \<le> h)"

definition before :: "hblock \<Rightarrow> hblock \<Rightarrow> bool" where
  "before x y \<longleftrightarrow> fst x + snd x \<le> fst y"

definition nodes :: "hblock list \<Rightarrow> usize list" where
  "nodes bs = map (\<lambda>x. fst x + 8) bs"

definition ordered :: "usize \<Rightarrow> hblock list \<Rightarrow> bool" where
  "ordered h bs \<longleftrightarrow> 8 dvd h \<and> 0 < h \<and> (\<forall>x\<in>set bs. hblock_ok h x) \<and> sorted_wrt before bs"

definition free_list :: "memory \<Rightarrow> usize \<Rightarrow> hblock list \<Rightarrow> bool" where
  "free_list m h bs \<longleftrightarrow> ordered h bs \<and> clist m h (nodes bs) \<and> (\<forall>x\<in>set bs. m (fst x) = snd x)"

lemma nodes_simps [simp]:
  "nodes [] = []" "nodes (x # xs) = (fst x + 8) # nodes xs" "nodes (xs @ ys) = nodes xs @ nodes ys"
  "set (nodes xs) = (\<lambda>x. fst x + 8) ` set xs" "nodes xs = [] \<longleftrightarrow> xs = []"
  "length (nodes xs) = length xs"
  by (auto simp: nodes_def)

lemma last_nodes: "last (h # nodes xs) = (if xs = [] then h else fst (last xs) + 8)"
  by (simp add: nodes_def last_map)

lemma hd_nodes: "hd (nodes xs @ [h]) = (if xs = [] then h else fst (hd xs) + 8)"
  by (cases xs) auto

lemma ordered_append:
  "ordered h (xs @ ys) \<longleftrightarrow> ordered h xs \<and> ordered h ys \<and> (\<forall>x\<in>set xs. \<forall>y\<in>set ys. before x y)"
  by (auto simp: ordered_def sorted_wrt_append)

lemma ordered_Cons:
  "ordered h (x # xs) \<longleftrightarrow> hblock_ok h x \<and> ordered h xs \<and> (\<forall>y\<in>set xs. before x y)"
  by (auto simp: ordered_def)

text \<open>Two list nodes of aligned disjoint blocks never overlap.\<close>

lemma blocks_nodes_apart:
  assumes "hblock_ok h x" "hblock_ok h y" "before x y \<or> before y x"
  shows "fst x \<noteq> fst y" "fst x + 8 \<noteq> fst y" "fst x + 16 \<noteq> fst y"
  using assms by (auto simp: hblock_ok_def before_def)

lemma head_node_apart:
  assumes "hblock_ok h x"
  shows "fst x \<noteq> h" "fst x \<noteq> h + 8" "fst x + 8 \<noteq> h" "fst x + 16 \<noteq> h"
  using assms by (auto simp: hblock_ok_def)

lemma ordered_apart: "ordered h bs \<Longrightarrow> apart (h # nodes bs)"
proof (induction bs)
  case Nil
  then show ?case by (simp add: apart_def ordered_def)
next
  case (Cons x xs)
  have x: "hblock_ok h x" and xs: "ordered h xs" and lt: "\<And>y. y \<in> set xs \<Longrightarrow> before x y"
    using Cons.prems by (auto simp: ordered_Cons)
  have ok: "\<And>y. y \<in> set xs \<Longrightarrow> hblock_ok h y" using xs by (simp add: ordered_def)
  have sep: "fst x \<noteq> fst y \<and> fst x + 8 \<noteq> fst y \<and> fst y + 8 \<noteq> fst x" if "y \<in> set xs" for y
    using blocks_nodes_apart [OF x ok [OF that]] blocks_nodes_apart [OF ok [OF that] x] lt [OF that]
    by auto
  show ?case
    using Cons.IH [OF xs] head_node_apart [OF x] sep by (fastforce simp: apart_def)
qed

lemma free_listI:
  assumes "ordered h bs" "links m (h # nodes bs @ [h])" "\<And>x. x \<in> set bs \<Longrightarrow> m (fst x) = snd x"
  shows "free_list m h bs"
  using assms ordered_apart [OF assms(1)] by (simp add: free_list_def clist_def)

text \<open>Cells owned by the list: its head and its blocks.\<close>

definition owned :: "usize \<Rightarrow> hblock list \<Rightarrow> usize set" where
  "owned h bs = {h..<h + 16} \<union> bytes bs"

lemma block_bytes: "x \<in> set bs \<Longrightarrow> {fst x..<fst x + snd x} \<subseteq> bytes bs"
  unfolding bytes_def by blast

lemma bytes_simps [simp]:
  "bytes [] = {}" "bytes (x # xs) = {fst x..<fst x + snd x} \<union> bytes xs"
  "bytes (xs @ ys) = bytes xs \<union> bytes ys"
  by (simp_all add: bytes_def)

lemma block_cells_owned:
  assumes "hblock_ok h x" "x \<in> set bs"
  shows "fst x \<in> owned h bs" "fst x + 8 \<in> owned h bs" "fst x + 16 \<in> owned h bs"
proof -
  have "fst x + 16 < fst x + snd x" using assms(1) by (simp add: hblock_ok_def)
  then have "{fst x, fst x + 8, fst x + 16} \<subseteq> {fst x..<fst x + snd x}" by auto
  then show "fst x \<in> owned h bs" "fst x + 8 \<in> owned h bs" "fst x + 16 \<in> owned h bs"
    using block_bytes [OF assms(2)] unfolding owned_def by blast+
qed

lemma node_cells_owned:
  assumes "ordered h bs" shows "node_cells (h # nodes bs) \<subseteq> owned h bs"
proof -
  have "n \<in> owned h bs \<and> n + 8 \<in> owned h bs" if n: "n \<in> set (h # nodes bs)" for n
  proof (cases "n = h")
    case False
    then obtain x where x: "x \<in> set bs" "n = fst x + 8" using n by auto
    moreover have "hblock_ok h x" using assms x(1) by (simp add: ordered_def)
    ultimately show ?thesis using block_cells_owned(2,3) by (simp add: add.assoc)
  qed (simp add: owned_def)
  then show ?thesis unfolding node_cells_def by blast
qed

lemma free_list_frame:
  assumes "free_list m h bs" "\<And>c. c \<in> owned h bs \<Longrightarrow> m' c = m c"
  shows "free_list m' h bs"
proof -
  have o: "ordered h bs" using assms(1) by (simp add: free_list_def)
  have "clist m' h (nodes bs)"
    using assms node_cells_owned [OF o] by (auto simp: free_list_def intro: clist_frame)
  moreover have "m' (fst x) = snd x" if "x \<in> set bs" for x
    using assms that block_cells_owned(1) [of h x bs] o by (auto simp: free_list_def ordered_def)
  ultimately show ?thesis using o by (simp add: free_list_def)
qed

section \<open>Linking and merging\<close>

text \<open>The size cell of a block is not a cell of any list node.\<close>

lemma size_not_node:
  assumes "ordered h bs" "x \<in> set bs" shows "fst x \<notin> node_cells (h # nodes bs)"
proof
  have ok: "hblock_ok h y" if "y \<in> set bs" for y using assms(1) that by (simp add: ordered_def)
  assume "fst x \<in> node_cells (h # nodes bs)"
  then consider "fst x = h \<or> fst x = h + 8"
    | y where "y \<in> set bs" "fst x = fst y + 8 \<or> fst x = fst y + 16"
    by (auto simp: node_cells_def)
  then show False
  proof cases
    case 1
    then show False using head_node_apart [OF ok [OF assms(2)]] by auto
  next
    case (2 y)
    have "y = x \<or> before x y \<or> before y x"
      using assms 2(1) unfolding ordered_def by (metis in_set_conv_nth linorder_neqE_nat sorted_wrt_nth_less)
    then show False using blocks_nodes_apart [OF ok [OF 2(1)] ok [OF assms(2)]] 2(2) by auto
  qed
qed

text \<open>Linking a block between its neighbours.\<close>

lemma free_list_link:
  assumes fl: "free_list m h (xs @ ys)" and o: "ordered h (xs @ (b, s) # ys)" and b: "m b = s"
  defines "p \<equiv> last (h # nodes xs)" and "n \<equiv> hd (nodes ys @ [h])"
  defines "m' \<equiv> m(b + 8 + 8 := p, b + 8 := n, p := b + 8, n + 8 := b + 8)"
  shows "free_list m' h (xs @ (b, s) # ys)"
    "\<And>c. c \<notin> owned h (xs @ (b, s) # ys) \<Longrightarrow> m' c = m c"
proof -
  let ?ns = "h # nodes xs @ nodes ys"
  have ap: "apart ((b + 8) # ?ns)" using ordered_apart [OF o] by (auto simp: apart_def)
  have pn: "p \<in> set ?ns" "n \<in> set ?ns"
    using last_in_set [of "h # nodes xs"] hd_in_set [of "nodes ys @ [h]"]
    by (auto simp: p_def n_def simp del: last.simps)
  have sep: "u \<noteq> b + 8 \<and> u + 8 \<noteq> b + 8 \<and> b + 8 + 8 \<noteq> u" "\<And>v. v \<in> set ?ns \<Longrightarrow> u + 8 \<noteq> v"
    if "u \<in> set ?ns" for u
    using ap that unfolding apart_def by (metis distinct.simps(2) list.set_intros(1,2))+
  have "m' = list_insert (b + 8) p n m"
    unfolding m'_def list_insert_def using sep(1) [OF pn(1)] sep(1) [OF pn(2)] by (auto simp: fun_upd_def)
  then have cl: "clist m' h (nodes (xs @ (b, s) # ys))"
    using clist_list_insert [of m h "nodes xs" "nodes ys" "b + 8"] fl ap
    by (simp add: free_list_def p_def n_def)
  have cells: "{b + 8 + 8, b + 8, p, n + 8} \<subseteq> node_cells (h # nodes (xs @ (b, s) # ys))"
    using pn by (auto simp: node_cells_def)
  have "m' (fst x) = m (fst x)" if x: "x \<in> set (xs @ (b, s) # ys)" for x
    using cells size_not_node [OF o x] by (auto simp: m'_def)
  then have "m' (fst x) = snd x" if "x \<in> set (xs @ (b, s) # ys)" for x
    using fl b that by (auto simp: free_list_def)
  then show "free_list m' h (xs @ (b, s) # ys)" using cl o by (simp add: free_list_def)
  show "m' c = m c" if "c \<notin> owned h (xs @ (b, s) # ys)" for c
    using cells node_cells_owned [OF o] that by (auto simp: m'_def)
qed

text \<open>Merging a block with its right neighbour.\<close>

lemma free_list_absorb:
  assumes fl: "free_list m h (xs @ (a, s) # (b, t) # ys)" and adj: "a + s = b"
  shows "\<exists>m'. absorb a b m = Inr m' \<and> free_list m' h (xs @ (a, s + t) # ys) \<and>
    (\<forall>c. c \<notin> owned h (xs @ (a, s) # (b, t) # ys) \<longrightarrow> m' c = m c)"
proof -
  let ?bs = "xs @ (a, s) # (b, t) # ys" and ?m = "m(a := s + t)"
  have o: "ordered h ?bs" and cl: "clist m h (nodes ?bs)" using fl by (simp_all add: free_list_def)
  have sz: "m (fst x) = snd x" if "x \<in> set ?bs" for x using fl that unfolding free_list_def by blast
  have ok: "hblock_ok h (a, s)" "hblock_ok h (b, t)" using o by (simp_all add: ordered_def)
  have o': "ordered h (xs @ (a, s + t) # ys)"
    using o adj by (auto simp: ordered_append ordered_Cons before_def hblock_ok_def)
  have a: "a \<notin> node_cells (h # nodes ?bs)" using size_not_node [OF o, of "(a, s)"] by simp
  have cl': "clist ?m h ((nodes xs @ [a + 8]) @ (b + 8) # nodes ys)"
  proof -
    have "clist ?m h (nodes ?bs)" using a by (intro clist_frame [OF cl]) auto
    then show ?thesis by simp
  qed
  have "clist (list_remove (b + 8) ?m) h (nodes (xs @ (a, s + t) # ys))"
    using clist_list_remove(1) [OF cl'] by simp
  moreover have rem: "list_remove (b + 8) ?m c = ?m c" if "c \<notin> node_cells (h # nodes ?bs)" for c
    using list_remove_other [OF cl', of c] that by simp
  have "list_remove (b + 8) ?m (fst x) = snd x" if x: "x \<in> set (xs @ (a, s + t) # ys)" for x
  proof (cases "x = (a, s + t)")
    case True
    then show ?thesis using rem [OF a] by simp
  next
    case False
    then have mem: "x \<in> set ?bs" using x by auto
    moreover have "hblock_ok h x" using o mem unfolding ordered_def by blast
    moreover have "before x (a, s) \<or> before (a, s) x"
      using o False x by (auto simp: ordered_append ordered_Cons)
    ultimately have "x \<in> set ?bs" "fst x \<noteq> a" using blocks_nodes_apart(1) [of h x "(a, s)"] ok by auto
    then show ?thesis using rem [OF size_not_node [OF o mem]] sz [OF mem] by simp
  qed
  ultimately have "free_list (list_remove (b + 8) ?m) h (xs @ (a, s + t) # ys)"
    using o' by (simp add: free_list_def)
  moreover have "absorb a b m = Inr (list_remove (b + 8) ?m)"
    using sz [of "(a, s)"] sz [of "(b, t)"] ok adj by (simp add: absorb_def hblock_ok_def run_simps)
  moreover have "list_remove (b + 8) ?m c = m c" if "c \<notin> owned h ?bs" for c
  proof -
    have "c \<notin> node_cells (h # nodes ?bs)" using node_cells_owned [OF o] that by blast
    moreover have "c \<noteq> a" using block_cells_owned(1) [OF ok(1), of ?bs] that by auto
    ultimately show ?thesis using rem by simp
  qed
  ultimately show ?thesis by blast
qed

text \<open>The walk stops at the first block at or above the new address.\<close>

lemma insert_point_eq:
  assumes "clist m h (nodes (xs @ ys))" "length ys < fuel"
  shows "insert_point fuel h b (last (h # nodes xs)) (hd (nodes ys @ [h])) m =
    Inr (last (h # nodes (xs @ takeWhile (\<lambda>x. fst x < b) ys)),
         hd (nodes (dropWhile (\<lambda>x. fst x < b) ys) @ [h]))"
  using assms
proof (induction ys arbitrary: xs fuel)
  case Nil
  then show ?case by (cases fuel) auto
next
  case (Cons y ys)
  obtain g where g: "fuel = Suc g" using Cons.prems(2) by (cases fuel) auto
  have c: "clist m h (nodes xs @ (fst y + 8) # nodes ys)" using Cons.prems(1) by simp
  note nd = clist_node [OF c]
  show ?case
    using Cons.IH [of "xs @ [y]" g] Cons.prems nd(1,4)
    by (simp add: g container_of_def run_simps not_le)
qed

section \<open>Insertion refines \<open>coalesce\<close>\<close>

definition merge_right :: "hblock \<Rightarrow> hblock list \<Rightarrow> hblock list" where
  "merge_right x ys = (case ys of [] \<Rightarrow> [x]
     | y # zs \<Rightarrow> if fst x + snd x = fst y then (fst x, snd x + snd y) # zs else x # ys)"

definition coalesce :: "hblock \<Rightarrow> hblock list \<Rightarrow> hblock list" where
  "coalesce x bs =
     (let xs = takeWhile (\<lambda>y. fst y < fst x) bs; ys = dropWhile (\<lambda>y. fst y < fst x) bs
      in if xs \<noteq> [] \<and> fst (last xs) + snd (last xs) = fst x
         then butlast xs @ merge_right (fst (last xs), snd (last xs) + snd x) ys
         else xs @ merge_right x ys)"

lemma free_list_adjacent:
  assumes "free_list m h bs" "x \<in> set bs"
  shows "blocks_are_adjacent (fst x) b m \<longleftrightarrow> fst x + snd x = b"
  using assms
  by (auto simp: free_list_def ordered_def hblock_ok_def blocks_are_adjacent_def saturating_add_def)

lemma bytes_merge_right [simp]: "bytes (merge_right x ys) = {fst x..<fst x + snd x} \<union> bytes ys"
  by (auto simp: merge_right_def split: list.splits)

lemma bytes_absorb: "(a::nat) + s = b \<Longrightarrow> {a..<a + s} \<union> {b..<b + t} = {a..<a + (s + t)}"
  by auto

lemma merge_next_refines:
  assumes fl: "free_list m h (xs @ x # ys)"
  shows "\<exists>m'. merge_next h (fst x) m = Inr m' \<and> free_list m' h (xs @ merge_right x ys) \<and>
    (\<forall>c. c \<notin> owned h (xs @ x # ys) \<longrightarrow> m' c = m c)"
proof -
  have c: "clist m h (nodes xs @ (fst x + 8) # nodes ys)" using fl by (simp add: free_list_def)
  note nd = clist_node [OF c]
  show ?thesis
  proof (cases ys)
    case Nil
    then show ?thesis using nd(1) fl by (simp add: merge_next_def merge_right_def)
  next
    case (Cons y zs)
    have "h \<noteq> fst y + 8" using clist_node(4) [of m h "nodes xs @ [fst x + 8]" "fst y + 8" "nodes zs"] c
      by (auto simp: Cons)
    then have run: "merge_next h (fst x) m =
      (if fst x + snd x = fst y then absorb (fst x) (fst y) m else Inr m)"
      using nd(1) free_list_adjacent [OF fl, of x "fst y"]
      by (simp add: merge_next_def Cons container_of_def run_simps)
    show ?thesis
      using free_list_absorb [of m h xs "fst x" "snd x" "fst y" "snd y" zs] fl
      by (auto simp: run merge_right_def Cons)
  qed
qed

lemma merge_prev_refines:
  assumes fl: "free_list m h (xs @ x # ys)"
  defines "adj \<equiv> xs \<noteq> [] \<and> fst (last xs) + snd (last xs) = fst x"
  defines "ls \<equiv> if adj then butlast xs else xs"
    and "x' \<equiv> if adj then (fst (last xs), snd (last xs) + snd x) else x"
  shows "\<exists>m'. merge_prev h (last (h # nodes xs)) (fst x) m = Inr (fst x', m') \<and>
    free_list m' h (ls @ x' # ys) \<and>
    (\<forall>c. c \<notin> owned h (xs @ x # ys) \<longrightarrow> m' c = m c)"
proof (cases xs rule: rev_cases)
  case Nil
  then show ?thesis using fl by (simp add: merge_prev_def adj_def ls_def x'_def)
next
  case (snoc zs z)
  have "clist m h (nodes zs @ (fst z + 8) # (fst x + 8) # nodes ys)"
    using fl by (simp add: free_list_def snoc)
  then have "fst z + 8 \<noteq> h" by (rule clist_node(4))
  then have run: "merge_prev h (fst z + 8) (fst x) m =
    (if fst z + snd z = fst x then rbind (absorb (fst z) (fst x) m) (\<lambda>m. Inr (fst z, m))
     else Inr (fst x, m))"
    using free_list_adjacent [OF fl, of z "fst x"]
    by (simp add: merge_prev_def snoc container_of_def run_simps)
  show ?thesis
    using free_list_absorb [of m h zs "fst z" "snd z" "fst x" "snd x" ys] fl
    by (auto simp: run adj_def ls_def x'_def snoc)
qed

lemma ordered_insert:
  assumes "ordered h bs" "hblock_ok h x" "\<forall>y\<in>set bs. before x y \<or> before y x"
  shows "ordered h (takeWhile (\<lambda>y. fst y < fst x) bs @ x # dropWhile (\<lambda>y. fst y < fst x) bs)"
proof -
  let ?l = "takeWhile (\<lambda>y. fst y < fst x) bs" and ?r = "dropWhile (\<lambda>y. fst y < fst x) bs"
  have o: "ordered h ?l" "ordered h ?r" "\<forall>y\<in>set ?l. \<forall>z\<in>set ?r. before y z"
    using assms(1) ordered_append [of h ?l ?r] by simp_all
  have l: "before y x" if "y \<in> set ?l" for y
    using that assms(2,3) set_takeWhileD [of y _ bs] by (fastforce simp: before_def hblock_ok_def)
  have "fst x \<le> fst y" if y: "y \<in> set ?r" for y
  proof (cases ?r)
    case (Cons z zs)
    then have "fst x \<le> fst z" using hd_dropWhile [of "\<lambda>y. fst y < fst x" bs] by auto
    moreover have "y = z \<or> before z y" using o(2) y Cons by (auto simp: ordered_Cons)
    ultimately show ?thesis by (auto simp: before_def)
  qed (use y in \<open>simp del: dropWhile_eq_Nil_conv\<close>)
  moreover have "hblock_ok h y" "y \<in> set bs" if "y \<in> set ?r" for y
    using that o(2) set_dropWhileD [of y _ bs] by (auto simp: ordered_def)
  ultimately have "\<not> before y x" "y \<in> set bs" if "y \<in> set ?r" for y
    using that by (fastforce simp: before_def hblock_ok_def)+
  then have r: "before x y" if "y \<in> set ?r" for y using that assms(3) by blast
  show ?thesis using o l r assms(2) by (auto simp: ordered_append ordered_Cons)
qed

lemma insert_and_coalesce_refines:
  assumes fl: "free_list m h bs" and x: "hblock_ok h (b, s)" "\<forall>y\<in>set bs. before (b, s) y \<or> before y (b, s)"
    and b: "m b = s" and fuel: "length bs < fuel"
  shows "\<exists>m'. insert_and_coalesce fuel h b m = Inr m' \<and> free_list m' h (coalesce (b, s) bs) \<and>
    (\<forall>c. c \<notin> owned h ((b, s) # bs) \<longrightarrow> m' c = m c)"
proof -
  define xs ys where "xs = takeWhile (\<lambda>y. fst y < b) bs" and "ys = dropWhile (\<lambda>y. fst y < b) bs"
  have bs: "bs = xs @ ys" by (simp add: xs_def ys_def)
  have own: "owned h ((b, s) # bs) = owned h (xs @ (b, s) # ys)" by (auto simp: owned_def bs)
  have o: "ordered h (xs @ (b, s) # ys)"
    using ordered_insert [OF _ x] fl by (simp add: free_list_def xs_def ys_def)
  have c: "clist m h (nodes ([] @ bs))" using fl by (simp add: free_list_def)
  have ip: "insert_point fuel h b h (m h) m = Inr (last (h # nodes xs), hd (nodes ys @ [h]))"
    using insert_point_eq [OF c fuel, of b] clist_ends(1) [of m h "[]" "nodes bs"] c
    by (simp add: xs_def ys_def)
  let ?p = "last (h # nodes xs)" and ?n = "hd (nodes ys @ [h])"
  define m1 where "m1 = m(b + 8 + 8 := ?p, b + 8 := ?n, ?p := b + 8, ?n + 8 := b + 8)"
  have fl': "free_list m h (xs @ ys)" using fl by (simp add: bs)
  note lk = free_list_link [OF fl' o b, folded m1_def]
  let ?adj = "xs \<noteq> [] \<and> fst (last xs) + snd (last xs) = b"
  let ?ls = "if ?adj then butlast xs else xs"
  let ?x = "if ?adj then (fst (last xs), snd (last xs) + s) else (b, s)"
  obtain m2 where m2: "merge_prev h ?p b m1 = Inr (fst ?x, m2)" "free_list m2 h (?ls @ ?x # ys)"
    "\<forall>c. c \<notin> owned h (xs @ (b, s) # ys) \<longrightarrow> m2 c = m1 c"
    using merge_prev_refines [OF lk(1)] unfolding fst_conv snd_conv by blast
  obtain m3 where m3: "merge_next h (fst ?x) m2 = Inr m3" "free_list m3 h (?ls @ merge_right ?x ys)"
    "\<forall>c. c \<notin> owned h (?ls @ ?x # ys) \<longrightarrow> m3 c = m2 c"
    using merge_next_refines [OF m2(2)] by blast
  have "bytes (?ls @ ?x # ys) = bytes (xs @ (b, s) # ys)"
  proof (cases ?adj)
    case True
    then have "bytes xs = bytes (butlast xs) \<union> {fst (last xs)..<fst (last xs) + snd (last xs)}"
      using bytes_simps(3) [of "butlast xs" "[last xs]"] by simp
    then show ?thesis
      using True by (simp add: bytes_absorb [of "fst (last xs)" "snd (last xs)" b s, symmetric] Un_assoc)
  qed auto
  then have "owned h (?ls @ ?x # ys) = owned h (xs @ (b, s) # ys)" by (simp add: owned_def)
  moreover have "coalesce (b, s) bs = ?ls @ merge_right ?x ys"
    by (simp add: coalesce_def Let_def xs_def ys_def)
  moreover have "insert_and_coalesce fuel h b m = Inr m3"
    unfolding insert_and_coalesce_def ip rbind_simps Let_def case_prod_conv m1_def [symmetric]
      m2(1) m3(1) ..
  ultimately show ?thesis using m2(3) m3(2,3) lk(2) own by simp
qed

lemma free_list_remove:
  assumes fl: "free_list m h (xs @ x # ys)"
  shows "free_list (list_remove (fst x + 8) m) h (xs @ ys)"
    "\<And>c. c \<notin> owned h (xs @ x # ys) \<Longrightarrow> list_remove (fst x + 8) m c = m c"
proof -
  have o: "ordered h (xs @ x # ys)" and cl: "clist m h (nodes xs @ (fst x + 8) # nodes ys)"
    using fl by (simp_all add: free_list_def)
  have rem: "list_remove (fst x + 8) m c = m c" if "c \<notin> node_cells (h # nodes (xs @ x # ys))" for c
    using list_remove_other [OF cl] that by simp
  have "list_remove (fst x + 8) m (fst y) = snd y" if "y \<in> set (xs @ ys)" for y
    using rem [OF size_not_node [OF o, of y]] fl that by (auto simp: free_list_def)
  moreover have "ordered h (xs @ ys)" using o by (auto simp: ordered_append ordered_Cons)
  ultimately show "free_list (list_remove (fst x + 8) m) h (xs @ ys)"
    using clist_list_remove(1) [OF cl] by (simp add: free_list_def)
  show "list_remove (fst x + 8) m c = m c" if "c \<notin> owned h (xs @ x # ys)" for c
    using rem [of c] node_cells_owned [OF o] that by blast
qed

section \<open>What \<open>coalesce\<close> computes\<close>

text \<open>No two neighbours of the list touch.\<close>

definition coalesced :: "hblock list \<Rightarrow> bool" where
  "coalesced bs \<longleftrightarrow> sorted_wrt (\<lambda>x y. fst x + snd x < fst y) bs"

lemma takeWhile_dropWhile_set: "set (takeWhile P bs) \<union> set (dropWhile P bs) = set bs"
  by (metis set_append takeWhile_dropWhile_id)

lemma bytes_coalesce: "bytes (coalesce x bs) = {fst x..<fst x + snd x} \<union> bytes bs"
proof -
  define xs ys where "xs = takeWhile (\<lambda>y. fst y < fst x) bs" and "ys = dropWhile (\<lambda>y. fst y < fst x) bs"
  have bs: "bytes bs = bytes xs \<union> bytes ys"
    unfolding xs_def ys_def by (metis bytes_simps(3) takeWhile_dropWhile_id)
  have co: "coalesce x bs = (if xs \<noteq> [] \<and> fst (last xs) + snd (last xs) = fst x
      then butlast xs @ merge_right (fst (last xs), snd (last xs) + snd x) ys
      else xs @ merge_right x ys)" by (simp add: coalesce_def Let_def xs_def ys_def)
  show ?thesis
  proof (cases "xs \<noteq> [] \<and> fst (last xs) + snd (last xs) = fst x")
    case True
    then have "bytes xs = bytes (butlast xs) \<union> {fst (last xs)..<fst (last xs) + snd (last xs)}"
      using bytes_simps(3) [of "butlast xs" "[last xs]"] by simp
    then show ?thesis
      using True bs co
      by (simp add: bytes_absorb [of "fst (last xs)" "snd (last xs)" "fst x" "snd x", symmetric]) blast
  next
    case False
    then show ?thesis using bs co by auto
  qed
qed

lemma coalesced_merge_right:
  assumes "coalesced ys" "\<forall>y\<in>set ys. before x y" "\<forall>y\<in>set ys. 0 < snd y"
  shows "coalesced (merge_right x ys)"
  using assms by (cases ys) (auto simp: merge_right_def coalesced_def before_def)

lemma coalesced_coalesce:
  assumes o: "ordered h bs" and c: "coalesced bs" and x: "hblock_ok h x"
    "\<forall>y\<in>set bs. before x y \<or> before y x"
  shows "coalesced (coalesce x bs)"
proof -
  define xs ys where "xs = takeWhile (\<lambda>y. fst y < fst x) bs" and "ys = dropWhile (\<lambda>y. fst y < fst x) bs"
  have bs: "bs = xs @ ys" by (simp add: xs_def ys_def)
  have lt: "\<forall>y\<in>set xs. before y x" "\<forall>y\<in>set ys. before x y"
    using ordered_insert [OF o x] by (auto simp: ordered_append ordered_Cons xs_def ys_def)
  have cs: "coalesced xs" "coalesced ys" "\<forall>y\<in>set xs. \<forall>z\<in>set ys. fst y + snd y < fst z"
    using c by (auto simp: bs coalesced_def sorted_wrt_append)
  have "\<forall>y\<in>set ys. hblock_ok h y" using o by (simp add: bs ordered_def)
  then have pos: "\<forall>y\<in>set ys. 0 < snd y" by (fastforce simp: hblock_ok_def)
  have hd: "fst w = fst z" if "w \<in> set (merge_right z ys)" "w \<notin> set ys" for w z
    using that by (auto simp: merge_right_def split: list.splits if_splits)
  show ?thesis
  proof (cases "xs \<noteq> [] \<and> fst (last xs) + snd (last xs) = fst x")
    case True
    define zs z where "zs = butlast xs" and "z = last xs"
    have xs: "xs = zs @ [z]" using True by (simp add: zs_def z_def)
    let ?z = "(fst z, snd z + snd x)"
    have "coalesced (merge_right ?z ys)"
      using lt cs(2) pos True by (intro coalesced_merge_right) (auto simp: before_def z_def)
    moreover have "fst y + snd y < fst w" if "y \<in> set zs" "w \<in> set (merge_right ?z ys)" for y w
      using cs(1,3) that hd [OF that(2)] by (cases "w \<in> set ys") (auto simp: xs coalesced_def sorted_wrt_append)
    ultimately show ?thesis
      using True cs(1)
      by (auto simp: coalesce_def Let_def xs_def [symmetric] ys_def [symmetric] coalesced_def
          sorted_wrt_append xs)
  next
    case False
    have "coalesced (merge_right x ys)"
      using lt cs(2) pos by (intro coalesced_merge_right) auto
    moreover have "fst y + snd y < fst w" if "y \<in> set xs" "w \<in> set (merge_right x ys)" for y w
    proof (cases "w \<in> set ys")
      case True
      then show ?thesis using cs(3) that by blast
    next
      case w: False
      have "fst w = fst x" using hd [OF that(2) w] .
      moreover have "fst y + snd y \<noteq> fst x"
      proof (cases xs rule: rev_cases)
        case (snoc zs z)
        have "y = z \<or> fst y + snd y < fst z"
          using cs(1) that(1) by (auto simp: snoc coalesced_def sorted_wrt_append)
        moreover have "fst z + snd z \<noteq> fst x" "before z x" using False lt(1) by (auto simp: snoc)
        ultimately show ?thesis by (auto simp: before_def)
      qed (use that in simp)
      ultimately show ?thesis using lt(1) that(1) by (auto simp: before_def le_less)
    qed
    ultimately show ?thesis
      using False cs(1)
      by (auto simp: coalesce_def Let_def xs_def [symmetric] ys_def [symmetric] coalesced_def
          sorted_wrt_append)
  qed
qed

end
