(* ===== verification/Kernel_Heap.thy ===== *)
theory Kernel_Heap
  imports Heap_List Buddy_Theorems
begin

text \<open>
  src/src/mem/alloc.rs, second part: the global allocator of the kernel.

  \<open>kheap\<close> holds the memory the allocator works in and the buddy allocator it takes 4 MiB chunks
  from; \<open>head\<close> is the address of the static list head.  The locks around the head and the buddy
  allocator are those of \<open>Spin_Lock\<close>; each call here is one critical section.
\<close>

abbreviation CHUNK_SIZE :: usize where "CHUNK_SIZE \<equiv> 4194304"
abbreviation MIN_FREE_BLOCK_SIZE :: usize where "MIN_FREE_BLOCK_SIZE \<equiv> 33"

record kheap =
  kmem :: memory
  kbuddy :: "buddy option"

section \<open>Operations\<close>

definition heap_geometry :: allocation_geometry where
  "heap_geometry = \<lparr>header_size = 24, block_align = 8, back_ptr_size = 8\<rparr>"

definition heap_layout :: "layout \<Rightarrow> layout run" where
  "heap_layout l = normalize_layout l 8"

definition heap_placement :: "usize \<Rightarrow> usize \<Rightarrow> layout \<Rightarrow> (usize \<times> usize) option run" where
  "heap_placement block_start block_size l =
     obind (allocation_for_block block_start block_size l heap_geometry) (\<lambda>p.
     Inr (Some (user_ptr p, used_size p)))"

definition header_from_user_ptr :: "usize \<Rightarrow> memory \<Rightarrow> usize run" where
  "header_from_user_ptr ptr m = rbind (sub_usize ptr 8) (\<lambda>back_ptr. Inr (m back_ptr))"

text \<open>Taking the block found by the scan: unlink it, give a large enough rest back, note the used
  size and the back pointer.\<close>

definition carve_block ::
  "nat \<Rightarrow> usize \<Rightarrow> usize \<Rightarrow> usize \<Rightarrow> usize \<Rightarrow> usize \<Rightarrow> memory \<Rightarrow> memory run" where
  "carve_block fuel head block block_size uptr used m =
     (let m = list_remove (block + 8) m in
      rbind (sub_usize block_size used) (\<lambda>remaining.
      rbind (if MIN_FREE_BLOCK_SIZE \<le> remaining
             then rbind (add_usize block used) (\<lambda>free_block.
                  insert_and_coalesce fuel head free_block (heap_node_init free_block remaining m))
             else Inr m) (\<lambda>m.
      let m = m(block := used) in
      rbind (sub_usize uptr 8) (\<lambda>back_ptr. Inr (m(back_ptr := block))))))"

fun free_list_scan ::
  "nat \<Rightarrow> nat \<Rightarrow> usize \<Rightarrow> layout \<Rightarrow> usize \<Rightarrow> memory \<Rightarrow> (usize option \<times> memory) run" where
  "free_list_scan 0 walk head l node m = Inl Diverge"
| "free_list_scan (Suc fuel) walk head l node m =
     (if node = head then Inr (None, m)
      else let nxt = m node in
        rbind (container_of node 8) (\<lambda>block.
        rbind (heap_placement block (m block) l) (\<lambda>r. case r of
            Some (uptr, used) \<Rightarrow>
              rbind (carve_block walk head block (m block) uptr used m) (\<lambda>m. Inr (Some uptr, m))
          | None \<Rightarrow> free_list_scan fuel walk head l nxt m)))"

definition allocate_from_free_list ::
  "nat \<Rightarrow> usize \<Rightarrow> layout \<Rightarrow> memory \<Rightarrow> (usize option \<times> memory) run" where
  "allocate_from_free_list fuel head l m =
     (if list_empty head m then Inr (None, m)
      else free_list_scan fuel fuel head l (m head) m)"

definition grow_heap :: "nat \<Rightarrow> usize \<Rightarrow> kheap \<Rightarrow> (bool \<times> kheap) run" where
  "grow_heap fuel head st =
     (case kbuddy st of
        None \<Rightarrow> Inl (Expect ''You must init buddy allocator before allocating heap memory'')
      | Some b \<Rightarrow> rbind (allocate CHUNK_ORDER b) (\<lambda>(r, b').
          let st = st\<lparr>kbuddy := Some b'\<rparr> in
          case r of None \<Rightarrow> Inr (False, st)
          | Some phys \<Rightarrow> rbind (add_usize phys KERNEL_VMA) (\<lambda>virt.
              rbind (insert_and_coalesce fuel head virt (heap_node_init virt CHUNK_SIZE (kmem st))) (\<lambda>m.
              Inr (True, st\<lparr>kmem := m\<rparr>)))))"

fun alloc_loop :: "nat \<Rightarrow> nat \<Rightarrow> usize \<Rightarrow> layout \<Rightarrow> kheap \<Rightarrow> (usize \<times> kheap) run" where
  "alloc_loop 0 fuel head l st = Inl Diverge"
| "alloc_loop (Suc rounds) fuel head l st =
     rbind (allocate_from_free_list fuel head l (kmem st)) (\<lambda>(r, m).
     let st = st\<lparr>kmem := m\<rparr> in
     case r of Some ptr \<Rightarrow> Inr (ptr, st)
     | None \<Rightarrow>
        rbind (required_block_size 0 l heap_geometry) (\<lambda>q.
        let required = (case q of None \<Rightarrow> USIZE_MAX | Some n \<Rightarrow> n) in
        if CHUNK_SIZE < required then Inr (0, st)
        else rbind (grow_heap fuel head st) (\<lambda>(grown, st).
          if \<not> grown then Inr (0, st) else alloc_loop rounds fuel head l st)))"

definition heap_alloc :: "nat \<Rightarrow> nat \<Rightarrow> usize \<Rightarrow> layout \<Rightarrow> kheap \<Rightarrow> (usize \<times> kheap) run" where
  "heap_alloc rounds fuel head l st =
     rbind (heap_layout l) (\<lambda>l.
     let st = st\<lparr>kmem := ensure_head_initialized head (kmem st)\<rparr> in
     alloc_loop rounds fuel head l st)"

definition heap_dealloc :: "nat \<Rightarrow> usize \<Rightarrow> usize \<Rightarrow> kheap \<Rightarrow> kheap run" where
  "heap_dealloc fuel head ptr st =
     (if ptr = 0 then Inr st
      else rbind (header_from_user_ptr ptr (kmem st)) (\<lambda>header.
        let m = ensure_head_initialized head (kmem st); m = init_at (header + 8) m in
        rbind (insert_and_coalesce fuel head header m) (\<lambda>m. Inr (st\<lparr>kmem := m\<rparr>))))"

section \<open>The heap invariant\<close>

text \<open>A live allocation: its block (address, used size) and the pointer given to the user.\<close>

type_synonym hlive = "hblock \<times> usize"

definition live_ok :: "usize \<Rightarrow> memory \<Rightarrow> hlive \<Rightarrow> bool" where
  "live_ok h m a \<longleftrightarrow> hblock_ok h (fst a) \<and> m (fst (fst a)) = snd (fst a) \<and> 8 dvd snd a \<and>
     fst (fst a) + 32 \<le> snd a \<and> snd a \<le> fst (fst a) + snd (fst a) \<and> m (snd a - 8) = fst (fst a)"

abbreviation apart_blocks :: "hblock \<Rightarrow> hblock \<Rightarrow> bool" where
  "apart_blocks x y \<equiv> before x y \<or> before y x"

definition heap_inv :: "usize \<Rightarrow> hlive set \<Rightarrow> hblock list \<Rightarrow> memory \<Rightarrow> bool" where
  "heap_inv h L bs m \<longleftrightarrow> free_list m h bs \<and> coalesced bs \<and> (\<forall>a\<in>L. live_ok h m a) \<and>
     (\<forall>a\<in>L. \<forall>y\<in>set bs. apart_blocks (fst a) y) \<and>
     (\<forall>a\<in>L. \<forall>c\<in>L. a \<noteq> c \<longrightarrow> apart_blocks (fst a) (fst c))"

definition live_bytes :: "hlive set \<Rightarrow> usize set" where
  "live_bytes L = (\<Union>a\<in>L. {fst (fst a)..<fst (fst a) + snd (fst a)})"

lemma heap_geometry_simps [simp]:
  "header_size heap_geometry = 24" "block_align heap_geometry = 8" "back_ptr_size heap_geometry = 8"
  "geometry_ok heap_geometry"
  by (simp_all add: heap_geometry_def geometry_ok_def is_power_of_two_def upt_rec)

definition fits :: "layout \<Rightarrow> hblock \<Rightarrow> bool" where
  "fits l x \<longleftrightarrow> place_fits (fst x) l heap_geometry \<and>
     place_end (fst x) l heap_geometry - fst x \<le> snd x"

lemma heap_placement_eq:
  assumes "layout_ok l"
  shows "heap_placement b s l = Inr (if fits l (b, s)
    then Some (place_ptr b l heap_geometry, place_end b l heap_geometry - b) else None)"
  using assms by (simp add: heap_placement_def allocation_for_block_eq fits_def)

text \<open>Geometry of a placement with the alignment the allocator enforces.\<close>

lemma placement_bounds:
  assumes "layout_ok l" "8 dvd lalign l" "fits l x" "hblock_ok h x"
  defines "p \<equiv> place_ptr (fst x) l heap_geometry" and "u \<equiv> place_end (fst x) l heap_geometry - fst x"
  shows "fst x + 32 \<le> p" "p + lsize l \<le> fst x + u" "lalign l dvd p" "8 dvd p" "u \<le> snd x" "8 dvd u"
proof -
  show "fst x + 32 \<le> p" using place_ptr_ge [OF assms(1), of "fst x" heap_geometry] by (simp add: p_def)
  have e: "p + lsize l \<le> place_end (fst x) l heap_geometry"
    unfolding p_def by (rule place_end_ge) simp
  then show "p + lsize l \<le> fst x + u" using \<open>fst x + 32 \<le> p\<close> by (simp add: u_def)
  show "lalign l dvd p" by (simp add: p_def place_ptr_def round_up_dvd)
  then show "8 dvd p" using assms(2) by (rule dvd_trans [rotated])
  show "u \<le> snd x" using assms(3) by (simp add: u_def fits_def)
  have "8 dvd place_end (fst x) l heap_geometry" by (simp add: place_end_def round_up_dvd)
  then show "8 dvd u" using assms(4) by (simp add: u_def hblock_ok_def)
qed

section \<open>Taking a block\<close>

lemma heap_node_init_simps:
  "heap_node_init b s m b = s" "c \<notin> {b, b + 8, b + 16} \<Longrightarrow> heap_node_init b s m c = m c"
  by (simp_all add: heap_node_init_def init_at_def)

lemma block_interval_apart:
  assumes "apart_blocks x y" shows "{fst x..<fst x + snd x} \<inter> {fst y..<fst y + snd y} = {}"
  using assms by (auto simp: before_def)

lemma bytes_apart:
  "\<forall>y\<in>set bs. apart_blocks x y \<Longrightarrow> {fst x..<fst x + snd x} \<inter> bytes bs = {}"
  using block_interval_apart unfolding bytes_def by blast

lemma owned_apart:
  assumes "hblock_ok h x" "\<forall>y\<in>set bs. apart_blocks x y"
  shows "{fst x..<fst x + snd x} \<inter> owned h bs = {}"
proof -
  have "{fst x..<fst x + snd x} \<inter> {h..<h + 16} = {}" using assms(1) by (auto simp: hblock_ok_def)
  then show ?thesis using bytes_apart [OF assms(2)] unfolding owned_def by blast
qed

text \<open>Splitting off the tail of a block keeps it apart from what the block was apart from.\<close>

lemma tail_block:
  assumes "hblock_ok h (b, s)" "8 dvd u" "u + 24 \<le> s"
  shows "hblock_ok h (b + u, s - u)" "\<And>y. apart_blocks (b, s) y \<Longrightarrow> apart_blocks (b + u, s - u) y"
  using assms by (auto simp: hblock_ok_def before_def)

lemma carve_rest:
  assumes fl: "free_list m h bs" and co: "coalesced bs" and ok: "hblock_ok h (b, s)"
    and ap: "\<forall>y\<in>set bs. apart_blocks (b, s) y" and u: "8 dvd u" "u \<le> s" and fuel: "length bs < fuel"
  defines "rest \<equiv> if MIN_FREE_BLOCK_SIZE \<le> s - u then {b + u..<b + s} else {}"
  shows "\<exists>m' bs'. (if MIN_FREE_BLOCK_SIZE \<le> s - u
      then rbind (add_usize b u) (\<lambda>f. insert_and_coalesce fuel h f (heap_node_init f (s - u) m))
      else Inr m) = Inr m' \<and>
    free_list m' h bs' \<and> coalesced bs' \<and> bytes bs' = bytes bs \<union> rest \<and>
    (\<forall>c. c \<notin> owned h bs \<union> {b + u..<b + s} \<longrightarrow> m' c = m c)"
proof (cases "MIN_FREE_BLOCK_SIZE \<le> s - u")
  case False
  then show ?thesis using fl co by (auto simp: rest_def)
next
  case True
  let ?m = "heap_node_init (b + u) (s - u) m"
  have us: "u + 24 \<le> s" using True by linarith
  note tl = tail_block [OF ok u(1) us]
  have ap': "\<forall>y\<in>set bs. apart_blocks (b + u, s - u) y" using tl(2) ap by blast
  have new: "{b + u, b + u + 8, b + u + 16} \<subseteq> {b + u..<b + s}" using us by auto
  have "{b + u..<b + s} \<inter> owned h bs = {}" using owned_apart [OF tl(1) ap'] u(2) by simp
  then have "c \<notin> {b + u, b + u + 8, b + u + 16}" if "c \<in> owned h bs" for c using that new by blast
  then have "free_list ?m h bs" by (intro free_list_frame [OF fl] heap_node_init_simps(2))
  then obtain m' where m': "insert_and_coalesce fuel h (b + u) ?m = Inr m'"
    "free_list m' h (coalesce (b + u, s - u) bs)"
    "\<forall>c. c \<notin> owned h ((b + u, s - u) # bs) \<longrightarrow> m' c = ?m c"
    using insert_and_coalesce_refines [OF _ tl(1) ap' _ fuel, of ?m] heap_node_init_simps(1) by blast
  have "b + u \<le> USIZE_MAX" using ok us by (simp add: hblock_ok_def)
  moreover have "coalesced (coalesce (b + u, s - u) bs)"
    using fl co tl(1) ap' by (intro coalesced_coalesce [of h]) (auto simp: free_list_def)
  moreover have "bytes (coalesce (b + u, s - u) bs) = bytes bs \<union> rest"
    using True u(2) by (auto simp: bytes_coalesce rest_def)
  moreover have "m' c = m c" if "c \<notin> owned h bs \<union> {b + u..<b + s}" for c
  proof -
    have "c \<notin> owned h ((b + u, s - u) # bs)" using that u(2) by (auto simp: owned_def)
    moreover have "?m c = m c" using that new by (intro heap_node_init_simps(2)) auto
    ultimately show ?thesis using m'(3) by simp
  qed
  ultimately show ?thesis using True m'(1,2) by (auto simp: run_simps)
qed

lemma carve_block_correct:
  assumes fl: "free_list m h (xs @ x # ys)" and co: "coalesced (xs @ x # ys)"
    and l: "layout_ok l" "8 dvd lalign l" "fits l x" and fuel: "length (xs @ ys) < fuel"
  defines "p \<equiv> place_ptr (fst x) l heap_geometry" and "u \<equiv> place_end (fst x) l heap_geometry - fst x"
  shows "\<exists>m' bs'. carve_block fuel h (fst x) (snd x) p u m = Inr m' \<and> free_list m' h bs' \<and>
    coalesced bs' \<and> live_ok h m' ((fst x, u), p) \<and> lalign l dvd p \<and> p + lsize l \<le> fst x + u \<and>
    (\<forall>y\<in>set bs'. apart_blocks (fst x, u) y) \<and> u \<le> snd x \<and> bytes bs' \<subseteq> bytes (xs @ x # ys) \<and>
    (\<forall>c. c \<notin> owned h (xs @ x # ys) \<longrightarrow> m' c = m c)"
proof -
  obtain b s where x: "x = (b, s)" by (cases x)
  have o: "ordered h (xs @ x # ys)" using fl by (simp add: free_list_def)
  have ok: "hblock_ok h (b, s)" and ap: "\<forall>y\<in>set (xs @ ys). apart_blocks (b, s) y"
    using o by (auto simp: ordered_append ordered_Cons x)
  note pb = placement_bounds [OF l ok [folded x], folded p_def u_def]
  have us: "u \<le> s" using pb(5) by (simp add: x)
  have rm: "free_list (list_remove (b + 8) m) h (xs @ ys)"
    "\<And>c. c \<notin> owned h (xs @ x # ys) \<Longrightarrow> list_remove (b + 8) m c = m c"
    using free_list_remove [OF fl] by (simp_all add: x)
  have co': "coalesced (xs @ ys)" using co by (simp add: coalesced_def sorted_wrt_append)
  let ?rest = "if MIN_FREE_BLOCK_SIZE \<le> s - u then {b + u..<b + s} else {}"
  obtain m1 bs' where m1: "(if MIN_FREE_BLOCK_SIZE \<le> s - u
      then rbind (add_usize b u) (\<lambda>f. insert_and_coalesce fuel h f
        (heap_node_init f (s - u) (list_remove (b + 8) m)))
      else Inr (list_remove (b + 8) m)) = Inr m1" "free_list m1 h bs'" "coalesced bs'"
    "bytes bs' = bytes (xs @ ys) \<union> ?rest"
    "\<forall>c. c \<notin> owned h (xs @ ys) \<union> {b + u..<b + s} \<longrightarrow> m1 c = list_remove (b + 8) m c"
    using carve_rest [OF rm(1) co' ok ap pb(6) us fuel] by blast
  have bu: "{b..<b + u} \<inter> (bytes (xs @ ys) \<union> {b + u..<b + s}) = {}"
  proof -
    have "{b..<b + u} \<subseteq> {b..<b + s}" using us by auto
    then have "{b..<b + u} \<inter> bytes (xs @ ys) = {}" using bytes_apart [OF ap] unfolding fst_conv snd_conv by blast
    then show ?thesis by auto
  qed
  have hd: "{b..<b + u} \<inter> {h..<h + 16} = {}" using ok pb(5) by (auto simp: hblock_ok_def x)
  have own: "owned h bs' \<inter> {b..<b + u} = {}"
    using bu hd unfolding owned_def m1(4) by (auto split: if_splits)
  let ?m' = "m1(b := u, p - 8 := b)"
  have in_u: "b \<in> {b..<b + u}" "p - 8 \<in> {b..<b + u}" "p - 8 \<noteq> b" using pb(1,2) by (auto simp: x)
  have run: "carve_block fuel h (fst x) (snd x) p u m = Inr ?m'"
    using m1(1) pb(1,5) by (simp add: carve_block_def Let_def x run_simps)
  have fl': "free_list ?m' h bs'"
    using own in_u by (intro free_list_frame [OF m1(2)]) auto
  have "hblock_ok h (b, u)" using ok pb by (auto simp: hblock_ok_def x)
  then have live: "live_ok h ?m' ((b, u), p)" using pb in_u by (simp add: live_ok_def x)
  have ap': "\<forall>y\<in>set bs'. apart_blocks (b, u) y"
  proof
    fix y assume y: "y \<in> set bs'"
    have "hblock_ok h y" using m1(2) y by (simp add: free_list_def ordered_def)
    moreover have "{fst y..<fst y + snd y} \<inter> {b..<b + u} = {}"
      using own block_bytes [OF y] unfolding owned_def by blast
    ultimately show "apart_blocks (b, u) y" using in_u(1)
      by (auto simp: before_def hblock_ok_def ivl_disj_un)
  qed
  have "bytes bs' \<subseteq> bytes (xs @ x # ys)"
    using m1(4) by (auto simp: x split: if_splits)
  moreover have "?m' c = m c" if "c \<notin> owned h (xs @ x # ys)" for c
  proof -
    have "c \<notin> {b..<b + s}" "c \<notin> owned h (xs @ ys)" using that by (auto simp: owned_def x)
    moreover have "{b..<b + u} \<subseteq> {b..<b + s}" "{b + u..<b + s} \<subseteq> {b..<b + s}" using pb(5) by (auto simp: x)
    ultimately show ?thesis using m1(5) rm(2) [OF that] in_u by (auto simp: x)
  qed
  ultimately show ?thesis using run fl' m1(3) live pb(2,3,5) ap' by (auto simp: x)
qed

section \<open>The first fit scan\<close>

lemma free_list_scan_eq:
  assumes "free_list m h (xs @ ys)" "layout_ok l" "length ys < fuel"
  shows "free_list_scan fuel walk h l (hd (nodes ys @ [h])) m =
    (case find (fits l) ys of None \<Rightarrow> Inr (None, m)
     | Some x \<Rightarrow> rbind (carve_block walk h (fst x) (snd x) (place_ptr (fst x) l heap_geometry)
                   (place_end (fst x) l heap_geometry - fst x) m)
                 (\<lambda>m'. Inr (Some (place_ptr (fst x) l heap_geometry), m')))"
  using assms
proof (induction ys arbitrary: xs fuel)
  case Nil
  then show ?case by (cases fuel) auto
next
  case (Cons y ys)
  obtain g where g: "fuel = Suc g" using Cons.prems(3) by (cases fuel) auto
  have c: "clist m h (nodes xs @ (fst y + 8) # nodes ys)" "m (fst y) = snd y"
    using Cons.prems(1) by (simp_all add: free_list_def)
  note nd = clist_node [OF c(1)]
  show ?case
    using Cons.IH [of "xs @ [y]" g] Cons.prems nd(1,4) c(2)
    by (simp add: g container_of_def run_simps heap_placement_eq)
qed

lemma allocate_from_free_list_eq:
  assumes "free_list m h bs" "layout_ok l" "length bs < fuel"
  shows "allocate_from_free_list fuel h l m =
    (case find (fits l) bs of None \<Rightarrow> Inr (None, m)
     | Some x \<Rightarrow> rbind (carve_block fuel h (fst x) (snd x) (place_ptr (fst x) l heap_geometry)
                   (place_end (fst x) l heap_geometry - fst x) m)
                 (\<lambda>m'. Inr (Some (place_ptr (fst x) l heap_geometry), m')))"
proof -
  have c: "clist m h (nodes bs)" using assms(1) by (simp add: free_list_def)
  show ?thesis
    using free_list_scan_eq [of m h "[]" bs l fuel fuel] assms clist_list_empty [OF c]
      clist_ends(1) [of m h "[]" "nodes bs"] c
    by (cases bs) (simp_all add: allocate_from_free_list_def)
qed

lemma apart_blocksI:
  assumes "{fst x..<fst x + snd x} \<inter> {fst y..<fst y + snd y} = {}" "0 < snd x" "0 < snd y"
  shows "apart_blocks x y"
proof (rule ccontr)
  assume "\<not> apart_blocks x y"
  then have "max (fst x) (fst y) \<in> {fst x..<fst x + snd x} \<inter> {fst y..<fst y + snd y}"
    using assms(2,3) by (auto simp: before_def max_def)
  then show False using assms(1) by blast
qed

lemma live_ok_frame:
  assumes "live_ok h m a" "\<And>c. c \<in> {fst (fst a)..<fst (fst a) + snd (fst a)} \<Longrightarrow> m' c = m c"
  shows "live_ok h m' a"
proof -
  have "fst (fst a) \<in> {fst (fst a)..<fst (fst a) + snd (fst a)}"
    "snd a - 8 \<in> {fst (fst a)..<fst (fst a) + snd (fst a)}"
    using assms(1) by (auto simp: live_ok_def)
  then show ?thesis using assms by (simp add: live_ok_def)
qed

lemma live_owned_disjoint:
  assumes "heap_inv h L bs m" "a \<in> L"
  shows "{fst (fst a)..<fst (fst a) + snd (fst a)} \<inter> owned h bs = {}"
  using assms by (intro owned_apart) (auto simp: heap_inv_def live_ok_def)

lemma allocate_from_free_list_correct:
  assumes inv: "heap_inv h L bs m" and l: "layout_ok l" "8 dvd lalign l" and fuel: "length bs < fuel"
  shows "(allocate_from_free_list fuel h l m = Inr (None, m) \<and> (\<forall>x\<in>set bs. \<not> fits l x)) \<or>
    (\<exists>b u p m' bs'. allocate_from_free_list fuel h l m = Inr (Some p, m') \<and>
      heap_inv h (insert ((b, u), p) L) bs' m' \<and> ((b, u), p) \<notin> L \<and> lalign l dvd p \<and>
      p + lsize l \<le> b + u \<and> bytes bs' \<union> {b..<b + u} \<subseteq> bytes bs \<and>
      (\<forall>c. c \<notin> owned h bs \<longrightarrow> m' c = m c))"
proof (cases "find (fits l) bs")
  case None
  have "free_list m h bs" using inv by (simp add: heap_inv_def)
  then have "allocate_from_free_list fuel h l m = Inr (None, m)"
    using allocate_from_free_list_eq [OF _ l(1) fuel] None by simp
  then show ?thesis using None by (auto simp: find_None_iff)
next
  case (Some x)
  then obtain xs ys where bs: "bs = xs @ x # ys" and fit: "fits l x"
    by (metis find_Some_iff id_take_nth_drop)
  have fl: "free_list m h (xs @ x # ys)" and co: "coalesced (xs @ x # ys)"
    using inv by (simp_all add: heap_inv_def bs)
  define p u where "p = place_ptr (fst x) l heap_geometry"
    and "u = place_end (fst x) l heap_geometry - fst x"
  obtain m' bs' where c: "carve_block fuel h (fst x) (snd x) p u m = Inr m'" "free_list m' h bs'"
    "coalesced bs'" "live_ok h m' ((fst x, u), p)" "lalign l dvd p" "p + lsize l \<le> fst x + u"
    "\<forall>y\<in>set bs'. apart_blocks (fst x, u) y" "u \<le> snd x" "bytes bs' \<subseteq> bytes (xs @ x # ys)"
    "\<forall>c. c \<notin> owned h (xs @ x # ys) \<longrightarrow> m' c = m c"
    using carve_block_correct [OF fl co l fit, of fuel] fuel by (auto simp: bs p_def u_def)
  have run: "allocate_from_free_list fuel h l m = Inr (Some p, m')"
    using allocate_from_free_list_eq [of m h bs l fuel] fl l(1) fuel Some c(1)
    by (simp add: bs p_def u_def)
  have sub: "bytes bs' \<union> {fst x..<fst x + u} \<subseteq> bytes bs"
    using c(8,9) block_bytes [of x bs] by (auto simp: bs)
  have out: "{fst (fst a)..<fst (fst a) + snd (fst a)} \<inter> owned h bs = {}" if "a \<in> L" for a
    using live_owned_disjoint [OF inv that] .
  have live: "live_ok h m a" if "a \<in> L" for a using inv that by (simp add: heap_inv_def)
  have pos: "0 < snd (fst a)" if "a \<in> L" for a using live [OF that] by (simp add: live_ok_def hblock_ok_def)
  have live': "live_ok h m' a" if "a \<in> L" for a
  proof (rule live_ok_frame [OF live [OF that]])
    show "m' c = m c" if "c \<in> {fst (fst a)..<fst (fst a) + snd (fst a)}" for c
      using c(10) out [OF \<open>a \<in> L\<close>] that unfolding bs by blast
  qed
  have apart: "apart_blocks (fst a) y"
    if "a \<in> L" "{fst y..<fst y + snd y} \<subseteq> bytes bs" "0 < snd y" for a y
    using out [OF that(1)] that(2,3) pos [OF that(1)] unfolding owned_def by (intro apart_blocksI) blast+
  have up: "0 < u" using c(4) by (simp add: live_ok_def hblock_ok_def)
  have "apart_blocks (fst a) (fst x, u)" if "a \<in> L" for a
    using sub up by (intro apart that) auto
  moreover have "apart_blocks (fst a) y" if "a \<in> L" "y \<in> set bs'" for a y
  proof (rule apart [OF that(1)])
    show "{fst y..<fst y + snd y} \<subseteq> bytes bs" using block_bytes [OF that(2)] sub by blast
    have "hblock_ok h y" using c(2) that(2) by (simp add: free_list_def ordered_def)
    then show "0 < snd y" by (simp add: hblock_ok_def)
  qed
  ultimately have "heap_inv h (insert ((fst x, u), p) L) bs' m'"
    using inv c(2,3,4,7) live' by (auto simp: heap_inv_def)
  moreover have "((fst x, u), p) \<notin> L" using out sub up unfolding owned_def by fastforce
  ultimately show ?thesis using run c(5,6,10) sub unfolding bs by blast
qed

section \<open>The allocator with its chunks\<close>

text \<open>The virtual range of a block of frames in the direct map.\<close>

definition chunk :: "nat \<times> nat \<Rightarrow> usize set" where
  "chunk f = {KERNEL_VMA + fst f * PAGE_SIZE..<KERNEL_VMA + (fst f + 2 ^ snd f) * PAGE_SIZE}"

text \<open>The list head lies in no page the buddy allocator manages (it is part of the kernel image).\<close>

definition head_outside :: "usize \<Rightarrow> buddy \<Rightarrow> bool" where
  "head_outside h b \<longleftrightarrow> 8 dvd h \<and> 0 < h \<and>
     (\<forall>q \<in> free_pages b \<union> live_pages b. {h..<h + 16} \<inter> chunk (q, 0) = {})"

definition kheap_inv ::
  "usize \<Rightarrow> (nat \<times> nat) set \<Rightarrow> hlive set \<Rightarrow> hblock list \<Rightarrow> kheap \<Rightarrow> bool" where
  "kheap_inv h H L bs st \<longleftrightarrow> heap_inv h L bs (ensure_head_initialized h (kmem st)) \<and>
     (\<exists>b. kbuddy st = Some b \<and> buddy_inv b \<and> H \<subseteq> alloc_blocks b \<and> head_outside h b) \<and>
     bytes bs \<union> live_bytes L \<subseteq> (\<Union>f\<in>H. chunk f)"

lemma ensure_free_list:
  assumes "free_list m h bs" shows "ensure_head_initialized h m = m"
proof -
  have "clist m h (nodes bs)" using assms by (simp add: free_list_def)
  then have "m h \<noteq> 0 \<and> m (h + 8) \<noteq> 0" using clist_head_nonzero(4,5) by blast
  then show ?thesis by (simp add: ensure_head_initialized_def)
qed

lemma ensure_heap_inv: "heap_inv h L bs m \<Longrightarrow> ensure_head_initialized h m = m"
  using ensure_free_list by (auto simp: heap_inv_def)

lemma ensure_owned: "c \<notin> owned h bs \<Longrightarrow> ensure_head_initialized h m c = m c"
  by (auto simp: owned_def ensure_head_initialized_def init_at_def)

lemma mem_chunk:
  "c \<in> chunk (p, k) \<longleftrightarrow> KERNEL_VMA \<le> c \<and> (c - KERNEL_VMA) div PAGE_SIZE \<in> frames p k"
proof (cases "KERNEL_VMA \<le> c")
  case True
  then obtain d where d: "c = KERNEL_VMA + d" using le_Suc_ex by blast
  have "d < (p + 2 ^ k) * PAGE_SIZE \<longleftrightarrow> d div PAGE_SIZE < p + 2 ^ k"
    by (simp add: div_less_iff_less_mult)
  moreover have "p * PAGE_SIZE \<le> d \<longleftrightarrow> p \<le> d div PAGE_SIZE"
    by (simp add: less_eq_div_iff_mult_less_eq)
  ultimately show ?thesis by (simp add: d chunk_def frames_def)
qed (auto simp: chunk_def)

lemma chunk_pages: "chunk (p, k) = (\<Union>q \<in> frames p k. chunk (q, 0))"
  by (auto simp: mem_chunk frames_def)

lemma chunks_disjoint: "frames p k \<inter> frames q j = {} \<Longrightarrow> chunk (p, k) \<inter> chunk (q, j) = {}"
  by (auto simp: mem_chunk simp del: frames_iff)

lemma head_outside_steps:
  assumes "head_outside h b" "alloc_step k p b b'" shows "head_outside h b'"
  using assms alloc_step_pages(2) [OF assms(2)] by (simp add: head_outside_def)

text \<open>A fresh chunk is a well formed block apart from everything the heap owns.\<close>

lemma new_chunk:
  assumes inv: "buddy_inv b" and st: "alloc_step CHUNK_ORDER p b b'" and h: "head_outside h b"
  shows "hblock_ok h (KERNEL_VMA + p * PAGE_SIZE, CHUNK_SIZE)"
    "chunk (p, CHUNK_ORDER) = {KERNEL_VMA + p * PAGE_SIZE..<KERNEL_VMA + p * PAGE_SIZE + CHUNK_SIZE}"
    "\<And>f. f \<in> alloc_blocks b \<Longrightarrow> chunk f \<inter> chunk (p, CHUNK_ORDER) = {}"
    "CHUNK_SIZE dvd KERNEL_VMA + p * PAGE_SIZE"
    "KERNEL_VMA + p * PAGE_SIZE + 2 * CHUNK_SIZE \<le> USIZE_MAX"
proof -
  have fr: "frames p CHUNK_ORDER \<subseteq> free_pages b" "2 ^ CHUNK_ORDER dvd p"
    and inv': "buddy_inv b'" "(p, CHUNK_ORDER) \<in> alloc_blocks b'" "total_pages b' = total_pages b"
    using st by (auto simp: alloc_step_def)
  show ch: "chunk (p, CHUNK_ORDER) = {KERNEL_VMA + p * PAGE_SIZE..<KERNEL_VMA + p * PAGE_SIZE + CHUNK_SIZE}"
    by (simp add: chunk_def algebra_simps)
  have "p + 2 ^ CHUNK_ORDER \<le> total_pages b" "total_pages b < 2 ^ 32"
    using alloc_block_frames(1) [OF inv'(1,2)] inv' by (auto simp: placeable_def buddy_inv_def wf_open_def sizes_ok_def)
  then show top: "KERNEL_VMA + p * PAGE_SIZE + 2 * CHUNK_SIZE \<le> USIZE_MAX" by (simp add: USIZE_MAX_def)
  obtain j where j: "p = 1024 * j" using fr(2) by auto
  have "KERNEL_VMA + p * PAGE_SIZE = CHUNK_SIZE * (4398012956672 + j)" by (simp add: j)
  then show al: "CHUNK_SIZE dvd KERNEL_VMA + p * PAGE_SIZE" by (metis dvd_triv_left)
  have "{h..<h + 16} \<inter> chunk (q, 0) = {}" if "q \<in> frames p CHUNK_ORDER" for q
    using h fr(1) that unfolding head_outside_def by blast
  then have "{h..<h + 16} \<inter> chunk (p, CHUNK_ORDER) = {}" unfolding chunk_pages [of p CHUNK_ORDER] by blast
  then have "apart_blocks (h, 16) (KERNEL_VMA + p * PAGE_SIZE, CHUNK_SIZE)"
    unfolding ch by (intro apart_blocksI) auto
  moreover have "8 dvd KERNEL_VMA + p * PAGE_SIZE" using al by (rule dvd_trans [rotated]) simp
  ultimately show "hblock_ok h (KERNEL_VMA + p * PAGE_SIZE, CHUNK_SIZE)"
    using top by (auto simp: hblock_ok_def before_def)
  show "chunk f \<inter> chunk (p, CHUNK_ORDER) = {}" if f: "f \<in> alloc_blocks b" for f
  proof -
    have "frames (fst f) (snd f) \<inter> free_pages b = {}"
      using frame_source.live_busy [OF inv, of "fst f" "snd f"] f by (simp add: frames_def)
    then show ?thesis using chunks_disjoint [of "fst f" "snd f" p CHUNK_ORDER] fr(1) by auto
  qed
qed

text \<open>The block that holds a fresh chunk fits every request the size test lets through.\<close>

lemma coalesce_shape:
  "\<exists>ls x' ys. coalesce x bs = ls @ merge_right x' ys \<and> length ls + length ys \<le> length bs \<and>
     fst x' \<le> fst x \<and> fst x' + snd x' = fst x + snd x"
proof -
  let ?xs = "takeWhile (\<lambda>y. fst y < fst x) bs" and ?ys = "dropWhile (\<lambda>y. fst y < fst x) bs"
  have len: "length ?xs + length ?ys = length bs" by (metis length_append takeWhile_dropWhile_id)
  show ?thesis
  proof (cases "?xs \<noteq> [] \<and> fst (last ?xs) + snd (last ?xs) = fst x")
    case True
    let ?x' = "(fst (last ?xs), snd (last ?xs) + snd x)"
    have "coalesce x bs = butlast ?xs @ merge_right ?x' ?ys" using True by (simp add: coalesce_def Let_def)
    moreover have "length (butlast ?xs) + length ?ys \<le> length bs" using len by simp
    moreover have "fst ?x' \<le> fst x \<and> fst ?x' + snd ?x' = fst x + snd x"
      using conjunct2 [OF True] unfolding fst_conv snd_conv by linarith
    ultimately show ?thesis by blast
  next
    case False
    then have "coalesce x bs = ?xs @ merge_right x ?ys" by (auto simp: coalesce_def Let_def)
    then show ?thesis using len by (metis order_refl)
  qed
qed

lemma merge_right_facts:
  "length (merge_right z ys) \<le> Suc (length ys)"
  "\<exists>y\<in>set (merge_right z ys). fst y = fst z \<and> snd z \<le> snd y"
  by (cases ys; simp add: merge_right_def)+

lemma coalesce_contains:
  "\<exists>y\<in>set (coalesce x bs). fst y \<le> fst x \<and> fst x + snd x \<le> fst y + snd y"
proof -
  obtain ls x' ys where s: "coalesce x bs = ls @ merge_right x' ys" "fst x' \<le> fst x"
    "fst x' + snd x' = fst x + snd x" using coalesce_shape [of x bs] by blast
  obtain y where "y \<in> set (merge_right x' ys)" "fst y = fst x'" "snd x' \<le> snd y"
    using merge_right_facts(2) by blast
  then show ?thesis using s by (intro bexI [of _ y]) auto
qed

lemma length_coalesce: "length (coalesce x bs) \<le> Suc (length bs)"
proof -
  obtain ls x' ys where s: "coalesce x bs = ls @ merge_right x' ys" "length ls + length ys \<le> length bs"
    using coalesce_shape [of x bs] by blast
  then show ?thesis using merge_right_facts(1) [of x' ys] by simp
qed

lemma pow2_dvd: "is_power_of_two a \<Longrightarrow> is_power_of_two c \<Longrightarrow> a \<le> c \<Longrightarrow> a dvd c"
  by (auto simp: is_power_of_two_iff intro!: le_imp_power_dvd)

lemma fits_chunk:
  assumes l: "layout_ok l" and req: "place_end 0 l heap_geometry \<le> CHUNK_SIZE"
    and v: "CHUNK_SIZE dvd v" "v + 2 * CHUNK_SIZE \<le> USIZE_MAX"
    and y: "fst y \<le> v" "v + CHUNK_SIZE \<le> fst y + snd y"
  shows "fits l y"
proof -
  let ?g = heap_geometry
  have pos: "0 < lalign l" using l is_power_of_two_pos by (simp add: layout_ok_def)
  have "lalign l \<le> place_ptr 0 l ?g"
    using round_up_dvd [of "lalign l" 32] round_up_ge [OF pos, of 32] by (auto simp: place_ptr_def intro!: dvd_imp_le)
  then have al: "lalign l \<le> CHUNK_SIZE" using req place_end_ge [of ?g 0 l] by simp
  have "is_power_of_two CHUNK_SIZE" by (auto simp: is_power_of_two_iff intro!: exI [of _ 22])
  then have "lalign l dvd v" using pow2_dvd [of "lalign l" CHUNK_SIZE] l al v(1)
    by (auto simp: layout_ok_def intro: dvd_trans)
  then have p: "place_ptr v l ?g = v + place_ptr 0 l ?g"
    using round_up_add [OF pos, of v 32] by (simp add: place_ptr_def add.commute)
  have "8 dvd v" using v(1) by (rule dvd_trans [rotated]) simp
  then have e: "place_end v l ?g = v + place_end 0 l ?g"
    using round_up_add [of 8 v "place_ptr 0 l ?g + lsize l"] by (simp add: place_end_def p add.assoc)
  have mp: "place_ptr (fst y) l ?g \<le> place_ptr v l ?g"
    using y(1) by (auto simp: place_ptr_def intro!: round_up_mono pos)
  then have me: "place_end (fst y) l ?g \<le> place_end v l ?g"
    by (auto simp: place_end_def intro!: round_up_mono)
  have "place_ptr (fst y) l ?g + lsize l \<le> v + CHUNK_SIZE"
    using place_end_ge [of ?g "fst y" l] me e req by simp
  then have "place_fits (fst y) l ?g" using y(1) al v(2) by (simp add: place_fits_def)
  then show ?thesis using me e req y by (simp add: fits_def)
qed

lemma kheap_invD:
  assumes "kheap_inv h H L bs st" "ensure_head_initialized h (kmem st) = kmem st"
  obtains b where "heap_inv h L bs (kmem st)" "kbuddy st = Some b" "buddy_inv b"
    "H \<subseteq> alloc_blocks b" "head_outside h b" "bytes bs \<union> live_bytes L \<subseteq> (\<Union>f\<in>H. chunk f)"
  using assms by (auto simp: kheap_inv_def)

text \<open>Adding a block apart from the live ones.\<close>

lemma heap_inv_add_block:
  assumes inv: "heap_inv h L bs m" and x: "hblock_ok h (v, s)" "\<forall>y\<in>set bs. apart_blocks (v, s) y"
    "\<forall>a\<in>L. apart_blocks (fst a) (v, s)"
    and m: "m1 v = s" "\<And>c. c \<notin> {v..<v + s} \<Longrightarrow> m1 c = m c" and fuel: "length bs < fuel"
  shows "\<exists>m'. insert_and_coalesce fuel h v m1 = Inr m' \<and> heap_inv h L (coalesce (v, s) bs) m' \<and>
    (\<forall>c. c \<notin> owned h bs \<union> {v..<v + s} \<longrightarrow> m' c = m c)"
proof -
  have fl: "free_list m h bs" and co: "coalesced bs" and live: "\<forall>a\<in>L. live_ok h m a"
    using inv by (simp_all add: heap_inv_def)
  have "free_list m1 h bs"
    using owned_apart [OF x(1,2)] by (intro free_list_frame [OF fl] m(2)) auto
  then obtain m' where m': "insert_and_coalesce fuel h v m1 = Inr m'"
    "free_list m' h (coalesce (v, s) bs)" "\<forall>c. c \<notin> owned h ((v, s) # bs) \<longrightarrow> m' c = m1 c"
    using insert_and_coalesce_refines [of m1 h bs v s fuel] x(1,2) m(1) fuel by blast
  have fr: "m' c = m c" if "c \<notin> owned h bs \<union> {v..<v + s}" for c
    using m'(3) m(2) that by (auto simp: owned_def)
  have out: "{fst (fst a)..<fst (fst a) + snd (fst a)} \<inter> (owned h bs \<union> {v..<v + s}) = {}" if "a \<in> L" for a
    using live_owned_disjoint [OF inv that] block_interval_apart [of "fst a" "(v, s)"] x(3) that by auto
  have "live_ok h m' a" if "a \<in> L" for a
  proof (rule live_ok_frame)
    show "live_ok h m a" using live that by blast
    show "m' c = m c" if "c \<in> {fst (fst a)..<fst (fst a) + snd (fst a)}" for c
      using out [OF \<open>a \<in> L\<close>] that by (intro fr) blast
  qed
  moreover have "apart_blocks (fst a) y" if "a \<in> L" "y \<in> set (coalesce (v, s) bs)" for a y
  proof (rule apart_blocksI)
    show "{fst (fst a)..<fst (fst a) + snd (fst a)} \<inter> {fst y..<fst y + snd y} = {}"
      using out [OF that(1)] block_bytes [OF that(2)]
      unfolding bytes_coalesce owned_def fst_conv snd_conv by blast
    show "0 < snd (fst a)" using live that(1) by (auto simp: live_ok_def hblock_ok_def)
    have "hblock_ok h y" using m'(2) that(2) by (simp add: free_list_def ordered_def)
    then show "0 < snd y" by (simp add: hblock_ok_def)
  qed
  moreover have "coalesced (coalesce (v, s) bs)"
    using fl co x(1,2) by (intro coalesced_coalesce [of h]) (auto simp: free_list_def)
  ultimately have "heap_inv h L (coalesce (v, s) bs) m'"
    using inv m'(2) by (auto simp: heap_inv_def)
  then show ?thesis using m'(1) fr by blast
qed

lemma grow_heap_correct:
  assumes inv: "kheap_inv h H L bs st" and init: "ensure_head_initialized h (kmem st) = kmem st"
    and fuel: "length bs < fuel"
  shows "grow_heap fuel h st = Inr (False, st) \<or>
    (\<exists>p st'. grow_heap fuel h st = Inr (True, st') \<and> CHUNK_SIZE dvd KERNEL_VMA + p * PAGE_SIZE \<and>
      KERNEL_VMA + p * PAGE_SIZE + 2 * CHUNK_SIZE \<le> USIZE_MAX \<and>
      kheap_inv h (insert (p, CHUNK_ORDER) H) L (coalesce (KERNEL_VMA + p * PAGE_SIZE, CHUNK_SIZE) bs) st' \<and>
      ensure_head_initialized h (kmem st') = kmem st' \<and>
      (\<forall>c \<in> live_bytes L. kmem st' c = kmem st c))"
proof -
  obtain b where b: "heap_inv h L bs (kmem st)" "kbuddy st = Some b" "buddy_inv b"
    "H \<subseteq> alloc_blocks b" "head_outside h b" "bytes bs \<union> live_bytes L \<subseteq> (\<Union>f\<in>H. chunk f)"
    using kheap_invD [OF inv init] .
  show ?thesis
  proof (rule allocate_cases [OF b(3), of CHUNK_ORDER])
    assume "allocate CHUNK_ORDER b = Inr (None, b)"
    then show ?thesis using b(2) by (simp add: grow_heap_def)
  next
    fix p b' assume run: "allocate CHUNK_ORDER b = Inr (Some (p * PAGE_SIZE), b')"
      and st: "alloc_step CHUNK_ORDER p b b'"
    define v where "v = KERNEL_VMA + p * PAGE_SIZE"
    note nc = new_chunk [OF b(3) st b(5), folded v_def]
    have dis: "(bytes bs \<union> live_bytes L) \<inter> {v..<v + CHUNK_SIZE} = {}"
      using b(4,6) nc(2,3) by blast
    have pos: "0 < snd y" if "y \<in> set bs" for y
      using b(1) that by (fastforce simp: heap_inv_def free_list_def ordered_def hblock_ok_def)
    have lpos: "0 < snd (fst a)" if "a \<in> L" for a
      using b(1) that by (fastforce simp: heap_inv_def live_ok_def hblock_ok_def)
    have ap: "\<forall>y\<in>set bs. apart_blocks (v, CHUNK_SIZE) y"
    proof
      fix y assume y: "y \<in> set bs"
      then have "{v..<v + CHUNK_SIZE} \<inter> {fst y..<fst y + snd y} = {}"
        using dis block_bytes [OF y] by blast
      then show "apart_blocks (v, CHUNK_SIZE) y" using pos [OF y] by (intro apart_blocksI) auto
    qed
    have lap: "\<forall>a\<in>L. apart_blocks (fst a) (v, CHUNK_SIZE)"
    proof
      fix a assume a: "a \<in> L"
      then have "{fst (fst a)..<fst (fst a) + snd (fst a)} \<inter> {v..<v + CHUNK_SIZE} = {}"
        using dis unfolding live_bytes_def by blast
      then show "apart_blocks (fst a) (v, CHUNK_SIZE)" using lpos [OF a] by (intro apart_blocksI) auto
    qed
    have frame: "heap_node_init v CHUNK_SIZE (kmem st) c = kmem st c" if "c \<notin> {v..<v + CHUNK_SIZE}" for c
      using that by (intro heap_node_init_simps(2)) auto
    obtain m' where m': "insert_and_coalesce fuel h v (heap_node_init v CHUNK_SIZE (kmem st)) = Inr m'"
      "heap_inv h L (coalesce (v, CHUNK_SIZE) bs) m'"
      "\<forall>c. c \<notin> owned h bs \<union> {v..<v + CHUNK_SIZE} \<longrightarrow> m' c = kmem st c"
      using heap_inv_add_block [OF b(1) nc(1) ap lap heap_node_init_simps(1) frame fuel] by blast
    let ?st = "st\<lparr>kmem := m', kbuddy := Some b'\<rparr>"
    have run': "grow_heap fuel h st = Inr (True, ?st)"
      using b(2) run m'(1) nc(5) by (simp add: grow_heap_def run_simps v_def add.commute)
    have init': "ensure_head_initialized h m' = m'"
      by (rule ensure_heap_inv [OF m'(2)])
    have "head_outside h b'" "buddy_inv b'" "insert (p, CHUNK_ORDER) H \<subseteq> alloc_blocks b'"
      using head_outside_steps [OF b(5) st] st b(4) by (auto simp: alloc_step_def)
    moreover have "bytes (coalesce (v, CHUNK_SIZE) bs) \<union> live_bytes L \<subseteq>
        (\<Union>f\<in>insert (p, CHUNK_ORDER) H. chunk f)"
      using b(6) nc(2) unfolding bytes_coalesce by auto
    ultimately have "kheap_inv h (insert (p, CHUNK_ORDER) H) L (coalesce (v, CHUNK_SIZE) bs) ?st"
      using m'(2) init' by (simp add: kheap_inv_def)
    moreover have "m' c = kmem st c" if "c \<in> live_bytes L" for c
    proof -
      have "c \<notin> owned h bs" using that live_owned_disjoint [OF b(1)] unfolding live_bytes_def by blast
      then show ?thesis using m'(3) dis that by blast
    qed
    ultimately show ?thesis using run' init' nc(4,5) unfolding v_def by auto
  qed
qed

text \<open>What a call of the allocator yields: no pointer and the same allocations, or a fresh
  allocation of the requested size and alignment.\<close>

definition alloc_result :: "layout \<Rightarrow> hlive set \<Rightarrow> usize \<Rightarrow> hlive set \<Rightarrow> bool" where
  "alloc_result l L p L' \<longleftrightarrow> (if p = 0 then L' = L else
     (\<exists>b u. L' = insert ((b, u), p) L \<and> ((b, u), p) \<notin> L \<and> lalign l dvd p \<and> p + lsize l \<le> b + u))"

lemma alloc_result_mono:
  assumes "alloc_result l' L p L'" "lalign l dvd lalign l'" "lsize l \<le> lsize l'"
  shows "alloc_result l L p L'"
proof (cases "p = 0")
  case False
  then obtain b u where "L' = insert ((b, u), p) L" "((b, u), p) \<notin> L" "lalign l' dvd p" "p + lsize l' \<le> b + u"
    using assms(1) by (auto simp: alloc_result_def)
  moreover from this have "lalign l dvd p" "p + lsize l \<le> b + u" using assms(2,3) by (auto intro: dvd_trans)
  ultimately show ?thesis using False unfolding alloc_result_def by auto
qed (use assms(1) in \<open>simp add: alloc_result_def\<close>)

text \<open>The size test the allocator makes before it asks for another chunk.\<close>

definition heap_required :: "layout \<Rightarrow> usize" where
  "heap_required l = (if place_fits 0 l heap_geometry then place_end 0 l heap_geometry else USIZE_MAX)"

lemma alloc_round:
  assumes inv: "kheap_inv h H L bs st" and init: "ensure_head_initialized h (kmem st) = kmem st"
    and l: "layout_ok l" "8 dvd lalign l" and fuel: "length bs < fuel"
  shows "(allocate_from_free_list fuel h l (kmem st) = Inr (None, kmem st) \<and> (\<forall>x\<in>set bs. \<not> fits l x)) \<or>
    (\<exists>p m' L' bs'. allocate_from_free_list fuel h l (kmem st) = Inr (Some p, m') \<and> p \<noteq> 0 \<and>
      kheap_inv h H L' bs' (st\<lparr>kmem := m'\<rparr>) \<and> alloc_result l L p L' \<and>
      (\<forall>c \<in> live_bytes L. m' c = kmem st c))"
proof -
  obtain b where b: "heap_inv h L bs (kmem st)" "kbuddy st = Some b" "buddy_inv b"
    "H \<subseteq> alloc_blocks b" "head_outside h b" "bytes bs \<union> live_bytes L \<subseteq> (\<Union>f\<in>H. chunk f)"
    using kheap_invD [OF inv init] .
  consider "allocate_from_free_list fuel h l (kmem st) = Inr (None, kmem st)" "\<forall>x\<in>set bs. \<not> fits l x"
    | b' u p m' bs' where "allocate_from_free_list fuel h l (kmem st) = Inr (Some p, m')"
      "heap_inv h (insert ((b', u), p) L) bs' m'" "((b', u), p) \<notin> L" "lalign l dvd p"
      "p + lsize l \<le> b' + u" "bytes bs' \<union> {b'..<b' + u} \<subseteq> bytes bs"
      "\<forall>c. c \<notin> owned h bs \<longrightarrow> m' c = kmem st c"
    using allocate_from_free_list_correct [OF b(1) l fuel] by blast
  then show ?thesis
  proof cases
    case (2 b' u p m' bs')
    have p: "p \<noteq> 0" using 2(2) by (auto simp: heap_inv_def live_ok_def)
    have "ensure_head_initialized h m' = m'"
      by (rule ensure_heap_inv [OF 2(2)])
    moreover have "bytes bs' \<union> live_bytes (insert ((b', u), p) L) \<subseteq> (\<Union>f\<in>H. chunk f)"
    proof -
      have "live_bytes (insert ((b', u), p) L) = {b'..<b' + u} \<union> live_bytes L" by (simp add: live_bytes_def)
      then show ?thesis using 2(6) b(6) by blast
    qed
    ultimately have "kheap_inv h H (insert ((b', u), p) L) bs' (st\<lparr>kmem := m'\<rparr>)"
      using 2(2) b(2-5) by (simp add: kheap_inv_def)
    moreover have "m' c = kmem st c" if "c \<in> live_bytes L" for c
      using 2(7) that live_owned_disjoint [OF b(1)] unfolding live_bytes_def by blast
    ultimately show ?thesis using 2 p by (auto simp: alloc_result_def)
  qed blast
qed

lemma alloc_loop_correct:
  assumes inv: "kheap_inv h H L bs st" and init: "ensure_head_initialized h (kmem st) = kmem st"
    and l: "layout_ok l" "8 dvd lalign l" and fuel: "length bs + 2 \<le> fuel" and rounds: "2 \<le> rounds"
  shows "\<exists>p st' H' L' bs'. alloc_loop rounds fuel h l st = Inr (p, st') \<and>
    kheap_inv h H' L' bs' st' \<and> alloc_result l L p L' \<and> (\<forall>c \<in> live_bytes L. kmem st' c = kmem st c) \<and>
    (p = 0 \<longrightarrow> (\<forall>x\<in>set bs. \<not> fits l x) \<and>
      (CHUNK_SIZE < heap_required l \<or> grow_heap fuel h st = Inr (False, st)))"
proof -
  obtain r where r: "rounds = Suc (Suc r)" using rounds by (metis add_2_eq_Suc le_Suc_ex)
  have len: "length bs < fuel" using fuel by simp
  consider (none) "allocate_from_free_list fuel h l (kmem st) = Inr (None, kmem st)" "\<forall>x\<in>set bs. \<not> fits l x"
    | (some) p m' L' bs' where "allocate_from_free_list fuel h l (kmem st) = Inr (Some p, m')" "p \<noteq> 0"
      "kheap_inv h H L' bs' (st\<lparr>kmem := m'\<rparr>)" "alloc_result l L p L'"
      "\<forall>c \<in> live_bytes L. m' c = kmem st c"
    using alloc_round [OF inv init l len] by blast
  then show ?thesis
  proof cases
    case some
    then have "alloc_loop rounds fuel h l st = Inr (p, st\<lparr>kmem := m'\<rparr>)" by (simp add: r)
    then show ?thesis using some by auto
  next
    case none
    let ?req = "heap_required l"
    have step: "alloc_loop rounds fuel h l st = (if CHUNK_SIZE < ?req then Inr (0, st)
      else rbind (grow_heap fuel h st) (\<lambda>(grown, st).
        if \<not> grown then Inr (0, st) else alloc_loop (Suc r) fuel h l st))"
      using none(1) l(1) by (simp add: r required_block_size_eq heap_required_def)
    have stay: "kheap_inv h H L bs st \<and> alloc_result l L 0 L" using inv by (simp add: alloc_result_def)
    show ?thesis
    proof (cases "CHUNK_SIZE < ?req")
      case True
      then show ?thesis using step stay none(2) by auto
    next
      case small: False
      then have pe: "place_end 0 l heap_geometry \<le> CHUNK_SIZE"
        by (auto simp: heap_required_def USIZE_MAX_def split: if_splits)
      consider "grow_heap fuel h st = Inr (False, st)"
        | p st1 where "grow_heap fuel h st = Inr (True, st1)" "CHUNK_SIZE dvd KERNEL_VMA + p * PAGE_SIZE"
          "KERNEL_VMA + p * PAGE_SIZE + 2 * CHUNK_SIZE \<le> USIZE_MAX"
          "kheap_inv h (insert (p, CHUNK_ORDER) H) L (coalesce (KERNEL_VMA + p * PAGE_SIZE, CHUNK_SIZE) bs) st1"
          "ensure_head_initialized h (kmem st1) = kmem st1"
          "\<forall>c \<in> live_bytes L. kmem st1 c = kmem st c"
        using grow_heap_correct [OF inv init len] by blast
      then show ?thesis
      proof cases
        case 1
        then show ?thesis using step small stay none(2) by auto
      next
        case (2 p st1)
        let ?bs = "coalesce (KERNEL_VMA + p * PAGE_SIZE, CHUNK_SIZE) bs"
        have "\<exists>x\<in>set ?bs. fits l x"
          using coalesce_contains [of "(KERNEL_VMA + p * PAGE_SIZE, CHUNK_SIZE)" bs]
            fits_chunk [OF l(1) pe 2(2,3)] by auto
        moreover have "length ?bs < fuel"
          using length_coalesce [of "(KERNEL_VMA + p * PAGE_SIZE, CHUNK_SIZE)" bs] fuel by linarith
        ultimately obtain q m' L' bs' where q: "allocate_from_free_list fuel h l (kmem st1) = Inr (Some q, m')"
          "kheap_inv h (insert (p, CHUNK_ORDER) H) L' bs' (st1\<lparr>kmem := m'\<rparr>)" "alloc_result l L q L'"
          "\<forall>c \<in> live_bytes L. m' c = kmem st1 c" "q \<noteq> 0"
          using alloc_round [OF 2(4,5) l] by blast
        then have "alloc_loop rounds fuel h l st = Inr (q, st1\<lparr>kmem := m'\<rparr>)"
          using step small 2(1) by simp
        then show ?thesis using q(2-5) 2(6) by auto
      qed
    qed
  qed
qed

lemma heap_layout_ok:
  assumes "layout_ok l" "0 < lsize l" "lsize l \<le> ISIZE_MAX - 7"
  obtains l' where "heap_layout l = Inr l'" "layout_ok l'" "8 dvd lalign l'"
    "lalign l dvd lalign l'" "lsize l \<le> lsize l'" "0 < lsize l'"
proof -
  let ?a = "max (lalign l) 8" and ?s = "max (lsize l) 1"
  have p8: "is_power_of_two 8" by (auto simp: is_power_of_two_iff intro!: exI [of _ 3])
  have pa: "is_power_of_two ?a" using assms(1) p8 by (simp add: layout_ok_def max_def)
  have "?s \<le> ISIZE_MAX - (?a - 1)"
    using assms by (auto simp: layout_ok_def ISIZE_MAX_def max_def)
  then have "heap_layout l = Inr \<lparr>lsize = ?s, lalign = ?a\<rparr>"
    using pa by (simp add: heap_layout_def normalize_layout_def from_size_align_def Let_def)
  moreover have "8 dvd ?a" "lalign l dvd ?a"
    using pow2_dvd [of 8 "lalign l"] pow2_dvd [of "lalign l" 8] assms(1) p8 by (auto simp: layout_ok_def max_def)
  ultimately show ?thesis
    using that [of "\<lparr>lsize = ?s, lalign = ?a\<rparr>"] pa \<open>?s \<le> ISIZE_MAX - (?a - 1)\<close> by (simp add: layout_ok_def)
qed

text \<open>The heap cannot grow exactly when the page allocator has no chunk left.\<close>

lemma grow_heap_fails:
  assumes "buddy_inv b" "kbuddy st = Some b" "grow_heap fuel h st = Inr (False, st')"
  shows "free_blocks (metadata b) {} CHUNK_ORDER = {}"
proof (rule allocate_cases [OF assms(1), of CHUNK_ORDER])
  fix p b' assume "allocate CHUNK_ORDER b = Inr (Some (p * PAGE_SIZE), b')"
  then show ?thesis using assms(2,3) by (auto simp: grow_heap_def rbind_eq_Inr_iff)
qed simp

definition cannot_serve :: "layout \<Rightarrow> hblock list \<Rightarrow> kheap \<Rightarrow> bool" where
  "cannot_serve l bs st \<longleftrightarrow> (\<forall>x\<in>set bs. \<not> fits l x) \<and>
     (CHUNK_SIZE < heap_required l \<or> (\<exists>b. kbuddy st = Some b \<and> free_blocks (metadata b) {} CHUNK_ORDER = {}))"

lemma heap_alloc_correct:
  assumes inv: "kheap_inv h H L bs st" and l: "layout_ok l" "0 < lsize l" "lsize l \<le> ISIZE_MAX - 7"
    and fuel: "length bs + 2 \<le> fuel" "2 \<le> rounds"
  shows "\<exists>p st' H' L' bs'. heap_alloc rounds fuel h l st = Inr (p, st') \<and>
    kheap_inv h H' L' bs' st' \<and> alloc_result l L p L' \<and> (\<forall>c \<in> live_bytes L. kmem st' c = kmem st c) \<and>
    (p = 0 \<longrightarrow> (\<exists>l'. heap_layout l = Inr l' \<and> cannot_serve l' bs st))"
proof -
  obtain l' where l': "heap_layout l = Inr l'" "layout_ok l'" "8 dvd lalign l'"
    "lalign l dvd lalign l'" "lsize l \<le> lsize l'" using heap_layout_ok [OF l] .
  let ?m = "ensure_head_initialized h (kmem st)"
  have hi: "heap_inv h L bs ?m" using inv by (simp add: kheap_inv_def)
  have idem: "ensure_head_initialized h ?m = ?m" by (rule ensure_heap_inv [OF hi])
  have inv': "kheap_inv h H L bs (st\<lparr>kmem := ?m\<rparr>)" using inv idem by (simp add: kheap_inv_def)
  obtain p st' H' L' bs' where a: "alloc_loop rounds fuel h l' (st\<lparr>kmem := ?m\<rparr>) = Inr (p, st')"
    "kheap_inv h H' L' bs' st'" "alloc_result l' L p L'" "\<forall>c \<in> live_bytes L. kmem st' c = ?m c"
    "p = 0 \<longrightarrow> (\<forall>x\<in>set bs. \<not> fits l' x) \<and>
      (CHUNK_SIZE < heap_required l' \<or> grow_heap fuel h (st\<lparr>kmem := ?m\<rparr>) = Inr (False, st\<lparr>kmem := ?m\<rparr>))"
    using alloc_loop_correct [OF inv' _ l'(2,3) fuel] idem by auto
  have "?m c = kmem st c" if "c \<in> live_bytes L" for c
  proof -
    have "c \<notin> owned h bs" using that live_owned_disjoint [OF hi] unfolding live_bytes_def by blast
    then show ?thesis by (rule ensure_owned)
  qed
  moreover have "alloc_result l L p L'"
    by (rule alloc_result_mono [OF a(3) l'(4,5)])
  moreover have "heap_alloc rounds fuel h l st = Inr (p, st')" using l'(1) a(1) by (simp add: heap_alloc_def)
  moreover have "cannot_serve l' bs st" if "p = 0"
  proof -
    obtain b where b: "kbuddy st = Some b" "buddy_inv b" using inv by (auto simp: kheap_inv_def)
    have "free_blocks (metadata b) {} CHUNK_ORDER = {}" if "grow_heap fuel h (st\<lparr>kmem := ?m\<rparr>) = Inr (False, st\<lparr>kmem := ?m\<rparr>)"
      by (rule grow_heap_fails [OF b(2) _ that]) (simp add: b(1))
    then show ?thesis using a(5) that b(1) unfolding cannot_serve_def by blast
  qed
  ultimately show ?thesis using a(2,4) l'(1) by (metis (no_types, lifting))
qed

text \<open>Giving a live allocation back.\<close>

lemma heap_dealloc_correct:
  assumes inv: "kheap_inv h H L bs st" and a: "((b, u), p) \<in> L" and fuel: "length bs < fuel"
  shows "\<exists>st' bs'. heap_dealloc fuel h p st = Inr st' \<and> kheap_inv h H (L - {((b, u), p)}) bs' st' \<and>
    bytes bs' = bytes bs \<union> {b..<b + u} \<and>
    (\<forall>c \<in> live_bytes (L - {((b, u), p)}). kmem st' c = kmem st c)"
proof -
  let ?m = "ensure_head_initialized h (kmem st)" and ?L = "L - {((b, u), p)}"
  have hi: "heap_inv h L bs ?m" using inv by (simp add: kheap_inv_def)
  have lv: "live_ok h ?m ((b, u), p)" using hi a by (simp add: heap_inv_def)
  have ok: "hblock_ok h (b, u)" "?m b = u" "b + 32 \<le> p" "p \<le> b + u" "?m (p - 8) = b"
    using lv by (auto simp: live_ok_def)
  have hi': "heap_inv h ?L bs ?m" using hi by (auto simp: heap_inv_def)
  have ap: "\<forall>y\<in>set bs. apart_blocks (b, u) y" using hi a by (fastforce simp: heap_inv_def)
  have lap: "\<forall>c\<in>?L. apart_blocks (fst c) (b, u)"
  proof
    fix c assume c: "c \<in> ?L"
    then have "apart_blocks (fst c) (fst ((b, u), p))" using hi a unfolding heap_inv_def by blast
    then show "apart_blocks (fst c) (b, u)" by simp
  qed
  let ?m1 = "init_at (b + 8) ?m"
  have m1: "?m1 b = u" using ok(2) by (simp add: init_at_def)
  have fr: "?m1 c = ?m c" if "c \<notin> {b..<b + u}" for c
    using that ok(1) by (auto simp: init_at_def hblock_ok_def)
  obtain m' where m': "insert_and_coalesce fuel h b ?m1 = Inr m'"
    "heap_inv h ?L (coalesce (b, u) bs) m'" "\<forall>c. c \<notin> owned h bs \<union> {b..<b + u} \<longrightarrow> m' c = ?m c"
    using heap_inv_add_block [of h ?L bs ?m b u ?m1 fuel] hi' ok(1) ap lap m1 fr fuel by blast
  note keep = ensure_owned [of _ h bs "kmem st"]
  have blk: "{b..<b + u} \<inter> owned h bs = {}" using owned_apart [OF ok(1) ap] by simp
  moreover have "p - 8 \<in> {b..<b + u}" using ok(3,4) by auto
  ultimately have "p - 8 \<notin> owned h bs" by blast
  then have "kmem st (p - 8) = b" using keep [of "p - 8"] ok(5) by simp
  then have run: "heap_dealloc fuel h p st = Inr (st\<lparr>kmem := m'\<rparr>)"
    using ok(3) m'(1) by (simp add: heap_dealloc_def header_from_user_ptr_def run_simps Let_def)
  have "live_bytes L = live_bytes ?L \<union> {b..<b + u}" using a by (auto simp: live_bytes_def)
  then have "bytes (coalesce (b, u) bs) \<union> live_bytes ?L \<subseteq> (\<Union>f\<in>H. chunk f)"
    using inv unfolding bytes_coalesce kheap_inv_def fst_conv snd_conv by blast
  then have "kheap_inv h H ?L (coalesce (b, u) bs) (st\<lparr>kmem := m'\<rparr>)"
    using inv m'(2) ensure_heap_inv [OF m'(2)] by (simp add: kheap_inv_def)
  moreover have "m' c = kmem st c" if c: "c \<in> live_bytes ?L" for c
  proof -
    obtain x where x: "x \<in> ?L" "c \<in> {fst (fst x)..<fst (fst x) + snd (fst x)}"
      using c unfolding live_bytes_def by blast
    have "c \<notin> owned h bs" using live_owned_disjoint [OF hi' x(1)] x(2) by blast
    moreover have "c \<notin> {b..<b + u}" using block_interval_apart [of "fst x" "(b, u)"] lap x by auto
    ultimately show ?thesis using m'(3) keep by simp
  qed
  ultimately show ?thesis using run bytes_coalesce [of "(b, u)" bs] by auto
qed

section \<open>Sequences of calls\<close>

text \<open>A call returns when every large enough fuel gives the same value.\<close>

definition returns :: "(nat \<Rightarrow> 'a run) \<Rightarrow> 'a \<Rightarrow> bool" where
  "returns f x \<longleftrightarrow> (\<exists>n. \<forall>fuel\<ge>n. f fuel = Inr x)"

lemma returns_at: "returns f x \<Longrightarrow> \<exists>k\<ge>n. f k = Inr x"
  unfolding returns_def by (metis max.cobounded1 max.cobounded2)

text \<open>The caller's view: the live allocations, each with the header its back pointer leads to.  The
  owner of an allocation may write any of its cells.\<close>

definition live_entry :: "memory \<Rightarrow> usize \<Rightarrow> hlive" where
  "live_entry m p = ((m (p - 8), m (m (p - 8))), p)"

inductive heap_step :: "usize \<Rightarrow> kheap \<times> hlive set \<Rightarrow> kheap \<times> hlive set \<Rightarrow> bool" for h where
  hs_alloc: "layout_ok l \<Longrightarrow> 0 < lsize l \<Longrightarrow> lsize l \<le> ISIZE_MAX - 7 \<Longrightarrow>
    returns (\<lambda>n. heap_alloc n n h l st) (p, st') \<Longrightarrow>
    heap_step h (st, L) (st', if p = 0 then L else insert (live_entry (kmem st') p) L)"
| hs_dealloc: "((b, u), p) \<in> L \<Longrightarrow> returns (\<lambda>n. heap_dealloc n h p st) st' \<Longrightarrow>
    heap_step h (st, L) (st', L - {((b, u), p)})"
| hs_write: "((b, u), p) \<in> L \<Longrightarrow> 8 dvd c \<Longrightarrow> p \<le> c \<Longrightarrow> c < b + u \<Longrightarrow>
    heap_step h (st, L) (st\<lparr>kmem := (kmem st)(c := v)\<rparr>, L)"

lemma heap_inv_write:
  assumes inv: "heap_inv h L bs m" and a: "((b, u), p) \<in> L" "8 dvd c" "p \<le> c" "c < b + u"
  shows "heap_inv h L bs (m(c := v))"
proof -
  have lv: "live_ok h m a" if "a \<in> L" for a using inv that by (simp add: heap_inv_def)
  have c: "c \<in> {b..<b + u}" using lv [OF a(1)] a(3,4) by (auto simp: live_ok_def)
  have "c \<notin> owned h bs" using live_owned_disjoint [OF inv a(1)] c unfolding fst_conv snd_conv by blast
  moreover have fl: "free_list m h bs" using inv by (simp add: heap_inv_def)
  ultimately have "free_list (m(c := v)) h bs" by (intro free_list_frame [OF fl]) auto
  moreover have "live_ok h (m(c := v)) x" if x: "x \<in> L" for x
  proof (cases "x = ((b, u), p)")
    case True
    then show ?thesis using lv [OF a(1)] a(3) by (auto simp: live_ok_def)
  next
    case False
    then have "apart_blocks (fst ((b, u), p)) (fst x)" using inv a(1) x unfolding heap_inv_def by metis
    then have "c \<notin> {fst (fst x)..<fst (fst x) + snd (fst x)}"
      using block_interval_apart [of "(b, u)" "fst x"] c by auto
    then show ?thesis by (intro live_ok_frame [OF lv [OF x]]) auto
  qed
  ultimately show ?thesis using inv by (simp add: heap_inv_def)
qed

lemma live_entry_eq:
  assumes "kheap_inv h H L bs st" "((b, u), p) \<in> L"
  shows "live_entry (kmem st) p = ((b, u), p)"
proof -
  let ?m = "ensure_head_initialized h (kmem st)"
  have hi: "heap_inv h L bs ?m" using assms(1) by (simp add: kheap_inv_def)
  have lv: "live_ok h ?m ((b, u), p)" using hi assms(2) by (simp add: heap_inv_def)
  have keep: "?m c = kmem st c" if "c \<in> {b..<b + u}" for c
    using live_owned_disjoint [OF hi assms(2)] that
    by (intro ensure_owned [of _ _ bs]) (metis disjoint_iff fst_conv snd_conv)
  have "p - 8 \<in> {b..<b + u}" "b \<in> {b..<b + u}" using lv by (auto simp: live_ok_def)
  then show ?thesis using keep [of b] keep [of "p - 8"] lv by (simp add: live_entry_def live_ok_def)
qed

text \<open>More fuel never changes a result.\<close>

lemma insert_point_mono:
  "f \<le> g \<Longrightarrow> run_le (insert_point f h b p c m) (insert_point g h b p c m)"
proof (induction f h b p c m arbitrary: g rule: insert_point.induct)
  case (2 f h b p c m)
  then obtain g' where g: "g = Suc g'" "f \<le> g'" by (cases g) auto
  show ?case unfolding g insert_point.simps by (intro run_le_intros 2(1) g(2))
qed (simp add: run_le_Inl)

lemma insert_and_coalesce_mono:
  "f \<le> g \<Longrightarrow> run_le (insert_and_coalesce f h b m) (insert_and_coalesce g h b m)"
  unfolding insert_and_coalesce_def by (intro run_le_intros insert_point_mono)

lemma carve_block_mono:
  "f \<le> g \<Longrightarrow> run_le (carve_block f h b s p u m) (carve_block g h b s p u m)"
  unfolding carve_block_def Let_def by (intro run_le_intros insert_and_coalesce_mono)

lemma free_list_scan_mono:
  "f \<le> g \<Longrightarrow> w \<le> v \<Longrightarrow> run_le (free_list_scan f w h l n m) (free_list_scan g v h l n m)"
proof (induction f w h l n m arbitrary: g rule: free_list_scan.induct)
  case (2 f w h l n m)
  then obtain g' where g: "g = Suc g'" "f \<le> g'" by (cases g) auto
  show ?case unfolding g free_list_scan.simps Let_def
    by (intro run_le_intros carve_block_mono 2(3)) (rule 2(1) [OF _ refl], (assumption | rule g 2)+)
qed (simp add: run_le_Inl)

lemma grow_heap_mono: "f \<le> g \<Longrightarrow> run_le (grow_heap f h st) (grow_heap g h st)"
  unfolding grow_heap_def Let_def by (intro run_le_intros insert_and_coalesce_mono)

lemma alloc_loop_mono:
  "n \<le> k \<Longrightarrow> f \<le> g \<Longrightarrow> run_le (alloc_loop n f h l st) (alloc_loop k g h l st)"
proof (induction n arbitrary: k st)
  case (Suc n)
  then obtain k' where k: "k = Suc k'" "n \<le> k'" by (cases k) auto
  show ?case unfolding k alloc_loop.simps Let_def allocate_from_free_list_def
    by (intro run_le_intros free_list_scan_mono grow_heap_mono Suc.IH k(2) Suc.prems(2))
qed (simp add: run_le_Inl)

lemma heap_alloc_mono:
  "n \<le> k \<Longrightarrow> f \<le> g \<Longrightarrow> run_le (heap_alloc n f h l st) (heap_alloc k g h l st)"
  unfolding heap_alloc_def Let_def by (intro run_le_intros alloc_loop_mono)

lemma heap_dealloc_mono: "f \<le> g \<Longrightarrow> run_le (heap_dealloc f h p st) (heap_dealloc g h p st)"
  unfolding heap_dealloc_def Let_def by (intro run_le_intros insert_and_coalesce_mono)

definition heap_state_ok :: "usize \<Rightarrow> kheap \<times> hlive set \<Rightarrow> bool" where
  "heap_state_ok h s \<longleftrightarrow> (\<exists>H bs. kheap_inv h H (snd s) bs (fst s))"

lemma kheap_inv_write:
  assumes "kheap_inv h H L bs st" "((b, u), p) \<in> L" "8 dvd c" "p \<le> c" "c < b + u"
  shows "kheap_inv h H L bs (st\<lparr>kmem := (kmem st)(c := v)\<rparr>)"
proof -
  let ?m = "ensure_head_initialized h (kmem st)"
  have hi: "heap_inv h L bs ?m" using assms(1) by (simp add: kheap_inv_def)
  have lv: "live_ok h ?m ((b, u), p)" using hi assms(2) by (simp add: heap_inv_def)
  then have "c \<in> {b..<b + u}" using assms(4,5) by (auto simp: live_ok_def)
  then have "c \<noteq> h" "c \<noteq> h + 8" using lv by (auto simp: live_ok_def hblock_ok_def)
  then have "ensure_head_initialized h ((kmem st)(c := v)) = ?m(c := v)"
    by (auto simp: ensure_head_initialized_def init_at_def)
  then show ?thesis using assms(1) heap_inv_write [OF hi assms(2-5)] by (simp add: kheap_inv_def)
qed

lemma heap_step_ok:
  assumes "heap_step h s s'" "heap_state_ok h s" shows "heap_state_ok h s'"
  using assms
proof (induction rule: heap_step.induct)
  case (hs_alloc l st p st' L)
  then obtain H bs where inv: "kheap_inv h H L bs st" by (auto simp: heap_state_ok_def)
  obtain n where n: "length bs + 2 \<le> n" "heap_alloc n n h l st = Inr (p, st')"
    using returns_at [OF hs_alloc(4), of "length bs + 2"] by auto
  obtain H' L' bs' where a: "kheap_inv h H' L' bs' st'" "alloc_result l L p L'"
    using heap_alloc_correct [OF inv hs_alloc(1-3) n(1), of n] n by auto
  show ?case
  proof (cases "p = 0")
    case True
    then show ?thesis using a by (auto simp: heap_state_ok_def alloc_result_def)
  next
    case False
    then obtain b u where L': "L' = insert ((b, u), p) L" using a(2) by (auto simp: alloc_result_def)
    then have "live_entry (kmem st') p = ((b, u), p)" by (intro live_entry_eq [OF a(1)]) simp
    then show ?thesis using False a(1) L' by (auto simp: heap_state_ok_def)
  qed
next
  case (hs_dealloc b u p L st st')
  then obtain H bs where inv: "kheap_inv h H L bs st" by (auto simp: heap_state_ok_def)
  obtain n where n: "Suc (length bs) \<le> n" "heap_dealloc n h p st = Inr st'"
    using returns_at [OF hs_dealloc(2), of "Suc (length bs)"] by auto
  then show ?case
    using heap_dealloc_correct [OF inv hs_dealloc(1), of n] by (auto simp: heap_state_ok_def)
next
  case (hs_write b u p L c st v)
  then show ?case using kheap_inv_write by (fastforce simp: heap_state_ok_def)
qed

lemma heap_steps_ok:
  assumes "(heap_step h)\<^sup>*\<^sup>* s s'" "heap_state_ok h s" shows "heap_state_ok h s'"
  using assms by (induction rule: rtranclp_induct) (auto intro: heap_step_ok)

text \<open>The heap before the first call: zeroed list head, the buddy allocator just built.\<close>

lemma kheap_inv_initial:
  assumes "buddy_inv b" "head_outside h b" "kmem st h = 0" "kbuddy st = Some b"
  shows "kheap_inv h {} {} [] st"
proof -
  have "ordered h []" using assms(2) by (simp add: ordered_def head_outside_def)
  then have "free_list (init_at h (kmem st)) h []"
    using assms(2) by (auto simp: free_list_def head_outside_def apart_def intro!: clist_init_at)
  then show ?thesis
    using assms by (simp add: kheap_inv_def heap_inv_def ensure_head_initialized_def coalesced_def live_bytes_def)
qed

abbreviation demo_head :: usize where "demo_head \<equiv> KERNEL_VMA + 256"

lemma demo_machine:
  obtains b where "buddy_inv b" "head_outside demo_head b" "1 \<in> free_pages b"
    "buddy_new 2048 [(1, 0, 8388608)] [(0, 4096)] = Inr b"
proof -
  obtain b where b: "buddy_new 2048 [(1, 0, 8388608)] [(0, 4096)] = Inr b" "buddy_inv b"
    "alloc_blocks b = {}" "free_pages b = area_pages [(0, 4096)] [(1, 0, 8388608)] \<inter> {..<2048}"
    using buddy_new_correct [of 2048 "[(0, 4096)]" "[(1, 0, 8388608)]"]
    by (auto simp: reserved_ok_def USIZE_MAX_def)
  have "0 \<notin> free_pages b \<union> live_pages b"
    using b(3,4) by (auto simp: area_pages_def usable_def live_pages_def)
  moreover have "{demo_head..<demo_head + 16} \<inter> chunk (q, 0) = {}" if "q \<noteq> 0" for q
    using that by (auto simp: chunk_def)
  ultimately have "\<forall>q \<in> free_pages b \<union> live_pages b. {demo_head..<demo_head + 16} \<inter> chunk (q, 0) = {}"
    by metis
  then have "head_outside demo_head b" unfolding head_outside_def by simp
  moreover have "1 \<in> free_pages b" using b(4) by (simp add: area_pages_def usable_def)
  ultimately show ?thesis using b(1,2) that by blast
qed

lemma demo_heap:
  obtains b where "buddy_new 2048 [(1, 0, 8388608)] [(0, 4096)] = Inr b"
    "kheap_inv demo_head {} {} [] \<lparr>kmem = \<lambda>_. 0, kbuddy = Some b\<rparr>"
  using demo_machine kheap_inv_initial by (metis kheap.select_convs)

text \<open>A heap with one live allocation of 32 bytes, in a page taken from the same machine.\<close>

definition demo_mem :: "usize \<Rightarrow> memory" where
  "demo_mem v = (\<lambda>_. 0)(v := 64, v + 24 := v)"

lemma demo_live:
  obtains b p v where "v = KERNEL_VMA + p * PAGE_SIZE"
    "kheap_inv demo_head {(p, 0)} {((v, 64), v + 32)} [] \<lparr>kmem = demo_mem v, kbuddy = Some b\<rparr>"
proof -
  obtain b0 where b0: "buddy_inv b0" "head_outside demo_head b0" "1 \<in> free_pages b0"
    by (rule demo_machine)
  obtain a b where run: "allocate 0 b0 = Inr (Some a, b)"
    using allocate_cases [OF b0(1), of 0] free_page_block [OF b0(1,3)] by (metis empty_iff le0)
  then obtain p where st: "alloc_step 0 p b0 b"
    using allocate_cases [OF b0(1), of 0] by (metis Inr_inject Pair_inject option.distinct(1))
  define v where "v = KERNEL_VMA + p * PAGE_SIZE"
  have b: "buddy_inv b" "(p, 0) \<in> alloc_blocks b" "head_outside demo_head b"
    using st head_outside_steps [OF b0(2) st] by (auto simp: alloc_step_def)
  have ch: "chunk (p, 0) = {v..<v + PAGE_SIZE}" by (simp add: chunk_def v_def algebra_simps)
  have "p \<in> live_pages b" using b(2) by (auto simp: live_pages_def intro!: bexI [of _ "(p, 0)"])
  then have "{demo_head..<demo_head + 16} \<inter> {v..<v + PAGE_SIZE} = {}"
    using b(3) ch unfolding head_outside_def by blast
  then have "apart_blocks (demo_head, 16) (v, PAGE_SIZE)" by (intro apart_blocksI) auto
  then have off: "demo_head + 16 \<le> v \<or> v + 64 \<le> demo_head" by (auto simp: before_def)
  have "p < 2 ^ 32"
    using alloc_block_frames(1) [OF b(1,2)] b(1)
    by (auto simp: placeable_def buddy_inv_def wf_open_def sizes_ok_def)
  then have "v + 64 \<le> USIZE_MAX" by (simp add: v_def USIZE_MAX_def)
  moreover have "8 dvd v" by (simp add: v_def)
  ultimately have ok: "hblock_ok demo_head (v, 64)" using off by (auto simp: hblock_ok_def)
  have z: "demo_mem v demo_head = 0" using off by (auto simp: demo_mem_def)
  let ?m = "init_at demo_head (demo_mem v)"
  have "free_list ?m demo_head []"
    by (auto simp: free_list_def ordered_def apart_def intro!: clist_init_at)
  moreover have "live_ok demo_head ?m ((v, 64), v + 32)"
    using ok off \<open>8 dvd v\<close> by (auto simp: live_ok_def demo_mem_def init_at_def)
  ultimately have "heap_inv demo_head {((v, 64), v + 32)} [] ?m"
    by (simp add: heap_inv_def coalesced_def)
  moreover have "live_bytes {((v, 64), v + 32)} \<subseteq> chunk (p, 0)" by (auto simp: live_bytes_def ch)
  ultimately have "kheap_inv demo_head {(p, 0)} {((v, 64), v + 32)} [] \<lparr>kmem = demo_mem v, kbuddy = Some b\<rparr>"
    using b z by (simp add: kheap_inv_def ensure_head_initialized_def)
  then show ?thesis using that v_def by blast
qed

section \<open>Properties\<close>

text \<open>C22: \<open>insert_and_coalesce\<close> implements insertion into the address ordered list with merging of
  touching neighbours: it returns, the list in memory afterwards is \<open>coalesce\<close> of the one before,
  the free bytes grow by exactly the block, no two neighbours of the result touch, and no cell
  outside the list and the block changes.\<close>

theorem insert_and_coalesce_refines_coalesce:
  assumes "free_list m h bs" "coalesced bs" "hblock_ok h (b, s)" "m b = s" "length bs < fuel"
    "\<forall>y\<in>set bs. before (b, s) y \<or> before y (b, s)"
  shows "\<exists>m'. insert_and_coalesce fuel h b m = Inr m' \<and> free_list m' h (coalesce (b, s) bs) \<and>
    coalesced (coalesce (b, s) bs) \<and> bytes (coalesce (b, s) bs) = bytes bs \<union> {b..<b + s} \<and>
    (\<forall>c. c \<notin> owned h ((b, s) # bs) \<longrightarrow> m' c = m c)"
proof -
  have "coalesced (coalesce (b, s) bs)"
    using assms by (intro coalesced_coalesce [of h]) (auto simp: free_list_def)
  then show ?thesis
    using insert_and_coalesce_refines [OF assms(1,3,6,4,5)] bytes_coalesce [of "(b, s)" bs] by auto
qed

theorem insert_and_coalesce_refines_coalesce_witness:
  "\<exists>m'. insert_and_coalesce 1 16 4096 (heap_node_init 4096 64 (init_at 16 (\<lambda>_. 0))) = Inr m' \<and>
     free_list m' 16 [(4096, 64)]"
proof -
  let ?m = "heap_node_init 4096 64 (init_at 16 (\<lambda>_. 0))"
  have "free_list ?m 16 []"
    by (simp add: free_list_def ordered_def clist_def apart_def heap_node_init_def init_at_def)
  then show ?thesis
    using insert_and_coalesce_refines_coalesce [of ?m 16 "[]" 4096 64 1]
    by (auto simp: coalesced_def hblock_ok_def heap_node_init_simps(1) USIZE_MAX_def coalesce_def
        merge_right_def)
qed

text \<open>C20: an allocation request returns after at most one growth of the heap (two turns of the loop,
  and walks no longer than the free list).  A non-null result is a fresh allocation with the
  requested alignment and room for the requested size, the heap invariant still holds with it added,
  and no byte of any live allocation has changed.  The result is null only when no free block can
  hold the request and either it does not fit into a 4 MiB chunk or the page allocator has none left.\<close>

theorem heap_alloc_sound:
  assumes "kheap_inv h H L bs st" "layout_ok l" "0 < lsize l" "lsize l \<le> ISIZE_MAX - 7"
    "length bs + 2 \<le> fuel" "2 \<le> rounds"
  shows "\<exists>p st' H' L' bs'. heap_alloc rounds fuel h l st = Inr (p, st') \<and> kheap_inv h H' L' bs' st' \<and>
    alloc_result l L p L' \<and>
    (\<forall>c \<in> live_bytes L. kmem st' c = kmem st c) \<and>
    (p = 0 \<longrightarrow> (\<exists>l'. heap_layout l = Inr l' \<and> cannot_serve l' bs st))"
  by (rule heap_alloc_correct [OF assms])

theorem heap_alloc_sound_witness:
  "\<exists>b p st'. buddy_new 2048 [(1, 0, 8388608)] [(0, 4096)] = Inr b \<and> p \<noteq> 0 \<and> 16 dvd p \<and>
     heap_alloc 2 2 demo_head \<lparr>lsize = 100, lalign = 16\<rparr> \<lparr>kmem = \<lambda>_. 0, kbuddy = Some b\<rparr> = Inr (p, st')"
proof -
  obtain b where b: "buddy_new 2048 [(1, 0, 8388608)] [(0, 4096)] = Inr b"
    "kheap_inv demo_head {} {} [] \<lparr>kmem = \<lambda>_. 0, kbuddy = Some b\<rparr>" by (rule demo_heap)
  have l: "layout_ok \<lparr>lsize = 100, lalign = 16\<rparr>"
    by (simp add: layout_ok_def is_power_of_two_def ISIZE_MAX_def upt_rec)
  have "1024 \<in> area_runs 2048 [(0, 4096)] [(1, 0, 8388608)]"
    by (auto simp: area_runs_def runs_in_def usable_def)
  moreover have "area_runs 2048 [(0, 4096)] [(1, 0, 8388608)] \<subseteq> free_blocks (metadata b) {} 10"
    using buddy_new_correct [of 2048 "[(0, 4096)]" "[(1, 0, 8388608)]"] b(1) by (simp add: reserved_ok_def USIZE_MAX_def)
  ultimately have "free_blocks (metadata b) {} CHUNK_ORDER \<noteq> {}" by blast
  moreover have "heap_layout \<lparr>lsize = 100, lalign = 16\<rparr> = Inr \<lparr>lsize = 100, lalign = 16\<rparr>" "\<not> CHUNK_SIZE < heap_required \<lparr>lsize = 100, lalign = 16\<rparr>"
    by (simp_all add: heap_layout_def normalize_layout_def from_size_align_def is_power_of_two_def ISIZE_MAX_def upt_rec heap_required_def
        place_fits_def place_end_def place_ptr_def round_up_def heap_geometry_def USIZE_MAX_def)
  ultimately have "\<not> (\<exists>l'. heap_layout \<lparr>lsize = 100, lalign = 16\<rparr> = Inr l' \<and> cannot_serve l' [] \<lparr>kmem = \<lambda>_. 0, kbuddy = Some b\<rparr>)"
    by (simp add: cannot_serve_def)
  moreover obtain p st' L' where "heap_alloc 2 2 demo_head \<lparr>lsize = 100, lalign = 16\<rparr> \<lparr>kmem = \<lambda>_. 0, kbuddy = Some b\<rparr> = Inr (p, st')"
      "alloc_result \<lparr>lsize = 100, lalign = 16\<rparr> {} p L'"
      "p = 0 \<longrightarrow> (\<exists>l'. heap_layout \<lparr>lsize = 100, lalign = 16\<rparr> = Inr l' \<and> cannot_serve l' [] \<lparr>kmem = \<lambda>_. 0, kbuddy = Some b\<rparr>)"
    using heap_alloc_sound [OF b(2) l, of 2 2] by (auto simp: ISIZE_MAX_def)
  ultimately show ?thesis using b(1) by (auto simp: alloc_result_def split: if_splits)
qed

text \<open>C21: returning a live allocation always succeeds, gives exactly the bytes of its block back to
  the free list, keeps the heap invariant for the remaining allocations and changes none of their
  bytes.\<close>

theorem heap_dealloc_sound:
  assumes "kheap_inv h H L bs st" "((b, u), p) \<in> L" "length bs < fuel"
  shows "\<exists>st' bs'. heap_dealloc fuel h p st = Inr st' \<and>
    kheap_inv h H (L - {((b, u), p)}) bs' st' \<and> bytes bs' = bytes bs \<union> {b..<b + u} \<and>
    (\<forall>c \<in> live_bytes (L - {((b, u), p)}). kmem st' c = kmem st c)"
  by (rule heap_dealloc_correct [OF assms])

theorem heap_dealloc_sound_witness:
  "\<exists>p b st'. let v = KERNEL_VMA + p * PAGE_SIZE in
     heap_dealloc 1 demo_head (v + 32) \<lparr>kmem = demo_mem v, kbuddy = Some b\<rparr> = Inr st'"
proof -
  obtain b p v where d: "v = KERNEL_VMA + p * PAGE_SIZE"
    "kheap_inv demo_head {(p, 0)} {((v, 64), v + 32)} [] \<lparr>kmem = demo_mem v, kbuddy = Some b\<rparr>"
    by (rule demo_live)
  show ?thesis using heap_dealloc_sound [OF d(2), of v 64 "v + 32" 1] d(1) by (auto simp: Let_def)
qed

text \<open>Free and live blocks are apart and lie in memory the heap has taken.\<close>

lemma heap_owned:
  assumes "kheap_inv h H L bs st"
  shows "\<exists>H bs b. kbuddy st = Some b \<and> free_list (ensure_head_initialized h (kmem st)) h bs \<and> bytes bs \<inter> live_bytes L = {} \<and>
      bytes bs \<union> live_bytes L \<subseteq> (\<Union>f\<in>H. chunk f) \<and> H \<subseteq> alloc_blocks b \<and> (\<forall>(p, k)\<in>H. frames p k \<inter> free_pages b = {})"
proof -
  obtain b where b: "kbuddy st = Some b" "buddy_inv b" "H \<subseteq> alloc_blocks b" using assms by (auto simp: kheap_inv_def)
  have hi: "heap_inv h L bs (ensure_head_initialized h (kmem st))" and sub: "bytes bs \<union> live_bytes L \<subseteq> (\<Union>f\<in>H. chunk f)"
    using assms by (simp_all add: kheap_inv_def)
  have "bytes bs \<inter> live_bytes L = {}"
  proof -
    have "{fst y..<fst y + snd y} \<inter> {fst (fst a)..<fst (fst a) + snd (fst a)} = {}" if "a \<in> L" "y \<in> set bs" for a y
    proof -
      have "apart_blocks (fst a) y" using hi that unfolding heap_inv_def by blast
      then show ?thesis by (auto simp: before_def)
    qed
    then show ?thesis unfolding bytes_def live_bytes_def by blast
  qed
  moreover have "\<forall>(p, k)\<in>H. frames p k \<inter> free_pages b = {}"
  proof (clarify)
    fix p k assume "(p, k) \<in> H"
    then have "(p, k) \<in> alloc_blocks b" using b(3) by (rule subsetD [rotated])
    from frame_source.live_busy [OF b(2) this] show "frames p k \<inter> free_pages b = {}" unfolding frames_def .
  qed
  moreover have "free_list (ensure_head_initialized h (kmem st)) h bs" using hi by (simp add: heap_inv_def)
  ultimately show ?thesis using b(1,3) sub by blast
qed

text \<open>C2: in every state reached from a sound one by allocations, releases of live allocations and
  writes of owners into their own memory, live allocations are aligned to eight bytes, their blocks do
  not overlap each other, and each can be released: the call returns.  The free list in memory is intact;
  its blocks overlap no live block, and free and live blocks lie inside the chunks \<open>H\<close>, blocks that the
  page allocator has handed out and does not consider free.\<close>

theorem heap_reachable_safe:
  assumes "heap_state_ok h s" "(heap_step h)\<^sup>*\<^sup>* s (st, L)"
  shows "(\<forall>a \<in> L. 8 dvd snd a \<and> (\<exists>st'. returns (\<lambda>n. heap_dealloc n h (snd a) st) st')) \<and>
    (\<forall>a \<in> L. \<forall>c \<in> L. a \<noteq> c \<longrightarrow>
      {snd a..<fst (fst a) + snd (fst a)} \<inter> {snd c..<fst (fst c) + snd (fst c)} = {} \<and>
      {fst (fst a)..<fst (fst a) + snd (fst a)} \<inter> {fst (fst c)..<fst (fst c) + snd (fst c)} = {}) \<and>
    (\<exists>H bs b. kbuddy st = Some b \<and> free_list (ensure_head_initialized h (kmem st)) h bs \<and> bytes bs \<inter> live_bytes L = {} \<and>
      bytes bs \<union> live_bytes L \<subseteq> (\<Union>f\<in>H. chunk f) \<and> H \<subseteq> alloc_blocks b \<and> (\<forall>(p, k)\<in>H. frames p k \<inter> free_pages b = {}))"
proof -
  obtain H bs where inv: "kheap_inv h H L bs st"
    using heap_steps_ok [OF assms(2,1)] by (auto simp: heap_state_ok_def)
  have owned: "\<exists>H bs b. kbuddy st = Some b \<and> free_list (ensure_head_initialized h (kmem st)) h bs \<and> bytes bs \<inter> live_bytes L = {} \<and>
      bytes bs \<union> live_bytes L \<subseteq> (\<Union>f\<in>H. chunk f) \<and> H \<subseteq> alloc_blocks b \<and> (\<forall>(p, k)\<in>H. frames p k \<inter> free_pages b = {})"
    by (rule heap_owned [OF inv])
  have hi: "heap_inv h L bs (ensure_head_initialized h (kmem st))" using inv by (simp add: kheap_inv_def)
  have lv: "fst (fst a) \<le> snd a" "8 dvd snd a" if "a \<in> L" for a
    using hi that unfolding heap_inv_def live_ok_def by fastforce+
  have "{snd a..<fst (fst a) + snd (fst a)} \<inter> {snd c..<fst (fst c) + snd (fst c)} = {} \<and>
      {fst (fst a)..<fst (fst a) + snd (fst a)} \<inter> {fst (fst c)..<fst (fst c) + snd (fst c)} = {}"
    if "a \<in> L" "c \<in> L" "a \<noteq> c" for a c
  proof -
    have "apart_blocks (fst a) (fst c)" using hi that unfolding heap_inv_def by blast
    then show ?thesis using lv(1) [OF that(1)] lv(1) [OF that(2)] by (auto simp: before_def)
  qed
  moreover have "\<exists>st'. returns (\<lambda>n. heap_dealloc n h (snd a) st) st'" if a: "a \<in> L" for a
  proof -
    obtain st' where "heap_dealloc (Suc (length bs)) h (snd a) st = Inr st'"
      using heap_dealloc_correct [OF inv, of "fst (fst a)" "snd (fst a)" "snd a" "Suc (length bs)"] a by auto
    then show ?thesis unfolding returns_def using run_leD [OF heap_dealloc_mono] by metis
  qed
  ultimately show ?thesis using lv(2) owned by blast
qed

theorem heap_reachable_safe_witness:
  "\<exists>p b. let v = KERNEL_VMA + p * PAGE_SIZE; st = \<lparr>kmem = (demo_mem v)(v + 40 := 7), kbuddy = Some b\<rparr> in
     \<exists>st'. returns (\<lambda>n. heap_dealloc n demo_head (v + 32) st) st'"
proof -
  obtain b p v where d: "v = KERNEL_VMA + p * PAGE_SIZE"
    "kheap_inv demo_head {(p, 0)} {((v, 64), v + 32)} [] \<lparr>kmem = demo_mem v, kbuddy = Some b\<rparr>"
    by (rule demo_live)
  let ?s = "(\<lparr>kmem = demo_mem v, kbuddy = Some b\<rparr>, {((v, 64), v + 32)})"
  have "8 dvd v + 40" by (simp add: d(1))
  then have "heap_step demo_head ?s (\<lparr>kmem = (demo_mem v)(v + 40 := 7), kbuddy = Some b\<rparr>, {((v, 64), v + 32)})"
    using hs_write [of v 64 "v + 32" "{((v, 64), v + 32)}" "v + 40" demo_head
        "\<lparr>kmem = demo_mem v, kbuddy = Some b\<rparr>" 7] by simp
  then have "(heap_step demo_head)\<^sup>*\<^sup>* ?s
    (\<lparr>kmem = (demo_mem v)(v + 40 := 7), kbuddy = Some b\<rparr>, {((v, 64), v + 32)})" by (rule r_into_rtranclp)
  moreover have "heap_state_ok demo_head ?s" using d(2) by (auto simp: heap_state_ok_def)
  ultimately have "\<exists>st'. returns (\<lambda>n. heap_dealloc n demo_head (v + 32)
      \<lparr>kmem = (demo_mem v)(v + 40 := 7), kbuddy = Some b\<rparr>) st'"
    using heap_reachable_safe [of demo_head ?s] by (metis insertI1 snd_conv)
  then show ?thesis unfolding Let_def d(1) by blast
qed

end
