(* ===== verification/Paging.thy ===== *)
theory Paging
  imports Buddy_Dealloc
begin

text \<open>
  src/src/mem.rs, src/src/mem/page.rs and src/src/mem/page/pagemapper.rs: the four-level page
  tables.

  Page tables live in physical memory, which the kernel reaches at \<open>p + KERNEL_VMA\<close>; \<open>pt_mem\<close> is
  that memory as 64-bit words at their physical addresses, so \<open>t + 8 * i\<close> is entry \<open>i\<close> of the
  table at \<open>t\<close>.  A \<^verbatim>\<open>PageTableEntry\<close> is a 64-bit word and \<^verbatim>\<open>EntryFlags\<close> is the set of bits the
  \<^verbatim>\<open>bitflags!\<close> declaration lists, with union and containment as the bit operations.  Addresses
  are \<open>usize\<close>.  \<^verbatim>\<open>invlpg\<close> and \<^verbatim>\<open>mov cr3\<close> are not modelled here (the scheduler records the
  loaded root).
\<close>

unbundle bit_operations_syntax

abbreviation EARLY_PAGE_TABLE_LIMIT :: usize where "EARLY_PAGE_TABLE_LIMIT \<equiv> 8388608"

section \<open>Addresses and entries\<close>

type_synonym phys_addr = usize
type_synonym virt_addr = usize
type_synonym entry_flags = u64

definition phys_as_u64 :: "phys_addr \<Rightarrow> u64" where
  "phys_as_u64 a = of_nat a"

definition phys_from_u64 :: "u64 \<Rightarrow> phys_addr" where
  "phys_from_u64 w = unat w"

abbreviation PRESENT :: entry_flags where "PRESENT \<equiv> 1"
abbreviation WRITABLE :: entry_flags where "WRITABLE \<equiv> 2"
abbreviation USER :: entry_flags where "USER \<equiv> 4"
abbreviation HUGE :: entry_flags where "HUGE \<equiv> 128"
abbreviation GLOBAL :: entry_flags where "GLOBAL \<equiv> 256"
abbreviation NX :: entry_flags where "NX \<equiv> 0x8000000000000000"

definition has_flag :: "u64 \<Rightarrow> entry_flags \<Rightarrow> bool" where
  "has_flag e f \<longleftrightarrow> e AND f = f"

abbreviation ADDR_MASK :: u64 where "ADDR_MASK \<equiv> 0x000FFFFFFFFFF000"

definition pte_set_addr :: "phys_addr \<Rightarrow> entry_flags \<Rightarrow> u64" where
  "pte_set_addr phys flags = (phys_as_u64 phys AND ADDR_MASK) OR flags"

definition pte_addr :: "u64 \<Rightarrow> phys_addr" where
  "pte_addr e = phys_from_u64 (e AND ADDR_MASK)"

definition pte_flags :: "u64 \<Rightarrow> entry_flags" where
  "pte_flags e = e AND (PRESENT OR WRITABLE OR USER OR HUGE OR GLOBAL OR NX)"

definition pte_add_flags :: "entry_flags \<Rightarrow> u64 \<Rightarrow> u64" where
  "pte_add_flags flags e = e OR flags"

definition pte_is_present :: "u64 \<Rightarrow> bool" where
  "pte_is_present e \<longleftrightarrow> e AND 1 \<noteq> 0"

definition pte_is_huge :: "u64 \<Rightarrow> bool" where
  "pte_is_huge e \<longleftrightarrow> e AND push_bit 7 1 \<noteq> 0"

section \<open>The mapper\<close>

type_synonym pt_memory = "phys_addr \<Rightarrow> u64"

text \<open>\<^verbatim>\<open>entry_mut(index)\<close>: the address of an entry, with the array bounds check.\<close>

definition entry_mut :: "phys_addr \<Rightarrow> usize \<Rightarrow> phys_addr run" where
  "entry_mut table i = (if i < 512 then Inr (table + 8 * i) else Inl OutOfBounds)"

definition fill_table :: "phys_addr \<Rightarrow> pt_memory \<Rightarrow> pt_memory" where
  "fill_table table m = (\<lambda>a. if table \<le> a \<and> a < table + PAGE_SIZE then 0 else m a)"

definition phys_to_virt :: "phys_addr \<Rightarrow> usize run" where
  "phys_to_virt phys = add_usize phys KERNEL_VMA"

definition get_or_create_table ::
  "phys_addr \<Rightarrow> entry_flags \<Rightarrow> pt_memory \<times> buddy \<Rightarrow> (phys_addr \<times> pt_memory \<times> buddy) run" where
  "get_or_create_table cell table_flags st = (case st of (m, b) \<Rightarrow>
     rbind (if \<not> pte_is_present (m cell) then
              rbind (allocate_below 0 EARLY_PAGE_TABLE_LIMIT b) (\<lambda>(r, b).
              case r of None \<Rightarrow> Inl (Expect ''out of memory for page table'')
              | Some frame \<Rightarrow>
                  let m = m(cell := pte_set_addr frame table_flags) in
                  rbind (phys_to_virt frame) (\<lambda>_. Inr (fill_table frame m, b)))
            else Inr (m(cell := pte_add_flags table_flags (m cell)), b)) (\<lambda>(m, b).
     let table_phys = pte_addr (m cell) in
     rbind (phys_to_virt table_phys) (\<lambda>_. Inr (table_phys, m, b))))"

definition map_page ::
  "phys_addr \<Rightarrow> virt_addr \<Rightarrow> phys_addr \<Rightarrow> entry_flags \<Rightarrow> pt_memory \<times> buddy \<Rightarrow> (pt_memory \<times> buddy) run" where
  "map_page pml4 v phys flags st =
     (let pml4_idx = drop_bit 39 v AND 0x1FF;
          pdpt_idx = drop_bit 30 v AND 0x1FF;
          pd_idx = drop_bit 21 v AND 0x1FF;
          pt_idx = drop_bit 12 v AND 0x1FF;
          table_flags = (if has_flag flags USER then PRESENT OR WRITABLE OR USER else PRESENT OR WRITABLE)
      in rbind (phys_to_virt pml4) (\<lambda>_.
         rbind (entry_mut pml4 pml4_idx) (\<lambda>cell.
         rbind (get_or_create_table cell table_flags st) (\<lambda>(pdpt, st).
         rbind (entry_mut pdpt pdpt_idx) (\<lambda>cell.
         rbind (get_or_create_table cell table_flags st) (\<lambda>(pd, st).
         rbind (entry_mut pd pd_idx) (\<lambda>cell.
         rbind (get_or_create_table cell table_flags st) (\<lambda>(pt, m, b).
         rbind (entry_mut pt pt_idx) (\<lambda>cell.
         Inr (m(cell := pte_set_addr phys (flags OR PRESENT)), b))))))))))"

section \<open>Ranges and page tables\<close>

definition page_steps :: "usize \<Rightarrow> usize \<Rightarrow> usize list" where
  "page_steps start fin = map (\<lambda>i. start + i * PAGE_SIZE) [0..<(fin - start + (PAGE_SIZE - 1)) div PAGE_SIZE]"

fun map_pages ::
  "phys_addr \<Rightarrow> entry_flags \<Rightarrow> (usize \<Rightarrow> (virt_addr \<times> phys_addr) run) \<Rightarrow> usize list \<Rightarrow>
   pt_memory \<times> buddy \<Rightarrow> (pt_memory \<times> buddy) run" where
  "map_pages pml4 flags place [] st = Inr st"
| "map_pages pml4 flags place (a # as) st =
     rbind (place a) (\<lambda>(v, p).
     rbind (map_page pml4 v p flags st) (map_pages pml4 flags place as))"

definition vm_align_up :: "usize \<Rightarrow> usize \<Rightarrow> usize run" where
  "vm_align_up addr align =
     rbind (add_usize addr align) (\<lambda>x.
     rbind (sub_usize x 1) (\<lambda>y. Inr (y AND not_usize (align - 1))))"

definition vm_align_down :: "usize \<Rightarrow> usize \<Rightarrow> usize" where
  "vm_align_down addr align = addr AND not_usize (align - 1)"

definition set_range ::
  "phys_addr \<Rightarrow> usize \<Rightarrow> usize \<Rightarrow> entry_flags \<Rightarrow> pt_memory \<times> buddy \<Rightarrow> (pt_memory \<times> buddy) run" where
  "set_range pml4 start fin flags st =
     rbind (vm_align_up fin PAGE_SIZE) (\<lambda>fin.
     map_pages pml4 flags (\<lambda>addr. rbind (sub_usize addr KERNEL_VMA) (\<lambda>p. Inr (addr, p)))
       (page_steps (vm_align_down start PAGE_SIZE) fin) st)"

definition set_identity_range ::
  "phys_addr \<Rightarrow> usize \<Rightarrow> usize \<Rightarrow> entry_flags \<Rightarrow> pt_memory \<times> buddy \<Rightarrow> (pt_memory \<times> buddy) run" where
  "set_identity_range pml4 start fin flags st =
     rbind (vm_align_up fin PAGE_SIZE) (\<lambda>fin.
     map_pages pml4 flags (\<lambda>addr. Inr (addr, addr))
       (page_steps (vm_align_down start PAGE_SIZE) fin) st)"

text \<open>The state the page-table functions share: table memory, \<^verbatim>\<open>BUDDY_ALLOCATOR\<close> and
  \<^verbatim>\<open>KERNEL_PML4\<close> (0 before initialization).\<close>

record vm =
  pt_mem :: pt_memory
  vm_buddy :: "buddy option"
  KERNEL_PML4 :: phys_addr

definition with_buddy :: "string \<Rightarrow> 'a vm_scheme \<Rightarrow> (buddy \<Rightarrow> 'b run) \<Rightarrow> 'b run" where
  "with_buddy msg st f = (case vm_buddy st of None \<Rightarrow> Inl (Expect msg) | Some b \<Rightarrow> f b)"

definition expect_frame :: "string \<Rightarrow> (phys_addr option \<times> buddy) run \<Rightarrow> (phys_addr \<times> buddy) run" where
  "expect_frame msg m = rbind m (\<lambda>(r, b). case r of None \<Rightarrow> Inl (Expect msg) | Some a \<Rightarrow> Inr (a, b))"

text \<open>The linker symbols bounding the kernel sections.\<close>

record kernel_sections =
  text_start :: usize
  text_end :: usize
  rodata_start :: usize
  rodata_end :: usize
  data_start :: usize
  data_end :: usize
  bss_start :: usize
  bss_end :: usize

fun map_areas :: "phys_addr \<Rightarrow> memory_area list \<Rightarrow> pt_memory \<times> buddy \<Rightarrow> (pt_memory \<times> buddy) run" where
  "map_areas pml4 [] st = Inr st"
| "map_areas pml4 ((typ, start, fin) # areas) st =
     rbind (if typ = 1
            then map_pages pml4 (PRESENT OR WRITABLE OR NX)
                   (\<lambda>phys. rbind (add_usize phys KERNEL_VMA) (\<lambda>v. Inr (v, phys))) (page_steps start fin) st
            else Inr st)
       (map_areas pml4 areas)"

definition init_kernel_page_table ::
  "kernel_sections \<Rightarrow> memory_area list \<Rightarrow> usize \<times> usize \<Rightarrow> usize \<times> usize \<Rightarrow> usize \<times> usize \<Rightarrow>
   'a vm_scheme \<Rightarrow> (phys_addr \<times> 'a vm_scheme) run" where
  "init_kernel_page_table secs areas kern bootdata mbi st =
     with_buddy ''Incorrect order of init page table and buddy allocator.'' st (\<lambda>b.
     rbind (expect_frame ''no memory for PML4'' (allocate_below 0 EARLY_PAGE_TABLE_LIMIT b)) (\<lambda>(pml4, b).
     rbind (phys_to_virt pml4) (\<lambda>_.
     rbind (map_areas pml4 areas (fill_table pml4 (pt_mem st), b)) (\<lambda>s.
     rbind (add_usize (fst kern) KERNEL_VMA) (\<lambda>kstart.
     rbind (add_usize (snd kern) KERNEL_VMA) (\<lambda>kend.
     rbind (set_range pml4 kstart kend (PRESENT OR WRITABLE OR NX OR GLOBAL) s) (\<lambda>s.
     rbind (set_identity_range pml4 (fst bootdata) (snd bootdata) (PRESENT OR WRITABLE OR NX) s) (\<lambda>s.
     rbind (set_identity_range pml4 (fst mbi) (snd mbi) (PRESENT OR WRITABLE OR NX) s) (\<lambda>s.
     rbind (set_range pml4 (text_start secs) (text_end secs) (PRESENT OR GLOBAL) s) (\<lambda>s.
     rbind (set_range pml4 (rodata_start secs) (rodata_end secs) (PRESENT OR NX OR GLOBAL) s) (\<lambda>s.
     rbind (set_range pml4 (data_start secs) (data_end secs) (PRESENT OR WRITABLE OR NX OR GLOBAL) s) (\<lambda>s.
     rbind (set_range pml4 (bss_start secs) (bss_end secs) (PRESENT OR WRITABLE OR NX OR GLOBAL) s) (\<lambda>(m, b).
     Inr (pml4, st\<lparr>pt_mem := m, vm_buddy := Some b, KERNEL_PML4 := pml4\<rparr>))))))))))))))"

definition kernel_pml4 :: "'a vm_scheme \<Rightarrow> phys_addr run" where
  "kernel_pml4 st =
     (if KERNEL_PML4 st \<noteq> 0 then Inr (KERNEL_PML4 st)
      else Inl (Assertion ''kernel page table is not initialized''))"

fun copy_entries :: "phys_addr \<Rightarrow> phys_addr \<Rightarrow> usize list \<Rightarrow> pt_memory \<Rightarrow> pt_memory" where
  "copy_entries from to [] m = m"
| "copy_entries from to (i # is) m = copy_entries from to is (m(to + 8 * i := m (from + 8 * i)))"

definition create_user_page_table :: "'a vm_scheme \<Rightarrow> (phys_addr \<times> 'a vm_scheme) run" where
  "create_user_page_table st =
     rbind (kernel_pml4 st) (\<lambda>kernel.
     with_buddy ''Incorrect order of create_user_page_table and buddy allocator.'' st (\<lambda>b.
     rbind (expect_frame ''no memory for user PML4'' (allocate_below 0 EARLY_PAGE_TABLE_LIMIT b)) (\<lambda>(user, b).
     rbind (phys_to_virt kernel) (\<lambda>_.
     rbind (phys_to_virt user) (\<lambda>_.
     Inr (user, st\<lparr>pt_mem := copy_entries kernel user [256..<512] (fill_table user (pt_mem st)),
                   vm_buddy := Some b\<rparr>))))))"

definition map_into_page_table ::
  "phys_addr \<Rightarrow> virt_addr \<Rightarrow> phys_addr \<Rightarrow> entry_flags \<Rightarrow> 'a vm_scheme \<Rightarrow> 'a vm_scheme run" where
  "map_into_page_table pml4 v phys flags st =
     with_buddy ''Incorrect order of map_into_page_table and buddy allocator.'' st (\<lambda>b.
     rbind (map_page pml4 v phys flags (pt_mem st, b)) (\<lambda>(m, b).
     Inr (st\<lparr>pt_mem := m, vm_buddy := Some b\<rparr>)))"

section \<open>Entries\<close>

lemma ADDR_MASK_eq: "ADDR_MASK = push_bit 12 (mask 40)"
  by (simp add: mask_eq_exp_minus_1 push_bit_eq_mult)

lemma bit_ADDR_MASK: "bit ADDR_MASK n \<longleftrightarrow> 12 \<le> n \<and> n < 52"
  unfolding ADDR_MASK_eq by (auto simp: bit_push_bit_iff bit_mask_iff)

lemma of_nat_masked:
  assumes "f = k * PAGE_SIZE" "f < 2 ^ 52"
  shows "(of_nat f :: u64) AND ADDR_MASK = of_nat f"
proof (rule bit_eqI)
  fix n assume "possible_bit TYPE(u64) n"
  then have n: "n < 64" by (simp add: possible_bit_def)
  have "f = push_bit 12 k" using assms(1) by (simp add: push_bit_eq_mult)
  then have lo: "\<not> bit f n" if "n < 12" using that by (simp add: bit_push_bit_iff)
  have hi: "\<not> bit f n" if "52 \<le> n"
  proof -
    have "f < 2 ^ n" using assms(2) power_increasing [OF that, of "2::nat"] by simp
    then show ?thesis by (simp add: bit_iff_odd)
  qed
  show "bit ((of_nat f :: u64) AND ADDR_MASK) n \<longleftrightarrow> bit (of_nat f :: u64) n"
    unfolding bit_and_iff bit_ADDR_MASK using lo hi n
    by (auto simp: bit_of_nat_iff possible_bit_def not_less [symmetric])
qed

lemma pte_addr_or: "fl AND ADDR_MASK = 0 \<Longrightarrow> pte_addr (e OR fl) = pte_addr e"
  by (simp add: pte_addr_def bit.conj_disj_distrib2)

lemma pte_addr_set_addr:
  assumes "f = k * PAGE_SIZE" "f < 2 ^ 52" "fl AND ADDR_MASK = 0"
  shows "pte_addr (pte_set_addr f fl) = f"
proof -
  have "pte_addr (pte_set_addr f fl) = unat ((of_nat f :: u64) AND ADDR_MASK)"
    using assms(3) by (simp add: pte_addr_def pte_set_addr_def phys_as_u64_def phys_from_u64_def
        bit.conj_disj_distrib2 and.assoc)
  also have "\<dots> = f" unfolding of_nat_masked [OF assms(1,2)] using assms(2) by (simp add: unat_of_nat)
  finally show ?thesis .
qed

lemma present_or: "pte_is_present (e OR fl) \<longleftrightarrow> pte_is_present e \<or> pte_is_present fl"
  by (auto simp: pte_is_present_def bit.conj_disj_distrib2 or_eq_0_iff)

lemma present_set_addr: "pte_is_present fl \<Longrightarrow> pte_is_present (pte_set_addr a fl)"
  by (simp add: pte_set_addr_def present_or)

lemma has_flag_iff: "has_flag e f \<longleftrightarrow> (\<forall>n. bit f n \<longrightarrow> bit e n)"
proof
  assume "has_flag e f"
  then show "\<forall>n. bit f n \<longrightarrow> bit e n" unfolding has_flag_def by (metis bit_and_iff)
qed (auto simp: has_flag_def bit_and_iff intro!: bit_eqI)

lemma has_flag_or: "has_flag e f \<or> has_flag fl f \<Longrightarrow> has_flag (e OR fl) f"
  by (auto simp: has_flag_iff bit_or_iff)

lemma has_flag_set_addr:
  assumes "f AND ADDR_MASK = 0" shows "has_flag (pte_set_addr a fl) f \<longleftrightarrow> has_flag fl f"
proof -
  have "(phys_as_u64 a AND ADDR_MASK) AND f = 0" using assms by (metis and.assoc and.commute and_zero_eq)
  then show ?thesis by (simp add: has_flag_def pte_set_addr_def bit.conj_disj_distrib2)
qed

section \<open>Walking the tables\<close>

text \<open>\<open>walk m t p\<close>: the table reached from table \<open>t\<close> along the indices \<open>p\<close>.\<close>

fun walk :: "pt_memory \<Rightarrow> phys_addr \<Rightarrow> nat list \<Rightarrow> phys_addr option" where
  "walk m t [] = Some t"
| "walk m t (i # p) = (if pte_is_present (m (t + 8 * i)) then walk m (pte_addr (m (t + 8 * i))) p else None)"

lemma walk_append: "walk m t (p @ q) = (case walk m t p of None \<Rightarrow> None | Some u \<Rightarrow> walk m u q)"
  by (induction m t p rule: walk.induct) auto

lemma walk_snoc:
  "walk m t (p @ [i]) = (case walk m t p of None \<Rightarrow> None
     | Some u \<Rightarrow> if pte_is_present (m (u + 8 * i)) then Some (pte_addr (m (u + 8 * i))) else None)"
  by (simp add: walk_append split: option.splits)

definition path_ok :: "nat list \<Rightarrow> bool" where
  "path_ok p \<longleftrightarrow> length p \<le> 3 \<and> (\<forall>i\<in>set p. i < 512)"

lemma path_ok_simps [simp]:
  "path_ok []"
  "path_ok (p @ [i]) \<longleftrightarrow> path_ok p \<and> length p \<le> 2 \<and> i < 512"
  by (auto simp: path_ok_def)

text \<open>Two entries of page-aligned tables are the same cell only in the same table.\<close>

lemma cell_eq:
  assumes "t = k * PAGE_SIZE" "u = j * PAGE_SIZE" "x < 512" "y < (512 :: nat)"
  shows "t + 8 * x = u + 8 * y \<longleftrightarrow> t = u \<and> x = y"
proof
  assume e: "t + 8 * x = u + 8 * y"
  then have "(8 * x + k * PAGE_SIZE) div PAGE_SIZE = (8 * y + j * PAGE_SIZE) div PAGE_SIZE"
    using assms(1,2) by (simp add: add.commute)
  then have "k = j" using assms(3,4) by (simp add: div_mult_self1)
  then show "t = u \<and> x = y" using e assms(1,2) by simp
qed simp

lemma cell_outside:
  assumes "t = k * PAGE_SIZE" "f = j * PAGE_SIZE" "t \<noteq> f" "x < 512"
  shows "\<not> (f \<le> t + 8 * x \<and> t + 8 * x < f + PAGE_SIZE)"
proof
  assume "f \<le> t + 8 * x \<and> t + 8 * x < f + PAGE_SIZE"
  then have "(t + 8 * x) div PAGE_SIZE = j" using assms(2) by (intro div_nat_eqI) auto
  moreover have "(t + 8 * x) div PAGE_SIZE = k" using assms(1,4) by (intro div_nat_eqI) auto
  ultimately show False using assms(1-3) by simp
qed

text \<open>Adding flags to a present entry changes no walk.\<close>

lemma walk_add_flags:
  assumes "pte_is_present (m c)" "fl AND ADDR_MASK = 0"
  shows "walk (m(c := pte_add_flags fl (m c))) t p = walk m t p"
  using assms
  by (induction m t p rule: walk.induct) (auto simp: pte_add_flags_def present_or pte_addr_or)

text \<open>A new, zeroed table becomes reachable exactly along the paths that end in its entry.\<close>

lemma walk_new_table:
  assumes c: "c = u + 8 * i" "u = k * PAGE_SIZE" "i < 512" "\<not> pte_is_present (m c)"
    and f: "f = j * PAGE_SIZE" "f < 2 ^ 52"
    and fl: "fl AND ADDR_MASK = 0" "pte_is_present fl"
    and tabs: "\<And>p t. path_ok p \<Longrightarrow> walk m r p = Some t \<Longrightarrow> t \<noteq> f \<and> (\<exists>k. t = k * PAGE_SIZE)"
    and q: "path_ok q"
    and m': "m' = fill_table f (m(c := pte_set_addr f fl))"
  shows "walk m' r q =
    (case walk m r q of Some t \<Rightarrow> Some t
     | None \<Rightarrow> if q \<noteq> [] \<and> walk m r (butlast q) = Some u \<and> last q = i then Some f else None)"
  using q
proof (induction q rule: rev_induct)
  case (snoc x q)
  have q: "path_ok q" "x < 512" "length q \<le> 2" using snoc.prems by simp_all
  show ?case
  proof (cases "walk m r q")
    case None
    have "m' (f + 8 * x) = 0" using q(2) by (simp add: fill_table_def m')
    then show ?thesis using snoc.IH [OF q(1)] None by (auto simp: walk_snoc pte_is_present_def)
  next
    case (Some t)
    then obtain kt where t: "t \<noteq> f" "t = kt * PAGE_SIZE" using tabs [OF q(1)] by blast
    have "m' (t + 8 * x) = (if t = u \<and> x = i then pte_set_addr f fl else m (t + 8 * x))"
      using cell_outside [OF t(2) f(1) t(1) q(2)] cell_eq [OF t(2) c(2) q(2) c(3)]
      by (auto simp: fill_table_def c(1) m')
    then show ?thesis
      using snoc.IH [OF q(1)] Some c(1,4) pte_addr_set_addr [OF f fl(1)] present_set_addr [OF fl(2)]
      by (auto simp: walk_snoc)
  qed
qed simp

text \<open>Writing an entry of a table that the walk does not read.\<close>

lemma walk_other_cell:
  assumes c: "c = u + 8 * i" "u = k * PAGE_SIZE" "i < 512"
    and tabs: "\<And>p t. path_ok p \<Longrightarrow> length p \<le> 2 \<Longrightarrow> walk m r p = Some t \<Longrightarrow> t \<noteq> u \<and> (\<exists>k. t = k * PAGE_SIZE)"
    and q: "path_ok q"
  shows "walk (m(c := e)) r q = walk m r q"
  using q
proof (induction q rule: rev_induct)
  case (snoc x q)
  have q: "path_ok q" "x < 512" "length q \<le> 2" using snoc.prems by simp_all
  show ?case
  proof (cases "walk m r q")
    case (Some t)
    then obtain kt where t: "t \<noteq> u" "t = kt * PAGE_SIZE" using tabs [OF q(1,3)] by blast
    then have "t + 8 * x \<noteq> c" using cell_eq [OF t(2) c(2) q(2) c(3)] by (simp add: c(1))
    then show ?thesis using snoc.IH [OF q(1)] by (simp add: walk_snoc Some)
  qed (use snoc.IH [OF q(1)] in \<open>simp add: walk_snoc\<close>)
qed simp

section \<open>The page-table invariant\<close>

text \<open>Tables are page frames below the early limit that the allocator has given out.  Within one
  root no table is reached twice, and two roots share tables only in the kernel half.\<close>

definition table_ok :: "buddy \<Rightarrow> phys_addr \<Rightarrow> bool" where
  "table_ok b t \<longleftrightarrow> (\<exists>k. t = k * PAGE_SIZE \<and> k \<notin> free_pages b) \<and> t + PAGE_SIZE \<le> EARLY_PAGE_TABLE_LIMIT"

definition kernel_half :: "nat list \<Rightarrow> bool" where
  "kernel_half p \<longleftrightarrow> p \<noteq> [] \<and> 256 \<le> hd p"

definition tables_ok :: "phys_addr set \<Rightarrow> pt_memory \<Rightarrow> buddy \<Rightarrow> bool" where
  "tables_ok R m b \<longleftrightarrow> (\<forall>r\<in>R. \<forall>p t. path_ok p \<longrightarrow> walk m r p = Some t \<longrightarrow> table_ok b t)"

definition tables_unique :: "phys_addr set \<Rightarrow> pt_memory \<Rightarrow> bool" where
  "tables_unique R m \<longleftrightarrow> (\<forall>r\<in>R. \<forall>s\<in>R. \<forall>p q t. path_ok p \<longrightarrow> path_ok q \<longrightarrow>
     walk m r p = Some t \<longrightarrow> walk m s q = Some t \<longrightarrow> p = q \<and> (r = s \<or> kernel_half p))"

definition vm_inv :: "phys_addr set \<Rightarrow> pt_memory \<Rightarrow> buddy \<Rightarrow> bool" where
  "vm_inv R m b \<longleftrightarrow> buddy_inv b \<and> tables_ok R m b \<and> tables_unique R m"

definition leaf :: "pt_memory \<Rightarrow> phys_addr \<Rightarrow> nat list \<Rightarrow> nat \<Rightarrow> u64 option" where
  "leaf m r p i = (case walk m r p of None \<Rightarrow> None
     | Some t \<Rightarrow> if pte_is_present (m (t + 8 * i)) then Some (m (t + 8 * i)) else None)"

definition user_entry :: "u64 \<Rightarrow> bool" where
  "user_entry e \<longleftrightarrow> pte_is_present e \<and> has_flag e USER"

text \<open>What a step that only adds tables and flags keeps: reachable tables, every final entry, and
  the user bits of the tables' entries.\<close>

definition pt_ext :: "phys_addr set \<Rightarrow> pt_memory \<times> buddy \<Rightarrow> pt_memory \<times> buddy \<Rightarrow> bool" where
  "pt_ext R s s' \<longleftrightarrow> (case (s, s') of ((m, b), (m', b')) \<Rightarrow>
     vm_inv R m' b' \<and> free_pages b' \<subseteq> free_pages b \<and> alloc_blocks b \<subseteq> alloc_blocks b' \<and>
     (\<forall>r\<in>R. \<forall>q u. path_ok q \<longrightarrow> walk m r q = Some u \<longrightarrow> walk m' r q = Some u) \<and>
     (\<forall>r\<in>R. \<forall>q j. path_ok q \<longrightarrow> length q = 3 \<longrightarrow> j < 512 \<longrightarrow> leaf m' r q j = leaf m r q j) \<and>
     (\<forall>r\<in>R. \<forall>q u x. path_ok q \<longrightarrow> walk m r q = Some u \<longrightarrow> x < 512 \<longrightarrow>
        user_entry (m (u + 8 * x)) \<longrightarrow> user_entry (m' (u + 8 * x))))"

lemma vm_invD:
  assumes "vm_inv R m b" "r \<in> R" "path_ok p" "walk m r p = Some t"
  shows "table_ok b t" "\<exists>k. t = k * PAGE_SIZE"
    "s \<in> R \<Longrightarrow> path_ok q \<Longrightarrow> walk m s q = Some t \<Longrightarrow> q = p \<and> (s = r \<or> kernel_half q)"
  using assms unfolding vm_inv_def tables_ok_def tables_unique_def table_ok_def by blast+

lemma vm_inv_aligned:
  assumes "vm_inv R m b" "r \<in> R" "path_ok p" "walk m r p = Some t" obtains k where "t = k * PAGE_SIZE"
  using vm_invD(2) [OF assms] by blast

abbreviation table_flags :: "entry_flags \<Rightarrow> bool" where
  "table_flags fl \<equiv> fl AND ADDR_MASK = 0 \<and> pte_is_present fl"

text \<open>Following a present entry.\<close>

lemma add_flags_ext:
  assumes inv: "vm_inv R m b" and r: "r \<in> R" and p: "path_ok (p @ [i])" "walk m r p = Some t"
    and fl: "table_flags fl" and pr: "pte_is_present (m (t + 8 * i))"
    and m': "m' = m(t + 8 * i := pte_add_flags fl (m (t + 8 * i)))"
  shows "pt_ext R (m, b) (m', b)" "walk m' r (p @ [i]) = Some (pte_addr (m' (t + 8 * i)))"
    "has_flag fl USER \<Longrightarrow> has_flag (m' (t + 8 * i)) USER" "pte_is_present (m' (t + 8 * i))"
proof -
  have w: "walk m' s q = walk m s q" for s q
    unfolding m' using walk_add_flags [of m "t + 8 * i" fl s q] pr fl by simp
  obtain k where k: "t = k * PAGE_SIZE" using vm_inv_aligned [OF inv r _ p(2)] p(1) by auto
  have l: "leaf m' s q j = leaf m s q j" if q: "s \<in> R" "path_ok q" "length q = 3" "j < 512" for s q j
  proof (cases "walk m s q")
    case (Some u)
    obtain ku where ku: "u = ku * PAGE_SIZE" using vm_inv_aligned [OF inv q(1,2) Some] by blast
    have "u \<noteq> t" using vm_invD(3) [OF inv q(1,2) Some r, of p] p q(3) by auto
    then have "u + 8 * j \<noteq> t + 8 * i" using cell_eq [OF ku k q(4), of i] p(1) by simp
    then show ?thesis unfolding leaf_def w by (simp add: Some m')
  qed (simp add: leaf_def w)
  have f: "user_entry (m' a)" if "user_entry (m a)" for a
    using that by (auto simp: m' user_entry_def pte_add_flags_def has_flag_or present_or)
  have "vm_inv R m' b" using inv unfolding vm_inv_def tables_ok_def tables_unique_def w .
  then show "pt_ext R (m, b) (m', b)" using l f by (auto simp: pt_ext_def w)
  show "pte_is_present (m' (t + 8 * i))" using pr by (simp add: m' pte_add_flags_def present_or)
  then show "walk m' r (p @ [i]) = Some (pte_addr (m' (t + 8 * i)))"
    by (simp add: walk_snoc w p(2))
  show "has_flag (m' (t + 8 * i)) USER" if "has_flag fl USER"
    using that by (simp add: m' pte_add_flags_def has_flag_or)
qed

text \<open>Creating a table in an absent entry.\<close>

lemma new_table_ext:
  assumes inv: "vm_inv R m b" and r: "r \<in> R" and p: "path_ok (p @ [i])" "walk m r p = Some t"
    and fl: "table_flags fl" and ab: "\<not> pte_is_present (m (t + 8 * i))"
    and al: "allocate_below 0 EARLY_PAGE_TABLE_LIMIT b = Inr (Some f, b')"
    and m': "m' = fill_table f (m(t + 8 * i := pte_set_addr f fl))"
  shows "pt_ext R (m, b) (m', b')" "walk m' r (p @ [i]) = Some f" "pte_addr (m' (t + 8 * i)) = f"
    "has_flag fl USER \<Longrightarrow> has_flag (m' (t + 8 * i)) USER" "pte_is_present (m' (t + 8 * i))"
    "f + PAGE_SIZE \<le> EARLY_PAGE_TABLE_LIMIT"
proof -
  have b: "buddy_inv b" using inv by (simp add: vm_inv_def)
  obtain j where j: "buddy_inv b'" "f = j * PAGE_SIZE" "f + PAGE_SIZE \<le> EARLY_PAGE_TABLE_LIMIT"
    "j \<in> free_pages b" "free_pages b' = free_pages b - {j}" "alloc_blocks b' = insert (j, 0) (alloc_blocks b)"
    using frame_source.alloc_some [OF b al] by auto
  show "f + PAGE_SIZE \<le> EARLY_PAGE_TABLE_LIMIT" by fact
  have f52: "f < 2 ^ 52" using j(3) by simp
  obtain k where k: "t = k * PAGE_SIZE" using vm_inv_aligned [OF inv r _ p(2)] p(1) by auto
  have new: "u \<noteq> f \<and> (\<exists>k. u = k * PAGE_SIZE)" if q: "s \<in> R" "path_ok q" "walk m s q = Some u" for s q u
    using vm_invD(1) [OF inv q] j(2,4) by (auto simp: table_ok_def)
  have w: "walk m' s q = (case walk m s q of Some u \<Rightarrow> Some u
     | None \<Rightarrow> if q \<noteq> [] \<and> walk m s (butlast q) = Some t \<and> last q = i then Some f else None)"
    if q: "s \<in> R" "path_ok q" for s q
    by (rule walk_new_table [OF refl k _ ab j(2) f52 _ _ _ q(2) m']) (use p(1) fl new [OF q(1)] in auto)
  have wf: "q = p @ [i] \<and> (s = r \<or> kernel_half q)"
    if q: "s \<in> R" "path_ok q" "walk m' s q = Some f" for s q
  proof -
    have "walk m s q \<noteq> Some f" using new [OF q(1,2)] by blast
    then have e: "q \<noteq> []" "walk m s (butlast q) = Some t" "last q = i"
      using q(3) w [OF q(1,2)] by (auto split: option.splits if_splits)
    have "q = butlast q @ [i]" using append_butlast_last_id [OF e(1)] e(3) by simp
    moreover from this have "path_ok (butlast q)" using q(2) by (metis path_ok_simps(2))
    ultimately have "butlast q = p \<and> (s = r \<or> kernel_half (butlast q))"
      using vm_invD(3) [OF inv r _ p(2) q(1) _ e(2)] p(1) by simp
    then show ?thesis using \<open>q = butlast q @ [i]\<close>
      by (metis append_is_Nil_conv hd_append2 kernel_half_def)
  qed
  have wold: "walk m s q = Some u" if q: "s \<in> R" "path_ok q" "walk m' s q = Some u" "u \<noteq> f" for s q u
    using q(3,4) w [OF q(1,2)] by (auto split: option.splits if_splits)
  have keep: "walk m' s q = Some u" if "s \<in> R" "path_ok q" "walk m s q = Some u" for s q u
    using w [OF that(1,2)] that(3) by simp
  have cellk: "m' (u + 8 * x) = (if u = t \<and> x = i then pte_set_addr f fl else m (u + 8 * x))"
    if q: "s \<in> R" "path_ok q" "walk m s q = Some u" "x < 512" for s q u x
  proof -
    obtain ku where ku: "u \<noteq> f" "u = ku * PAGE_SIZE" using new [OF q(1-3)] by blast
    show ?thesis
      using cell_outside [OF ku(2) j(2) ku(1) q(4)] cell_eq [OF ku(2) k q(4), of i] p(1)
      by (auto simp: m' fill_table_def)
  qed
  have c: "m' (t + 8 * i) = pte_set_addr f fl" using cellk [OF r _ p(2), of i] p(1) by simp
  show "pte_addr (m' (t + 8 * i)) = f" unfolding c using fl by (intro pte_addr_set_addr [OF j(2) f52]) simp
  show "pte_is_present (m' (t + 8 * i))" unfolding c using fl by (intro present_set_addr) simp
  show "has_flag (m' (t + 8 * i)) USER" if "has_flag fl USER"
    unfolding c using that by (simp add: has_flag_set_addr)
  show "walk m' r (p @ [i]) = Some f"
    using w [OF r p(1)] p(2) ab by (simp add: walk_snoc)
  have "table_ok b' u" if q: "s \<in> R" "path_ok q" "walk m' s q = Some u" for s q u
  proof (cases "u = f")
    case True
    then show ?thesis using j(2,3,5) by (auto simp: table_ok_def)
  next
    case False
    then show ?thesis using vm_invD(1) [OF inv q(1,2) wold [OF q]] j(5) by (auto simp: table_ok_def)
  qed
  moreover have "q = q' \<and> (s = s' \<or> kernel_half q)"
    if q: "s \<in> R" "s' \<in> R" "path_ok q" "path_ok q'" "walk m' s q = Some u" "walk m' s' q' = Some u" for s s' q q' u
  proof (cases "u = f")
    case True
    then show ?thesis using wf [OF q(1,3)] wf [OF q(2,4)] q(5,6) by blast
  next
    case False
    then show ?thesis
      using vm_invD(3) [OF inv q(2,4) wold [OF q(2,4,6)] q(1,3) wold [OF q(1,3,5)]] by blast
  qed
  ultimately have "vm_inv R m' b'"
    using j(1) unfolding vm_inv_def tables_ok_def tables_unique_def by blast
  moreover have "leaf m' s q x = leaf m s q x" if q: "s \<in> R" "path_ok q" "length q = 3" "x < 512" for s q x
  proof (cases "walk m s q")
    case (Some u)
    have "u \<noteq> t" using vm_invD(3) [OF inv q(1,2) Some r, of p] p q(3) by auto
    then show ?thesis using cellk [OF q(1,2) Some q(4)] keep [OF q(1,2) Some] by (simp add: leaf_def Some)
  next
    case None
    have "m' (f + 8 * x) = 0" using q(4) by (simp add: m' fill_table_def)
    then show ?thesis
      using None w [OF q(1,2)] by (auto simp: leaf_def pte_is_present_def split: if_splits option.splits)
  qed
  moreover have "user_entry (m' (u + 8 * x))"
    if "s \<in> R" "path_ok q" "walk m s q = Some u" "x < 512" "user_entry (m (u + 8 * x))" for s q u x
    using cellk [OF that(1-4)] that(5) ab by (auto simp: user_entry_def)
  ultimately show "pt_ext R (m, b) (m', b')"
    using j(5,6) keep unfolding pt_ext_def by auto
qed

lemma get_or_create_table_ext:
  assumes inv: "vm_inv R m b" and r: "r \<in> R" and p: "path_ok (p @ [i])" "walk m r p = Some t"
    and fl: "table_flags fl"
  obtains "get_or_create_table (t + 8 * i) fl (m, b) = Inl (Expect ''out of memory for page table'')"
      "allocate_below 0 EARLY_PAGE_TABLE_LIMIT b = Inr (None, b)"
  | u m' b' where "get_or_create_table (t + 8 * i) fl (m, b) = Inr (u, m', b')"
      "pt_ext R (m, b) (m', b')" "walk m' r (p @ [i]) = Some u"
      "has_flag fl USER \<Longrightarrow> has_flag (m' (t + 8 * i)) USER"
proof (cases "pte_is_present (m (t + 8 * i))")
  case True
  define m' where "m' = m(t + 8 * i := pte_add_flags fl (m (t + 8 * i)))"
  note ext = add_flags_ext [OF inv r p fl True m'_def]
  have "vm_inv R m' b" using ext(1) by (simp add: pt_ext_def)
  then have "table_ok b (pte_addr (m' (t + 8 * i)))" using vm_invD(1) r p(1) ext(2) by blast
  then have "get_or_create_table (t + 8 * i) fl (m, b) = Inr (pte_addr (m' (t + 8 * i)), m', b)"
    using True unfolding get_or_create_table_def prod.case m'_def [symmetric]
    by (simp add: m'_def phys_to_virt_def run_simps table_ok_def USIZE_MAX_def)
  then show thesis using that(2) ext(1-3) by blast
next
  case False
  have b: "buddy_inv b" using inv by (simp add: vm_inv_def)
  obtain ro b' where al: "allocate_below 0 EARLY_PAGE_TABLE_LIMIT b = Inr (ro, b')"
    using frame_source.alloc_total [OF b] by (metis prod.exhaust)
  show thesis
  proof (cases ro)
    case None
    then have "b' = b" using frame_source.alloc_none [OF b] al by blast
    then show thesis using that(1) al None False by (simp add: get_or_create_table_def)
  next
    case (Some f)
    define m' where "m' = fill_table f (m(t + 8 * i := pte_set_addr f fl))"
    note ext = new_table_ext [OF inv r p fl False al [unfolded Some] m'_def]
    have "get_or_create_table (t + 8 * i) fl (m, b) = Inr (f, m', b')"
      using False al ext(3,6) unfolding get_or_create_table_def prod.case
      by (simp add: Some Let_def m'_def [symmetric] phys_to_virt_def run_simps USIZE_MAX_def)
    then show thesis using that(2) ext(1,2,4) by blast
  qed
qed

lemma pt_ext_trans:
  assumes a: "pt_ext R s s'" and b: "pt_ext R s' s''" shows "pt_ext R s s''"
proof -
  obtain m b m' b' m'' b'' where st: "s = (m, b)" "s' = (m', b')" "s'' = (m'', b'')"
    by (metis prod.exhaust)
  note A = a [unfolded st pt_ext_def prod.case] and B = b [unfolded st pt_ext_def prod.case]
  note A4 = A [THEN conjunct2, THEN conjunct2, THEN conjunct2]
    and B4 = B [THEN conjunct2, THEN conjunct2, THEN conjunct2]
  note w = A4 [THEN conjunct1] B4 [THEN conjunct1]
    and l = A4 [THEN conjunct2, THEN conjunct1] B4 [THEN conjunct2, THEN conjunct1]
    and f = A4 [THEN conjunct2, THEN conjunct2] B4 [THEN conjunct2, THEN conjunct2]
  have g: "vm_inv R m'' b''" "free_pages b'' \<subseteq> free_pages b" "alloc_blocks b \<subseteq> alloc_blocks b''"
    using A B by auto
  have "\<forall>r\<in>R. \<forall>q u. path_ok q \<longrightarrow> walk m r q = Some u \<longrightarrow> walk m'' r q = Some u"
    using w by blast
  moreover have "\<forall>r\<in>R. \<forall>q j. path_ok q \<longrightarrow> length q = 3 \<longrightarrow> j < 512 \<longrightarrow> leaf m'' r q j = leaf m r q j"
    using l by simp
  moreover have "\<forall>r\<in>R. \<forall>q u x. path_ok q \<longrightarrow> walk m r q = Some u \<longrightarrow> x < 512 \<longrightarrow>
      user_entry (m (u + 8 * x)) \<longrightarrow> user_entry (m'' (u + 8 * x))"
  proof (intro ballI allI impI)
    fix r q u x assume "r \<in> R" "path_ok q" "walk m r q = Some u" "x < 512" "user_entry (m (u + 8 * x))"
    then show "user_entry (m'' (u + 8 * x))" using w(1) f by simp
  qed
  ultimately show ?thesis unfolding st pt_ext_def prod.case using g by simp
qed

text \<open>Writing a final entry.\<close>

lemma write_leaf:
  assumes inv: "vm_inv R m b" and r: "r \<in> R" and p: "path_ok p" "length p = 3" "walk m r p = Some t"
    and i: "i < 512" and m': "m' = m(t + 8 * i := e)"
  shows "vm_inv R m' b" "\<And>s q. s \<in> R \<Longrightarrow> path_ok q \<Longrightarrow> walk m' s q = walk m s q"
    "\<And>s q j. s \<in> R \<Longrightarrow> path_ok q \<Longrightarrow> j < 512 \<Longrightarrow> leaf m' s q j =
      (if walk m s q = Some t \<and> j = i then (if pte_is_present e then Some e else None) else leaf m s q j)"
    "\<And>s q u x. s \<in> R \<Longrightarrow> path_ok q \<Longrightarrow> length q \<le> 2 \<Longrightarrow> walk m s q = Some u \<Longrightarrow> x < 512 \<Longrightarrow>
      m' (u + 8 * x) = m (u + 8 * x)"
proof -
  obtain k where k: "t = k * PAGE_SIZE" using vm_inv_aligned [OF inv r p(1,3)] by blast
  have tabs: "u \<noteq> t \<and> (\<exists>k. u = k * PAGE_SIZE)"
    if q: "s \<in> R" "path_ok q" "length q \<le> 2" "walk m s q = Some u" for s q u
    using vm_invD(2,3) [OF inv q(1,2,4)] r p q(3) by fastforce
  show w: "walk m' s q = walk m s q" if "s \<in> R" "path_ok q" for s q
    unfolding m' by (rule walk_other_cell [OF refl k i tabs [OF that(1)] that(2)])
  then show "vm_inv R m' b"
    using inv unfolding vm_inv_def tables_ok_def tables_unique_def by (metis (no_types, lifting))
  show "leaf m' s q j = (if walk m s q = Some t \<and> j = i then (if pte_is_present e then Some e else None)
      else leaf m s q j)" if q: "s \<in> R" "path_ok q" "j < 512" for s q j
  proof (cases "walk m s q")
    case (Some u)
    obtain ku where ku: "u = ku * PAGE_SIZE" using vm_inv_aligned [OF inv q(1,2) Some] by blast
    then show ?thesis using w [OF q(1,2)] cell_eq [OF ku k q(3) i] by (auto simp: leaf_def Some m')
  qed (simp add: leaf_def w [OF q(1,2)])
  show "m' (u + 8 * x) = m (u + 8 * x)"
    if q: "s \<in> R" "path_ok q" "length q \<le> 2" "walk m s q = Some u" "x < 512" for s q u x
  proof -
    obtain ku where ku: "u = ku * PAGE_SIZE" "u \<noteq> t" using tabs [OF q(1-4)] by blast
    then show ?thesis using cell_eq [OF ku(1) k q(5) i] by (simp add: m')
  qed
qed

section \<open>Virtual addresses\<close>

definition vpath :: "virt_addr \<Rightarrow> nat list" where
  "vpath v = [v div 2 ^ 39 mod 512, v div 2 ^ 30 mod 512, v div 2 ^ 21 mod 512]"

definition vslot :: "virt_addr \<Rightarrow> nat" where
  "vslot v = v div 2 ^ 12 mod 512"

lemma vpath_ok [simp]: "path_ok (vpath v)" "length (vpath v) = 3" "vslot v < 512" "vpath v \<noteq> []"
  by (simp_all add: vpath_def vslot_def path_ok_def)

lemma index_bits: "drop_bit k v AND 0x1FF = v div 2 ^ k mod (512 :: nat)"
proof -
  have "(0x1FF :: nat) = mask 9" by (simp add: mask_eq_exp_minus_1)
  then have "drop_bit k v AND 0x1FF = take_bit 9 (drop_bit k v)" by (simp only: take_bit_eq_mask)
  then show ?thesis by (simp add: take_bit_eq_mod drop_bit_eq_div)
qed

text \<open>Two addresses have the same entry exactly when they lie in the same page of the 48-bit space.\<close>

lemma same_page_iff:
  "vpath v = vpath w \<and> vslot v = vslot w \<longleftrightarrow> v div PAGE_SIZE mod 2 ^ 36 = w div PAGE_SIZE mod 2 ^ 36"
proof -
  have split: "x mod 2 ^ 36 = 512 * (512 * (512 * (x div 512 div 512 div 512 mod 512) +
      x div 512 div 512 mod 512) + x div 512 mod 512) + x mod 512" for x :: nat
  proof -
    have "(2 :: nat) ^ 36 = 512 * (512 * (512 * 512))" by simp
    then show ?thesis by (simp only: mod_mult2_eq)
  qed
  have lv: "v div 2 ^ 12 = v div PAGE_SIZE" "v div 2 ^ 21 = v div PAGE_SIZE div 512" "v div 2 ^ 30 = v div PAGE_SIZE div 512 div 512"
    "v div 2 ^ 39 = v div PAGE_SIZE div 512 div 512 div 512" for v :: nat
    by (simp_all add: div_mult2_eq [symmetric])
  have eq: "512 * b + a = 512 * d + c \<longleftrightarrow> a = c \<and> b = d" if "a < 512" "c < 512" for a b c d :: nat
  proof
    assume "512 * b + a = 512 * d + c"
    then have "(512 * b + a) div 512 = (512 * d + c) div 512" by (rule arg_cong)
    then have "b = d" using that by simp
    then show "a = c \<and> b = d" using \<open>512 * b + a = 512 * d + c\<close> by simp
  qed simp
  show ?thesis
    unfolding split [of "v div PAGE_SIZE"] split [of "w div PAGE_SIZE"] vpath_def vslot_def lv
    by (simp only: eq [OF mod_less_divisor mod_less_divisor] list.inject zero_less_numeral) blast
qed

section \<open>Mapping a page\<close>

text \<open>Every entry on the way to a final table lets user mode through.\<close>

definition upath :: "pt_memory \<Rightarrow> phys_addr \<Rightarrow> nat list \<Rightarrow> bool" where
  "upath m r p \<longleftrightarrow> (\<forall>k<length p. \<exists>u. walk m r (take k p) = Some u \<and> user_entry (m (u + 8 * p ! k)))"

lemma path_ok_take: "path_ok p \<Longrightarrow> path_ok (take k p)"
  by (auto simp: path_ok_def dest: in_set_takeD)

lemma upath_ext:
  assumes "pt_ext R (m, b) (m', b')" "r \<in> R" "path_ok p" "upath m r p"
  shows "upath m' r p"
  unfolding upath_def
proof (intro allI impI)
  fix k assume k: "k < length p"
  then obtain u where u: "walk m r (take k p) = Some u" "user_entry (m (u + 8 * p ! k))"
    using assms(4) by (auto simp: upath_def)
  moreover have "p ! k < 512" using assms(3) k by (auto simp: path_ok_def)
  ultimately show "\<exists>u. walk m' r (take k p) = Some u \<and> user_entry (m' (u + 8 * p ! k))"
    using assms(1,2) path_ok_take [OF assms(3), of k] unfolding pt_ext_def prod.case by blast
qed

lemma upath_snoc:
  "upath m r (p @ [i]) \<longleftrightarrow> upath m r p \<and> (\<exists>u. walk m r p = Some u \<and> user_entry (m (u + 8 * i)))"
  by (auto simp: upath_def nth_append less_Suc_eq)

lemma pt_extD:
  assumes "pt_ext R (m, b) (m', b')"
  shows "vm_inv R m' b'" "free_pages b' \<subseteq> free_pages b" "alloc_blocks b \<subseteq> alloc_blocks b'"
    "r \<in> R \<Longrightarrow> path_ok q \<Longrightarrow> walk m r q = Some u \<Longrightarrow> walk m' r q = Some u"
    "r \<in> R \<Longrightarrow> path_ok q \<Longrightarrow> length q = 3 \<Longrightarrow> j < 512 \<Longrightarrow> leaf m' r q j = leaf m r q j"
  using assms unfolding pt_ext_def prod.case by blast+

text \<open>Going down one level: the table exists afterwards, and with a user mapping the path stays open
  to user mode.\<close>

lemma descend:
  assumes inv: "vm_inv R m b" and r: "r \<in> R" and p: "path_ok (p @ [i])" "walk m r p = Some t"
    and fl: "table_flags fl"
  obtains "rbind (entry_mut t i) (\<lambda>c. rbind (get_or_create_table c fl (m, b)) f) =
      Inl (Expect ''out of memory for page table'')"
  | u m' b' where "rbind (entry_mut t i) (\<lambda>c. rbind (get_or_create_table c fl (m, b)) f) = f (u, m', b')"
      "pt_ext R (m, b) (m', b')" "walk m' r (p @ [i]) = Some u"
      "has_flag fl USER \<Longrightarrow> upath m r p \<Longrightarrow> upath m' r (p @ [i])"
proof -
  have i: "entry_mut t i = Inr (t + 8 * i)" using p(1) by (simp add: entry_mut_def)
  show thesis
  proof (rule get_or_create_table_ext [OF inv r p fl], goal_cases)
    case 1
    then show thesis using that(1) by (simp add: i)
  next
    case (2 u m' b')
    have p': "path_ok p" using p(1) by simp
    have "upath m' r (p @ [i])" if u: "has_flag fl USER" "upath m r p"
    proof -
      have "pte_is_present (m' (t + 8 * i))" "walk m' r p = Some t"
        using 2(3) pt_extD(4) [OF 2(2) r p' p(2)] by (auto simp: walk_snoc split: if_splits)
      then show ?thesis
        using upath_ext [OF 2(2) r p' u(2)] 2(4) [OF u(1)] by (simp add: upath_snoc user_entry_def)
    qed
    then show thesis using that(2) [of u m' b'] 2(1-3) by (simp add: i)
  qed
qed

text \<open>The effect of \<^verbatim>\<open>map\<close>: the invariant holds, no table goes away, the final entry of the mapped page
  is the new one and all others are as before, also those of the other roots, except that a
  mapping in the kernel half is seen by the roots that share the table.\<close>

definition map_effect ::
  "phys_addr set \<Rightarrow> phys_addr \<Rightarrow> virt_addr \<Rightarrow> phys_addr \<Rightarrow> entry_flags \<Rightarrow>
   pt_memory \<times> buddy \<Rightarrow> pt_memory \<times> buddy \<Rightarrow> bool" where
  "map_effect R r v phys fl s s' \<longleftrightarrow> (case (s, s') of ((m, b), (m', b')) \<Rightarrow>
     vm_inv R m' b' \<and> free_pages b' \<subseteq> free_pages b \<and> alloc_blocks b \<subseteq> alloc_blocks b' \<and>
     (\<forall>s\<in>R. \<forall>q u. path_ok q \<longrightarrow> walk m s q = Some u \<longrightarrow> walk m' s q = Some u) \<and>
     (\<forall>s\<in>R. \<forall>q j. path_ok q \<longrightarrow> length q = 3 \<longrightarrow> j < 512 \<longrightarrow> leaf m' s q j =
        (if walk m' s q = walk m' r (vpath v) \<and> j = vslot v then Some (pte_set_addr phys (fl OR PRESENT))
         else leaf m s q j)) \<and>
     walk m' r (vpath v) \<noteq> None \<and>
     (\<forall>s\<in>R. \<forall>q. path_ok q \<longrightarrow> upath m s q \<longrightarrow> upath m' s q) \<and>
     (has_flag fl USER \<longrightarrow> upath m' r (vpath v)))"

lemma map_page_effect:
  assumes inv: "vm_inv R m b" and r: "r \<in> R"
  obtains "map_page r v phys fl (m, b) = Inl (Expect ''out of memory for page table'')"
  | m' b' where "map_page r v phys fl (m, b) = Inr (m', b')" "map_effect R r v phys fl (m, b) (m', b')"
proof -
  define tf :: u64 where "tf = (if has_flag fl USER then PRESENT OR WRITABLE OR USER else PRESENT OR WRITABLE)"
  have tf: "table_flags tf" "has_flag fl USER \<Longrightarrow> has_flag tf USER"
    by (simp_all add: tf_def pte_is_present_def has_flag_def)
  define i4 i3 i2 where "i4 = v div 2 ^ 39 mod 512" "i3 = v div 2 ^ 30 mod 512" "i2 = v div 2 ^ 21 mod 512"
  have lt: "i4 < 512" "i3 < 512" "i2 < 512" by (simp_all add: i4_i3_i2_def)
  have vp: "vpath v = [] @ [i4] @ [i3] @ [i2]" by (simp add: vpath_def i4_i3_i2_def)
  have "r + PAGE_SIZE \<le> EARLY_PAGE_TABLE_LIMIT" using vm_invD(1) [OF inv r, of "[]"] by (simp add: table_ok_def)
  then have virt: "phys_to_virt r = Inr (r + KERNEL_VMA)" by (simp add: phys_to_virt_def run_simps USIZE_MAX_def)
  define k3 where "k3 = (\<lambda>(pt, m, b). rbind (entry_mut pt (vslot v)) (\<lambda>c.
    Inr ((m :: pt_memory)(c := pte_set_addr phys (fl OR PRESENT)), b :: buddy)))"
  define k2 where "k2 = (\<lambda>(pd, st). rbind (entry_mut pd i2) (\<lambda>c. rbind (get_or_create_table c tf st) k3))"
  define k1 where "k1 = (\<lambda>(pdpt, st). rbind (entry_mut pdpt i3) (\<lambda>c. rbind (get_or_create_table c tf st) k2))"
  have run: "map_page r v phys fl (m, b) = rbind (entry_mut r i4) (\<lambda>c. rbind (get_or_create_table c tf (m, b)) k1)"
    unfolding map_page_def Let_def index_bits tf_def [symmetric] i4_i3_i2_def [symmetric] vslot_def [symmetric]
      virt rbind_simps k1_def k2_def k3_def ..
  have p1: "path_ok ([] @ [i4])" "walk m r [] = Some r" using lt by (simp_all add: path_ok_def)
  show thesis
  proof (rule descend [OF inv r p1 tf(1), of k1], goal_cases)
    case 1
    then show thesis using that(1) unfolding run by simp
  next
    case (2 t3 m3 b3)
    have p2: "path_ok (([] @ [i4]) @ [i3])" using lt by (simp add: path_ok_def)
    show thesis
    proof (rule descend [OF pt_extD(1) [OF 2(2)] r p2 2(3) tf(1), of k2], goal_cases)
      case 1
      then show thesis using that(1) unfolding run 2(1) by (simp add: k1_def)
    next
      case e: (2 t2 m2 b2)
      have p3: "path_ok ((([] @ [i4]) @ [i3]) @ [i2])" using lt by (simp add: path_ok_def)
      show thesis
      proof (rule descend [OF pt_extD(1) [OF e(2)] r p3 e(3) tf(1), of k3], goal_cases)
        case 1
        then show thesis using that(1) e(1) unfolding run 2(1) by (simp add: k1_def k2_def)
      next
        case f: (2 t1 m1 b1)
        have ext: "pt_ext R (m, b) (m1, b1)" using pt_ext_trans [OF 2(2) pt_ext_trans [OF e(2) f(2)]] .
        have w1: "walk m1 r (vpath v) = Some t1" using f(3) by (simp add: vp)
        define m' where "m' = m1(t1 + 8 * vslot v := pte_set_addr phys (fl OR PRESENT))"
        note wl = write_leaf [OF pt_extD(1) [OF ext] r vpath_ok(1,2) w1 vpath_ok(3) m'_def]
        have "pte_is_present (pte_set_addr phys (fl OR PRESENT))"
          by (intro present_set_addr) (simp add: present_or pte_is_present_def)
        then have l: "leaf m' s q j = (if walk m' s q = walk m' r (vpath v) \<and> j = vslot v
            then Some (pte_set_addr phys (fl OR PRESENT)) else leaf m s q j)"
          if "s \<in> R" "path_ok q" "length q = 3" "j < 512" for s q j
          using wl(2) [OF that(1,2)] wl(2) [OF r vpath_ok(1)] wl(3) [OF that(1,2,4)] w1
            pt_extD(5) [OF ext that] by simp
        have up: "upath m' s q" if q: "s \<in> R" "path_ok q" "upath m1 s q" for s q
          unfolding upath_def
        proof (intro allI impI)
          fix k assume k: "k < length q"
          then obtain u where u: "walk m1 s (take k q) = Some u" "user_entry (m1 (u + 8 * q ! k))"
            using q(3) by (auto simp: upath_def)
          have "q ! k < 512" "length (take k q) \<le> 2" using q(2) k by (auto simp: path_ok_def)
          then show "\<exists>u. walk m' s (take k q) = Some u \<and> user_entry (m' (u + 8 * q ! k))"
            using wl(2,4) [OF q(1) path_ok_take [OF q(2)]] u by metis
        qed
        have "upath m' r (vpath v)" if "has_flag fl USER"
        proof (rule up [OF r vpath_ok(1)])
          have "upath m r []" by (simp add: upath_def)
          then have "upath m1 r ((([] @ [i4]) @ [i3]) @ [i2])" using 2(4) e(4) f(4) tf(2) that by blast
          then show "upath m1 r (vpath v)" by (simp add: vp)
        qed
        moreover have "upath m' s q" if "s \<in> R" "path_ok q" "upath m s q" for s q
          using up [OF that(1,2) upath_ext [OF ext that]] .
        moreover have "walk m' s q = Some u" if "s \<in> R" "path_ok q" "walk m s q = Some u" for s q u
          using wl(2) [OF that(1,2)] pt_extD(4) [OF ext that] by simp
        ultimately have "map_effect R r v phys fl (m, b) (m', b1)"
          using wl(1,2) l w1 pt_extD(2,3) [OF ext] r unfolding map_effect_def prod.case by simp
        moreover have "map_page r v phys fl (m, b) = Inr (m', b1)"
          using e(1) f(1) unfolding run 2(1) by (simp add: k1_def k2_def k3_def entry_mut_def m'_def)
        ultimately show thesis using that(2) by blast
      qed
    qed
  qed
qed

section \<open>Translation\<close>

definition lookup :: "pt_memory \<Rightarrow> phys_addr \<Rightarrow> virt_addr \<Rightarrow> u64 option" where
  "lookup m r v = leaf m r (vpath v) (vslot v)"

text \<open>Ring 3 can reach a page when every level lets user mode through.\<close>

definition user_access :: "pt_memory \<Rightarrow> phys_addr \<Rightarrow> virt_addr \<Rightarrow> bool" where
  "user_access m r v \<longleftrightarrow> (\<exists>e. lookup m r v = Some e \<and> has_flag e USER) \<and> upath m r (vpath v)"

abbreviation same_page :: "virt_addr \<Rightarrow> virt_addr \<Rightarrow> bool" where
  "same_page v w \<equiv> v div PAGE_SIZE mod 2 ^ 36 = w div PAGE_SIZE mod 2 ^ 36"

abbreviation user_half :: "virt_addr \<Rightarrow> bool" where
  "user_half v \<equiv> v div 2 ^ 39 mod 512 < 256"

lemma kernel_half_vpath [simp]: "kernel_half (vpath v) \<longleftrightarrow> \<not> user_half v"
  by (auto simp: kernel_half_def vpath_def)

lemma map_effectD:
  assumes e: "map_effect R r v phys fl (m, b) (m', b')" and r: "r \<in> R"
  shows "vm_inv R m' b'" "free_pages b' \<subseteq> free_pages b" "alloc_blocks b \<subseteq> alloc_blocks b'"
    "lookup m' r w = (if same_page v w then Some (pte_set_addr phys (fl OR PRESENT)) else lookup m r w)"
    "s \<in> R \<Longrightarrow> s \<noteq> r \<Longrightarrow> user_half v \<Longrightarrow> lookup m' s w = lookup m s w"
    "s \<in> R \<Longrightarrow> upath m s (vpath w) \<Longrightarrow> upath m' s (vpath w)"
    "has_flag fl USER \<Longrightarrow> upath m' r (vpath v)"
proof -
  note E = e [unfolded map_effect_def prod.case]
  show inv: "vm_inv R m' b'" and "free_pages b' \<subseteq> free_pages b" "alloc_blocks b \<subseteq> alloc_blocks b'"
    using E by blast+
  obtain t where t: "walk m' r (vpath v) = Some t" using E by auto
  have l: "leaf m' s (vpath w) (vslot w) = (if walk m' s (vpath w) = Some t \<and> vslot w = vslot v
      then Some (pte_set_addr phys (fl OR PRESENT)) else leaf m s (vpath w) (vslot w))" if "s \<in> R" for s w
    using E that vpath_ok t by metis
  have u: "vpath w = vpath v \<and> (s = r \<or> kernel_half (vpath v))"
    if "s \<in> R" "walk m' s (vpath w) = Some t" for s w
    using vm_invD(3) [OF inv r vpath_ok(1) t that(1) vpath_ok(1) that(2)] by metis
  show "lookup m' r w = (if same_page v w then Some (pte_set_addr phys (fl OR PRESENT)) else lookup m r w)"
    unfolding lookup_def l [OF r] same_page_iff [symmetric] using u [OF r, of w] t by auto
  show "lookup m' s w = lookup m s w" if "s \<in> R" "s \<noteq> r" "user_half v"
    unfolding lookup_def l [OF that(1)] using u [OF that(1), of w] that by auto
  show "upath m' s (vpath w)" if "s \<in> R" "upath m s (vpath w)" using E that vpath_ok(1) by blast
  show "upath m' r (vpath v)" if "has_flag fl USER" using E that by blast
qed

text \<open>A property of every final entry survives mappings that satisfy it.\<close>

definition all_leaves :: "(u64 \<Rightarrow> bool) \<Rightarrow> pt_memory \<Rightarrow> phys_addr \<Rightarrow> bool" where
  "all_leaves P m r \<longleftrightarrow> (\<forall>v e. lookup m r v = Some e \<longrightarrow> P e)"

lemma map_page_leaves:
  assumes "vm_inv R m b" "r \<in> R" "map_page r v phys fl (m, b) = Inr (m', b')" "all_leaves P m r"
    and "P (pte_set_addr phys (fl OR PRESENT))"
  shows "vm_inv R m' b' \<and> all_leaves P m' r"
proof (rule map_page_effect [OF assms(1,2), of v phys fl])
  fix m2 b2 assume "map_page r v phys fl (m, b) = Inr (m2, b2)" "map_effect R r v phys fl (m, b) (m2, b2)"
  then have e: "map_effect R r v phys fl (m, b) (m', b')" using assms(3) by simp
  note D = map_effectD [OF e assms(2)]
  show ?thesis using D(1) assms(4,5) by (auto simp: all_leaves_def D(4) split: if_splits)
qed (use assms(3) in simp)

lemma map_pages_leaves:
  assumes "vm_inv R m b" "r \<in> R" "map_pages r fl place as (m, b) = Inr (m', b')" "all_leaves P m r"
    and "\<And>a. P (pte_set_addr a (fl OR PRESENT))"
  shows "vm_inv R m' b' \<and> all_leaves P m' r"
  using assms(1,3,4)
proof (induction "as" arbitrary: m b)
  case (Cons a "as")
  obtain v p m1 b1 where s: "map_page r v p fl (m, b) = Inr (m1, b1)" "map_pages r fl place as (m1, b1) = Inr (m', b')"
    using Cons.prems(2) by (auto simp: rbind_eq_Inr_iff)
  then show ?case using Cons.IH [OF _ s(2)] map_page_leaves [OF Cons.prems(1) assms(2) s(1) Cons.prems(3) assms(5)] by blast
qed simp

lemma set_range_leaves:
  assumes "vm_inv R m b" "r \<in> R" "all_leaves P m r" "\<And>a. P (pte_set_addr a (fl OR PRESENT))"
  shows "set_range r x y fl (m, b) = Inr (m', b') \<Longrightarrow> vm_inv R m' b' \<and> all_leaves P m' r"
    and "set_identity_range r x y fl (m, b) = Inr (m', b') \<Longrightarrow> vm_inv R m' b' \<and> all_leaves P m' r"
  using map_pages_leaves [OF assms(1,2) _ assms(3,4)]
  by (fastforce simp: set_range_def set_identity_range_def rbind_eq_Inr_iff)+

lemma map_areas_leaves:
  assumes "vm_inv R m b" "r \<in> R" "map_areas r areas (m, b) = Inr (m', b')" "all_leaves P m r"
    and "\<And>a. P (pte_set_addr a ((PRESENT OR WRITABLE OR NX) OR PRESENT))"
  shows "vm_inv R m' b' \<and> all_leaves P m' r"
  using assms(1,3,4)
proof (induction areas arbitrary: m b)
  case (Cons a areas)
  obtain ty start fin where a: "a = (ty, start, fin)" by (cases a) auto
  obtain m1 b1 where s: "map_areas r areas (m1, b1) = Inr (m', b')"
    and s1: "(if ty = 1 then map_pages r (PRESENT OR WRITABLE OR NX)
      (\<lambda>phys. rbind (add_usize phys KERNEL_VMA) (\<lambda>v. Inr (v, phys))) (page_steps start fin) (m, b)
      else Inr (m, b)) = Inr (m1, b1)"
    using Cons.prems(2) by (auto simp: a rbind_eq_Inr_iff)
  have "vm_inv R m1 b1 \<and> all_leaves P m1 r"
    using s1 Cons.prems(1,3) map_pages_leaves [OF Cons.prems(1) assms(2) _ Cons.prems(3) assms(5)]
    by (cases "ty = 1") auto
  then show ?case using Cons.IH [OF _ s] by blast
qed simp

end
