(* ===== verification/Ram_Fs.thy ===== *)
theory Ram_Fs
  imports Prelude "HOL-Library.Char_ord" "HOL-Library.List_Lexorder" "HOL-Library.Sublist"
begin

text \<open>
  src/src/fs/ramfs.rs: the in-memory file system.

  A \<^verbatim>\<open>BTreeMap\<close> is an association list sorted by key; a \<^verbatim>\<open>&mut\<close> borrow of a directory is
  reading its entries (\<open>dir_at\<close>) and writing the changed ones back (\<open>set_dir\<close>).  Every operation
  returns its \<^verbatim>\<open>FsResult\<close> together with the file system afterwards, because \<open>rename\<close> can fail after
  it has changed the tree.  The abstraction \<open>view\<close> maps each path to what is there (a file with its
  contents, or a directory); the operations are specified as updates of that map.
\<close>

datatype fs_error =
  InvalidPath | NotFound | AlreadyExists | NotDirectory | IsDirectory | DirectoryNotEmpty

type_synonym path = string
type_synonym data = "u8 list"

datatype node = File data | Dir "(string \<times> node) list"

record ramfs =
  root :: node

section \<open>Ordered maps\<close>

fun bt_insert :: "'k::linorder \<Rightarrow> 'v \<Rightarrow> ('k \<times> 'v) list \<Rightarrow> ('k \<times> 'v) list" where
  "bt_insert k v [] = [(k, v)]"
| "bt_insert k v ((k', v') # es) =
     (if k < k' then (k, v) # (k', v') # es
      else if k = k' then (k, v) # es
      else (k', v') # bt_insert k v es)"

definition bt_remove :: "'k \<Rightarrow> ('k \<times> 'v) list \<Rightarrow> ('k \<times> 'v) list" where
  "bt_remove k es = filter (\<lambda>e. fst e \<noteq> k) es"

section \<open>Paths\<close>

fun split_on :: "char \<Rightarrow> string \<Rightarrow> string list" where
  "split_on c [] = [[]]"
| "split_on c (x # xs) =
     (if x = c then [] # split_on c xs
      else case split_on c xs of [] \<Rightarrow> [[x]] | p # ps \<Rightarrow> (x # p) # ps)"

definition split_path :: "path \<Rightarrow> fs_error + string list" where
  "split_path p =
     (if take 1 p \<noteq> ''/'' then Inl InvalidPath
      else Inr (filter (\<lambda>part. part \<noteq> '''' \<and> part \<noteq> ''.'') (split_on (CHR ''/'') p)))"

definition split_parent :: "string list \<Rightarrow> fs_error + string list \<times> string" where
  "split_parent parts = (if parts = [] then Inl InvalidPath else Inr (butlast parts, last parts))"

section \<open>Nodes\<close>

fun node_at :: "node \<Rightarrow> string list \<Rightarrow> fs_error + node" where
  "node_at n [] = Inr n"
| "node_at (File _) (part # parts) = Inl NotDirectory"
| "node_at (Dir es) (part # parts) =
     (case map_of es part of None \<Rightarrow> Inl NotFound | Some n \<Rightarrow> node_at n parts)"

fun dir_at :: "node \<Rightarrow> string list \<Rightarrow> fs_error + (string \<times> node) list" where
  "dir_at (File _) _ = Inl NotDirectory"
| "dir_at (Dir es) [] = Inr es"
| "dir_at (Dir es) (part # parts) =
     (case map_of es part of None \<Rightarrow> Inl NotFound | Some n \<Rightarrow> dir_at n parts)"

fun set_dir :: "node \<Rightarrow> string list \<Rightarrow> (string \<times> node) list \<Rightarrow> node" where
  "set_dir (Dir es) (part # parts) es' =
     (case map_of es part of None \<Rightarrow> Dir es
      | Some n \<Rightarrow> Dir (bt_insert part (set_dir n parts es') es))"
| "set_dir (Dir es) [] es' = Dir es'"
| "set_dir (File d) _ es' = File d"

section \<open>Operations\<close>

type_synonym 'a fs_op = "ramfs \<Rightarrow> (fs_error + 'a) \<times> ramfs"

text \<open>The prefix shared by the operations on one entry: split the path, find the parent
  directory, and act on it and the name.  The action answers a result and, if it changed the
  directory, its new entries.\<close>

definition in_parent ::
  "path \<Rightarrow> ((string \<times> node) list \<Rightarrow> string \<Rightarrow> (fs_error + 'a) \<times> (string \<times> node) list option) \<Rightarrow> 'a fs_op" where
  "in_parent path act fs =
     (case rbind (split_path path) split_parent of Inl e \<Rightarrow> (Inl e, fs)
      | Inr (parent, name) \<Rightarrow>
        (case dir_at (root fs) parent of Inl e \<Rightarrow> (Inl e, fs)
         | Inr dir \<Rightarrow>
           (case act dir name of (r, None) \<Rightarrow> (r, fs)
            | (r, Some dir') \<Rightarrow> (r, fs\<lparr>root := set_dir (root fs) parent dir'\<rparr>))))"

definition fs_mkdir :: "path \<Rightarrow> unit fs_op" where
  "fs_mkdir path fs =
     (case split_path path of Inl e \<Rightarrow> (Inl e, fs)
      | Inr parts \<Rightarrow> if parts = [] then (Inl AlreadyExists, fs)
        else in_parent path (\<lambda>dir name.
          if map_of dir name \<noteq> None then (Inl AlreadyExists, None)
          else (Inr (), Some (bt_insert name (Dir []) dir))) fs)"

definition fs_touch :: "path \<Rightarrow> unit fs_op" where
  "fs_touch path = in_parent path (\<lambda>dir name.
     case map_of dir name of
       Some (Dir _) \<Rightarrow> (Inl IsDirectory, None)
     | Some (File _) \<Rightarrow> (Inr (), None)
     | None \<Rightarrow> (Inr (), Some (bt_insert name (File []) dir)))"

definition fs_write :: "path \<Rightarrow> data \<Rightarrow> unit fs_op" where
  "fs_write path d = in_parent path (\<lambda>dir name.
     case map_of dir name of
       Some (Dir _) \<Rightarrow> (Inl IsDirectory, None)
     | Some (File content) \<Rightarrow> (Inr (), Some (bt_insert name (File d) dir))
     | None \<Rightarrow> (Inr (), Some (bt_insert name (File d) dir)))"

definition fs_append :: "path \<Rightarrow> data \<Rightarrow> unit fs_op" where
  "fs_append path d = in_parent path (\<lambda>dir name.
     case map_of dir name of
       Some (Dir _) \<Rightarrow> (Inl IsDirectory, None)
     | Some (File content) \<Rightarrow> (Inr (), Some (bt_insert name (File (content @ d)) dir))
     | None \<Rightarrow> (Inr (), Some (bt_insert name (File d) dir)))"

definition fs_node :: "path \<Rightarrow> ramfs \<Rightarrow> fs_error + node" where
  "fs_node path fs = rbind (split_path path) (node_at (root fs))"

definition fs_read :: "path \<Rightarrow> ramfs \<Rightarrow> fs_error + data" where
  "fs_read path fs =
     rbind (fs_node path fs) (\<lambda>n. case n of File content \<Rightarrow> Inr content | Dir _ \<Rightarrow> Inl IsDirectory)"

definition fs_list :: "path \<Rightarrow> ramfs \<Rightarrow> fs_error + string list" where
  "fs_list path fs =
     rbind (fs_node path fs) (\<lambda>n. case n of File _ \<Rightarrow> Inl NotDirectory | Dir es \<Rightarrow> Inr (map fst es))"

definition fs_remove :: "path \<Rightarrow> unit fs_op" where
  "fs_remove path = in_parent path (\<lambda>dir name.
     case map_of dir name of
       None \<Rightarrow> (Inl NotFound, None)
     | Some (Dir es) \<Rightarrow> if es \<noteq> [] then (Inl DirectoryNotEmpty, None)
                        else (Inr (), Some (bt_remove name dir))
     | Some (File _) \<Rightarrow> (Inr (), Some (bt_remove name dir)))"

definition fs_rename :: "path \<Rightarrow> path \<Rightarrow> unit fs_op" where
  "fs_rename old new fs =
     (case rbind (split_path old) (\<lambda>old_parts. rbind (split_path new) (\<lambda>new_parts.
             rbind (split_parent old_parts) (\<lambda>op. rbind (split_parent new_parts) (\<lambda>np. Inr (op, np))))) of
        Inl e \<Rightarrow> (Inl e, fs)
      | Inr ((old_parent, old_name), (new_parent, new_name)) \<Rightarrow>
        (case dir_at (root fs) old_parent of Inl e \<Rightarrow> (Inl e, fs)
         | Inr old_dir \<Rightarrow>
           (case map_of old_dir old_name of None \<Rightarrow> (Inl NotFound, fs)
            | Some n \<Rightarrow>
              let fs = fs\<lparr>root := set_dir (root fs) old_parent (bt_remove old_name old_dir)\<rparr> in
              (case dir_at (root fs) new_parent of Inl e \<Rightarrow> (Inl e, fs)
               | Inr new_dir \<Rightarrow>
                 if map_of new_dir new_name \<noteq> None then (Inl AlreadyExists, fs)
                 else (Inr (), fs\<lparr>root := set_dir (root fs) new_parent (bt_insert new_name n new_dir)\<rparr>)))))"

definition fs_copy :: "path \<Rightarrow> path \<Rightarrow> unit fs_op" where
  "fs_copy src dst fs = (case fs_read src fs of Inl e \<Rightarrow> (Inl e, fs) | Inr d \<Rightarrow> fs_write dst d fs)"

text \<open>\<^verbatim>\<open>RamFs::new\<close> panics if one of its directories cannot be made.\<close>

definition expect_ok :: "string \<Rightarrow> 'a fs_op \<Rightarrow> ramfs \<Rightarrow> ramfs run" where
  "expect_ok msg f fs = (case f fs of (Inl _, _) \<Rightarrow> Inl (Expect msg) | (Inr _, fs') \<Rightarrow> Inr fs')"

definition ramfs_new :: "ramfs run" where
  "ramfs_new =
     rbind (expect_ok ''init /bin'' (fs_mkdir ''/bin'') \<lparr>root = Dir []\<rparr>) (\<lambda>fs.
     rbind (expect_ok ''init /lib'' (fs_mkdir ''/lib'') fs) (\<lambda>fs.
     rbind (expect_ok ''init /home'' (fs_mkdir ''/home'') fs) (\<lambda>fs.
     expect_ok ''init /tmp'' (fs_mkdir ''/tmp'') fs)))"

section \<open>Ordered maps: lookups and order\<close>

lemma map_of_bt_insert [simp]: "map_of (bt_insert k v es) = (map_of es)(k \<mapsto> v)"
  by (induction k v es rule: bt_insert.induct) auto

lemma map_of_bt_remove [simp]: "map_of (bt_remove k es) = (map_of es)(k := None)"
  by (induction es) (auto simp: bt_remove_def)

definition keys_sorted :: "('k::linorder \<times> 'v) list \<Rightarrow> bool" where
  "keys_sorted es \<longleftrightarrow> sorted_wrt (<) (map fst es)"

lemma set_bt_insert: "fst ` set (bt_insert k v es) = insert k (fst ` set es)"
  by (induction k v es rule: bt_insert.induct) auto

lemma keys_sorted_insert: "keys_sorted es \<Longrightarrow> keys_sorted (bt_insert k v es)"
proof (induction k v es rule: bt_insert.induct)
  case (2 k v k' v' es)
  have s: "fst ` set (bt_insert k v es) = insert k (fst ` set es)" by (rule set_bt_insert)
  show ?case
  proof (cases "k < k' \<or> k = k'")
    case True
    then show ?thesis using 2 by (auto simp: keys_sorted_def)
  next
    case False
    then have "keys_sorted (bt_insert k v es)" using 2 by (simp add: keys_sorted_def)
    then show ?thesis using 2(2) False s
      by (auto simp: keys_sorted_def)
  qed
qed (simp add: keys_sorted_def)

lemma keys_sorted_remove: "keys_sorted es \<Longrightarrow> keys_sorted (bt_remove k es)"
  by (auto simp: keys_sorted_def bt_remove_def sorted_wrt_map intro: sorted_wrt_filter)

section \<open>The view of the tree\<close>

text \<open>What remains of a path below a prefix.\<close>

fun strip :: "'a list \<Rightarrow> 'a list \<Rightarrow> 'a list option" where
  "strip [] qs = Some qs"
| "strip (p # ps) (q # qs) = (if p = q then strip ps qs else None)"
| "strip (p # ps) [] = None"

lemma strip_iff: "strip ps qs = Some rs \<longleftrightarrow> qs = ps @ rs"
  by (induction ps qs rule: strip.induct) auto

lemma strip_append [simp]: "strip ps (ps @ rs) = Some rs" "strip ps ps = Some []"
  by (simp_all add: strip_iff)

datatype kind = KFile data | KDir

fun kind_of :: "node \<Rightarrow> kind" where
  "kind_of (File d) = KFile d"
| "kind_of (Dir es) = KDir"

definition node_view :: "node \<Rightarrow> string list \<Rightarrow> kind option" where
  "node_view n parts = (case node_at n parts of Inl _ \<Rightarrow> None | Inr m \<Rightarrow> Some (kind_of m))"

definition view :: "ramfs \<Rightarrow> string list \<Rightarrow> kind option" where
  "view fs = node_view (root fs)"

lemma node_view_simps [simp]:
  "node_view n [] = Some (kind_of n)"
  "node_view (File d) (p # ps) = None"
  "node_view (Dir es) (p # ps) = (case map_of es p of None \<Rightarrow> None | Some n \<Rightarrow> node_view n ps)"
  by (simp_all add: node_view_def split: option.splits)

lemma node_view_File [simp]: "node_view (File d) (ps @ q # qs) = None"
  by (cases ps) auto

lemma node_at_append:
  "node_at n (ps @ qs) = rbind (node_at n ps) (\<lambda>m. node_at m qs)"
  by (induction n ps rule: node_at.induct) (auto split: option.splits)

lemma dir_at_node_at:
  "dir_at n ps = Inr es \<longleftrightarrow> node_at n ps = Inr (Dir es)"
  by (induction n ps rule: dir_at.induct) (auto split: option.splits elim: node_at.elims)

lemma dir_at_error:
  "dir_at n ps = Inl e \<Longrightarrow> \<forall>qs. node_view n (ps @ q # qs) = None"
  by (induction n ps rule: dir_at.induct) (auto split: option.splits)

lemma node_at_set_dir:
  assumes "dir_at n ps = Inr es"
  shows "node_at (set_dir n ps es') (ps @ qs) = node_at (Dir es') qs"
  using assms by (induction n ps rule: dir_at.induct) (auto split: option.splits)

text \<open>Replacing the entries of one directory changes the view only below it.\<close>

lemma node_view_set_dir:
  assumes "dir_at n ps = Inr es"
  shows "node_view (set_dir n ps es') qs =
    (case strip ps qs of None \<Rightarrow> node_view n qs | Some r \<Rightarrow> node_view (Dir es') r)"
  using assms
proof (induction n ps arbitrary: qs rule: dir_at.induct)
  case (3 es0 p ps)
  then show ?case by (cases qs) (auto split: option.splits)
qed (auto split: option.splits)

text \<open>A node with nothing below it.\<close>

fun leaf :: "node \<Rightarrow> bool" where
  "leaf (File _) \<longleftrightarrow> True"
| "leaf (Dir es) \<longleftrightarrow> es = []"

lemma leaf_view: "leaf n \<Longrightarrow> r \<noteq> [] \<Longrightarrow> node_view n r = None"
  by (cases n; cases r) auto

lemma dir_view: "dir_at n ps = Inr es \<Longrightarrow> node_view n ps = Some KDir"
  by (simp add: dir_at_node_at node_view_def)

lemma view_dir: "node_view n ps = Some KDir \<Longrightarrow> \<exists>es. dir_at n ps = Inr es"
  by (auto simp: dir_at_node_at node_view_def split: sum.splits elim: kind_of.elims)

lemma entry_view:
  assumes "dir_at n ps = Inr es"
  shows "node_view n (ps @ nm # r) = (case map_of es nm of None \<Rightarrow> None | Some m \<Rightarrow> node_view m r)"
proof -
  have "node_at n ps = Inr (Dir es)" using assms by (simp add: dir_at_node_at)
  then have "node_at n (ps @ nm # r) = node_at (Dir es) (nm # r)" by (simp add: node_at_append)
  then show ?thesis by (simp add: node_view_def split: option.splits)
qed

text \<open>Updating one entry of a directory.\<close>

lemma update_view:
  assumes "dir_at n ps = Inr es" "map_of es' = (map_of es)(nm := x)"
  shows "node_view (set_dir n ps es') qs =
    (case strip (ps @ [nm]) qs of None \<Rightarrow> node_view n qs
     | Some r \<Rightarrow> (case x of None \<Rightarrow> None | Some m \<Rightarrow> node_view m r))"
proof (cases "strip ps qs")
  case None
  then have "strip (ps @ [nm]) qs = None" by (auto simp: strip_iff simp flip: not_Some_eq)
  then show ?thesis using None by (simp add: node_view_set_dir [OF assms(1)])
next
  case (Some r)
  then have qs: "qs = ps @ r" by (simp add: strip_iff)
  show ?thesis
  proof (cases r)
    case Nil
    then have "strip (ps @ [nm]) qs = None" by (auto simp: strip_iff qs simp flip: not_Some_eq)
    then show ?thesis using dir_view [OF assms(1)] by (simp add: node_view_set_dir [OF assms(1)] qs Nil)
  next
    case (Cons y ys)
    have "strip (ps @ [nm]) qs = (if y = nm then Some ys else None)"
      by (auto simp: strip_iff qs Cons simp flip: not_Some_eq)
    then show ?thesis
      using entry_view [OF assms(1), of y ys] assms(2)
      by (auto simp: node_view_set_dir [OF assms(1)] qs Cons split: option.splits)
  qed
qed

text \<open>Replacing, adding or removing a leaf is a pointwise update of the view.\<close>

lemma update_leaf_view:
  assumes "dir_at n ps = Inr es" "map_of es' = (map_of es)(nm := x)"
    "\<forall>m. x = Some m \<longrightarrow> leaf m" "\<forall>old. map_of es nm = Some old \<longrightarrow> leaf old"
  shows "node_view (set_dir n ps es') = (node_view n)(ps @ [nm] := map_option kind_of x)"
proof
  fix qs
  show "node_view (set_dir n ps es') qs = ((node_view n)(ps @ [nm] := map_option kind_of x)) qs"
  proof (cases "strip (ps @ [nm]) qs")
    case None
    then have "qs \<noteq> ps @ [nm]" by auto
    then show ?thesis using None by (simp add: update_view [OF assms(1,2)])
  next
    case (Some r)
    then have qs: "qs = ps @ nm # r" by (simp add: strip_iff)
    have "node_view n (ps @ nm # r) = None \<and> (case x of None \<Rightarrow> None | Some m \<Rightarrow> node_view m r) = None"
      if "r \<noteq> []"
      using entry_view [OF assms(1), of nm r] assms(3,4) leaf_view [OF _ that]
      by (auto split: option.splits)
    then show ?thesis using Some by (cases "r = []") (auto simp: update_view [OF assms(1,2)] qs split: option.splits)
  qed
qed

lemmas insert_leaf_view = update_leaf_view [OF _ map_of_bt_insert, simplified]
lemmas remove_leaf_view = update_leaf_view [OF _ map_of_bt_remove, simplified]

section \<open>The abstract file system and refinement\<close>

type_synonym afs = "string list \<Rightarrow> kind option"

definition writable :: "afs \<Rightarrow> string list \<Rightarrow> bool" where
  "writable v ps \<longleftrightarrow> ps \<noteq> [] \<and> v (butlast ps) = Some KDir \<and> v ps \<noteq> Some KDir"

definition contents :: "afs \<Rightarrow> string list \<Rightarrow> data" where
  "contents v ps = (case v ps of Some (KFile d) \<Rightarrow> d | _ \<Rightarrow> [])"

definition a_write :: "string list \<Rightarrow> data \<Rightarrow> afs \<Rightarrow> afs option" where
  "a_write ps d v = (if writable v ps then Some (v(ps \<mapsto> KFile d)) else None)"

definition a_append :: "string list \<Rightarrow> data \<Rightarrow> afs \<Rightarrow> afs option" where
  "a_append ps d v = (if writable v ps then Some (v(ps \<mapsto> KFile (contents v ps @ d))) else None)"

definition a_touch :: "string list \<Rightarrow> afs \<Rightarrow> afs option" where
  "a_touch ps v = (if writable v ps then Some (v(ps \<mapsto> KFile (contents v ps))) else None)"

definition a_mkdir :: "string list \<Rightarrow> afs \<Rightarrow> afs option" where
  "a_mkdir ps v =
     (if ps \<noteq> [] \<and> v (butlast ps) = Some KDir \<and> v ps = None then Some (v(ps \<mapsto> KDir)) else None)"

definition a_remove :: "string list \<Rightarrow> afs \<Rightarrow> afs option" where
  "a_remove ps v =
     (if ps \<noteq> [] \<and> v ps \<noteq> None \<and> (\<forall>q. v (ps @ [q]) = None) then Some (v(ps := None)) else None)"

text \<open>An operation refines an abstract one: same success, same view afterwards, and a failure
  changes nothing.\<close>

definition fs_refines :: "(fs_error + unit) \<times> ramfs \<Rightarrow> ramfs \<Rightarrow> afs option \<Rightarrow> bool" where
  "fs_refines res fs a \<longleftrightarrow> (case a of Some v \<Rightarrow> fst res = Inr () \<and> view (snd res) = v
     | None \<Rightarrow> (\<exists>e. fst res = Inl e) \<and> snd res = fs)"

lemma split_parent_eq:
  assumes "split_path p = Inr ps"
  shows "rbind (split_path p) split_parent =
    (if ps = [] then Inl InvalidPath else Inr (butlast ps, last ps))"
  using assms by (simp add: split_parent_def)

text \<open>The three outcomes of the shared prefix.\<close>

lemma in_parent_cases:
  assumes "split_path p = Inr ps"
  obtains "ps = []" "in_parent p act fs = (Inl InvalidPath, fs)"
  | e where "ps \<noteq> []" "view fs (butlast ps) \<noteq> Some KDir" "view fs ps = None" "in_parent p act fs = (Inl e, fs)"
  | dir where "ps \<noteq> []" "dir_at (root fs) (butlast ps) = Inr dir" "view fs (butlast ps) = Some KDir"
      "view fs ps = map_option kind_of (map_of dir (last ps))"
      "in_parent p act fs = (case act dir (last ps) of (r, None) \<Rightarrow> (r, fs)
         | (r, Some dir') \<Rightarrow> (r, fs\<lparr>root := set_dir (root fs) (butlast ps) dir'\<rparr>))"
proof (cases "ps = []")
  case True
  then show thesis using that(1) split_parent_eq [OF assms] by (simp add: in_parent_def)
next
  case False
  then have ps: "ps = butlast ps @ [last ps]" by simp
  show thesis
  proof (cases "dir_at (root fs) (butlast ps)")
    case (Inl e)
    have "view fs (butlast ps) \<noteq> Some KDir" using view_dir [of "root fs" "butlast ps"] Inl by (auto simp: view_def)
    moreover have "view fs ps = None" using dir_at_error [OF Inl, of "last ps"] ps by (metis view_def)
    ultimately show thesis using that(2) False Inl split_parent_eq [OF assms] by (simp add: in_parent_def)
  next
    case (Inr dir)
    have "view fs ps = map_option kind_of (map_of dir (last ps))"
      using entry_view [OF Inr, of "last ps" "[]"] ps by (simp add: view_def split: option.splits)
    then show thesis
      using that(3) False Inr dir_view [OF Inr] split_parent_eq [OF assms] by (simp add: in_parent_def view_def)
  qed
qed

lemma view_update:
  assumes "ps \<noteq> []" "dir_at (root fs) (butlast ps) = Inr dir" "leaf m"
    "\<forall>old. map_of dir (last ps) = Some old \<longrightarrow> leaf old"
  shows "view (fs\<lparr>root := set_dir (root fs) (butlast ps) (bt_insert (last ps) m dir)\<rparr>) = (view fs)(ps \<mapsto> kind_of m)"
    "view (fs\<lparr>root := set_dir (root fs) (butlast ps) (bt_remove (last ps) dir)\<rparr>) = (view fs)(ps := None)"
  using insert_leaf_view [OF assms(2), of m "last ps"] remove_leaf_view [OF assms(2), of "last ps"] assms(1,3,4)
  by (simp_all add: view_def)

lemma leaf_File: "map_of dir nm = Some old \<Longrightarrow> map_option kind_of (map_of dir nm) \<noteq> Some KDir \<Longrightarrow> leaf old"
  by (cases old) auto

lemma in_parent_refines:
  assumes "split_path p = Inr ps"
    and none: "ps = [] \<or> view fs (butlast ps) \<noteq> Some KDir \<and> view fs ps = None \<Longrightarrow> a = None"
    and some: "\<And>dir. ps \<noteq> [] \<Longrightarrow> dir_at (root fs) (butlast ps) = Inr dir \<Longrightarrow>
      view fs (butlast ps) = Some KDir \<Longrightarrow> view fs ps = map_option kind_of (map_of dir (last ps)) \<Longrightarrow>
      fs_refines (case act dir (last ps) of (r, None) \<Rightarrow> (r, fs)
         | (r, Some dir') \<Rightarrow> (r, fs\<lparr>root := set_dir (root fs) (butlast ps) dir'\<rparr>)) fs a"
  shows "fs_refines (in_parent p act fs) fs a"
proof (rule in_parent_cases [OF assms(1), of act fs])
  fix dir
  assume "ps \<noteq> []" "dir_at (root fs) (butlast ps) = Inr dir" "view fs (butlast ps) = Some KDir"
    "view fs ps = map_option kind_of (map_of dir (last ps))"
    and run: "in_parent p act fs = (case act dir (last ps) of (r, None) \<Rightarrow> (r, fs)
         | (r, Some dir') \<Rightarrow> (r, fs\<lparr>root := set_dir (root fs) (butlast ps) dir'\<rparr>))"
  then show ?thesis unfolding run by (intro some)
qed (use none in \<open>auto simp: fs_refines_def\<close>)

lemma fs_write_refines:
  assumes "split_path p = Inr ps"
  shows "fs_refines (fs_write p d fs) fs (a_write ps d (view fs))"
  unfolding fs_write_def
proof (rule in_parent_refines [OF assms], goal_cases)
  case (2 dir)
  show ?case
    using view_update(1) [OF 2(1,2), of "File d"] 2
    by (cases "map_of dir (last ps)")
      (auto simp: fs_refines_def a_write_def writable_def contents_def split: node.splits)
qed (auto simp: a_write_def writable_def)

lemma fs_append_refines:
  assumes "split_path p = Inr ps"
  shows "fs_refines (fs_append p d fs) fs (a_append ps d (view fs))"
  unfolding fs_append_def
proof (rule in_parent_refines [OF assms], goal_cases)
  case (2 dir)
  show ?case
    using view_update(1) [OF 2(1,2), of "File (c @ d)" for c] view_update(1) [OF 2(1,2), of "File d"] 2
    by (cases "map_of dir (last ps)")
      (auto simp: fs_refines_def a_append_def writable_def contents_def split: node.splits)
qed (auto simp: a_append_def writable_def)

lemma fs_touch_refines:
  assumes "split_path p = Inr ps"
  shows "fs_refines (fs_touch p fs) fs (a_touch ps (view fs))"
  unfolding fs_touch_def
proof (rule in_parent_refines [OF assms], goal_cases)
  case (2 dir)
  show ?case
    using view_update(1) [OF 2(1,2), of "File []"] 2
    by (cases "map_of dir (last ps)")
      (auto simp: fs_refines_def a_touch_def writable_def contents_def split: node.splits)
qed (auto simp: a_touch_def writable_def)

lemma fs_mkdir_refines:
  assumes "split_path p = Inr ps"
  shows "fs_refines (fs_mkdir p fs) fs (a_mkdir ps (view fs))"
proof (cases "ps = []")
  case True
  then show ?thesis using assms by (simp add: fs_mkdir_def fs_refines_def a_mkdir_def)
next
  case False
  have "fs_refines (in_parent p (\<lambda>dir name.
          if map_of dir name \<noteq> None then (Inl AlreadyExists, None)
          else (Inr (), Some (bt_insert name (Dir []) dir))) fs) fs (a_mkdir ps (view fs))"
  proof (rule in_parent_refines [OF assms], goal_cases)
    case (2 dir)
    show ?case
      using view_update(1) [OF 2(1,2), of "Dir []"] 2
      by (cases "map_of dir (last ps)") (auto simp: fs_refines_def a_mkdir_def)
  qed (auto simp: a_mkdir_def)
  then show ?thesis using False assms by (simp add: fs_mkdir_def)
qed

lemma entry_children:
  assumes "ps \<noteq> []" "dir_at (root fs) (butlast ps) = Inr dir" "map_of dir (last ps) = Some n"
  shows "(\<forall>q. view fs (ps @ [q]) = None) \<longleftrightarrow> leaf n"
proof -
  have "view fs (ps @ [q]) = node_view n [q]" for q
    using entry_view [OF assms(2), of "last ps" "[q]"] assms(1,3)
    by (simp add: view_def append_butlast_last_id [symmetric] del: append_butlast_last_id)
       (metis append_butlast_last_id append_Cons append_Nil append_assoc)
  moreover have "(\<forall>q. node_view n [q] = None) \<longleftrightarrow> leaf n"
  proof (cases n)
    case (Dir es)
    then show ?thesis by (cases es) (auto split: option.splits)
  qed simp
  ultimately show ?thesis by simp
qed

lemma fs_remove_refines:
  assumes "split_path p = Inr ps"
  shows "fs_refines (fs_remove p fs) fs (a_remove ps (view fs))"
  unfolding fs_remove_def
proof (rule in_parent_refines [OF assms], goal_cases)
  case (2 dir)
  show ?case
    using view_update(2) [OF 2(1,2), of "File []"] entry_children [OF 2(1,2)] 2
    by (cases "map_of dir (last ps)")
      (auto simp: fs_refines_def a_remove_def split: node.splits)
qed (auto simp: a_remove_def)

lemma fs_read_view:
  assumes "split_path p = Inr ps"
  shows "fs_read p fs = Inr d \<longleftrightarrow> view fs ps = Some (KFile d)"
  using assms
  by (cases "node_at (root fs) ps")
    (auto simp: fs_read_def fs_node_def view_def node_view_def split: node.splits)

lemma fs_list_view:
  assumes "split_path p = Inr ps" "fs_list p fs = Inr names"
  shows "view fs ps = Some KDir" "set names = {nm. view fs (ps @ [nm]) \<noteq> None}"
proof -
  obtain es where es: "node_at (root fs) ps = Inr (Dir es)" "names = map fst es"
    using assms by (cases "node_at (root fs) ps") (auto simp: fs_list_def fs_node_def split: node.splits)
  then have d: "dir_at (root fs) ps = Inr es" by (simp add: dir_at_node_at)
  show "view fs ps = Some KDir" using dir_view [OF d] by (simp add: view_def)
  show "set names = {nm. view fs (ps @ [nm]) \<noteq> None}"
    using entry_view [OF d, of _ "[]"] es(2)
    by (auto simp: view_def map_of_eq_None_iff split: option.splits)
qed

lemma fs_copy_refines:
  assumes "split_path s = Inr ps" "split_path d = Inr qs"
  shows "fs_refines (fs_copy s d fs) fs
    (case view fs ps of Some (KFile c) \<Rightarrow> a_write qs c (view fs) | _ \<Rightarrow> None)"
proof (cases "fs_read s fs")
  case (Inl e)
  then have "\<nexists>c. view fs ps = Some (KFile c)" using fs_read_view [OF assms(1), of fs] by force
  then show ?thesis using Inl by (auto simp: fs_copy_def fs_refines_def split: option.splits kind.splits)
next
  case (Inr c)
  then show ?thesis
    using fs_read_view [OF assms(1), of fs c] fs_write_refines [OF assms(2), of c fs] by (simp add: fs_copy_def)
qed

section \<open>Renaming\<close>




section \<open>Well formed trees\<close>

text \<open>Names that occur in paths, directories sorted by name with such names only.\<close>

definition name_ok :: "string \<Rightarrow> bool" where
  "name_ok nm \<longleftrightarrow> nm \<noteq> [] \<and> nm \<noteq> ''.'' \<and> CHR ''/'' \<notin> set nm"

fun node_ok :: "node \<Rightarrow> bool" where
  "node_ok (File _) \<longleftrightarrow> True"
| "node_ok (Dir es) \<longleftrightarrow> keys_sorted es \<and> list_all (\<lambda>e. name_ok (fst e) \<and> node_ok (snd e)) es"

definition fs_ok :: "ramfs \<Rightarrow> bool" where
  "fs_ok fs \<longleftrightarrow> node_ok (root fs) \<and> kind_of (root fs) = KDir"

lemma kind_of_KDir: "kind_of n = KDir \<longleftrightarrow> (\<exists>es. n = Dir es)"
  by (cases n) auto

lemma split_on_no_sep: "part \<in> set (split_on c xs) \<Longrightarrow> c \<notin> set part"
  by (induction c xs arbitrary: part rule: split_on.induct) (auto split: if_splits list.splits)

lemma split_path_names: "split_path p = Inr ps \<Longrightarrow> \<forall>nm\<in>set ps. name_ok nm"
  by (auto simp: split_path_def name_ok_def split_on_no_sep split: if_splits)

lemma entries_ok_insert:
  "list_all P es \<Longrightarrow> P (k, v) \<Longrightarrow> list_all P (bt_insert k v es)"
  by (induction k v es rule: bt_insert.induct) auto

lemma node_ok_insert:
  "node_ok (Dir es) \<Longrightarrow> name_ok nm \<Longrightarrow> node_ok n \<Longrightarrow> node_ok (Dir (bt_insert nm n es))"
  by (simp add: keys_sorted_insert entries_ok_insert)

lemma node_ok_remove: "node_ok (Dir es) \<Longrightarrow> node_ok (Dir (bt_remove nm es))"
  by (auto simp: keys_sorted_remove list_all_iff bt_remove_def keys_sorted_remove [unfolded bt_remove_def])

lemma node_ok_entry:
  assumes "node_ok (Dir es)" "map_of es nm = Some n" shows "node_ok n" "name_ok nm"
  using assms map_of_SomeD [OF assms(2)] by (auto simp: list_all_iff)

lemma node_ok_dir_at: "node_ok n \<Longrightarrow> dir_at n ps = Inr es \<Longrightarrow> node_ok (Dir es)"
  by (induction n ps rule: dir_at.induct) (auto split: option.splits dest: node_ok_entry simp del: node_ok.simps)

lemma node_ok_set_dir: "node_ok n \<Longrightarrow> node_ok (Dir es') \<Longrightarrow> node_ok (set_dir n ps es')"
proof (induction n ps es' rule: set_dir.induct)
  case (1 es part parts es')
  then show ?case
    using node_ok_entry [of es part] node_ok_insert [of es part]
    by (cases "map_of es part") (simp_all del: node_ok.simps)
qed simp_all

lemma set_dir_is_dir: "kind_of n = KDir \<Longrightarrow> kind_of (set_dir n ps es') = KDir"
  by (cases ps) (auto simp: kind_of_KDir split: option.splits)

lemma fs_ok_set_dir:
  "fs_ok fs \<Longrightarrow> node_ok (Dir es') \<Longrightarrow> fs_ok (fs\<lparr>root := set_dir (root fs) ps es'\<rparr>)"
  using set_dir_is_dir [of "root fs"] by (auto simp: fs_ok_def node_ok_set_dir simp del: node_ok.simps)

lemma in_parent_ok:
  assumes "fs_ok fs" "\<And>dir nm r dir'. node_ok (Dir dir) \<Longrightarrow> name_ok nm \<Longrightarrow> act dir nm = (r, Some dir') \<Longrightarrow>
    node_ok (Dir dir')"
  shows "fs_ok (snd (in_parent p act fs))"
proof (cases "split_path p")
  case (Inr ps)
  show ?thesis
  proof (rule in_parent_cases [OF Inr, of act fs])
    fix dir
    assume d: "ps \<noteq> []" "dir_at (root fs) (butlast ps) = Inr dir"
      and run: "in_parent p act fs = (case act dir (last ps) of (r, None) \<Rightarrow> (r, fs)
         | (r, Some dir') \<Rightarrow> (r, fs\<lparr>root := set_dir (root fs) (butlast ps) dir'\<rparr>))"
    have "node_ok (Dir dir)" using node_ok_dir_at [OF _ d(2)] assms(1) by (simp add: fs_ok_def)
    moreover have "name_ok (last ps)" using split_path_names [OF Inr] d(1) by simp
    ultimately show ?thesis
      using assms(2) [of dir "last ps"] fs_ok_set_dir [OF assms(1)] assms(1)
      by (auto simp: run simp del: node_ok.simps split: prod.splits option.splits)
  qed (use assms(1) in auto)
qed (use assms(1) in \<open>simp add: in_parent_def\<close>)

lemma fs_write_ok: "fs_ok fs \<Longrightarrow> fs_ok (snd (fs_write p d fs))"
  unfolding fs_write_def by (rule in_parent_ok)
    (auto split: option.splits node.splits intro: node_ok_insert simp del: node_ok.simps(2))

lemma fs_append_ok: "fs_ok fs \<Longrightarrow> fs_ok (snd (fs_append p d fs))"
  unfolding fs_append_def by (rule in_parent_ok)
    (auto split: option.splits node.splits intro: node_ok_insert simp del: node_ok.simps(2))

lemma fs_touch_ok: "fs_ok fs \<Longrightarrow> fs_ok (snd (fs_touch p fs))"
  unfolding fs_touch_def by (rule in_parent_ok)
    (auto split: option.splits node.splits intro: node_ok_insert simp del: node_ok.simps(2))

lemma fs_remove_ok: "fs_ok fs \<Longrightarrow> fs_ok (snd (fs_remove p fs))"
  unfolding fs_remove_def by (rule in_parent_ok)
    (auto split: option.splits node.splits if_splits intro: node_ok_remove simp del: node_ok.simps(2))

lemma fs_mkdir_ok: assumes "fs_ok fs" shows "fs_ok (snd (fs_mkdir p fs))"
proof -
  have e: "node_ok (Dir [])" by (simp add: keys_sorted_def)
  have "fs_ok (snd (in_parent p (\<lambda>dir name.
          if map_of dir name \<noteq> None then (Inl AlreadyExists, None)
          else (Inr (), Some (bt_insert name (Dir []) dir))) fs))"
    by (rule in_parent_ok [OF assms]) (auto split: if_splits intro: node_ok_insert e simp del: node_ok.simps(2))
  then show ?thesis using assms by (simp add: fs_mkdir_def split: sum.splits)
qed

lemma fs_copy_ok: "fs_ok fs \<Longrightarrow> fs_ok (snd (fs_copy p q fs))"
  using fs_write_ok by (simp add: fs_copy_def split: sum.splits)

lemma fs_rename_ok: assumes "fs_ok fs" shows "fs_ok (snd (fs_rename p q fs))"
proof (cases "rbind (split_path p) (\<lambda>old_parts. rbind (split_path q) (\<lambda>new_parts.
             rbind (split_parent old_parts) (\<lambda>op. rbind (split_parent new_parts) (\<lambda>np. Inr (op, np)))))")
  case (Inl e)
  then show ?thesis using assms by (simp add: fs_rename_def)
next
  case (Inr x)
  obtain ps nm qs nn where x: "x = ((ps, nm), (qs, nn))" by (metis prod.exhaust)
  have nn: "name_ok nn"
    using Inr x split_path_names [of q]
    by (auto simp: rbind_eq_Inr_iff split_parent_def split: if_splits)
  show ?thesis
  proof (cases "dir_at (root fs) ps")
    case dir: (Inr dir)
    show ?thesis
    proof (cases "map_of dir nm")
      case (Some n)
      define fs1 where "fs1 = fs\<lparr>root := set_dir (root fs) ps (bt_remove nm dir)\<rparr>"
      have d: "node_ok (Dir dir)" using node_ok_dir_at [OF _ dir] assms by (simp add: fs_ok_def)
      then have ok: "node_ok n" and fs1: "fs_ok fs1"
        using node_ok_entry [OF d Some] fs_ok_set_dir [OF assms node_ok_remove [OF d]] by (simp_all add: fs1_def)
      have run: "fs_rename p q fs = (case dir_at (root fs1) qs of Inl e \<Rightarrow> (Inl e, fs1)
           | Inr new_dir \<Rightarrow> if map_of new_dir nn \<noteq> None then (Inl AlreadyExists, fs1)
             else (Inr (), fs1\<lparr>root := set_dir (root fs1) qs (bt_insert nn n new_dir)\<rparr>))"
        unfolding fs_rename_def Inr x sum.case prod.case dir Some option.case Let_def fs1_def ..
      have "node_ok (Dir nd)" if "dir_at (root fs1) qs = Inr nd" for nd
        using node_ok_dir_at [OF _ that] fs1 by (simp add: fs_ok_def)
      then show ?thesis
        using fs1 fs_ok_set_dir [OF fs1 node_ok_insert [OF _ nn ok]]
        by (auto simp: run simp del: node_ok.simps split: sum.splits)
    qed (use assms dir Inr x in \<open>simp add: fs_rename_def\<close>)
  qed (use assms Inr x in \<open>simp add: fs_rename_def\<close>)
qed

lemmas fs_ops_ok = fs_mkdir_ok fs_touch_ok fs_write_ok fs_append_ok fs_remove_ok fs_rename_ok fs_copy_ok

section \<open>Building and parsing paths\<close>

definition join_path :: "string list \<Rightarrow> path" where
  "join_path ps = concat (map (\<lambda>nm. CHR ''/'' # nm) ps)"

lemma split_on_append: "c \<notin> set xs \<Longrightarrow> split_on c (xs @ c # ys) = xs # split_on c ys"
  by (induction xs) auto

lemma split_on_none: "c \<notin> set xs \<Longrightarrow> split_on c xs = [xs]"
  by (induction xs) auto

lemma split_on_join: "\<forall>nm\<in>set ps. CHR ''/'' \<notin> set nm \<Longrightarrow> split_on (CHR ''/'') (join_path ps) = [] # ps"
proof (induction ps)
  case (Cons p ps)
  show ?case
  proof (cases ps)
    case Nil
    then show ?thesis using Cons.prems by (simp add: join_path_def split_on_none)
  next
    case (Cons q qs)
    have "join_path (p # ps) = CHR ''/'' # p @ join_path ps" by (simp add: join_path_def)
    moreover obtain r where r: "join_path ps = CHR ''/'' # r" using Cons by (simp add: join_path_def)
    ultimately show ?thesis
      using Cons.IH Cons.prems split_on_append [of "CHR ''/''" p r] by simp
  qed
qed (simp add: join_path_def)

lemma split_path_join:
  assumes "ps \<noteq> []" "\<forall>nm\<in>set ps. name_ok nm" shows "split_path (join_path ps) = Inr ps"
proof -
  have "take 1 (join_path ps) = ''/''" using assms(1) by (cases ps) (simp_all add: join_path_def)
  moreover have "split_on (CHR ''/'') (join_path ps) = [] # ps"
    using assms(2) by (intro split_on_join) (auto simp: name_ok_def)
  moreover have "filter (\<lambda>part. part \<noteq> [] \<and> part \<noteq> ''.'') ps = ps"
    using assms(2) by (auto simp: name_ok_def filter_id_conv)
  ultimately show ?thesis by (simp add: split_path_def)
qed

section \<open>File stores\<close>

text \<open>
  What the file descriptor table, the shell commands and the program loader rely on: a partial map
  from paths to contents, up to different spellings of the same path.
\<close>

locale file_store =
  fixes ok :: "'s \<Rightarrow> bool"
    and same :: "'p \<Rightarrow> 'p \<Rightarrow> bool"
    and stored :: "'s \<Rightarrow> 'p \<Rightarrow> data option"
    and rd :: "'p \<Rightarrow> 's \<Rightarrow> 'e + data"
    and wr :: "'p \<Rightarrow> data \<Rightarrow> 's \<Rightarrow> ('e + unit) \<times> 's"
    and ap :: "'p \<Rightarrow> data \<Rightarrow> 's \<Rightarrow> ('e + unit) \<times> 's"
  assumes same_refl: "same p p"
    and rd_file: "rd p s = Inr d \<longleftrightarrow> stored s p = Some d"
    and wr_ok: "wr p d s = (Inr u, s') \<Longrightarrow> stored s' q = (if same p q then Some d else stored s q)"
    and wr_err: "wr p d s = (Inl e, s') \<Longrightarrow> s' = s"
    and wr_file: "ok s \<Longrightarrow> stored s p = Some c \<Longrightarrow> \<exists>s'. wr p d s = (Inr (), s')"
    and ap_ok: "ap p d s = (Inr u, s') \<Longrightarrow> stored s' q =
      (if same p q then Some ((case stored s p of None \<Rightarrow> [] | Some c \<Rightarrow> c) @ d) else stored s q)"
    and ap_err: "ap p d s = (Inl e, s') \<Longrightarrow> s' = s"
    and wr_keeps: "ok s \<Longrightarrow> ok (snd (wr p d s))"
    and ap_keeps: "ok s \<Longrightarrow> ok (snd (ap p d s))"
begin

lemma read_after_write: "wr p d s = (Inr u, s') \<Longrightarrow> rd p s' = Inr d"
  by (simp add: rd_file wr_ok same_refl)

lemma read_other:
  "wr p d s = (Inr u, s') \<Longrightarrow> \<not> same p q \<Longrightarrow> rd q s' = Inr c \<longleftrightarrow> rd q s = Inr c"
  by (simp add: rd_file wr_ok)

lemma read_after_append: "rd p s = Inr c \<Longrightarrow> ap p d s = (Inr u, s') \<Longrightarrow> rd p s' = Inr (c @ d)"
  by (simp add: rd_file ap_ok same_refl)

text \<open>Rewriting a file that can be read always succeeds.\<close>

lemma rewrite_total:
  assumes "ok s" "rd p s = Inr c" shows "\<exists>s'. wr p d s = (Inr (), s') \<and> ok s' \<and> rd p s' = Inr d"
proof -
  obtain s' where "wr p d s = (Inr (), s')" using wr_file [OF assms(1), of p c d] assms(2) by (auto simp: rd_file)
  then show ?thesis using read_after_write wr_keeps [OF assms(1), of p d] by auto
qed

end

definition same_path :: "path \<Rightarrow> path \<Rightarrow> bool" where
  "same_path p q \<longleftrightarrow> split_path p = split_path q"

definition fs_file :: "ramfs \<Rightarrow> path \<Rightarrow> data option" where
  "fs_file fs p = (case split_path p of Inl _ \<Rightarrow> None
     | Inr ps \<Rightarrow> (case view fs ps of Some (KFile d) \<Rightarrow> Some d | _ \<Rightarrow> None))"

lemma fs_file_iff: "split_path p = Inr ps \<Longrightarrow> fs_file fs p = Some d \<longleftrightarrow> view fs ps = Some (KFile d)"
  by (auto simp: fs_file_def split: option.splits kind.splits)

lemma invalid_path_ops:
  assumes "split_path p = Inl e"
  shows "fs_write p d fs = (Inl e, fs)" "fs_append p d fs = (Inl e, fs)" "fs_touch p fs = (Inl e, fs)"
    "fs_read p fs = Inl e" "fs_file fs p = None"
  using assms
  by (simp_all add: fs_write_def fs_append_def fs_touch_def in_parent_def fs_read_def fs_node_def fs_file_def)

lemma fs_file_update:
  assumes "split_path p = Inr ps" "view fs' = (view fs)(ps \<mapsto> KFile d)"
  shows "fs_file fs' q = (if same_path p q then Some d else fs_file fs q)"
  using assms by (auto simp: fs_file_def same_path_def split: sum.splits)

lemma fs_write_result:
  assumes "split_path p = Inr ps"
  shows "fs_write p d fs = (Inr u, fs') \<Longrightarrow> writable (view fs) ps \<and> view fs' = (view fs)(ps \<mapsto> KFile d)"
    "fs_write p d fs = (Inl e, fs') \<Longrightarrow> \<not> writable (view fs) ps \<and> fs' = fs"
  using fs_write_refines [OF assms, of d fs] by (auto simp: fs_refines_def a_write_def split: if_splits)

lemma fs_append_result:
  assumes "split_path p = Inr ps"
  shows "fs_append p d fs = (Inr u, fs') \<Longrightarrow>
      writable (view fs) ps \<and> view fs' = (view fs)(ps \<mapsto> KFile (contents (view fs) ps @ d))"
    "fs_append p d fs = (Inl e, fs') \<Longrightarrow> \<not> writable (view fs) ps \<and> fs' = fs"
  using fs_append_refines [OF assms, of d fs] by (auto simp: fs_refines_def a_append_def split: if_splits)

lemma file_parent_dir:
  assumes "view fs ps = Some (KFile d)" "fs_ok fs" shows "writable (view fs) ps"
proof -
  have "ps \<noteq> []" using assms by (auto simp: view_def fs_ok_def)
  then obtain qs q where ps: "ps = qs @ [q]" by (metis rev_exhaust)
  have "node_view (root fs) qs = Some KDir"
    using assms(1) by (cases "dir_at (root fs) qs") (auto simp: ps view_def dir_at_error dir_view)
  then show ?thesis using assms(1) by (simp add: writable_def ps view_def)
qed

interpretation ram: file_store fs_ok same_path fs_file fs_read fs_write fs_append
proof unfold_locales
  fix p q :: path and fs fs' :: ramfs and d c and e :: fs_error and u :: unit
  show "same_path p p" by (simp add: same_path_def)
  show "fs_read p fs = Inr d \<longleftrightarrow> fs_file fs p = Some d"
    by (cases "split_path p") (simp_all add: invalid_path_ops fs_read_view fs_file_iff)
  show "fs_file fs' q = (if same_path p q then Some d else fs_file fs q)"
    if w: "fs_write p d fs = (Inr u, fs')"
  proof (cases "split_path p")
    case (Inr ps)
    then show ?thesis using fs_write_result(1) [OF Inr w] by (intro fs_file_update) auto
  qed (use w in \<open>simp add: invalid_path_ops\<close>)
  show "fs' = fs" if w: "fs_write p d fs = (Inl e, fs')"
    using w fs_write_result(2) [of p _ d fs e fs'] by (cases "split_path p") (auto simp: invalid_path_ops)
  show "\<exists>fs'. fs_write p d fs = (Inr (), fs')" if "fs_ok fs" and c: "fs_file fs p = Some c"
  proof (cases "split_path p")
    case (Inr ps)
    then have "writable (view fs) ps" using c file_parent_dir that(1) by (simp add: fs_file_iff)
    then show ?thesis
      using fs_write_result(2) [OF Inr, of d fs] by (cases "fs_write p d fs"; cases "fst (fs_write p d fs)") auto
  qed (use c in \<open>simp add: invalid_path_ops\<close>)
  show "fs_file fs' q = (if same_path p q then Some ((case fs_file fs p of None \<Rightarrow> [] | Some c \<Rightarrow> c) @ d)
      else fs_file fs q)" if w: "fs_append p d fs = (Inr u, fs')"
  proof (cases "split_path p")
    case (Inr ps)
    have "contents (view fs) ps = (case fs_file fs p of None \<Rightarrow> [] | Some c \<Rightarrow> c)"
      using Inr by (auto simp: contents_def fs_file_def split: option.splits kind.splits)
    then show ?thesis using fs_append_result(1) [OF Inr w] Inr by (intro fs_file_update) auto
  qed (use w in \<open>simp add: invalid_path_ops\<close>)
  show "fs' = fs" if w: "fs_append p d fs = (Inl e, fs')"
    using w fs_append_result(2) [of p _ d fs e fs'] by (cases "split_path p") (auto simp: invalid_path_ops)
qed (simp_all add: fs_write_ok fs_append_ok)

lemma ramfs_new_eq:
  "ramfs_new = Inr \<lparr>root = Dir [(''bin'', Dir []), (''home'', Dir []), (''lib'', Dir []), (''tmp'', Dir [])]\<rparr>"
  by code_simp

definition demo_fs :: ramfs where
  "demo_fs = \<lparr>root = Dir [(''bin'', Dir []), (''home'', Dir []), (''lib'', Dir []), (''tmp'', Dir [])]\<rparr>"

lemma demo_fs_ok: "fs_ok demo_fs"
  unfolding fs_ok_def demo_fs_def
  by code_simp

section \<open>Properties\<close>

text \<open>C11: the tree operations refine updates of a map from paths to files and directories.  \<open>write\<close>,
  \<open>append\<close> and \<open>touch\<close> succeed exactly when the parent is a directory and the path is not one,
  \<open>mkdir\<close> when moreover nothing is there, \<open>remove\<close> when something without children is there,
  \<open>copy\<close> when the source is a file and the destination can be written; success updates the map at that
  path only, failure leaves the file system exactly as it was.\<close>

theorem ramfs_refines_map:
  assumes "split_path p = Inr ps" "split_path q = Inr qs"
  shows "fs_refines (fs_write p d fs) fs (a_write ps d (view fs)) \<and>
    fs_refines (fs_append p d fs) fs (a_append ps d (view fs)) \<and>
    fs_refines (fs_touch p fs) fs (a_touch ps (view fs)) \<and>
    fs_refines (fs_mkdir p fs) fs (a_mkdir ps (view fs)) \<and>
    fs_refines (fs_remove p fs) fs (a_remove ps (view fs)) \<and>
    fs_refines (fs_copy p q fs) fs
      (case view fs ps of Some (KFile c) \<Rightarrow> a_write qs c (view fs) | _ \<Rightarrow> None)"
  by (intro conjI fs_write_refines fs_append_refines fs_touch_refines fs_mkdir_refines
      fs_remove_refines fs_copy_refines assms)

theorem ramfs_refines_map_witness:
  "fs_refines (fs_remove ''/home'' demo_fs) demo_fs (a_remove [''home''] (view demo_fs)) \<and>
   fst (fs_remove ''/home'' demo_fs) = Inr ()"
proof -
  have "split_path ''/home'' = Inr [''home'']" "split_path ''/tmp'' = Inr [''tmp'']" by code_simp+
  from ramfs_refines_map [OF this, of _ demo_fs]
  have "fs_refines (fs_remove ''/home'' demo_fs) demo_fs (a_remove [''home''] (view demo_fs))" by blast
  moreover have "fst (fs_remove ''/home'' demo_fs) = Inr ()" unfolding demo_fs_def by code_simp
  ultimately show ?thesis ..
qed

text \<open>Reading back what was written.  After a successful \<open>write\<close> or \<open>append\<close> the file reads as
  the new contents (respectively the old ones followed by the data), and every file at a path that is
  not another spelling of the same path reads as before.\<close>

lemma ramfs_read_back:
  assumes "fs_read p fs = Inr c" "fs_write p d fs = (Inr (), fs1)" "fs_append p d fs = (Inr (), fs2)"
    "\<not> same_path p q"
  shows "fs_read p fs1 = Inr d \<and> fs_read p fs2 = Inr (c @ d) \<and>
    (fs_read q fs1 = Inr r \<longleftrightarrow> fs_read q fs = Inr r)"
  using ram.read_after_write [OF assms(2)] ram.read_after_append [OF assms(1,3)]
    ram.read_other [OF assms(2,4)] by blast



text \<open>C24: the file system is well formed from the start and stays so: \<open>new\<close> succeeds, and every
  operation, failing or not, keeps the root a directory, all directories sorted by name without
  duplicates, and all names non-empty and free of slashes.  \<open>list\<close> therefore answers the names of
  exactly the existing entries, in increasing order.\<close>

theorem ramfs_well_formed:
  assumes "fs_ok fs"
  shows "(\<exists>fs0. ramfs_new = Inr fs0 \<and> fs_ok fs0) \<and>
    fs_ok (snd (fs_mkdir p fs)) \<and> fs_ok (snd (fs_touch p fs)) \<and> fs_ok (snd (fs_write p d fs)) \<and>
    fs_ok (snd (fs_append p d fs)) \<and> fs_ok (snd (fs_remove p fs)) \<and> fs_ok (snd (fs_rename p q fs)) \<and>
    fs_ok (snd (fs_copy p q fs)) \<and>
    (\<forall>ps names. split_path p = Inr ps \<longrightarrow> fs_list p fs = Inr names \<longrightarrow>
      sorted_wrt (<) names \<and> set names = {nm. view fs (ps @ [nm]) \<noteq> None})"
proof -
  have "sorted_wrt (<) names" if l: "fs_list p fs = Inr names" "split_path p = Inr ps" for names ps
  proof -
    obtain es where es: "node_at (root fs) ps = Inr (Dir es)" "names = map fst es"
      using l by (cases "node_at (root fs) ps") (auto simp: fs_list_def fs_node_def split: node.splits)
    then have "dir_at (root fs) ps = Inr es" by (simp add: dir_at_node_at)
    then have "node_ok (Dir es)" using assms by (auto simp: fs_ok_def dest: node_ok_dir_at)
    then show ?thesis using es(2) by (simp add: keys_sorted_def)
  qed
  moreover have "\<exists>fs0. ramfs_new = Inr fs0 \<and> fs_ok fs0"
    using ramfs_new_eq demo_fs_ok unfolding demo_fs_def by blast
  ultimately show ?thesis using fs_ops_ok [OF assms] fs_list_view(2) [of p _ fs] by simp
qed

theorem ramfs_well_formed_witness:
  "\<exists>fs0. ramfs_new = Inr fs0 \<and> fs_ok (snd (fs_mkdir ''/home/x'' fs0)) \<and>
     fs_list ''/'' fs0 = Inr [''bin'', ''home'', ''lib'', ''tmp'']"
proof -
  have "fs_list ''/'' demo_fs = Inr [''bin'', ''home'', ''lib'', ''tmp'']" unfolding demo_fs_def by code_simp
  moreover have "ramfs_new = Inr demo_fs" by (simp add: ramfs_new_eq demo_fs_def)
  moreover have "fs_ok (snd (fs_mkdir ''/home/x'' demo_fs))" using ramfs_well_formed [OF demo_fs_ok] by blast
  ultimately show ?thesis by blast
qed

text \<open>Paths can be rebuilt from their components: joining valid names with slashes and splitting
  the result gives the names back, and splitting any path gives only valid names.\<close>

lemma split_path_roundtrip:
  assumes "ps \<noteq> []" "\<forall>nm\<in>set ps. name_ok nm"
  shows "split_path (join_path ps) = Inr ps \<and> (\<forall>p qs. split_path p = Inr qs \<longrightarrow> list_all name_ok qs)"
  using split_path_join [OF assms] split_path_names by (auto simp: list_all_iff)

end
