(* ===== verification/Elf.thy ===== *)
theory Elf
  imports Ram_Fs
begin

text \<open>
  src/src/user/elf.rs: the ELF images of the built-in programs, and their parser.

  Header fields are natural numbers read from and written to little-endian byte groups.  Slice
  accesses of \<open>parse\<close> that go through \<^verbatim>\<open>get\<close> answer \<open>Truncated\<close>; its plain additions panic on
  overflow, which is why \<open>parse\<close> is a panicking computation of a result.
\<close>

abbreviation ELF_HEADER_SIZE :: usize where "ELF_HEADER_SIZE \<equiv> 64"
abbreviation PROGRAM_HEADER_SIZE :: usize where "PROGRAM_HEADER_SIZE \<equiv> 56"
abbreviation ENTRY_BASE :: nat where "ENTRY_BASE \<equiv> 4194304"
abbreviation ENTRY_STRIDE :: nat where "ENTRY_STRIDE \<equiv> 4096"

datatype elf_error = TooSmall | BadMagic | Unsupported | Truncated | MissingLoadSegment | UnknownProgram

datatype program_id = Shell | Ls | Rm | Mv | Cp | Touch | Cat | Echo | Sleep | Count

definition all_programs :: "program_id list" where
  "all_programs = [Shell, Ls, Rm, Mv, Cp, Touch, Cat, Echo, Sleep, Count]"

fun program_num :: "program_id \<Rightarrow> nat" where
  "program_num Shell = 1" | "program_num Ls = 2" | "program_num Rm = 3" | "program_num Mv = 4"
| "program_num Cp = 5" | "program_num Touch = 6" | "program_num Cat = 7" | "program_num Echo = 8"
| "program_num Sleep = 9" | "program_num Count = 10"

fun program_name :: "program_id \<Rightarrow> string" where
  "program_name Shell = ''shell''" | "program_name Ls = ''ls''" | "program_name Rm = ''rm''"
| "program_name Mv = ''mv''" | "program_name Cp = ''cp''" | "program_name Touch = ''touch''"
| "program_name Cat = ''cat''" | "program_name Echo = ''echo''" | "program_name Sleep = ''sleep''"
| "program_name Count = ''count''"

definition from_name :: "string \<Rightarrow> program_id option" where
  "from_name nm = find (\<lambda>p. program_name p = nm) all_programs"

definition program_entry :: "program_id \<Rightarrow> nat" where
  "program_entry p = ENTRY_BASE + program_num p * ENTRY_STRIDE"

definition from_entry :: "nat \<Rightarrow> program_id option" where
  "from_entry entry =
     (case checked_sub entry ENTRY_BASE of None \<Rightarrow> None
      | Some offset \<Rightarrow> if offset mod ENTRY_STRIDE \<noteq> 0 then None
          else find (\<lambda>p. program_num p = offset div ENTRY_STRIDE) all_programs)"

section \<open>Little-endian fields\<close>

fun le_bytes :: "nat \<Rightarrow> nat \<Rightarrow> data" where
  "le_bytes 0 v = []"
| "le_bytes (Suc n) v = of_nat v # le_bytes n (v div 256)"

fun from_le :: "data \<Rightarrow> nat" where
  "from_le [] = 0"
| "from_le (b # bs) = unat b + 256 * from_le bs"

text \<open>\<^verbatim>\<open>read_u16\<close>, \<^verbatim>\<open>read_u32\<close> and \<^verbatim>\<open>read_u64\<close> are \<open>read_le\<close> of 2, 4 and 8 bytes, and the same for
  the writers.\<close>

definition read_le :: "nat \<Rightarrow> data \<Rightarrow> usize \<Rightarrow> (elf_error + nat) run" where
  "read_le n img offset =
     rbind (add_usize offset n) (\<lambda>fin.
     Inr (if fin \<le> length img then Inr (from_le (take n (drop offset img))) else Inl Truncated))"

definition write_slice :: "data \<Rightarrow> usize \<Rightarrow> data \<Rightarrow> data run" where
  "write_slice img offset bs =
     (if offset + length bs \<le> length img
      then Inr (take offset img @ bs @ drop (offset + length bs) img) else Inl OutOfBounds)"

definition write_le :: "nat \<Rightarrow> data \<Rightarrow> usize \<Rightarrow> nat \<Rightarrow> data run" where
  "write_le n img offset v = write_slice img offset (le_bytes n v)"

section \<open>Parsing\<close>

record load_segment =
  seg_offset :: usize
  virt_addr :: nat
  file_size :: usize
  mem_size :: usize
  seg_flags :: nat

record parsed_elf =
  elf_entry :: nat
  elf_program :: program_id
  elf_load :: load_segment

fun load_loop :: "data \<Rightarrow> usize \<Rightarrow> usize \<Rightarrow> nat list \<Rightarrow> (elf_error + load_segment option) run" where
  "load_loop img phoff phentsize [] = Inr (Inr None)"
| "load_loop img phoff phentsize (i # idxs) =
     rbind (mul_usize i phentsize) (\<lambda>k.
     rbind (add_usize phoff k) (\<lambda>offset.
     rbind (add_usize offset PROGRAM_HEADER_SIZE) (\<lambda>fin.
     if length img < fin then Inr (Inl Truncated)
     else ebind (read_le 4 img offset) (\<lambda>p_type.
       if p_type \<noteq> 1 then load_loop img phoff phentsize idxs
       else ebind (read_le 4 img (offset + 4)) (\<lambda>p_flags.
            ebind (read_le 8 img (offset + 8)) (\<lambda>p_offset.
            ebind (read_le 8 img (offset + 16)) (\<lambda>p_vaddr.
            ebind (read_le 8 img (offset + 32)) (\<lambda>p_filesz.
            ebind (read_le 8 img (offset + 40)) (\<lambda>p_memsz.
            case checked_add p_offset p_filesz of None \<Rightarrow> Inr (Inl Truncated)
            | Some e \<Rightarrow> if length img < e then Inr (Inl Truncated)
              else if p_memsz < p_filesz then Inr (Inl Unsupported)
              else Inr (Inr (Some \<lparr>seg_offset = p_offset, virt_addr = p_vaddr, file_size = p_filesz,
                     mem_size = p_memsz, seg_flags = p_flags\<rparr>)))))))))))"

definition elf_parse :: "data \<Rightarrow> (elf_error + parsed_elf) run" where
  "elf_parse img =
     (if length img < ELF_HEADER_SIZE then Inr (Inl TooSmall)
      else if take 4 img \<noteq> [127, 69, 76, 70] then Inr (Inl BadMagic)
      else if img ! 4 \<noteq> 2 \<or> img ! 5 \<noteq> 1 \<or> img ! 6 \<noteq> 1 then Inr (Inl Unsupported)
      else ebind (read_le 2 img 16) (\<lambda>e_type.
           ebind (read_le 2 img 18) (\<lambda>e_machine.
           ebind (read_le 4 img 20) (\<lambda>e_version.
           if e_type \<noteq> 2 \<or> e_machine \<noteq> 62 \<or> e_version \<noteq> 1 then Inr (Inl Unsupported)
           else ebind (read_le 8 img 24) (\<lambda>entry.
                ebind (read_le 8 img 32) (\<lambda>phoff.
                ebind (read_le 2 img 52) (\<lambda>ehsize.
                ebind (read_le 2 img 54) (\<lambda>phentsize.
                ebind (read_le 2 img 56) (\<lambda>phnum.
                if ehsize \<noteq> ELF_HEADER_SIZE \<or> phentsize \<noteq> PROGRAM_HEADER_SIZE \<or> phnum = 0
                then Inr (Inl Unsupported)
                else case from_entry entry of None \<Rightarrow> Inr (Inl UnknownProgram)
                  | Some program \<Rightarrow>
                    ebind (load_loop img phoff phentsize [0..<phnum]) (\<lambda>load.
                    Inr (case load of None \<Rightarrow> Inl MissingLoadSegment
                      | Some l \<Rightarrow> Inr \<lparr>elf_entry = entry, elf_program = program, elf_load = l\<rparr>)))))))))))"

section \<open>Building images\<close>

definition str_bytes :: "string \<Rightarrow> data" where
  "str_bytes s = map (\<lambda>c. of_char c) s"

text \<open>The program writes a message and exits; the operand of the \<^verbatim>\<open>lea\<close> is patched once the place
  of the message is known.\<close>

definition user_program_code :: "program_id \<Rightarrow> data run" where
  "user_program_code p =
     (let message = str_bytes (''exec /bin/'' @ program_name p @ '' ok'' @ [CHR 13, CHR 10]);
          code = [0xb8] @ le_bytes 4 6 @ [0xbf] @ le_bytes 4 1;
          lea_start = length code;
          code = code @ [0x48, 0x8d, 0x35, 0, 0, 0, 0];
          lea_next = length code;
          code = code @ [0xba] @ le_bytes 4 (length message) @ [0x0f, 0x05] @
                 [0xb8] @ le_bytes 4 3 @ [0x31, 0xff] @ [0x0f, 0x05] @ [0xeb, 0xfe];
          message_offset = length code;
          displacement = message_offset - lea_next
      in rbind (write_slice code (lea_start + 3) (le_bytes 4 displacement)) (\<lambda>code.
         Inr (code @ message)))"

fun write_fields :: "(nat \<times> usize \<times> nat) list \<Rightarrow> data \<Rightarrow> data run" where
  "write_fields [] img = Inr img"
| "write_fields ((n, offset, v) # fs) img = rbind (write_le n img offset v) (write_fields fs)"

definition build_program_image :: "program_id \<Rightarrow> data run" where
  "build_program_image p =
     rbind (user_program_code p) (\<lambda>payload.
     let payload_offset = ELF_HEADER_SIZE + PROGRAM_HEADER_SIZE;
         img = replicate (payload_offset + length payload) 0;
         ph = ELF_HEADER_SIZE
     in rbind (write_slice img 0 [127, 69, 76, 70]) (\<lambda>img.
        let img = img[4 := 2, 5 := 1, 6 := 1, 7 := 0] in
        rbind (write_fields
          [(2, 16, 2), (2, 18, 62), (4, 20, 1), (8, 24, program_entry p), (8, 32, ELF_HEADER_SIZE),
           (8, 40, 0), (8, 48, 0), (2, 52, ELF_HEADER_SIZE), (2, 54, PROGRAM_HEADER_SIZE), (2, 56, 1),
           (2, 58, 0), (2, 60, 0), (2, 62, 0),
           (4, ph, 1), (4, ph + 4, 5), (8, ph + 8, payload_offset), (8, ph + 16, program_entry p),
           (8, ph + 24, program_entry p), (8, ph + 32, length payload), (8, ph + 40, length payload),
           (8, ph + 48, 0x1000)] img) (\<lambda>img.
        write_slice img payload_offset payload)))"

fun install_loop :: "program_id list \<Rightarrow> ramfs \<Rightarrow> ramfs run" where
  "install_loop [] fs = Inr fs"
| "install_loop (p # ps) fs =
     rbind (build_program_image p) (\<lambda>img.
     install_loop ps (snd (fs_write (''/bin/'' @ program_name p) img fs)))"

definition install_programs :: "ramfs \<Rightarrow> ramfs run" where
  "install_programs fs = install_loop all_programs fs"

section \<open>Fields of an image\<close>

lemma length_le_bytes [simp]: "length (le_bytes n v) = n"
  by (induction n v rule: le_bytes.induct) auto

lemma from_le_bytes: "from_le (le_bytes n v) = v mod 256 ^ n"
proof (induction n v rule: le_bytes.induct)
  case (2 n v)
  then show ?case by (simp add: unat_of_nat mod_mult2_eq mult.commute)
qed simp

definition slice :: "data \<Rightarrow> nat \<Rightarrow> usize \<Rightarrow> data" where
  "slice img n offset = take n (drop offset img)"

lemma write_slice_ok:
  assumes "offset + length bs \<le> length img"
  obtains img' where "write_slice img offset bs = Inr img'" "length img' = length img"
    "slice img' (length bs) offset = bs"
    "\<And>i. i < length img \<Longrightarrow> i < offset \<or> offset + length bs \<le> i \<Longrightarrow> img' ! i = img ! i"
proof
  show "write_slice img offset bs = Inr (take offset img @ bs @ drop (offset + length bs) img)"
    using assms by (simp add: write_slice_def)
  show "length (take offset img @ bs @ drop (offset + length bs) img) = length img" using assms by simp
  show "slice (take offset img @ bs @ drop (offset + length bs) img) (length bs) offset = bs"
    using assms by (simp add: slice_def)
  show "(take offset img @ bs @ drop (offset + length bs) img) ! i = img ! i"
    if "i < length img" "i < offset \<or> offset + length bs \<le> i" for i
    using that assms by (auto simp: nth_append min_def)
qed

lemma slice_cong:
  assumes "length img' = length img" "\<And>i. i < length img \<Longrightarrow> offset \<le> i \<Longrightarrow> i < offset + n \<Longrightarrow> img' ! i = img ! i"
  shows "slice img' n offset = slice img n offset"
  using assms by (auto simp: slice_def list_eq_iff_nth_eq)

definition apart_field :: "nat \<Rightarrow> usize \<Rightarrow> nat \<times> usize \<times> nat \<Rightarrow> bool" where
  "apart_field n offset f \<longleftrightarrow> offset + n \<le> fst (snd f) \<or> fst (snd f) + fst f \<le> offset"

text \<open>The value a field has after all writes: the last write to it, if no later one overlaps it.\<close>

fun last_field :: "(nat \<times> usize \<times> nat) list \<Rightarrow> nat \<Rightarrow> usize \<Rightarrow> nat option" where
  "last_field [] n offset = None"
| "last_field (f # fs) n offset =
     (case last_field fs n offset of Some v \<Rightarrow> Some v
      | None \<Rightarrow> if fst f = n \<and> fst (snd f) = offset \<and> list_all (apart_field n offset) fs
                then Some (snd (snd f) mod 256 ^ n) else None)"

lemma write_fields_ok:
  assumes "\<forall>f\<in>set fs. fst (snd f) + fst f \<le> length img"
  shows "\<exists>img'. write_fields fs img = Inr img' \<and> length img' = length img \<and>
    (\<forall>i<length img. (\<forall>f\<in>set fs. i < fst (snd f) \<or> fst (snd f) + fst f \<le> i) \<longrightarrow> img' ! i = img ! i) \<and>
    (\<forall>n k v. last_field fs n k = Some v \<longrightarrow> from_le (slice img' n k) = v)"
  using assms
proof (induction fs arbitrary: img)
  case (Cons f fs)
  obtain n k v where f: "f = (n, k, v)" by (cases f) auto
  obtain img1 where w: "write_slice img k (le_bytes n v) = Inr img1" "length img1 = length img"
    "slice img1 n k = le_bytes n v" "\<And>i. i < length img \<Longrightarrow> i < k \<or> k + n \<le> i \<Longrightarrow> img1 ! i = img ! i"
    using write_slice_ok [of k "le_bytes n v" img] Cons.prems by (auto simp: f)
  obtain img' where i: "write_fields fs img1 = Inr img'" "length img' = length img1"
    "\<forall>i<length img1. (\<forall>f\<in>set fs. i < fst (snd f) \<or> fst (snd f) + fst f \<le> i) \<longrightarrow> img' ! i = img1 ! i"
    "\<forall>n k v. last_field fs n k = Some v \<longrightarrow> from_le (slice img' n k) = v"
    using Cons.IH [of img1] Cons.prems w(2) by auto
  have "from_le (slice img' n' k') = v'" if l: "last_field (f # fs) n' k' = Some v'" for n' k' v'
  proof (cases "last_field fs n' k'")
    case None
    then have e: "n = n'" "k = k'" "v' = v mod 256 ^ n" "list_all (apart_field n k) fs"
      using l by (auto simp: f split: if_splits)
    have "slice img' n k = slice img1 n k"
    proof (rule slice_cong [OF i(2)])
      fix j assume j: "j < length img1" "k \<le> j" "j < k + n"
      have "\<forall>f\<in>set fs. j < fst (snd f) \<or> fst (snd f) + fst f \<le> j"
        using e(4) j(2,3) unfolding list_all_iff apart_field_def by (meson le_trans less_le_trans)
      then show "img' ! j = img1 ! j" using i(3) j(1) by blast
    qed
    then show ?thesis using w(3) e by (simp add: from_le_bytes)
  qed (use l i(4) in auto)
  then show ?case using w i by (auto simp: f write_le_def)
qed simp

lemma read_le_field:
  assumes "offset + n \<le> length img" "length img \<le> USIZE_MAX"
  shows "read_le n img offset = Inr (Inr (from_le (slice img n offset)))"
  using assms by (simp add: read_le_def run_simps slice_def)

section \<open>Programs\<close>

lemma all_programs_complete: "p \<in> set all_programs"
  by (cases p) (simp_all add: all_programs_def)

lemma from_name_name: "from_name (program_name p) = Some p"
  by (cases p) (simp_all add: from_name_def all_programs_def)

lemma from_name_iff: "from_name nm = Some p \<longleftrightarrow> program_name p = nm"
  using from_name_name by (auto simp: from_name_def find_Some_iff)

lemma from_entry_entry: "from_entry (program_entry p) = Some p"
  by (cases p) (simp_all add: from_entry_def program_entry_def checked_sub_def all_programs_def)

lemma from_entry_iff: "from_entry e = Some p \<longleftrightarrow> e = program_entry p"
proof
  assume f: "from_entry e = Some p"
  then have e: "ENTRY_BASE \<le> e" "(e - ENTRY_BASE) mod ENTRY_STRIDE = 0"
    and "find (\<lambda>p. program_num p = (e - ENTRY_BASE) div ENTRY_STRIDE) all_programs = Some p"
    unfolding from_entry_def checked_sub_def by (simp_all split: if_splits)
  then have "program_num p = (e - ENTRY_BASE) div ENTRY_STRIDE"
    unfolding find_Some_iff by blast
  with e div_mult_mod_eq [of "e - ENTRY_BASE" ENTRY_STRIDE] show "e = program_entry p"
    unfolding program_entry_def by simp
qed (simp add: from_entry_entry)

lemma program_entry_bound: "program_entry p < 4194304 + 11 * 4096"
  by (cases p) (simp_all add: program_entry_def)

text \<open>The code of a program: fixed length up to its message, and the operand of the \<^verbatim>\<open>lea\<close> reaches
  the message.\<close>

lemma le_bytes_4: "le_bytes 4 v = [of_nat v, of_nat (v div 256), of_nat (v div 256 div 256),
    of_nat (v div 256 div 256 div 256)]"
proof -
  have "(4::nat) = Suc (Suc (Suc (Suc 0)))" by simp
  then show ?thesis by (simp only: le_bytes.simps)
qed

definition program_message :: "program_id \<Rightarrow> data" where
  "program_message p = str_bytes (''exec /bin/'' @ program_name p @ '' ok'' @ [CHR 13, CHR 10])"

lemma length_program_message: "length (program_message p) \<le> 20"
  by (cases p) (simp_all add: program_message_def str_bytes_def)

definition program_prefix :: "program_id \<Rightarrow> data" where
  "program_prefix p = [0xb8, 6, 0, 0, 0, 0xbf, 1, 0, 0, 0, 0x48, 0x8d, 0x35, 18, 0, 0, 0, 0xba] @
     le_bytes 4 (length (program_message p)) @
     [0x0f, 0x05, 0xb8, 3, 0, 0, 0, 0x31, 0xff, 0x0f, 0x05, 0xeb, 0xfe]"

lemma user_program_code_eq: "user_program_code p = Inr (program_prefix p @ program_message p)"
  unfolding user_program_code_def program_message_def [symmetric] Let_def
  by (simp add: program_prefix_def write_slice_def le_bytes_4)

lemma length_program_prefix: "length (program_prefix p) = 35"
  by (simp add: program_prefix_def)

abbreviation payload :: "program_id \<Rightarrow> data" where
  "payload p \<equiv> program_prefix p @ program_message p"

definition header_fields :: "program_id \<Rightarrow> nat \<Rightarrow> (nat \<times> usize \<times> nat) list" where
  "header_fields p len =
     [(2, 16, 2), (2, 18, 62), (4, 20, 1), (8, 24, program_entry p), (8, 32, 64),
      (8, 40, 0), (8, 48, 0), (2, 52, 64), (2, 54, 56), (2, 56, 1),
      (2, 58, 0), (2, 60, 0), (2, 62, 0),
      (4, 64, 1), (4, 68, 5), (8, 72, 120), (8, 80, program_entry p),
      (8, 88, program_entry p), (8, 96, len), (8, 104, len), (8, 112, 4096)]"

lemma header_fields_inside:
  "f \<in> set (header_fields p len) \<Longrightarrow> 16 \<le> fst (snd f) \<and> fst (snd f) + fst f \<le> 120"
  by (auto simp: header_fields_def)

definition image_field :: "program_id \<Rightarrow> nat \<Rightarrow> nat \<Rightarrow> nat option" where
  "image_field p n k = map_of
     [((2, 16), 2), ((2, 18), 62), ((4, 20), 1), ((8, 24), program_entry p), ((8, 32), 64),
      ((2, 52), 64), ((2, 54), 56), ((2, 56), 1), ((4, 64), 1), ((4, 68), 5), ((8, 72), 120),
      ((8, 80), program_entry p), ((8, 96), 35 + length (program_message p)),
      ((8, 104), 35 + length (program_message p))] (n, k)"

lemma header_last_fields:
  assumes "image_field p n k = Some v"
  shows "last_field (header_fields p (35 + length (program_message p))) n k = Some v"
proof -
  have b: "program_entry p mod 18446744073709551616 = program_entry p"
    "(35 + length (program_message p)) mod 18446744073709551616 = 35 + length (program_message p)"
    using program_entry_bound [of p] length_program_message [of p] by simp_all
  show ?thesis
    using assms unfolding image_field_def header_fields_def
    by (simp split: if_splits) (simp_all add: apart_field_def, use b in auto)
qed

lemma build_program_image_ok:
  obtains img where "build_program_image p = Inr img" "length img = 155 + length (program_message p)"
    "take 4 img = [127, 69, 76, 70]" "img ! 4 = 2" "img ! 5 = 1" "img ! 6 = 1"
    "\<And>n k v. image_field p n k = Some v \<Longrightarrow> k + n \<le> 120 \<Longrightarrow> from_le (slice img n k) = v"
    "slice img (length (payload p)) 120 = payload p"
proof -
  let ?len = "155 + length (program_message p)"
  have four: "Suc (Suc (Suc (Suc 0))) = 4" by simp
  obtain i1 where i1: "write_slice (replicate ?len 0) 0 [127, 69, 76, 70] = Inr i1"
    "length i1 = ?len" "slice i1 4 0 = [127, 69, 76, 70]"
    by (rule write_slice_ok [of 0 "[127, 69, 76, 70]" "replicate ?len 0"]) (simp_all add: four)
  define i2 where "i2 = i1[4 := 2, 5 := 1, 6 := 1, 7 := 0]"
  have i2: "length i2 = ?len" "take 4 i2 = [127, 69, 76, 70]" "i2 ! 4 = 2" "i2 ! 5 = 1" "i2 ! 6 = 1"
    using i1(2,3) by (simp_all add: i2_def slice_def)
  let ?fs = "header_fields p (35 + length (program_message p))"
  have "\<forall>f\<in>set ?fs. fst (snd f) + fst f \<le> length i2"
    using i2(1) by (fastforce dest: header_fields_inside)
  from write_fields_ok [OF this] obtain i3 where i3: "write_fields ?fs i2 = Inr i3"
    "length i3 = length i2"
    and i3': "\<forall>i<length i2. (\<forall>f\<in>set ?fs. i < fst (snd f) \<or> fst (snd f) + fst f \<le> i) \<longrightarrow> i3 ! i = i2 ! i"
    "\<forall>n k v. last_field ?fs n k = Some v \<longrightarrow> from_le (slice i3 n k) = v"
    by blast
  have i3'': "i3 ! i = i2 ! i" if "i < 16" for i
  proof -
    have "\<forall>f\<in>set ?fs. i < fst (snd f) \<or> fst (snd f) + fst f \<le> i"
      using that by (fastforce dest: header_fields_inside)
    then show ?thesis using i3'(1) that i2(1) by simp
  qed
  obtain i4 where i4: "write_slice i3 120 (payload p) = Inr i4" "length i4 = length i3"
    "slice i4 (length (payload p)) 120 = payload p" "\<And>i. i < 120 \<Longrightarrow> i4 ! i = i3 ! i"
    using write_slice_ok [of 120 "payload p" i3] i3(2) i2(1) by (auto simp: length_program_prefix)
  show thesis
  proof (rule that [of i4])
    show "build_program_image p = Inr i4"
      using i1(1) i3(1) i4(1)
      by (simp add: build_program_image_def user_program_code_eq length_program_prefix Let_def
          header_fields_def i2_def)
    show "length i4 = ?len" using i4(2) i3(2) i2(1) by simp
    have e: "i4 ! i = i2 ! i" if "i < 16" for i using i4(4) [of i] i3'' [of i] that by simp
    have "slice i4 4 0 = slice i2 4 0" by (rule slice_cong) (use e i4(2) i3(2) in simp_all)
    then show "take 4 i4 = [127, 69, 76, 70]" using i2(2) by (simp add: slice_def)
    show "i4 ! 4 = 2" "i4 ! 5 = 1" "i4 ! 6 = 1" using i2 by (simp_all add: e)
    show "from_le (slice i4 n k) = v" if "image_field p n k = Some v" "k + n \<le> 120" for n k v
      using slice_cong [of i4 i3 k n] i4 i3'(2) header_last_fields [OF that(1)] that(2) by simp
  qed (fact i4(3))
qed

section \<open>Parsing a built image\<close>

lemmas parse_simps = run_simps

lemma parse_built:
  assumes "build_program_image p = Inr img"
  shows "elf_parse img = Inr (Inr \<lparr>elf_entry = program_entry p, elf_program = p,
    elf_load = \<lparr>seg_offset = 120, virt_addr = program_entry p, file_size = length (payload p),
      mem_size = length (payload p), seg_flags = 5\<rparr>\<rparr>)"
    and "slice img (length (payload p)) 120 = payload p"
proof -
  have len: "length img = 155 + length (program_message p)" "take 4 img = [127, 69, 76, 70]"
    "img ! 4 = 2" "img ! 5 = 1" "img ! 6 = 1"
    and fld: "\<And>n k v. image_field p n k = Some v \<Longrightarrow> k + n \<le> 120 \<Longrightarrow> from_le (slice img n k) = v"
    and "slice img (length (payload p)) 120 = payload p"
    by (rule build_program_image_ok [of p]; simp add: assms)+
  show "slice img (length (payload p)) 120 = payload p" by fact
  have small: "length img \<le> 175" using len(1) length_program_message [of p] by simp
  have rd: "read_le n img k = Inr (Inr v)" if "image_field p n k = Some v" "k + n \<le> 120" for n k v
    using read_le_field [of k n img] fld [OF that] that(2) len(1) small by (simp add: USIZE_MAX_def)
  note rds = rd [of 2 16 2] rd [of 2 18 62] rd [of 4 20 1] rd [of 8 24 "program_entry p"]
    rd [of 8 32 64] rd [of 2 52 64] rd [of 2 54 56] rd [of 2 56 1] rd [of 4 64 1] rd [of 4 68 5]
    rd [of 8 72 120] rd [of 8 80 "program_entry p"] rd [of 8 96 "length (payload p)"]
    rd [of 8 104 "length (payload p)"]
  have "load_loop img 64 56 [0..<1] = Inr (Inr (Some \<lparr>seg_offset = 120, virt_addr = program_entry p,
    file_size = length (payload p), mem_size = length (payload p), seg_flags = 5\<rparr>))"
    using rds len(1) small
    by (simp add: image_field_def parse_simps length_program_prefix checked_add_def USIZE_MAX_def)
  then show "elf_parse img = Inr (Inr \<lparr>elf_entry = program_entry p, elf_program = p,
    elf_load = \<lparr>seg_offset = 120, virt_addr = program_entry p, file_size = length (payload p),
      mem_size = length (payload p), seg_flags = 5\<rparr>\<rparr>)"
    using rds len from_entry_entry [of p]
    by (simp add: elf_parse_def image_field_def parse_simps length_program_prefix)
qed

section \<open>Accepted images and panics\<close>

text \<open>\<open>ebind\<close> chains return a value only through their success branches.\<close>

lemma ebind_Inr_Inr: "ebind m f = Inr (Inr y) \<longleftrightarrow> (\<exists>x. m = Inr (Inr x) \<and> f x = Inr (Inr y))"
  by (auto simp: ebind_def rbind_def split: sum.splits)

lemma load_loop_sound:
  assumes "load_loop img phoff phentsize idxs = Inr (Inr (Some l))"
  shows "seg_offset l + file_size l \<le> length img \<and> file_size l \<le> mem_size l"
  using assms
  by (induction img phoff phentsize idxs rule: load_loop.induct)
    (auto simp: ebind_Inr_Inr rbind_eq_Inr_iff checked_add_def split: if_splits option.splits)

lemma elf_parse_accepted:
  assumes "elf_parse img = Inr (Inr e)"
  shows "elf_entry e = program_entry (elf_program e)"
    "seg_offset (elf_load e) + file_size (elf_load e) \<le> length img"
    "file_size (elf_load e) \<le> mem_size (elf_load e)"
proof -
  have "from_entry (elf_entry e) = Some (elf_program e) \<and>
    (\<exists>phoff phentsize idxs. load_loop img phoff phentsize idxs = Inr (Inr (Some (elf_load e))))"
    using assms unfolding elf_parse_def
    by (auto simp: ebind_Inr_Inr split: if_splits option.splits) blast
  then show "elf_entry e = program_entry (elf_program e)"
    "seg_offset (elf_load e) + file_size (elf_load e) \<le> length img"
    "file_size (elf_load e) \<le> mem_size (elf_load e)"
    using load_loop_sound by (auto simp: from_entry_iff)
qed

lemma read_le_no_panic: "offset + n \<le> USIZE_MAX \<Longrightarrow> no_panic (read_le n img offset)"
  by (simp add: read_le_def run_simps)

lemma load_loop_no_panic:
  assumes "length img \<le> USIZE_MAX" "\<forall>i\<in>set idxs. phoff + i * phentsize + 56 \<le> USIZE_MAX"
  shows "no_panic (load_loop img phoff phentsize idxs)"
  using assms
proof (induction img phoff phentsize idxs rule: load_loop.induct)
  case (2 img phoff phentsize i idxs)
  let ?o = "phoff + i * phentsize"
  have step: "mul_usize i phentsize = Inr (i * phentsize)" "add_usize phoff (i * phentsize) = Inr ?o"
    "add_usize ?o PROGRAM_HEADER_SIZE = Inr (?o + 56)"
    using 2(3) by (simp_all add: run_simps)
  have rd: "no_panic (read_le n img (?o + d))" if "\<not> length img < ?o + 56" "d + n \<le> 56" for n d
    using that 2(2) by (intro read_le_no_panic) simp
  show ?case
    unfolding load_loop.simps step rbind_simps
    by (intro no_panic_intros rd 2(1) [OF step] rd [where d = 0, simplified]) (use 2(2,3) in auto)
qed simp

lemma elf_parse_no_panic:
  assumes "length img \<le> USIZE_MAX" "from_le (slice img 8 32) + 65536 * 56 \<le> USIZE_MAX"
  shows "no_panic (elf_parse img)"
proof -
  have phnum: "n < 65536" if "read_le 2 img k = Inr (Inr n)" for n k
  proof -
    have "from_le bs < 256 ^ length bs" for bs
    proof (induction bs)
      case (Cons b bs)
      have "unat b < 256" by (rule unsigned_less [of b, simplified])
      with Cons show ?case by simp
    qed simp
    from this [of "take 2 (drop k img)"] show ?thesis
      using that by (auto simp: read_le_def rbind_eq_Inr_iff split: if_splits
          intro: less_le_trans [OF _ power_increasing [of _ 2 "256 :: nat", simplified]])
  qed
  have ph: "v = from_le (slice img 8 32)" if "read_le 8 img 32 = Inr (Inr v)" for v
    using that by (auto simp: read_le_def slice_def rbind_eq_Inr_iff split: if_splits)
  show ?thesis
    unfolding elf_parse_def
    by (intro no_panic_intros read_le_no_panic load_loop_no_panic assms(1) ballI)
      (use assms(2) in \<open>auto simp: USIZE_MAX_def dest!: phnum ph\<close>)
qed

text \<open>A 64-byte header whose program header table starts at the end of the address space.\<close>

definition crafted_image :: data where
  "crafted_image =
     [127, 69, 76, 70, 2, 1, 1, 0, 0, 0, 0, 0, 0, 0, 0, 0, 2, 0, 62, 0, 1, 0, 0, 0,
      0, 16, 64, 0, 0, 0, 0, 0, 255, 255, 255, 255, 255, 255, 255, 255,
      0, 0, 0, 0, 0, 0, 0, 0, 0, 0, 0, 0, 64, 0, 56, 0, 1, 0, 0, 0, 0, 0, 0, 0]"

lemma crafted_image_panics: "elf_parse crafted_image = Inl Overflow"
proof -
  have rd: "read_le 2 crafted_image 16 = Inr (Inr 2)" "read_le 2 crafted_image 18 = Inr (Inr 62)"
    "read_le 4 crafted_image 20 = Inr (Inr 1)" "read_le 8 crafted_image 24 = Inr (Inr (program_entry Shell))"
    "read_le 8 crafted_image 32 = Inr (Inr 18446744073709551615)"
    "read_le 2 crafted_image 52 = Inr (Inr 64)" "read_le 2 crafted_image 54 = Inr (Inr 56)"
    "read_le 2 crafted_image 56 = Inr (Inr 1)"
    by (simp_all add: read_le_def run_simps USIZE_MAX_def crafted_image_def program_entry_def)
  have "load_loop crafted_image 18446744073709551615 56 [0..<1] = Inl Overflow"
    by (simp add: mul_usize_def add_usize_def USIZE_MAX_def)
  moreover have "\<not> length crafted_image < 64" "take 4 crafted_image = [127, 69, 76, 70]"
    "crafted_image ! 4 = 2" "crafted_image ! 5 = 1" "crafted_image ! 6 = 1"
    by (simp_all add: crafted_image_def)
  ultimately show ?thesis
    unfolding elf_parse_def by (simp add: rd from_entry_entry)
qed

section \<open>Installing the programs\<close>

lemma bin_path: "split_path (''/bin/'' @ program_name p) = Inr [''bin'', program_name p]"
  using split_path_join [of "[''bin'', program_name p]"]
  by (cases p) (simp_all add: join_path_def name_ok_def)

lemma program_name_inj [simp]: "program_name p = program_name q \<longleftrightarrow> p = q"
  using from_name_name by (metis option.inject)

definition program_image :: "program_id \<Rightarrow> data" where
  "program_image p = (case build_program_image p of Inr img \<Rightarrow> img | Inl _ \<Rightarrow> [])"

lemma build_program_image_eq: "build_program_image p = Inr (program_image p)"
  by (rule build_program_image_ok [of p]) (simp add: program_image_def)

lemma install_loop_effect:
  assumes "view fs [''bin''] = Some KDir" "\<forall>p\<in>set ps. view fs [''bin'', program_name p] \<noteq> Some KDir"
  shows "\<exists>fs'. install_loop ps fs = Inr fs' \<and> view fs' = (\<lambda>q. case
    find (\<lambda>p. q = [''bin'', program_name p]) ps of Some p \<Rightarrow> Some (KFile (program_image p)) | None \<Rightarrow> view fs q)"
  using assms
proof (induction ps arbitrary: fs)
  case (Cons p ps)
  obtain r fs1 where w: "fs_write (''/bin/'' @ program_name p) (program_image p) fs = (r, fs1)" by fastforce
  have "writable (view fs) [''bin'', program_name p]" using Cons.prems by (simp add: writable_def)
  then have v: "view fs1 = (view fs)([''bin'', program_name p] \<mapsto> KFile (program_image p))"
    using w fs_write_result [OF bin_path] by (cases r) blast+
  then have "view fs1 [''bin''] = Some KDir" "\<forall>p\<in>set ps. view fs1 [''bin'', program_name p] \<noteq> Some KDir"
    using Cons.prems by (simp_all add: fun_upd_def)
  from Cons.IH [OF this] obtain fs' where "install_loop ps fs1 = Inr fs'" and fs': "view fs' = (\<lambda>q. case
    find (\<lambda>p. q = [''bin'', program_name p]) ps of Some p \<Rightarrow> Some (KFile (program_image p)) | None \<Rightarrow> view fs1 q)"
    by blast
  then have "install_loop (p # ps) fs = Inr fs'" using w by (simp add: build_program_image_eq)
  moreover have "find (\<lambda>r. program_name p = program_name r) ps = None \<or>
      find (\<lambda>r. program_name p = program_name r) ps = Some p"
    by (cases "find (\<lambda>r. program_name p = program_name r) ps") (auto simp: find_Some_iff)
  ultimately show ?case by (auto simp: fs' v fun_eq_iff split: option.splits)
qed auto

section \<open>Properties\<close>

text \<open>C14: the image built for a program parses back to that program: its entry, one read-execute load
  segment at the entry address whose bytes are exactly the generated code, and the operand of the
  generated \<^verbatim>\<open>lea\<close> (relative to the next instruction, at offset 17) reaches the message.\<close>

theorem elf_build_parse_roundtrip:
  "\<exists>img code. build_program_image p = Inr img \<and> user_program_code p = Inr code \<and>
     elf_parse img = Inr (Inr \<lparr>elf_entry = program_entry p, elf_program = p,
       elf_load = \<lparr>seg_offset = 120, virt_addr = program_entry p, file_size = length code,
         mem_size = length code, seg_flags = 5\<rparr>\<rparr>) \<and>
     take (length code) (drop 120 img) = code \<and>
     drop (17 + from_le (take 4 (drop 13 code))) code =
       str_bytes (''exec /bin/'' @ program_name p @ '' ok'' @ [CHR 13, CHR 10])"
proof -
  have "take 4 (drop 13 (payload p)) = [18, 0, 0, 0]" "drop 35 (payload p) = program_message p"
    by (simp_all add: program_prefix_def)
  then show ?thesis
    using parse_built [OF build_program_image_eq [of p]] build_program_image_eq [of p] user_program_code_eq [of p]
    by (auto simp: slice_def program_message_def)
qed

text \<open>C15: the parser accepts only images whose load segment lies inside the image and fits its memory
  size and whose entry is that of the program it names; it does not panic when the program header
  table offset leaves room for 65536 entries, but there is an image, no longer than a
  header, whose table offset near the end of
  the address space makes the unchecked addition overflow, a panic.\<close>

theorem elf_parse_safe:
  assumes "length img \<le> USIZE_MAX"
  shows "(\<forall>e. elf_parse img = Inr (Inr e) \<longrightarrow>
      elf_entry e = program_entry (elf_program e) \<and>
      seg_offset (elf_load e) + file_size (elf_load e) \<le> length img \<and>
      file_size (elf_load e) \<le> mem_size (elf_load e)) \<and>
    (from_le (take 8 (drop 32 img)) + 65536 * PROGRAM_HEADER_SIZE \<le> USIZE_MAX \<longrightarrow> no_panic (elf_parse img)) \<and>
    (\<exists>crafted. length crafted = ELF_HEADER_SIZE \<and> elf_parse crafted = Inl Overflow)"
proof -
  have "length crafted_image = ELF_HEADER_SIZE" by (simp add: crafted_image_def)
  then show ?thesis
    using elf_parse_accepted [of img] elf_parse_no_panic [OF assms] crafted_image_panics
    by (auto simp: slice_def)
qed

theorem elf_parse_safe_witness:
  "no_panic (elf_parse (replicate 64 0)) \<and> (\<exists>crafted. length crafted = 64 \<and> elf_parse crafted = Inl Overflow)"
proof -
  have "from_le (replicate n 0) = 0" for n by (induction n) simp_all
  then show ?thesis using elf_parse_safe [of "replicate 64 0"] by (simp add: USIZE_MAX_def)
qed

lemma install_programs_all:
  assumes "view fs [''bin''] = Some KDir" "\<forall>p. view fs [''bin'', program_name p] \<noteq> Some KDir"
  shows "\<exists>fs'. install_programs fs = Inr fs' \<and>
    (\<forall>p. \<exists>img e. fs_read (''/bin/'' @ program_name p) fs' = Inr img \<and> elf_parse img = Inr (Inr e) \<and>
      elf_program e = p \<and> elf_entry e = program_entry p) \<and>
    (\<forall>q. (\<nexists>p. q = [''bin'', program_name p]) \<longrightarrow> view fs' q = view fs q)"
proof -
  obtain fs' where fs': "install_programs fs = Inr fs'" "view fs' = (\<lambda>q. case
    find (\<lambda>p. q = [''bin'', program_name p]) all_programs of
      Some p \<Rightarrow> Some (KFile (program_image p)) | None \<Rightarrow> view fs q)"
    using install_loop_effect [OF assms(1), of all_programs] assms(2) by (auto simp: install_programs_def)
  have "view fs' [''bin'', program_name p] = Some (KFile (program_image p))" for p
  proof -
    have "find (\<lambda>q. [''bin'', program_name p] = [''bin'', program_name q]) all_programs = Some p"
      by (cases p) (simp_all add: all_programs_def)
    then show ?thesis unfolding fs'(2) by simp
  qed
  then have "fs_read (''/bin/'' @ program_name p) fs' = Inr (program_image p)" for p
    using ram.rd_file fs_file_iff [OF bin_path] by blast
  moreover have "view fs' q = view fs q" if "\<nexists>p. q = [''bin'', program_name p]" for q
    using that by (auto simp: fs'(2) find_Some_iff split: option.splits)
  ultimately show ?thesis
    using fs'(1) parse_built(1) [OF build_program_image_eq] by fastforce
qed

end
