(* ===== verification/Proc.thy ===== *)
theory Proc
  imports Paging Elf
begin

text \<open>
  src/src/task/proc_layout.rs and src/src/task/proc.rs: processes, their creation and the
  round-robin scheduler.

  A \<^verbatim>\<open>ProcRef\<close> is the index of its \<^verbatim>\<open>Proc\<close> in \<open>procs\<close> (the boxes are leaked and never freed).
  The machine state adds to the page tables what the scheduler touches: the process table, the
  ready queue, the pid counter, the current process, the interrupt flag, the loaded page-table
  root, the stack of the task state segment, the callee-saved registers of the CPU, the bytes of
  the user frames, and the trap frames written to the kernel stacks.

  A context switch leaves the running function in the middle, so \<open>schedule\<close> runs until control has
  left the switch code and says where it went: back into a process that was suspended inside
  \<open>schedule\<close>, into the entry of a new kernel task, or to user mode.  The local variable
  \<^verbatim>\<open>interrupts_were_enabled\<close> of a suspended \<open>schedule\<close> is kept in \<open>suspended_if\<close>.  Code addresses a
  context may hold are the constructors of \<open>code_ptr\<close>.  Pages are taken from the buddy allocator;
  allocation of the boxes and of the queue on the kernel heap is not part of this model.
\<close>

unbundle bit_operations_syntax

section \<open>Layout of user address spaces\<close>

abbreviation USER_CODE_BASE :: usize where "USER_CODE_BASE \<equiv> 0x400000"
abbreviation USER_SLOT_SIZE :: usize where "USER_SLOT_SIZE \<equiv> 0x200000"
abbreviation USER_STACK_TOP :: usize where "USER_STACK_TOP \<equiv> 0x7ffffffff000"
abbreviation DEFAULT_TIME_SLICE_TICKS :: nat where "DEFAULT_TIME_SLICE_TICKS \<equiv> 5"

definition user_code_base :: "u64 \<Rightarrow> usize run" where
  "user_code_base pid = rbind (mul_usize (unat pid) USER_SLOT_SIZE) (\<lambda>k. add_usize USER_CODE_BASE k)"

definition user_stack_top :: "u64 \<Rightarrow> usize run" where
  "user_stack_top pid = rbind (mul_usize (unat pid) USER_SLOT_SIZE) (\<lambda>k. sub_usize USER_STACK_TOP k)"

definition consume_tick :: "nat \<Rightarrow> nat \<Rightarrow> bool \<times> nat" where
  "consume_tick ticks_left default_slice =
     (let t = (if 0 < ticks_left then ticks_left - 1 else ticks_left)
      in if t = 0 then (True, default_slice) else (False, t))"

definition proc_align_down :: "usize \<Rightarrow> usize \<Rightarrow> usize" where
  "proc_align_down addr align = addr AND not_usize (align - 1)"

section \<open>Processes\<close>

abbreviation KERNEL_STACK_ORDER :: usize where "KERNEL_STACK_ORDER \<equiv> 2"
abbreviation KERNEL_STACK_SIZE :: usize where "KERNEL_STACK_SIZE \<equiv> 16384"
abbreviation USER_STACK_ORDER :: usize where "USER_STACK_ORDER \<equiv> 1"
abbreviation USER_STACK_SIZE :: usize where "USER_STACK_SIZE \<equiv> 8192"
abbreviation USER_CODE_SELECTOR :: u64 where "USER_CODE_SELECTOR \<equiv> 0x23"
abbreviation USER_DATA_SELECTOR :: u64 where "USER_DATA_SELECTOR \<equiv> 0x1b"

datatype proc_state = Ready | Running | Blocked | Exited

datatype proc_kind = KernelProc | UserProc

datatype spawn_error = BadElf | ProgramTooLarge | NoMemory

datatype code_ptr = NullCode | KernelTaskBootstrap | UserTaskBootstrap | SwitchReturn

record cpu_context =
  c_r15 :: u64
  c_r14 :: u64
  c_r13 :: u64
  c_r12 :: u64
  c_rbx :: u64
  c_rbp :: u64
  c_rsp :: usize
  c_rip :: code_ptr

definition context_new :: cpu_context where
  "context_new = \<lparr>c_r15 = 0, c_r14 = 0, c_r13 = 0, c_r12 = 0, c_rbx = 0, c_rbp = 0, c_rsp = 0, c_rip = NullCode\<rparr>"

text \<open>\<^verbatim>\<open>TrapFrame\<close>: the fifteen general registers in the order \<^verbatim>\<open>r15\<close> to \<^verbatim>\<open>rax\<close>, and the \<^verbatim>\<open>iretq\<close> frame.\<close>

record trap_frame =
  t_gprs :: "u64 list"
  t_rip :: u64
  t_cs :: u64
  t_rflags :: u64
  t_rsp :: u64
  t_ss :: u64

definition trap_frame_new_user :: "u64 \<Rightarrow> u64 \<Rightarrow> trap_frame" where
  "trap_frame_new_user rip rsp =
     \<lparr>t_gprs = replicate 15 0, t_rip = rip, t_cs = USER_CODE_SELECTOR, t_rflags = 0x202, t_rsp = rsp,
      t_ss = USER_DATA_SELECTOR\<rparr>"

abbreviation TRAP_FRAME_SIZE :: usize where "TRAP_FRAME_SIZE \<equiv> 160"

type_synonym kernel_entry = nat
type_synonym proc_ref = nat

record proc =
  pid :: u64
  pstate :: proc_state
  pcontext :: cpu_context
  pagetable :: phys_addr
  kstack_phys :: usize
  kstack_top :: usize
  pkind :: proc_kind
  ticks_left :: nat
  pentry :: "kernel_entry option"
  ptrap_frame :: "usize option"
  user_code_phys :: "usize option"
  user_stack_phys :: "usize option"

record machine = vm +
  procs :: "proc list"
  ready_queue :: "proc_ref list"
  next_pid :: u64
  current :: "proc_ref option"
  iflag :: bool
  cr3 :: phys_addr
  tss_rsp0 :: usize
  cpu :: cpu_context
  suspended_if :: "proc_ref \<Rightarrow> bool"
  frame_bytes :: "phys_addr \<Rightarrow> byte"
  trap_frames :: "usize \<Rightarrow> trap_frame option"
  bootdata :: "usize \<times> usize"
  ring0_top :: usize

text \<open>Where control is after a call of the scheduler; \<open>NoProc\<close> is a return before any process exists.\<close>

datatype control = NoProc | InProc proc_ref | EnterKernel kernel_entry | EnterUser trap_frame | Halted

definition upd_proc :: "proc_ref \<Rightarrow> (proc \<Rightarrow> proc) \<Rightarrow> machine \<Rightarrow> machine" where
  "upd_proc p f st = st\<lparr>procs := (procs st)[p := f (procs st ! p)]\<rparr>"

definition new_proc :: "proc \<Rightarrow> machine \<Rightarrow> proc_ref \<times> machine" where
  "new_proc p st = (length (procs st), st\<lparr>procs := procs st @ [p]\<rparr>)"

definition push_ready :: "proc_ref \<Rightarrow> machine \<Rightarrow> machine" where
  "push_ready p st =
     (let st = upd_proc p (pstate_update (\<lambda>_. Ready)) st in st\<lparr>ready_queue := ready_queue st @ [p]\<rparr>)"

definition proc_init :: "machine \<Rightarrow> machine run" where
  "proc_init st =
     (if current st \<noteq> None then Inr st
      else rbind (kernel_pml4 st) (\<lambda>pml4.
        let (r, st) = new_proc \<lparr>pid = 0, pstate = Running, pcontext = context_new, pagetable = pml4,
              kstack_phys = 0, kstack_top = ring0_top st, pkind = KernelProc,
              ticks_left = DEFAULT_TIME_SLICE_TICKS, pentry = None, ptrap_frame = None,
              user_code_phys = None, user_stack_phys = None\<rparr> st
        in Inr (st\<lparr>current := Some r\<rparr>)))"

section \<open>Switching\<close>

text \<open>\<^verbatim>\<open>switch_cr3\<close>, \<^verbatim>\<open>set_kernel_stack\<close> and \<^verbatim>\<open>__switch_context\<close>.\<close>

definition switch_cr3 :: "phys_addr \<Rightarrow> machine \<Rightarrow> machine" where
  "switch_cr3 pml4 st = st\<lparr>cr3 := unat (phys_as_u64 pml4 AND ADDR_MASK)\<rparr>"

definition set_kernel_stack :: "usize \<Rightarrow> machine \<Rightarrow> machine" where
  "set_kernel_stack stop st = st\<lparr>tss_rsp0 := stop\<rparr>"

definition switch_context :: "proc_ref \<Rightarrow> proc_ref \<Rightarrow> machine \<Rightarrow> machine" where
  "switch_context old nxt st =
     (let st = upd_proc old (pcontext_update (\<lambda>_. (cpu st)\<lparr>c_rip := SwitchReturn\<rparr>)) st
      in st\<lparr>cpu := pcontext (procs st ! nxt)\<rparr>)"

definition current_proc :: "machine \<Rightarrow> proc_ref run" where
  "current_proc st = (case current st of None \<Rightarrow> Inl (Expect ''no current process; call task::proc::init first'')
     | Some p \<Rightarrow> Inr p)"

definition kernel_task_bootstrap :: "machine \<Rightarrow> (control \<times> machine) run" where
  "kernel_task_bootstrap st =
     rbind (current_proc st) (\<lambda>p.
     case pentry (procs st ! p) of None \<Rightarrow> Inl (Expect ''kernel task missing entry point'')
     | Some e \<Rightarrow> Inr (EnterKernel e, st\<lparr>iflag := True\<rparr>))"

text \<open>\<^verbatim>\<open>__enter_user\<close> loads the registers and returns to ring 3 with the flags of the frame.\<close>

definition user_task_bootstrap :: "machine \<Rightarrow> (control \<times> machine) run" where
  "user_task_bootstrap st =
     rbind (current_proc st) (\<lambda>p.
     case ptrap_frame (procs st ! p) of None \<Rightarrow> Inl (Expect ''user task missing trap frame'')
     | Some a \<Rightarrow> (case trap_frames st a of None \<Rightarrow> Inl (Assertion ''no trap frame in memory'')
        | Some tf \<Rightarrow> Inr (EnterUser tf, st\<lparr>iflag := bit (t_rflags tf) 9\<rparr>)))"

definition restore_interrupts :: "bool \<Rightarrow> machine \<Rightarrow> machine" where
  "restore_interrupts were_enabled st = (if were_enabled then st\<lparr>iflag := True\<rparr> else st)"

text \<open>The code the switch jumps to.\<close>

definition resume :: "proc_ref \<Rightarrow> machine \<Rightarrow> (control \<times> machine) run" where
  "resume p st = (case c_rip (cpu st) of
       SwitchReturn \<Rightarrow> Inr (InProc p, restore_interrupts (suspended_if st p) st)
     | KernelTaskBootstrap \<Rightarrow> kernel_task_bootstrap st
     | UserTaskBootstrap \<Rightarrow> user_task_bootstrap st
     | NullCode \<Rightarrow> Inl (Assertion ''jump to address 0''))"

definition schedule :: "machine \<Rightarrow> (control \<times> machine) run" where
  "schedule st =
     (let were_enabled = iflag st; st = st\<lparr>iflag := False\<rparr> in
      case ready_queue st of
        [] \<Rightarrow> Inr (case current st of None \<Rightarrow> NoProc | Some p \<Rightarrow> InProc p,
                 restore_interrupts were_enabled st)
      | nxt # rest \<Rightarrow>
          let st = st\<lparr>ready_queue := rest\<rparr> in
          rbind (current_proc st) (\<lambda>old.
          if old = nxt then Inr (InProc old, restore_interrupts were_enabled st)
          else
            let st = (if pstate (procs st ! old) = Running
                      then let st = upd_proc old (pstate_update (\<lambda>_. Ready)) st
                           in st\<lparr>ready_queue := ready_queue st @ [old]\<rparr>
                      else st);
                st = upd_proc nxt (pstate_update (\<lambda>_. Running)) st;
                st = upd_proc nxt (ticks_left_update (\<lambda>_. DEFAULT_TIME_SLICE_TICKS)) st;
                st = st\<lparr>current := Some nxt\<rparr>;
                st = set_kernel_stack (kstack_top (procs st ! nxt)) st;
                st = switch_cr3 (pagetable (procs st ! nxt)) st;
                st = st\<lparr>suspended_if := (suspended_if st)(old := were_enabled)\<rparr>;
                st = switch_context old nxt st
            in resume nxt st))"

definition yield_now :: "machine \<Rightarrow> (control \<times> machine) run" where
  "yield_now st = schedule st"

definition exit_current :: "machine \<Rightarrow> (control \<times> machine) run" where
  "exit_current st =
     (let st = st\<lparr>iflag := False\<rparr>;
          me = current st;
          st = (case me of None \<Rightarrow> st | Some p \<Rightarrow> upd_proc p (pstate_update (\<lambda>_. Exited)) st)
      in rbind (schedule st) (\<lambda>(ctl, st).
         if ctl = NoProc \<or> (\<exists>p. me = Some p \<and> ctl = InProc p)
         then Inr (Halted, st\<lparr>iflag := True\<rparr>) else Inr (ctl, st)))"

definition on_timer_tick :: "machine \<Rightarrow> (control option \<times> machine) run" where
  "on_timer_tick st = (case current st of None \<Rightarrow> Inr (None, st)
     | Some p \<Rightarrow>
        let (expired, t) = consume_tick (ticks_left (procs st ! p)) DEFAULT_TIME_SLICE_TICKS;
            st = upd_proc p (ticks_left_update (\<lambda>_. t)) st
        in if expired then rbind (schedule st) (\<lambda>(ctl, st). Inr (Some ctl, st)) else Inr (None, st))"

section \<open>Creating processes\<close>

definition take_frames :: "string \<Rightarrow> usize \<Rightarrow> machine \<Rightarrow> (usize option \<times> machine) run" where
  "take_frames msg ord st =
     with_buddy msg st (\<lambda>b. rbind (allocate ord b) (\<lambda>(r, b). Inr (r, st\<lparr>vm_buddy := Some b\<rparr>)))"

definition expect_frames :: "string \<Rightarrow> (usize option \<times> machine) run \<Rightarrow> (usize \<times> machine) run" where
  "expect_frames msg m = rbind m (\<lambda>(r, st). case r of None \<Rightarrow> Inl (Expect msg) | Some a \<Rightarrow> Inr (a, st))"

text \<open>The kernel heap grows by a chunk of the same page allocator when a \<^verbatim>\<open>Box\<close>, \<^verbatim>\<open>Vec\<close>, \<^verbatim>\<open>String\<close> or \<^verbatim>\<open>VecDeque\<close> finds no
  free block (\<^verbatim>\<open>grow_heap\<close> of src/src/mem/alloc.rs); without a chunk \<^verbatim>\<open>alloc_error\<close> panics.\<close>

definition heap_grow :: "machine \<Rightarrow> machine run" where
  "heap_grow st =
     rbind (take_frames ''You must init buddy allocator before allocating heap memory'' CHUNK_ORDER st) (\<lambda>(r, st).
     case r of None \<Rightarrow> Inl (Assertion ''allocation error'') | Some _ \<Rightarrow> Inr st)"

fun heap_grows :: "nat \<Rightarrow> machine \<Rightarrow> machine run" where
  "heap_grows 0 st = Inr st"
| "heap_grows (Suc n) st = rbind (heap_grow st) (heap_grows n)"

definition fetch_pid :: "machine \<Rightarrow> u64 \<times> machine" where
  "fetch_pid st = (next_pid st, st\<lparr>next_pid := next_pid st + 1\<rparr>)"

definition kstack_top_of :: "usize \<Rightarrow> usize run" where
  "kstack_top_of kstack = rbind (add_usize kstack KERNEL_VMA) (\<lambda>v. add_usize v KERNEL_STACK_SIZE)"

definition spawn_kernel :: "kernel_entry \<Rightarrow> machine \<Rightarrow> (proc_ref \<times> machine) run" where
  "spawn_kernel entry st =
     rbind (proc_init st) (\<lambda>st.
     let (new_pid, st) = fetch_pid st in
     rbind (expect_frames ''no memory for kernel task stack''
              (take_frames ''You must initialize buddy allocator before spawning a kernel task.'' KERNEL_STACK_ORDER st))
       (\<lambda>(kstack, st).
     rbind (kstack_top_of kstack) (\<lambda>stop.
     rbind (kernel_pml4 st) (\<lambda>pml4.
     let (r, st) = new_proc \<lparr>pid = new_pid, pstate = Ready,
           pcontext = context_new\<lparr>c_rsp := proc_align_down stop 16, c_rip := KernelTaskBootstrap\<rparr>,
           pagetable = pml4, kstack_phys = kstack, kstack_top = stop, pkind = KernelProc,
           ticks_left = DEFAULT_TIME_SLICE_TICKS, pentry = Some entry, ptrap_frame = None,
           user_code_phys = None, user_stack_phys = None\<rparr> st
     in Inr (r, push_ready r st)))))"

definition bootdata_pages :: "machine \<Rightarrow> usize list run" where
  "bootdata_pages st =
     rbind (add_usize (snd (bootdata st)) PAGE_SIZE) (\<lambda>x.
     rbind (sub_usize x 1) (\<lambda>y.
     Inr (page_steps (proc_align_down (fst (bootdata st)) PAGE_SIZE) (y AND not_usize (PAGE_SIZE - 1)))))"

fun map_list :: "phys_addr \<Rightarrow> entry_flags \<Rightarrow> (virt_addr \<times> phys_addr) list \<Rightarrow> machine \<Rightarrow> machine run" where
  "map_list pt fl [] st = Inr st"
| "map_list pt fl ((v, p) # vs) st = rbind (map_into_page_table pt v p fl st) (map_list pt fl vs)"

definition map_bootdata_identity :: "phys_addr \<Rightarrow> machine \<Rightarrow> machine run" where
  "map_bootdata_identity pt st =
     rbind (bootdata_pages st) (\<lambda>as.
     map_list pt (PRESENT OR WRITABLE OR NX) (map (\<lambda>a. (a, a)) as) st)"

definition map_user_stack :: "phys_addr \<Rightarrow> usize \<Rightarrow> usize \<Rightarrow> machine \<Rightarrow> machine run" where
  "map_user_stack pt stack_top stack_phys st =
     rbind (sub_usize stack_top USER_STACK_SIZE) (\<lambda>bottom.
     map_list pt (PRESENT OR WRITABLE OR USER OR NX)
       (map (\<lambda>i. (bottom + i * PAGE_SIZE, stack_phys + i * PAGE_SIZE)) [0..<2 ^ USER_STACK_ORDER]) st)"

text \<open>Zeroing the code frame and copying the program into it.\<close>

definition write_code :: "phys_addr \<Rightarrow> data \<Rightarrow> machine \<Rightarrow> machine" where
  "write_code frame code st = st\<lparr>frame_bytes := (\<lambda>a.
     if frame \<le> a \<and> a < frame + PAGE_SIZE
     then (if a - frame < length code then code ! (a - frame) else 0) else frame_bytes st a)\<rparr>"

text \<open>The common end of \<^verbatim>\<open>spawn_user\<close> and \<^verbatim>\<open>spawn_elf\<close>: trap frame, process and ready queue.\<close>

definition finish_user ::
  "u64 \<Rightarrow> phys_addr \<Rightarrow> usize \<Rightarrow> usize \<Rightarrow> usize \<Rightarrow> u64 \<Rightarrow> usize \<Rightarrow> machine \<Rightarrow> (proc_ref \<times> machine) run" where
  "finish_user new_pid pt kstack code_phys ustack_phys rip stack_top st =
     rbind (kstack_top_of kstack) (\<lambda>stop.
     rbind (sub_usize stop TRAP_FRAME_SIZE) (\<lambda>tf.
     let st = st\<lparr>trap_frames := (trap_frames st)(tf \<mapsto> trap_frame_new_user rip (of_nat stack_top))\<rparr>;
         (r, st) = new_proc \<lparr>pid = new_pid, pstate = Ready,
           pcontext = context_new\<lparr>c_rsp := proc_align_down tf 16, c_rip := UserTaskBootstrap\<rparr>,
           pagetable = pt, kstack_phys = kstack, kstack_top = stop, pkind = UserProc,
           ticks_left = DEFAULT_TIME_SLICE_TICKS, pentry = None, ptrap_frame = Some tf,
           user_code_phys = Some code_phys, user_stack_phys = Some ustack_phys\<rparr> st
     in Inr (r, push_ready r st)))"

abbreviation "no_buddy \<equiv> ''You must initialize buddy allocator before spawning a user task.''"

definition spawn_user :: "data \<Rightarrow> machine \<Rightarrow> (proc_ref \<times> machine) run" where
  "spawn_user code st =
     rbind (proc_init st) (\<lambda>st.
     if PAGE_SIZE < length code then Inl (Assertion ''user loader supports one code page'')
     else
     let (new_pid, st) = fetch_pid st in
     rbind (user_code_base new_pid) (\<lambda>code_base.
     rbind (user_stack_top new_pid) (\<lambda>stack_top.
     rbind (create_user_page_table st) (\<lambda>(pt, st).
     rbind (map_bootdata_identity pt st) (\<lambda>st.
     rbind (expect_frames ''no memory for user task kernel stack'' (take_frames no_buddy KERNEL_STACK_ORDER st)) (\<lambda>(kstack, st).
     rbind (expect_frames ''no memory for user code page'' (take_frames no_buddy 0 st)) (\<lambda>(code_phys, st).
     rbind (expect_frames ''no memory for user stack'' (take_frames no_buddy USER_STACK_ORDER st)) (\<lambda>(ustack_phys, st).
     rbind (add_usize code_phys KERNEL_VMA) (\<lambda>_.
     let st = write_code code_phys (if code = [] then [0xeb, 0xfe] else code) st in
     rbind (map_into_page_table pt code_base code_phys (PRESENT OR USER) st) (\<lambda>st.
     rbind (map_user_stack pt stack_top ustack_phys st) (\<lambda>st.
     finish_user new_pid pt kstack code_phys ustack_phys (of_nat code_base) stack_top st)))))))))))"

text \<open>\<open>spawn_elf\<close> gives up with \<open>NoMemory\<close> where \<open>spawn_user\<close> panics; frames already taken stay taken.\<close>

definition try_frames :: "(usize option \<times> machine) run \<Rightarrow> (usize \<Rightarrow> machine \<Rightarrow> ((spawn_error + 'a) \<times> machine) run) \<Rightarrow>
    ((spawn_error + 'a) \<times> machine) run" where
  "try_frames m f = rbind m (\<lambda>(r, st). case r of None \<Rightarrow> Inr (Inl NoMemory, st) | Some a \<Rightarrow> f a st)"

definition spawn_elf :: "data \<Rightarrow> machine \<Rightarrow> ((spawn_error + proc_ref) \<times> machine) run" where
  "spawn_elf img st =
     rbind (proc_init st) (\<lambda>st.
     rbind (elf_parse img) (\<lambda>parsed. case parsed of
       Inl _ \<Rightarrow> Inr (Inl BadElf, st)
     | Inr e \<Rightarrow>
       if PAGE_SIZE < file_size (elf_load e) \<or> PAGE_SIZE < mem_size (elf_load e)
       then Inr (Inl ProgramTooLarge, st)
       else
       let (new_pid, st) = fetch_pid st in
       rbind (user_stack_top new_pid) (\<lambda>stack_top.
       rbind (create_user_page_table st) (\<lambda>(pt, st).
       rbind (map_bootdata_identity pt st) (\<lambda>st.
       try_frames (take_frames no_buddy KERNEL_STACK_ORDER st) (\<lambda>kstack st.
       try_frames (take_frames no_buddy 0 st) (\<lambda>code_phys st.
       try_frames (take_frames no_buddy USER_STACK_ORDER st) (\<lambda>ustack_phys st.
       rbind (add_usize code_phys KERNEL_VMA) (\<lambda>_.
       rbind (guard (seg_offset (elf_load e) \<le> length img) OutOfBounds) (\<lambda>_.
       let st = write_code code_phys (take (file_size (elf_load e)) (drop (seg_offset (elf_load e)) img)) st in
       rbind (map_into_page_table pt (virt_addr (elf_load e)) code_phys (PRESENT OR USER) st) (\<lambda>st.
       rbind (map_user_stack pt stack_top ustack_phys st) (\<lambda>st.
       rbind (finish_user new_pid pt kstack code_phys ustack_phys (of_nat (elf_entry e)) stack_top st) (\<lambda>(r, st).
       Inr (Inr r, st))))))))))))))"

end
