(* ===== verification/Proc_Sched.thy ===== *)
theory Proc_Sched
  imports Proc
begin

text \<open>
  The scheduler of src/src/task/proc.rs: no process is lost or queued twice, the hardware state
  follows the current process, and ready processes run in the order of the queue.
\<close>

section \<open>The invariant\<close>

text \<open>A queued process can be switched to: its saved code address is a return into \<open>schedule\<close> or a
  bootstrap routine with what that routine needs.\<close>

definition resumable :: "machine \<Rightarrow> proc_ref \<Rightarrow> bool" where
  "resumable st p = (case c_rip (pcontext (procs st ! p)) of
       SwitchReturn \<Rightarrow> True
     | KernelTaskBootstrap \<Rightarrow> pentry (procs st ! p) \<noteq> None
     | UserTaskBootstrap \<Rightarrow> (\<exists>a. ptrap_frame (procs st ! p) = Some a \<and> trap_frames st a \<noteq> None)
     | NullCode \<Rightarrow> False)"

definition loaded :: "machine \<Rightarrow> proc_ref \<Rightarrow> bool" where
  "loaded st c \<longleftrightarrow> tss_rsp0 st = kstack_top (procs st ! c) \<and>
     cr3 st = unat (phys_as_u64 (pagetable (procs st ! c)) AND ADDR_MASK)"

definition sched_inv :: "machine \<Rightarrow> bool" where
  "sched_inv st \<longleftrightarrow> (\<exists>c. current st = Some c \<and> c < length (procs st) \<and> distinct (c # ready_queue st) \<and>
     (\<forall>p\<in>set (ready_queue st). p < length (procs st) \<and> pstate (procs st ! p) = Ready \<and> resumable st p) \<and>
     pstate (procs st ! c) \<in> {Running, Exited} \<and>
     (\<forall>p<length (procs st). p = c \<or> p \<in> set (ready_queue st) \<or> pstate (procs st ! p) = Exited) \<and>
     loaded st c \<and> 0 < ticks_left (procs st ! c) \<and> ticks_left (procs st ! c) \<le> DEFAULT_TIME_SLICE_TICKS)"

lemma resumable_cong:
  "procs st' ! p = procs st ! p \<Longrightarrow> trap_frames st' = trap_frames st \<Longrightarrow> resumable st' p = resumable st p"
  by (simp only: resumable_def)

lemma sched_invE:
  assumes "sched_inv st"
  obtains c where "current st = Some c" "c < length (procs st)" "c \<notin> set (ready_queue st)"
    "distinct (ready_queue st)"
    "\<And>p. p \<in> set (ready_queue st) \<Longrightarrow> p < length (procs st) \<and> pstate (procs st ! p) = Ready \<and> resumable st p"
    "pstate (procs st ! c) \<in> {Running, Exited}"
    "\<And>p. p < length (procs st) \<Longrightarrow> p = c \<or> p \<in> set (ready_queue st) \<or> pstate (procs st ! p) = Exited"
    "loaded st c" "0 < ticks_left (procs st ! c)" "ticks_left (procs st ! c) \<le> DEFAULT_TIME_SLICE_TICKS"
  using assms unfolding sched_inv_def by auto

section \<open>One call of the scheduler\<close>

text \<open>The state in which control arrives at the next process.\<close>

definition switched :: "machine \<Rightarrow> proc_ref \<Rightarrow> proc_ref \<Rightarrow> proc_ref list \<Rightarrow> machine" where
  "switched st c n q = st\<lparr>iflag := False,
     ready_queue := q @ (if pstate (procs st ! c) = Running then [c] else []),
     procs := (procs st)[
       c := (procs st ! c)\<lparr>pstate := (if pstate (procs st ! c) = Running then Ready else pstate (procs st ! c)),
              pcontext := (cpu st)\<lparr>c_rip := SwitchReturn\<rparr>\<rparr>,
       n := (procs st ! n)\<lparr>pstate := Running, ticks_left := DEFAULT_TIME_SLICE_TICKS\<rparr>],
     current := Some n, tss_rsp0 := kstack_top (procs st ! n),
     cr3 := unat (phys_as_u64 (pagetable (procs st ! n)) AND ADDR_MASK),
     suspended_if := (suspended_if st)(c := iflag st),
     cpu := pcontext (procs st ! n)\<rparr>"

lemma upd_proc_procs [simp]:
  "procs (upd_proc p f st) = (procs st)[p := f (procs st ! p)]"
  "ready_queue (upd_proc p f st) = ready_queue st" "current (upd_proc p f st) = current st"
  "iflag (upd_proc p f st) = iflag st" "trap_frames (upd_proc p f st) = trap_frames st"
  "pt_mem (upd_proc p f st) = pt_mem st" "vm_buddy (upd_proc p f st) = vm_buddy st"
  "KERNEL_PML4 (upd_proc p f st) = KERNEL_PML4 st" "cr3 (upd_proc p f st) = cr3 st"
  "tss_rsp0 (upd_proc p f st) = tss_rsp0 st" "next_pid (upd_proc p f st) = next_pid st"
  "frame_bytes (upd_proc p f st) = frame_bytes st" "bootdata (upd_proc p f st) = bootdata st"
  "suspended_if (upd_proc p f st) = suspended_if st" "cpu (upd_proc p f st) = cpu st"
  by (simp_all add: upd_proc_def)

lemma schedule_switch:
  assumes "ready_queue st = n # q" "current st = Some c" "c \<noteq> n" "c < length (procs st)" "n < length (procs st)"
  shows "schedule st = resume n (switched st c n q)"
proof -
  have "\<exists>st'. schedule st = resume n st' \<and> st' = switched st c n q"
    unfolding schedule_def Let_def
    by (rule exI, rule conjI)
      (simp add: assms current_proc_def, rule machine.equality,
       simp_all add: assms(3-5) switched_def set_kernel_stack_def switch_cr3_def switch_context_def
         list_update_swap [of n c] upd_proc_def assms(3) [symmetric])
  then show ?thesis by blast
qed

lemma schedule_stay:
  assumes "ready_queue st = []" "current st = Some c"
  shows "schedule st = Inr (InProc c, st)"
  using assms by (simp add: schedule_def Let_def restore_interrupts_def)

lemma switched_simps:
  assumes "c \<noteq> n" "c < length (procs st)" "n < length (procs st)"
  shows "current (switched st c n q) = Some n" "length (procs (switched st c n q)) = length (procs st)"
    "ready_queue (switched st c n q) = q @ (if pstate (procs st ! c) = Running then [c] else [])"
    "p \<noteq> c \<Longrightarrow> p \<noteq> n \<Longrightarrow> procs (switched st c n q) ! p = procs st ! p"
    "procs (switched st c n q) ! n = (procs st ! n)\<lparr>pstate := Running, ticks_left := DEFAULT_TIME_SLICE_TICKS\<rparr>"
    "procs (switched st c n q) ! c = (procs st ! c)\<lparr>pstate := (if pstate (procs st ! c) = Running then Ready
       else pstate (procs st ! c)), pcontext := (cpu st)\<lparr>c_rip := SwitchReturn\<rparr>\<rparr>"
    "trap_frames (switched st c n q) = trap_frames st" "cpu (switched st c n q) = pcontext (procs st ! n)"
    "loaded (switched st c n q) n"
  using assms by (auto simp: switched_def loaded_def)

lemma switched_inv:
  assumes "sched_inv st" "ready_queue st = n # q" "current st = Some c"
  shows "sched_inv (switched st c n q)"
proof -
  note E = sched_invE [OF assms(1)]
  have c: "c < length (procs st)" "c \<noteq> n" "n < length (procs st)" "c \<notin> set q" "n \<notin> set q" "distinct q"
    "pstate (procs st ! c) \<in> {Running, Exited}"
    by (rule E; use assms(2,3) in auto)+
  have rd: "p < length (procs st) \<and> pstate (procs st ! p) = Ready \<and> resumable st p" if "p \<in> set q" for p
    by (rule E) (use assms(2) that in auto)
  have ex: "p = c \<or> p = n \<or> p \<in> set q \<or> pstate (procs st ! p) = Exited" if "p < length (procs st)" for p
    by (rule E) (use assms(2,3) that in auto)
  note sw = switched_simps [OF c(2,1,3), where q = q]
  have pq: "procs (switched st c n q) ! p = procs st ! p" if "p \<in> set q" for p
    using that c(4,5) sw(4) [of p] by metis
  have res: "resumable (switched st c n q) p" if "p \<in> set q" for p
    using rd [OF that] resumable_cong [OF pq [OF that] sw(7)] by simp
  have resc: "resumable (switched st c n q) c" by (simp add: resumable_def sw)
  have "\<forall>p\<in>set (ready_queue (switched st c n q)). p < length (procs (switched st c n q)) \<and>
      pstate (procs (switched st c n q) ! p) = Ready \<and> resumable (switched st c n q) p"
    using rd res resc c by (auto simp: pq sw(2,3,6) split: if_splits)
  moreover have "p = n \<or> p \<in> set (ready_queue (switched st c n q)) \<or> pstate (procs (switched st c n q) ! p) = Exited"
    if "p < length (procs st)" for p
    using ex [OF that] c(7) sw(4) [of p] by (cases "p = c") (auto simp: sw(3,6))
  moreover have "distinct (n # ready_queue (switched st c n q))" using c by (simp add: sw(3))
  ultimately show ?thesis
    unfolding sched_inv_def using c(3) sw(9) by (auto simp: sw(1,2,5))
qed

text \<open>Interrupt flag and destination depend on how the next process was suspended; the rest of the
  state is \<open>switched\<close>.\<close>

definition arrived :: "machine \<Rightarrow> control \<times> machine \<Rightarrow> bool" where
  "arrived st r \<longleftrightarrow> (\<exists>b. snd r = st\<lparr>iflag := b\<rparr>) \<and> (fst r = InProc (the (current st)) \<or>
     (\<exists>e. fst r = EnterKernel e \<and> pentry (procs st ! the (current st)) = Some e) \<or>
     (\<exists>a tf. fst r = EnterUser tf \<and> ptrap_frame (procs st ! the (current st)) = Some a \<and> trap_frames st a = Some tf))"

lemma restore_interrupts_eq: "restore_interrupts b st = st\<lparr>iflag := b \<or> iflag st\<rparr>"
  by (simp add: restore_interrupts_def)

lemma resume_total:
  assumes "current st = Some n" "cpu st = pcontext (procs st ! n)" "resumable st n"
  shows "\<exists>r. resume n st = Inr r \<and> arrived st r"
  using assms
  by (cases "c_rip (pcontext (procs st ! n))")
    (auto simp: resume_def resumable_def kernel_task_bootstrap_def user_task_bootstrap_def current_proc_def
      restore_interrupts_eq arrived_def)

lemma sched_inv_iflag [simp]: "sched_inv (st\<lparr>iflag := b\<rparr>) = sched_inv st"
  by (simp add: sched_inv_def loaded_def resumable_cong [of "st\<lparr>iflag := b\<rparr>" _ st])

lemma schedule_cases:
  assumes inv: "sched_inv st" and cur: "current st = Some c"
  obtains "ready_queue st = []" "schedule st = Inr (InProc c, st)"
  | n q ctl b where "ready_queue st = n # q" "n \<noteq> c" "c < length (procs st)" "n < length (procs st)"
      "schedule st = Inr (ctl, (switched st c n q)\<lparr>iflag := b\<rparr>)"
      "arrived (switched st c n q) (ctl, (switched st c n q)\<lparr>iflag := b\<rparr>)" "sched_inv (switched st c n q)"
proof (cases "ready_queue st")
  case Nil
  then show thesis using that(1) schedule_stay [OF Nil cur] by blast
next
  case (Cons n q)
  have c: "c < length (procs st)" "c \<noteq> n" "n < length (procs st)" "resumable st n"
    by (rule sched_invE [OF inv]; use Cons cur in auto)+
  note sw = switched_simps [OF c(2,1,3), where q = q]
  have "resumable (switched st c n q) n"
    using c(4) by (auto simp: resumable_def sw(5,7) split: code_ptr.splits)
  then obtain r where r: "resume n (switched st c n q) = Inr r" "arrived (switched st c n q) r"
    using resume_total [of "switched st c n q" n] by (auto simp: sw(1,5,8))
  then obtain ctl b where "r = (ctl, (switched st c n q)\<lparr>iflag := b\<rparr>)"
    unfolding arrived_def by (metis prod.collapse)
  then show thesis
    using that(2) [OF Cons _ c(1,3)] c(2) r switched_inv [OF inv Cons cur] schedule_switch [OF Cons cur c(2,1,3)]
    by metis
qed

end
