(* ===== verification/Paging_Theorems.thy ===== *)
theory Paging_Theorems
  imports Paging Buddy_Theorems
begin

text \<open>
  Page tables in use: fresh roots, the kernel table, user tables, and the properties of mapping.
\<close>

section \<open>Fresh frames\<close>

text \<open>Writes inside a frame that is not yet a table change no walk and no final entry.\<close>

definition same_outside :: "phys_addr \<Rightarrow> pt_memory \<Rightarrow> pt_memory \<Rightarrow> bool" where
  "same_outside f m m' \<longleftrightarrow> (\<forall>a. \<not> (f \<le> a \<and> a < f + PAGE_SIZE) \<longrightarrow> m' a = m a)"

lemma fresh_walk:
  assumes inv: "vm_inv R m b" and r: "r \<in> R" and f: "f = j * PAGE_SIZE" "j \<in> free_pages b"
    and m': "same_outside f m m'"
  shows "path_ok q \<Longrightarrow> walk m' r q = walk m r q"
    and "path_ok q \<Longrightarrow> walk m r q = Some u \<Longrightarrow> x < 512 \<Longrightarrow> m' (u + 8 * x) = m (u + 8 * x)"
    and "path_ok q \<Longrightarrow> walk m r q = Some u \<Longrightarrow> u \<noteq> f"
proof -
  show ne: "u \<noteq> f" if q: "path_ok q" "walk m r q = Some u" for q u
    using vm_invD(1) [OF inv r q] f by (auto simp: table_ok_def)
  show cell: "m' (u + 8 * x) = m (u + 8 * x)" if q: "path_ok q" "walk m r q = Some u" "x < 512" for q u x
  proof -
    obtain k where "u = k * PAGE_SIZE" using vm_inv_aligned [OF inv r q(1,2)] by blast
    then show ?thesis
      using m' cell_outside [OF _ f(1) ne [OF q(1,2)] q(3)] unfolding same_outside_def by blast
  qed
  show "walk m' r q = walk m r q" if "path_ok q" for q
    using that
  proof (induction q rule: rev_induct)
    case (snoc x q)
    then show ?case using cell [of q _ x] by (auto simp: walk_snoc split: option.splits)
  qed simp
qed

lemma fresh_leaf:
  assumes "vm_inv R m b" "r \<in> R" "f = j * PAGE_SIZE" "j \<in> free_pages b" "same_outside f m m'"
    and "path_ok q" "x < 512"
  shows "leaf m' r q x = leaf m r q x"
  using fresh_walk [OF assms(1-5)] assms(6,7) by (auto simp: leaf_def split: option.splits)

lemma fill_outside: "same_outside f m (fill_table f m)"
  by (simp add: same_outside_def fill_table_def)

text \<open>A zeroed frame is an empty page table.\<close>

lemma empty_walk:
  assumes "\<And>i. i < 512 \<Longrightarrow> m (f + 8 * i) = 0" "path_ok q"
  shows "walk m f q = (if q = [] then Some f else None)"
  using assms by (cases q) (simp_all add: path_ok_def pte_is_present_def)

lemma fill_zero: "i < 512 \<Longrightarrow> fill_table f m (f + 8 * i) = 0"
  by (simp add: fill_table_def)

lemma empty_root:
  assumes "buddy_inv b" "allocate_below 0 EARLY_PAGE_TABLE_LIMIT b = Inr (Some f, b')"
  shows "vm_inv {f} (fill_table f m) b'" "lookup (fill_table f m) f v = None"
proof -
  obtain j where j: "buddy_inv b'" "f = j * PAGE_SIZE" "f + PAGE_SIZE \<le> EARLY_PAGE_TABLE_LIMIT"
    "j \<in> free_pages b" "free_pages b' = free_pages b - {j}"
    using frame_source.alloc_some [OF assms] by auto
  have w: "walk (fill_table f m) f q = (if q = [] then Some f else None)" if "path_ok q" for q
    using empty_walk [of "fill_table f m" f q] fill_zero that by simp
  show "vm_inv {f} (fill_table f m) b'"
    using j w by (auto simp: vm_inv_def tables_ok_def tables_unique_def table_ok_def split: if_splits)
  show "lookup (fill_table f m) f v = None" by (simp add: lookup_def leaf_def w)
qed

section \<open>The kernel page table\<close>

abbreviation supervisor :: "u64 \<Rightarrow> bool" where
  "supervisor e \<equiv> \<not> has_flag e USER"

abbreviation write_xor_execute :: "u64 \<Rightarrow> bool" where
  "write_xor_execute e \<equiv> \<not> has_flag e WRITABLE \<or> has_flag e NX"

lemma flag_masks [simp]:
  "USER AND ADDR_MASK = 0" "WRITABLE AND ADDR_MASK = 0" "NX AND ADDR_MASK = 0"
  by simp_all

lemma init_kernel_page_table_leaves:
  assumes "vm_buddy st = Some b" "buddy_inv b"
    and "init_kernel_page_table secs areas kern bootdata mbi st = Inr (pml4, st')"
  shows "\<exists>b'. vm_buddy st' = Some b' \<and> vm_inv {pml4} (pt_mem st') b' \<and> KERNEL_PML4 st' = pml4 \<and>
    all_leaves (\<lambda>e. supervisor e \<and> write_xor_execute e) (pt_mem st') pml4"
proof -
  let ?P = "\<lambda>e. supervisor e \<and> write_xor_execute e"
  let ?K = "PRESENT OR WRITABLE OR NX OR GLOBAL :: u64" and ?I = "PRESENT OR WRITABLE OR NX :: u64"
  have P: "?P (pte_set_addr a (?K OR PRESENT))" "?P (pte_set_addr a (?I OR PRESENT))"
    "?P (pte_set_addr a ((PRESENT OR GLOBAL) OR PRESENT))"
    "?P (pte_set_addr a ((PRESENT OR NX OR GLOBAL) OR PRESENT))" for a
    by (simp_all add: has_flag_set_addr) (simp_all add: has_flag_def)
  from assms(3) obtain b0 s1 s2 s3 s4 s5 s6 s7 kstart kend where s:
    "allocate_below 0 EARLY_PAGE_TABLE_LIMIT b = Inr (Some pml4, b0)"
    "map_areas pml4 areas (fill_table pml4 (pt_mem st), b0) = Inr s1"
    "set_range pml4 kstart kend ?K s1 = Inr s2"
    "set_identity_range pml4 (fst bootdata) (snd bootdata) ?I s2 = Inr s3"
    "set_identity_range pml4 (fst mbi) (snd mbi) ?I s3 = Inr s4"
    "set_range pml4 (text_start secs) (text_end secs) (PRESENT OR GLOBAL) s4 = Inr s5"
    "set_range pml4 (rodata_start secs) (rodata_end secs) (PRESENT OR NX OR GLOBAL) s5 = Inr s6"
    "set_range pml4 (data_start secs) (data_end secs) ?K s6 = Inr s7"
    and fin: "\<exists>m' b'. set_range pml4 (bss_start secs) (bss_end secs) ?K s7 = Inr (m', b') \<and>
      st' = st\<lparr>pt_mem := m', vm_buddy := Some b', KERNEL_PML4 := pml4\<rparr>"
    unfolding init_kernel_page_table_def with_buddy_def expect_frame_def assms(1)
    by (auto simp: rbind_eq_Inr_iff split: option.splits)
  let ?ok = "\<lambda>s. vm_inv {pml4} (fst s) (snd s) \<and> all_leaves ?P (fst s) pml4"
  have step: "?ok s'" if "?ok s" "set_range pml4 x y fl s = Inr s' \<or> set_identity_range pml4 x y fl s = Inr s'"
    "\<And>a. ?P (pte_set_addr a (fl OR PRESENT))" for s s' x y fl
    using set_range_leaves [of "{pml4}" "fst s" "snd s" pml4 ?P fl x y "fst s'" "snd s'"] that by fastforce
  have "?ok (fill_table pml4 (pt_mem st), b0)"
    using empty_root [OF assms(2) s(1)] by (simp add: all_leaves_def)
  then have "?ok s1"
    using map_areas_leaves [of "{pml4}" _ b0 pml4 areas "fst s1" "snd s1" ?P] s(2) P(2) by fastforce
  then have "?ok s2" by (rule step [OF _ disjI1, OF _ s(3) P(1)])
  then have "?ok s3" by (rule step [OF _ disjI2, OF _ s(4) P(2)])
  then have "?ok s4" by (rule step [OF _ disjI2, OF _ s(5) P(2)])
  then have "?ok s5" by (rule step [OF _ disjI1, OF _ s(6) P(3)])
  then have "?ok s6" by (rule step [OF _ disjI1, OF _ s(7) P(4)])
  then have "?ok s7" by (rule step [OF _ disjI1, OF _ s(8) P(1)])
  then have "?ok s" if "set_range pml4 (bss_start secs) (bss_end secs) ?K s7 = Inr s" for s
    by (rule step [OF _ disjI1, OF _ that P(1)])
  then show ?thesis using fin by fastforce
qed

section \<open>User page tables\<close>

lemma copy_entries_apply:
  assumes "\<forall>i\<in>set is. i < 512" "u = j * PAGE_SIZE" "k = l * PAGE_SIZE" "k \<noteq> u"
  shows "x < 512 \<Longrightarrow> copy_entries k u is m (u + 8 * x) = (if x \<in> set is then m (k + 8 * x) else m (u + 8 * x))"
    and "\<not> (u \<le> a \<and> a < u + PAGE_SIZE) \<Longrightarrow> copy_entries k u is m a = m a"
  using assms(1)
proof (induction "is" arbitrary: m)
  case (Cons i "is")
  { case 1
    have "k + 8 * x \<noteq> u + 8 * i" using cell_eq [OF assms(3,2) 1(1), of i] assms(4) 1(2) by simp
    moreover have "u + 8 * x = u + 8 * i \<longleftrightarrow> x = i" by simp
    ultimately show ?case using Cons.IH(1) [OF 1(1)] 1 by simp
  next
    case 2
    then have "a \<noteq> u + 8 * i" by auto
    then show ?case using Cons.IH(2) [OF 2(1)] 2 by simp }
qed simp_all

lemma create_user_page_table_effect:
  assumes st: "vm_buddy st = Some b" and inv: "vm_inv R (pt_mem st) b"
    and K: "KERNEL_PML4 st = k" "k \<noteq> 0" "k \<in> R"
  obtains "create_user_page_table st = Inl (Expect ''no memory for user PML4'')"
  | u m' b' where "create_user_page_table st = Inr (u, st\<lparr>pt_mem := m', vm_buddy := Some b'\<rparr>)"
      "vm_inv (insert u R) m' b'" "u \<notin> R" "free_pages b' \<subseteq> free_pages b" "alloc_blocks b \<subseteq> alloc_blocks b'"
      "\<And>r v. r \<in> R \<Longrightarrow> lookup m' r v = lookup (pt_mem st) r v"
      "\<And>v. lookup m' u v = (if user_half v then None else lookup (pt_mem st) k v)"
proof -
  define m where "m = pt_mem st"
  have b: "buddy_inv b" using inv by (simp add: vm_inv_def)
  have kok: "table_ok b k" using vm_invD(1) [OF inv K(3), of "[]"] by simp
  then obtain l where l: "k = l * PAGE_SIZE" "k + KERNEL_VMA \<le> USIZE_MAX" by (auto simp: table_ok_def USIZE_MAX_def)
  obtain ro b' where al: "allocate_below 0 EARLY_PAGE_TABLE_LIMIT b = Inr (ro, b')"
    using frame_source.alloc_total [OF b] by (metis prod.exhaust)
  show thesis
  proof (cases ro)
    case None
    have "create_user_page_table st = Inl (Expect ''no memory for user PML4'')"
      unfolding create_user_page_table_def kernel_pml4_def with_buddy_def st expect_frame_def al None by (simp add: K al None del: upt_rec_numeral)
    then show thesis by (rule that(1))
  next
    case (Some u)
    obtain j where j: "buddy_inv b'" "u = j * PAGE_SIZE" "u + PAGE_SIZE \<le> EARLY_PAGE_TABLE_LIMIT"
      "j \<in> free_pages b" "free_pages b' = free_pages b - {j}" "alloc_blocks b' = insert (j, 0) (alloc_blocks b)"
      using frame_source.alloc_some [OF b al [unfolded Some]] by auto
    define idx where "idx = [256..<512 :: nat]"
    define m' where "m' = copy_entries k u idx (fill_table u m)"
    have ku: "k \<noteq> u" using kok j(2,4) by (auto simp: table_ok_def)
    have ix: "set idx = {256..<512}" unfolding idx_def by (rule set_upt)
    then have ir: "\<forall>i\<in>set idx. i < 512" by simp
    note cp = copy_entries_apply [OF ir j(2) l(1) ku]
    have out: "same_outside u m m'"
      using cp(2) fill_outside [of u m] unfolding same_outside_def m'_def by simp
    have um: "m' (u + 8 * i) = (if 256 \<le> i then m (k + 8 * i) else 0)" if "i < 512" for i
      using cp(1) [OF that] that cell_outside [OF l(1) j(2) ku that]
      by (simp add: m'_def fill_zero ix) (auto simp: fill_table_def)
    note fr = fresh_walk [OF inv [folded m_def] _ j(2,4) out]
    have wu: "walk m' u q = (if q = [] then Some u else if 256 \<le> hd q then walk m k q else None)"
      if q: "path_ok q" for q
    proof (cases q)
      case (Cons i p)
      have i: "i < 512" using q by (simp add: Cons path_ok_def)
      then have "m' (k + 8 * i) = m (k + 8 * i)" using fr(2) [OF K(3), of "[]" k i] by simp
      then have "walk m' u q = (if 256 \<le> i then walk m' k q else None)"
        by (simp add: Cons um [OF i] pte_is_present_def)
      then show ?thesis using fr(1) [OF K(3) q] by (simp add: Cons)
    qed simp
    have uR: "u \<notin> R" using fr(3) [of u "[]" u] by auto
    have U: "walk m' r q = Some u \<longleftrightarrow> r = u \<and> q = []" if "r \<in> insert u R" "path_ok q" for r q
    proof -
      have "walk m r' q \<noteq> Some u" if "r' \<in> R" for r' using fr(3) [OF that \<open>path_ok q\<close>, of u] by blast
      then show ?thesis using that fr(1) wu K(3) uR by (cases "r = u") auto
    qed
    have old: "\<exists>r'\<in>R. walk m r' q = Some t \<and> (r' = r \<or> kernel_half q)"
      if "r \<in> insert u R" "path_ok q" "walk m' r q = Some t" "t \<noteq> u" for r q t
      using that fr(1) wu K(3) by (cases "r = u") (auto simp: kernel_half_def split: if_splits)
    have "tables_ok (insert u R) m' b'"
      unfolding tables_ok_def
    proof (intro ballI allI impI)
      fix r q t assume q: "r \<in> insert u R" "path_ok q" "walk m' r q = Some t"
      show "table_ok b' t"
      proof (cases "t = u")
        case True
        then show ?thesis using j(2,3,5) by (auto simp: table_ok_def)
      next
        case False
        then have "table_ok b t" using old [OF q] vm_invD(1) [OF inv [folded m_def] _ q(2)] by blast
        then show ?thesis using j(5) by (auto simp: table_ok_def)
      qed
    qed
    moreover have "tables_unique (insert u R) m'"
      unfolding tables_unique_def
    proof (intro ballI allI impI)
      fix r s p q t
      assume q: "r \<in> insert u R" "s \<in> insert u R" "path_ok p" "path_ok q"
        "walk m' r p = Some t" "walk m' s q = Some t"
      show "p = q \<and> (r = s \<or> kernel_half p)"
      proof (cases "t = u")
        case True
        then show ?thesis using U q by blast
      next
        case False
        then show ?thesis
          using old [OF q(1,3,5)] old [OF q(2,4,6)] vm_invD(3) [OF inv [folded m_def] _ q(4) _ _ q(3)] by metis
      qed
    qed
    ultimately have "vm_inv (insert u R) m' b'" using j(1) by (simp add: vm_inv_def)
    moreover have lk: "lookup m' r v = lookup m r v" if "r \<in> R" for r v
      unfolding lookup_def by (rule fresh_leaf [OF inv [folded m_def] that j(2,4) out vpath_ok(1,3)])
    moreover have "lookup m' u v = (if user_half v then None else lookup m k v)" for v
    proof -
      have w: "walk m' u (vpath v) = (if user_half v then None else walk m k (vpath v))"
        using wu [OF vpath_ok(1), of v] by (auto simp: vpath_def)
      have "m' (t + 8 * vslot v) = m (t + 8 * vslot v)" if "walk m k (vpath v) = Some t" for t
        using fr(2) [OF K(3) vpath_ok(1) that vpath_ok(3)] .
      then show ?thesis unfolding lookup_def leaf_def w by (simp split: option.splits)
    qed
    moreover have "create_user_page_table st = Inr (u, st\<lparr>pt_mem := m', vm_buddy := Some b'\<rparr>)"
      using l(2) j(3)
      unfolding create_user_page_table_def kernel_pml4_def with_buddy_def st expect_frame_def m'_def m_def idx_def
      by (simp add: K al Some phys_to_virt_def run_simps USIZE_MAX_def del: upt_rec_numeral)
    ultimately show thesis using that(2) [where u = u and m' = m' and b' = b'] uR j(5,6) unfolding m_def by blast
  qed
qed

section \<open>Properties\<close>

lemma demo_root:
  obtains b f b' where "buddy_inv b" "allocate_below 0 EARLY_PAGE_TABLE_LIMIT b = Inr (Some f, b')"
    "buddy_new 16 demo_areas demo_reserved = Inr b" "free_pages b = {1..<16} - {5}"
proof -
  obtain b where b: "buddy_new 16 demo_areas demo_reserved = Inr b" "buddy_inv b"
    "free_pages b = {1..<16} - {5}" using demo_new demo_free by metis
  obtain f b' where "allocate_below 0 EARLY_PAGE_TABLE_LIMIT b = Inr (Some f, b')"
    using allocate_below_succeeds [OF b(2), of 1 EARLY_PAGE_TABLE_LIMIT] b(3) by (auto simp: USIZE_MAX_def)
  then show thesis using that b by blast
qed

end
