(* ===== verification/Proc_Space.thy ===== *)
theory Proc_Space
  imports Proc_Sched Paging_Theorems
begin

text \<open>
  Address spaces of processes: what \<^verbatim>\<open>spawn_user\<close> and \<^verbatim>\<open>spawn_elf\<close> of src/src/task/proc.rs build with the
  page-table interface of src/src/mem/page.rs.
\<close>

section \<open>The interface of the page tables\<close>

fun run_all :: "('x \<Rightarrow> 's \<Rightarrow> 'e + 's) \<Rightarrow> 'x list \<Rightarrow> 's \<Rightarrow> 'e + 's" where
  "run_all f [] s = Inr s"
| "run_all f (x # xs) s = rbind (f x s) (run_all f xs)"

lemma run_all_append: "run_all f (xs @ ys) s = rbind (run_all f xs s) (run_all f ys)"
  by (induction xs arbitrary: s) (auto simp: rbind_assoc intro!: rbind_cong)

text \<open>Address spaces named by roots: a mapping sets the entry of one page of one root, leaves the other
  roots alone when the page is private, and opens the page to user mode when asked.\<close>

locale address_space =
  fixes ok :: "'r set \<Rightarrow> 's \<Rightarrow> bool"
    and look :: "'s \<Rightarrow> 'r \<Rightarrow> 'v \<Rightarrow> 'e option"
    and user_open :: "'s \<Rightarrow> 'r \<Rightarrow> 'v \<Rightarrow> bool"
    and same :: "'v \<Rightarrow> 'v \<Rightarrow> bool"
    and own :: "'v \<Rightarrow> bool"
    and entry :: "'p \<Rightarrow> 'f \<Rightarrow> 'e"
    and for_user :: "'f \<Rightarrow> bool"
    and unused :: "'s \<Rightarrow> 'q set"
    and failure :: panic
    and mp :: "'r \<Rightarrow> 'v \<Rightarrow> 'p \<Rightarrow> 'f \<Rightarrow> 's \<Rightarrow> 's run"
  assumes mp_ok: "ok R s \<Longrightarrow> r \<in> R \<Longrightarrow> mp r v p f s = Inr s' \<Longrightarrow> ok R s'"
    and mp_look: "ok R s \<Longrightarrow> r \<in> R \<Longrightarrow> mp r v p f s = Inr s' \<Longrightarrow>
      look s' r w = (if same v w then Some (entry p f) else look s r w)"
    and mp_other: "ok R s \<Longrightarrow> r \<in> R \<Longrightarrow> mp r v p f s = Inr s' \<Longrightarrow> t \<in> R \<Longrightarrow> t \<noteq> r \<Longrightarrow> own v \<Longrightarrow>
      look s' t w = look s t w"
    and mp_keeps_open: "ok R s \<Longrightarrow> r \<in> R \<Longrightarrow> mp r v p f s = Inr s' \<Longrightarrow> t \<in> R \<Longrightarrow> user_open s t w \<Longrightarrow> user_open s' t w"
    and mp_open: "ok R s \<Longrightarrow> r \<in> R \<Longrightarrow> mp r v p f s = Inr s' \<Longrightarrow> for_user f \<Longrightarrow> same v w \<Longrightarrow> user_open s' r w"
    and mp_unused: "ok R s \<Longrightarrow> r \<in> R \<Longrightarrow> mp r v p f s = Inr s' \<Longrightarrow> unused s' \<subseteq> unused s"
    and mp_failure: "ok R s \<Longrightarrow> r \<in> R \<Longrightarrow> mp r v p f s = Inl e \<Longrightarrow> e = failure"
begin

text \<open>A sequence of mappings: the last one that covers a page decides its entry.\<close>

lemma find_snoc:
  "find P (xs @ [x]) = (case find P xs of Some y \<Rightarrow> Some y | None \<Rightarrow> if P x then Some x else None)"
  by (induction xs) auto

lemma run_all_step:
  assumes "run_all (\<lambda>(v, p, f). mp r v p f) (x # xs) s = Inr s'"
  obtains v p f s1 where "x = (v, p, f)" "mp r v p f s = Inr s1" "run_all (\<lambda>(v, p, f). mp r v p f) xs s1 = Inr s'"
  using assms by (cases x) (auto simp: rbind_eq_Inr_iff)

lemma run_all_ok:
  assumes "ok R s" "r \<in> R" "run_all (\<lambda>(v, p, f). mp r v p f) xs s = Inr s'"
  shows "ok R s'"
  using assms(1,3)
proof (induction xs arbitrary: s)
  case (Cons x xs)
  show ?case by (rule run_all_step [OF Cons.prems(2)]) (use Cons.IH mp_ok [OF Cons.prems(1) assms(2)] in blast)
qed simp

lemma run_all_unused:
  assumes "ok R s" "r \<in> R" "run_all (\<lambda>(v, p, f). mp r v p f) xs s = Inr s'"
  shows "unused s' \<subseteq> unused s"
  using assms(1,3)
proof (induction xs arbitrary: s)
  case (Cons x xs)
  show ?case
    by (rule run_all_step [OF Cons.prems(2)])
      (use Cons.IH [OF mp_ok [OF Cons.prems(1) assms(2)]] mp_unused [OF Cons.prems(1) assms(2)] in blast)
qed simp

lemma run_all_failure:
  assumes "ok R s" "r \<in> R" "run_all (\<lambda>(v, p, f). mp r v p f) xs s = Inl e"
  shows "e = failure"
  using assms(1,3)
proof (induction xs arbitrary: s)
  case (Cons x xs)
  obtain v p f where x: "x = (v, p, f)" by (cases x)
  from Cons.prems(2) consider "mp r v p f s = Inl e" | s1 where "mp r v p f s = Inr s1"
    "run_all (\<lambda>(v, p, f). mp r v p f) xs s1 = Inl e"
    by (auto simp: x rbind_eq_Inl_iff)
  then show ?case
    by cases (use Cons.IH mp_ok [OF Cons.prems(1) assms(2)] mp_failure [OF Cons.prems(1) assms(2)] in blast)+
qed simp

lemma run_all_look:
  assumes "ok R s" "r \<in> R" "run_all (\<lambda>(v, p, f). mp r v p f) xs s = Inr s'"
  shows "look s' r w = (case find (\<lambda>(v, p, f). same v w) (rev xs) of Some (v, p, f) \<Rightarrow> Some (entry p f) | None \<Rightarrow> look s r w)"
  using assms(1,3)
proof (induction xs arbitrary: s)
  case (Cons x xs)
  obtain v p f s1 where x: "x = (v, p, f)" "mp r v p f s = Inr s1" "run_all (\<lambda>(v, p, f). mp r v p f) xs s1 = Inr s'"
    using Cons.prems(2) by (rule run_all_step)
  show ?case
    using Cons.IH [OF mp_ok [OF Cons.prems(1) assms(2) x(2)] x(3)] mp_look [OF Cons.prems(1) assms(2) x(2), of w]
    by (simp add: find_snoc x(1) split: option.splits)
qed simp

lemma run_all_other:
  assumes "ok R s" "r \<in> R" "run_all (\<lambda>(v, p, f). mp r v p f) xs s = Inr s'" "t \<in> R" "t \<noteq> r"
    and "\<forall>(v, p, f)\<in>set xs. own v"
  shows "look s' t w = look s t w"
  using assms(1,3,6)
proof (induction xs arbitrary: s)
  case (Cons x xs)
  obtain v p f s1 where x: "x = (v, p, f)" "mp r v p f s = Inr s1" "run_all (\<lambda>(v, p, f). mp r v p f) xs s1 = Inr s'"
    using Cons.prems(2) by (rule run_all_step)
  show ?case
    using Cons.IH [OF mp_ok [OF Cons.prems(1) assms(2) x(2)] x(3)] mp_other [OF Cons.prems(1) assms(2) x(2) assms(4,5)]
      Cons.prems(3) by (simp add: x(1))
qed simp

lemma run_all_keeps_open:
  assumes "ok R s" "r \<in> R" "run_all (\<lambda>(v, p, f). mp r v p f) xs s = Inr s'" "t \<in> R" "user_open s t w"
  shows "user_open s' t w"
  using assms(1,3,5)
proof (induction xs arbitrary: s)
  case (Cons x xs)
  obtain v p f s1 where x: "x = (v, p, f)" "mp r v p f s = Inr s1" "run_all (\<lambda>(v, p, f). mp r v p f) xs s1 = Inr s'"
    using Cons.prems(2) by (rule run_all_step)
  show ?case
    using Cons.IH [OF mp_ok [OF Cons.prems(1) assms(2) x(2)] x(3)] mp_keeps_open [OF Cons.prems(1) assms(2) x(2) assms(4) Cons.prems(3)] .
qed simp

lemma run_all_open:
  assumes "ok R s" "r \<in> R" "run_all (\<lambda>(v, p, f). mp r v p f) xs s = Inr s'"
    and "(v, p, f) \<in> set xs" "for_user f" "same v w"
  shows "user_open s' r w"
  using assms(1,3,4)
proof (induction xs arbitrary: s)
  case (Cons x xs)
  obtain v1 p1 f1 s1 where x: "x = (v1, p1, f1)" "mp r v1 p1 f1 s = Inr s1" "run_all (\<lambda>(v, p, f). mp r v p f) xs s1 = Inr s'"
    using Cons.prems(2) by (rule run_all_step)
  note ok1 = mp_ok [OF Cons.prems(1) assms(2) x(2)]
  show ?case
  proof (cases "(v, p, f) = x")
    case True
    then have "user_open s1 r w" using mp_open [OF Cons.prems(1) assms(2) x(2) _ ] assms(5,6) x(1) by simp
    then show ?thesis using run_all_keeps_open [OF ok1 assms(2) x(3) assms(2)] by blast
  next
    case False
    then show ?thesis using Cons.IH [OF ok1 x(3)] Cons.prems(3) by simp
  qed
qed simp

end

definition vm_free :: "'a vm_scheme \<Rightarrow> nat set" where
  "vm_free st = (case vm_buddy st of None \<Rightarrow> {} | Some b \<Rightarrow> free_pages b)"

definition vm_ok :: "phys_addr set \<Rightarrow> 'a vm_scheme \<Rightarrow> bool" where
  "vm_ok R st \<longleftrightarrow> (\<exists>b. vm_buddy st = Some b \<and> vm_inv R (pt_mem st) b)"

lemma map_into_page_table_effect:
  assumes "vm_ok R st" "r \<in> R" "map_into_page_table r v p fl st = Inr st'"
  obtains b m' b' where "vm_buddy st = Some b" "vm_inv R (pt_mem st) b" "st' = st\<lparr>pt_mem := m', vm_buddy := Some b'\<rparr>"
    "map_effect R r v p fl (pt_mem st, b) (m', b')"
proof -
  obtain b where b: "vm_buddy st = Some b" "vm_inv R (pt_mem st) b" using assms(1) by (auto simp: vm_ok_def)
  show thesis
    by (rule map_page_effect [OF b(2) assms(2), of v p fl])
      (use that b assms(3) in \<open>auto simp: map_into_page_table_def with_buddy_def rbind_eq_Inr_iff\<close>)
qed

lemma same_page_upath: "same_page v w \<Longrightarrow> upath m r (vpath v) \<Longrightarrow> upath m r (vpath w)"
  using same_page_iff [of v w] by metis

interpretation paging: address_space vm_ok "\<lambda>st. lookup (pt_mem st)" "\<lambda>st r v. upath (pt_mem st) r (vpath v)"
  "\<lambda>v w. same_page v w" "\<lambda>v. user_half v" "\<lambda>p f. pte_set_addr p (f OR PRESENT)" "\<lambda>f. has_flag f USER"
  vm_free "Expect ''out of memory for page table''" map_into_page_table
proof (unfold_locales, goal_cases)
  case (1 R s r v p f s')
  show ?case by (rule map_into_page_table_effect [OF 1]) (auto simp: vm_ok_def dest: map_effectD(1) [OF _ 1(2)])
next
  case (2 R s r v p f s' w)
  show ?case by (rule map_into_page_table_effect [OF 2]) (use map_effectD(4) [OF _ 2(2)] in simp)
next
  case (3 R s r v p f s' t w)
  show ?case by (rule map_into_page_table_effect [OF 3(1-3)]) (use map_effectD(5) [OF _ 3(2,4-6)] in simp)
next
  case (4 R s r v p f s' t w)
  show ?case by (rule map_into_page_table_effect [OF 4(1-3)]) (use map_effectD(6) [OF _ 4(2,4)] 4(5) in simp)
next
  case (5 R s r v p f s' w)
  show ?case
    by (rule map_into_page_table_effect [OF 5(1-3)])
      (use map_effectD(7) [OF _ 5(2,4)] same_page_upath [OF 5(5)] in simp)
next
  case (6 R s r v p f s')
  show ?case by (rule map_into_page_table_effect [OF 6]) (use map_effectD(2) [OF _ 6(2)] in \<open>simp add: vm_free_def\<close>)
next
  case (7 R s r v p f e)
  then obtain b where b: "vm_buddy s = Some b" "vm_inv R (pt_mem s) b" by (auto simp: vm_ok_def)
  show ?case
    by (rule map_page_effect [OF b(2) 7(2), of v p f])
      (use 7(3) b(1) in \<open>auto simp: map_into_page_table_def with_buddy_def\<close>)
qed

section \<open>Building an address space\<close>

lemma map_list_run_all:
  "map_list pt fl vs st = run_all (\<lambda>(v, p, f). map_into_page_table pt v p f) (map (\<lambda>(v, p). (v, p, fl)) vs) st"
  by (induction pt fl vs st rule: map_list.induct) (auto intro!: rbind_cong)

text \<open>Everything but the page tables and the allocator stays as it is.\<close>

definition vm_only :: "machine \<Rightarrow> machine \<Rightarrow> bool" where
  "vm_only st st' \<longleftrightarrow> st' = st\<lparr>pt_mem := pt_mem st', vm_buddy := vm_buddy st'\<rparr>"

lemma vm_onlyI [simp]: "vm_only st (st\<lparr>pt_mem := m, vm_buddy := b\<rparr>)" "vm_only st (st\<lparr>vm_buddy := b\<rparr>)" "vm_only st st"
  by (simp_all add: vm_only_def)

lemma vm_only_trans:
  assumes "vm_only a b" "vm_only b c" shows "vm_only a c"
proof -
  have "c = (a\<lparr>pt_mem := pt_mem b, vm_buddy := vm_buddy b\<rparr>)\<lparr>pt_mem := pt_mem c, vm_buddy := vm_buddy c\<rparr>"
    using assms unfolding vm_only_def by simp
  then show ?thesis by (simp add: vm_only_def)
qed

lemma vm_only_simps:
  assumes "vm_only st st'"
  shows "procs st' = procs st" "ready_queue st' = ready_queue st" "current st' = current st"
    "trap_frames st' = trap_frames st" "tss_rsp0 st' = tss_rsp0 st" "cr3 st' = cr3 st" "KERNEL_PML4 st' = KERNEL_PML4 st"
    "bootdata st' = bootdata st" "frame_bytes st' = frame_bytes st" "next_pid st' = next_pid st"
  by (subst assms [unfolded vm_only_def]; simp)+

lemma map_into_vm_only: "map_into_page_table pt v p f st = Inr st' \<Longrightarrow> vm_only st st'"
  by (auto simp: map_into_page_table_def with_buddy_def rbind_eq_Inr_iff split: option.splits)

lemma map_list_vm_only: "map_list pt fl vs st = Inr st' \<Longrightarrow> vm_only st st'"
proof (induction pt fl vs st rule: map_list.induct)
  case (2 pt fl v p vs st)
  then show ?case by (auto simp: rbind_eq_Inr_iff dest: map_into_vm_only intro: vm_only_trans)
qed simp

lemma create_user_vm_only: "create_user_page_table st = Inr (u, st') \<Longrightarrow> vm_only st st'"
  by (auto simp: create_user_page_table_def with_buddy_def rbind_eq_Inr_iff simp del: upt_rec_numeral split: option.splits)

lemma take_frames_vm_only: "take_frames msg k st = Inr (r, st') \<Longrightarrow> vm_only st st' \<and> pt_mem st' = pt_mem st"
  by (auto simp: take_frames_def with_buddy_def rbind_eq_Inr_iff split: option.splits)

lemma vm_inv_smaller:
  assumes "vm_inv R m b" "buddy_inv b'" "free_pages b' \<subseteq> free_pages b" shows "vm_inv R m b'"
  using assms unfolding vm_inv_def tables_ok_def table_ok_def by blast

lemma take_frames_ok:
  assumes "vm_ok R st" "take_frames msg k st = Inr (r, st')" shows "vm_ok R st'"
proof -
  obtain b where b: "vm_buddy st = Some b" "vm_inv R (pt_mem st) b" using assms(1) by (auto simp: vm_ok_def)
  then have "buddy_inv b" by (simp add: vm_inv_def)
  then show ?thesis
    by (rule allocate_cases [of b k])
      (use assms(2) b vm_inv_smaller [OF b(2)] in
        \<open>auto simp: take_frames_def with_buddy_def vm_ok_def alloc_step_def\<close>)
qed

definition boot_maps :: "usize list \<Rightarrow> (virt_addr \<times> phys_addr \<times> entry_flags) list" where
  "boot_maps as = map (\<lambda>a. (a, a, PRESENT OR WRITABLE OR NX)) as"

definition user_maps :: "virt_addr \<Rightarrow> phys_addr \<Rightarrow> virt_addr \<Rightarrow> phys_addr \<Rightarrow> (virt_addr \<times> phys_addr \<times> entry_flags) list" where
  "user_maps v code bottom ustack = [(v, code, PRESENT OR USER),
     (bottom, ustack, PRESENT OR WRITABLE OR USER OR NX),
     (bottom + PAGE_SIZE, ustack + PAGE_SIZE, PRESENT OR WRITABLE OR USER OR NX)]"

lemma map_bootdata_run_all:
  assumes "map_bootdata_identity pt st = Inr st'"
  obtains as where "bootdata_pages st = Inr as"
    "run_all (\<lambda>(v, p, f). map_into_page_table pt v p f) (boot_maps as) st = Inr st'"
  using assms by (auto simp: map_bootdata_identity_def map_list_run_all boot_maps_def rbind_eq_Inr_iff comp_def)

lemma map_user_run_all:
  assumes "map_into_page_table pt v code (PRESENT OR USER) st = Inr st1" "map_user_stack pt stack_top ustack st1 = Inr st'"
  shows "USER_STACK_SIZE \<le> stack_top"
    "run_all (\<lambda>(v, p, f). map_into_page_table pt v p f) (user_maps v code (stack_top - USER_STACK_SIZE) ustack) st = Inr st'"
proof -
  have "[0..<2 ^ USER_STACK_ORDER] = [0, 1 :: nat]" by (simp add: upt_rec)
  then show "USER_STACK_SIZE \<le> stack_top"
    "run_all (\<lambda>(v, p, f). map_into_page_table pt v p f) (user_maps v code (stack_top - USER_STACK_SIZE) ustack) st = Inr st'"
    using assms by (auto simp: map_user_stack_def user_maps_def map_list_run_all rbind_eq_Inr_iff)
qed

lemma vm_ok_cong: "pt_mem s' = pt_mem s \<Longrightarrow> vm_buddy s' = vm_buddy s \<Longrightarrow> vm_ok R s' = vm_ok R s"
  by (simp add: vm_ok_def)

text \<open>The pages ring 3 can reach are the code page and the two stack pages; the other address spaces
  are as before.\<close>

lemma user_space_built:
  assumes ok: "vm_ok R st" and K: "KERNEL_PML4 st = k" "k \<noteq> 0" "k \<in> R" and sup: "all_leaves supervisor (pt_mem st) k"
    and new: "create_user_page_table st = Inr (pt, s1)"
    and boot: "map_bootdata_identity pt s1 = Inr s2" "bootdata_pages st = Inr as" "\<forall>a\<in>set as. user_half a"
    and s3: "pt_mem s3 = pt_mem s2" "\<forall>R. vm_ok R s2 \<longrightarrow> vm_ok R s3"
    and code: "map_into_page_table pt v code (PRESENT OR USER) s3 = Inr s4" "user_half v"
    and stack: "map_user_stack pt stack_top ustack s4 = Inr s5"
      "user_half (stack_top - USER_STACK_SIZE)" "user_half (stack_top - PAGE_SIZE)"
  shows "vm_ok (insert pt R) s5" "pt \<notin> R" "\<And>t w. t \<in> R \<Longrightarrow> lookup (pt_mem s5) t w = lookup (pt_mem st) t w"
    "\<And>w. user_access (pt_mem s5) pt w \<longleftrightarrow>
       same_page v w \<or> same_page (stack_top - USER_STACK_SIZE) w \<or> same_page (stack_top - PAGE_SIZE) w"
    "\<And>w e. lookup (pt_mem s5) pt w = Some e \<Longrightarrow> has_flag e USER \<Longrightarrow>
       \<exists>f fl. e = pte_set_addr f fl \<and> fl AND ADDR_MASK = 0 \<and> f \<in> {code, ustack, ustack + PAGE_SIZE}"
    "vm_free s5 \<subseteq> vm_free s3" "vm_free s2 \<subseteq> vm_free st" "vm_ok (insert pt R) s2"
proof -
  define bottom where "bottom = stack_top - USER_STACK_SIZE"
  have st8: "USER_STACK_SIZE \<le> stack_top" by (rule map_user_run_all(1) [OF code(1) stack(1)])
  then have b2: "stack_top - PAGE_SIZE = bottom + PAGE_SIZE" by (simp add: bottom_def)
  obtain b where b: "vm_buddy st = Some b" "vm_inv R (pt_mem st) b" using ok by (auto simp: vm_ok_def)
  have c: "vm_ok (insert pt R) s1 \<and> pt \<notin> R \<and> (\<forall>r\<in>R. \<forall>w. lookup (pt_mem s1) r w = lookup (pt_mem st) r w) \<and>
      (\<forall>w. lookup (pt_mem s1) pt w = (if user_half w then None else lookup (pt_mem st) k w))"
    by (rule create_user_page_table_effect [OF b K]) (use new in \<open>auto simp: vm_ok_def\<close>)
  have "bootdata s1 = bootdata st" using create_user_vm_only [OF new] by (rule vm_only_simps)
  then have "bootdata_pages s1 = Inr as" using boot(2) by (simp add: bootdata_pages_def)
  then have rb: "run_all (\<lambda>(v, p, f). map_into_page_table pt v p f) (boot_maps as) s1 = Inr s2"
    using map_bootdata_run_all [OF boot(1)] by (metis Inr_inject)
  note R1 = paging.run_all_ok [OF _ insertI1 rb] paging.run_all_look [OF _ insertI1 rb]
    paging.run_all_other [OF _ insertI1 rb]
  show ok2: "vm_ok (insert pt R) s2" using R1(1) c by blast
  have ok3: "vm_ok (insert pt R) s3" by (rule s3(2) [rule_format, OF ok2])
  have ru: "run_all (\<lambda>(v, p, f). map_into_page_table pt v p f) (user_maps v code bottom ustack) s3 = Inr s5"
    unfolding bottom_def by (rule map_user_run_all(2) [OF code(1) stack(1)])
  note R2 = paging.run_all_ok [OF ok3 insertI1 ru] paging.run_all_look [OF ok3 insertI1 ru]
    paging.run_all_other [OF ok3 insertI1 ru] paging.run_all_open [OF ok3 insertI1 ru]
  show "vm_ok (insert pt R) s5" "pt \<notin> R" using R2(1) c by blast+
  show "lookup (pt_mem s5) t w = lookup (pt_mem st) t w" if "t \<in> R" for t w
  proof -
    have t: "t \<in> insert pt R" "t \<noteq> pt" using that c by blast+
    have "\<forall>(v, p, f)\<in>set (user_maps v code bottom ustack). user_half v"
    proof -
      have "user_half bottom" using stack(2) unfolding bottom_def .
      moreover have "user_half (bottom + PAGE_SIZE)" using stack(3) unfolding b2 .
      ultimately show ?thesis using code(2) unfolding user_maps_def by auto
    qed
    then have "lookup (pt_mem s5) t w = lookup (pt_mem s3) t w" by (rule R2(3) [OF t])
    moreover have "\<forall>(v, p, f)\<in>set (boot_maps as). user_half v" using boot(3) by (auto simp: boot_maps_def)
    then have "lookup (pt_mem s2) t w = lookup (pt_mem s1) t w" by (rule R1(3) [OF conjunct1 [OF c] t])
    ultimately show ?thesis using c that s3(1) by simp
  qed
  have sup2: "supervisor e" if "lookup (pt_mem s3) pt w = Some e" for w e
  proof -
    have "lookup (pt_mem s2) pt w = Some e" using that s3(1) by simp
    moreover have "supervisor (pte_set_addr a ((PRESENT OR WRITABLE OR NX) OR PRESENT))" for a
      by (simp add: has_flag_set_addr) (simp add: has_flag_def)
    moreover have "\<exists>a. x = (a, a, PRESENT OR WRITABLE OR NX)"
      if "find (\<lambda>(v, p, f). same_page v w) (rev (boot_maps as)) = Some x" for x
    proof -
      have "x \<in> set (rev (boot_maps as))" using find_SomeD [OF that] by blast
      then show ?thesis by (auto simp: boot_maps_def)
    qed
    ultimately show ?thesis
      using R1(2) [of R w] c sup by (fastforce simp: all_leaves_def split: option.splits if_splits)
  qed
  have usr: "has_flag (pte_set_addr a ((PRESENT OR USER) OR PRESENT)) USER"
    "has_flag (pte_set_addr a ((PRESENT OR WRITABLE OR USER OR NX) OR PRESENT)) USER" for a
    by (simp_all add: has_flag_set_addr) (simp_all add: has_flag_def)
  have look: "lookup (pt_mem s5) pt w =
      (if same_page (bottom + PAGE_SIZE) w then Some (pte_set_addr (ustack + PAGE_SIZE) ((PRESENT OR WRITABLE OR USER OR NX) OR PRESENT))
       else if same_page bottom w then Some (pte_set_addr ustack ((PRESENT OR WRITABLE OR USER OR NX) OR PRESENT))
       else if same_page v w then Some (pte_set_addr code ((PRESENT OR USER) OR PRESENT))
       else lookup (pt_mem s3) pt w)" for w
    unfolding R2(2) by (simp add: user_maps_def)
  have opn: "upath (pt_mem s5) pt (vpath w)" if "same_page v w \<or> same_page bottom w \<or> same_page (bottom + PAGE_SIZE) w" for w
  proof -
    have "has_flag (PRESENT OR USER) USER" "has_flag (PRESENT OR WRITABLE OR USER OR NX) USER" by (simp_all add: has_flag_def)
    then show ?thesis using that R2(4) by (auto simp: user_maps_def)
  qed
  show "user_access (pt_mem s5) pt w \<longleftrightarrow> same_page v w \<or> same_page (stack_top - USER_STACK_SIZE) w \<or> same_page (stack_top - PAGE_SIZE) w" for w
    unfolding b2 bottom_def [symmetric] user_access_def
    using look [of w] opn [of w] sup2 [of w] usr by auto
  show "\<exists>f fl. e = pte_set_addr f fl \<and> fl AND ADDR_MASK = 0 \<and> f \<in> {code, ustack, ustack + PAGE_SIZE}"
    if "lookup (pt_mem s5) pt w = Some e" "has_flag e USER" for w e
  proof -
    have "e \<in> (\<lambda>(f, fl). pte_set_addr f fl) ` ({code, ustack, ustack + PAGE_SIZE} \<times>
        {(PRESENT OR USER) OR PRESENT, (PRESENT OR WRITABLE OR USER OR NX) OR PRESENT})"
      using look [of w] sup2 [of w e] that by (auto split: if_splits)
    then obtain x where x: "x \<in> {code, ustack, ustack + PAGE_SIZE} \<times>
        {(PRESENT OR USER) OR PRESENT, (PRESENT OR WRITABLE OR USER OR NX) OR PRESENT}" "e = (\<lambda>(f, fl). pte_set_addr f fl) x"
      by (elim imageE)
    have "((PRESENT OR USER) OR PRESENT) AND ADDR_MASK = 0"
      "((PRESENT OR WRITABLE OR USER OR NX) OR PRESENT) AND ADDR_MASK = 0" by simp_all
    then have "snd x AND ADDR_MASK = 0" using x(1) by auto
    moreover have "e = pte_set_addr (fst x) (snd x)" "fst x \<in> {code, ustack, ustack + PAGE_SIZE}"
      using x by (auto simp: case_prod_beta)
    ultimately show ?thesis by blast
  qed
  show "vm_free s5 \<subseteq> vm_free s3" by (rule paging.run_all_unused [OF ok3 insertI1 ru])
  have "vm_free s1 \<subseteq> vm_free st"
    by (rule create_user_page_table_effect [OF b K]) (use new b(1) in \<open>auto simp: vm_free_def\<close>)
  then show "vm_free s2 \<subseteq> vm_free st"
    using paging.run_all_unused [OF conjunct1 [OF c] insertI1 rb] by blast
qed


lemma vm_ok_subset: "vm_ok R s \<Longrightarrow> S \<subseteq> R \<Longrightarrow> vm_ok S s"
  unfolding vm_ok_def vm_inv_def tables_ok_def tables_unique_def by blast

text \<open>A root that is given up after the boot data was mapped leaves the other address spaces alone.\<close>

lemma boot_space_built:
  assumes ok: "vm_ok R st" and K: "KERNEL_PML4 st = k" "k \<noteq> 0" "k \<in> R"
    and new: "create_user_page_table st = Inr (pt, s1)"
    and boot: "map_bootdata_identity pt s1 = Inr s2" "bootdata_pages st = Inr as" "\<forall>a\<in>set as. user_half a"
  shows "vm_ok R s2" "\<And>t w. t \<in> R \<Longrightarrow> lookup (pt_mem s2) t w = lookup (pt_mem st) t w" "vm_free s2 \<subseteq> vm_free st"
proof -
  obtain b where b: "vm_buddy st = Some b" "vm_inv R (pt_mem st) b" using ok by (auto simp: vm_ok_def)
  have c: "vm_ok (insert pt R) s1 \<and> pt \<notin> R \<and> (\<forall>r\<in>R. \<forall>w. lookup (pt_mem s1) r w = lookup (pt_mem st) r w) \<and> vm_free s1 \<subseteq> vm_free st"
    by (rule create_user_page_table_effect [OF b K]) (use new b(1) in \<open>auto simp: vm_ok_def vm_free_def\<close>)
  have "bootdata s1 = bootdata st" using create_user_vm_only [OF new] by (rule vm_only_simps)
  then have "bootdata_pages s1 = Inr as" using boot(2) by (simp add: bootdata_pages_def)
  then have rb: "run_all (\<lambda>(v, p, f). map_into_page_table pt v p f) (boot_maps as) s1 = Inr s2"
    using map_bootdata_run_all [OF boot(1)] by (metis Inr_inject)
  have half: "\<forall>(v, p, f)\<in>set (boot_maps as). user_half v" using boot(3) by (auto simp: boot_maps_def)
  show "vm_ok R s2" using paging.run_all_ok [OF conjunct1 [OF c] insertI1 rb] by (rule vm_ok_subset) blast
  show "lookup (pt_mem s2) t w = lookup (pt_mem st) t w" if t: "t \<in> R" for t w
  proof -
    have "t \<in> insert pt R" "t \<noteq> pt" using t c by auto
    then have "lookup (pt_mem s2) t w = lookup (pt_mem s1) t w"
      by (rule paging.run_all_other [OF conjunct1 [OF c] insertI1 rb _ _ half])
    then show ?thesis using c t by simp
  qed
  show "vm_free s2 \<subseteq> vm_free st" using paging.run_all_unused [OF conjunct1 [OF c] insertI1 rb] c by blast
qed

section \<open>Spawning keeps the scheduler invariant\<close>

lemma sched_inv_cong:
  assumes "sched_inv st" "procs st' = procs st" "ready_queue st' = ready_queue st" "current st' = current st"
    "trap_frames st' = trap_frames st" "tss_rsp0 st' = tss_rsp0 st" "cr3 st' = cr3 st"
  shows "sched_inv st'"
  using assms(1) unfolding sched_inv_def loaded_def assms(2-7) resumable_def .

definition code_ok :: "machine \<Rightarrow> proc \<Rightarrow> bool" where
  "code_ok st p \<longleftrightarrow> (c_rip (pcontext p) = KernelTaskBootstrap \<and> pentry p \<noteq> None) \<or>
     (c_rip (pcontext p) = UserTaskBootstrap \<and> (\<exists>a. ptrap_frame p = Some a \<and> trap_frames st a \<noteq> None))"

lemma add_ready_inv:
  assumes inv: "sched_inv st0" and st: "procs st = procs st0" "ready_queue st = ready_queue st0" "current st = current st0"
      "tss_rsp0 st = tss_rsp0 st0" "cr3 st = cr3 st0" "\<And>a. trap_frames st0 a \<noteq> None \<Longrightarrow> trap_frames st a \<noteq> None"
    and p: "code_ok st p" "new_proc p st = (r, st1)"
  shows "sched_inv (push_ready r st1)" "r = length (procs st0)"
    "procs (push_ready r st1) = procs st0 @ [p\<lparr>pstate := Ready\<rparr>]" "ready_queue (push_ready r st1) = ready_queue st0 @ [r]"
proof -
  define S where "S = push_ready r st1"
  have st1: "r = length (procs st0)" "st1 = st\<lparr>procs := procs st0 @ [p]\<rparr>" using p(2) st(1) by (auto simp: new_proc_def)
  then have s: "procs S = procs st0 @ [p\<lparr>pstate := Ready\<rparr>]" "ready_queue S = ready_queue st0 @ [r]"
    "current S = current st0" "trap_frames S = trap_frames st" "tss_rsp0 S = tss_rsp0 st0" "cr3 S = cr3 st0"
    by (simp_all add: S_def push_ready_def Let_def st)
  show "r = length (procs st0)" "procs (push_ready r st1) = procs st0 @ [p\<lparr>pstate := Ready\<rparr>]" "ready_queue (push_ready r st1) = ready_queue st0 @ [r]"
    using st1(1) s(1,2) unfolding S_def by simp_all
  have old: "procs S ! i = procs st0 ! i" if "i < length (procs st0)" for i using that by (simp add: s nth_append)
  have new: "procs S ! r = p\<lparr>pstate := Ready\<rparr>" using s(1) st1(1) by (metis nth_append_length)
  have res: "resumable S i" if "i < length (procs st0)" "resumable st0 i" for i
    using that(2) st(6) unfolding resumable_def old [OF that(1)] s(4) by (auto split: code_ptr.splits)
  have resr: "resumable S r" using p(1) unfolding resumable_def new s(4) by (auto simp: code_ok_def)
  obtain c where c: "current st0 = Some c" "c < length (procs st0)" "c \<notin> set (ready_queue st0)" "distinct (ready_queue st0)"
    "\<And>p. p \<in> set (ready_queue st0) \<Longrightarrow> p < length (procs st0) \<and> pstate (procs st0 ! p) = Ready \<and> resumable st0 p"
    "pstate (procs st0 ! c) \<in> {Running, Exited}"
    "\<And>p. p < length (procs st0) \<Longrightarrow> p = c \<or> p \<in> set (ready_queue st0) \<or> pstate (procs st0 ! p) = Exited"
    "loaded st0 c" "0 < ticks_left (procs st0 ! c)" "ticks_left (procs st0 ! c) \<le> DEFAULT_TIME_SLICE_TICKS"
    by (rule sched_invE [OF inv]) (rule that)
  show "sched_inv (push_ready r st1)"
    unfolding sched_inv_def S_def [symmetric]
  proof (intro exI [of _ c] conjI)
    show "\<forall>q\<in>set (ready_queue S). q < length (procs S) \<and> pstate (procs S ! q) = Ready \<and> resumable S q"
      using c(5) res old new resr st1(1) by (auto simp: s(1,2) less_Suc_eq)
    show "\<forall>q<length (procs S). q = c \<or> q \<in> set (ready_queue S) \<or> pstate (procs S ! q) = Exited"
      using c(7) old st1(1) by (auto simp: s(1,2) less_Suc_eq)
    show "distinct (c # ready_queue S)" using c(2-5) st1(1) by (auto simp: s(2))
  qed (use c old [OF c(2)] in \<open>auto simp: s loaded_def\<close>)
qed

lemma finish_user_effect:
  assumes "finish_user np pt kstack code ustack rip stack_top st = Inr (r, st')" "sched_inv st0"
    "procs st = procs st0" "ready_queue st = ready_queue st0" "current st = current st0"
    "tss_rsp0 st = tss_rsp0 st0" "cr3 st = cr3 st0" "trap_frames st = trap_frames st0"
  shows "sched_inv st'" "r = length (procs st0)" "ready_queue st' = ready_queue st0 @ [r]"
    "pt_mem st' = pt_mem st" "vm_buddy st' = vm_buddy st" "frame_bytes st' = frame_bytes st" "KERNEL_PML4 st' = KERNEL_PML4 st"
    "bootdata st' = bootdata st" "next_pid st' = next_pid st"
    "\<exists>p a. procs st' = procs st0 @ [p] \<and> pstate p = Ready \<and> pkind p = UserProc \<and> pid p = np \<and> pagetable p = pt \<and>
      user_code_phys p = Some code \<and> user_stack_phys p = Some ustack \<and> c_rip (pcontext p) = UserTaskBootstrap \<and>
      ptrap_frame p = Some a \<and> c_rsp (pcontext p) \<le> a \<and> a + TRAP_FRAME_SIZE = kstack_top p \<and>
      trap_frames st' a = Some (trap_frame_new_user rip (of_nat stack_top))"
proof -
  obtain t where t: "kstack_top_of kstack = Inr t" "TRAP_FRAME_SIZE \<le> t"
    using assms(1) by (auto simp: finish_user_def rbind_eq_Inr_iff)
  define P where "P = \<lparr>pid = np, pstate = Ready,
     pcontext = context_new\<lparr>c_rsp := proc_align_down (t - TRAP_FRAME_SIZE) 16, c_rip := UserTaskBootstrap\<rparr>,
     pagetable = pt, kstack_phys = kstack, kstack_top = t, pkind = UserProc, ticks_left = DEFAULT_TIME_SLICE_TICKS,
     pentry = None, ptrap_frame = Some (t - TRAP_FRAME_SIZE), user_code_phys = Some code, user_stack_phys = Some ustack\<rparr>"
  define s where "s = st\<lparr>trap_frames := (trap_frames st)(t - TRAP_FRAME_SIZE \<mapsto> trap_frame_new_user rip (of_nat stack_top))\<rparr>"
  have run: "finish_user np pt kstack code ustack rip stack_top st = (let (r, st) = new_proc P s in Inr (r, push_ready r st))"
    unfolding finish_user_def t(1) rbind_simps sub_usize_ok [OF t(2)] P_def s_def Let_def ..
  then obtain st1 where st1: "new_proc P s = (r, st1)" "st' = push_ready r st1"
    using assms(1) by (auto simp: Let_def split: prod.splits)
  have ok: "code_ok s P" by (simp add: code_ok_def P_def s_def)
  note A = add_ready_inv [OF assms(2) _ _ _ _ _ _ ok st1(1)]
  have e: "procs s = procs st0" "ready_queue s = ready_queue st0" "current s = current st0" "tss_rsp0 s = tss_rsp0 st0"
    "cr3 s = cr3 st0" "\<And>a. trap_frames st0 a \<noteq> None \<Longrightarrow> trap_frames s a \<noteq> None"
    using assms(3-8) by (auto simp: s_def)
  note A = A [OF e, folded st1(2)]
  show "sched_inv st'" "r = length (procs st0)" "ready_queue st' = ready_queue st0 @ [r]" using A(1,2,4) by blast+
  have st': "pt_mem st' = pt_mem st \<and> vm_buddy st' = vm_buddy st \<and> frame_bytes st' = frame_bytes st \<and>
    KERNEL_PML4 st' = KERNEL_PML4 st \<and> bootdata st' = bootdata st \<and> next_pid st' = next_pid st \<and> trap_frames st' = trap_frames s"
    using st1 by (auto simp: new_proc_def push_ready_def Let_def s_def)
  then show "pt_mem st' = pt_mem st" "vm_buddy st' = vm_buddy st" "frame_bytes st' = frame_bytes st" "KERNEL_PML4 st' = KERNEL_PML4 st"
    "bootdata st' = bootdata st" "next_pid st' = next_pid st" by blast+
  have "P\<lparr>pstate := Ready\<rparr> = P" by (simp add: P_def)
  moreover have "proc_align_down (t - TRAP_FRAME_SIZE) 16 \<le> t - TRAP_FRAME_SIZE"
    using AND_upper1 [of "int (t - TRAP_FRAME_SIZE)" "int (not_usize 15)"]
    by (simp add: proc_align_down_def flip: of_nat_and_eq)
  ultimately show "\<exists>p a. procs st' = procs st0 @ [p] \<and> pstate p = Ready \<and> pkind p = UserProc \<and> pid p = np \<and> pagetable p = pt \<and>
      user_code_phys p = Some code \<and> user_stack_phys p = Some ustack \<and> c_rip (pcontext p) = UserTaskBootstrap \<and>
      ptrap_frame p = Some a \<and> c_rsp (pcontext p) \<le> a \<and> a + TRAP_FRAME_SIZE = kstack_top p \<and>
      trap_frames st' a = Some (trap_frame_new_user rip (of_nat stack_top))"
    using A(3) st' t(2) by (intro exI [of _ P] exI [of _ "t - TRAP_FRAME_SIZE"]) (simp add: P_def s_def)
qed


section \<open>A new user process\<close>

lemma proc_init_running: "current st = Some c \<Longrightarrow> proc_init st = Inr st"
  by (simp add: proc_init_def)

lemma expect_frames_Inr: "expect_frames msg m = Inr (a, st) \<longleftrightarrow> m = Inr (Some a, st)"
  by (auto simp: expect_frames_def rbind_eq_Inr_iff split: option.splits)

lemma spawn_user_steps:
  assumes "spawn_user code st = Inr (r, st')" "current st \<noteq> None"
  obtains base stop pt s1 s2 ks k1 cp k2 us k3 s4 s5 where
    "length code \<le> PAGE_SIZE" "user_code_base (next_pid st) = Inr base" "user_stack_top (next_pid st) = Inr stop"
    "create_user_page_table (st\<lparr>next_pid := next_pid st + 1\<rparr>) = Inr (pt, s1)" "map_bootdata_identity pt s1 = Inr s2"
    "take_frames no_buddy KERNEL_STACK_ORDER s2 = Inr (Some ks, k1)" "take_frames no_buddy 0 k1 = Inr (Some cp, k2)"
    "take_frames no_buddy USER_STACK_ORDER k2 = Inr (Some us, k3)"
    "map_into_page_table pt base cp (PRESENT OR USER) (write_code cp (if code = [] then [0xeb, 0xfe] else code) k3) = Inr s4"
    "map_user_stack pt stop us s4 = Inr s5" "finish_user (next_pid st) pt ks cp us (of_nat base) stop s5 = Inr (r, st')"
  using assms unfolding spawn_user_def fetch_pid_def Let_def
  by (auto simp: proc_init_def rbind_eq_Inr_iff expect_frames_Inr simp del: add_usize_Inr split: if_splits)


lemma free_pages_bound: "buddy_inv b \<Longrightarrow> p \<in> free_pages b \<Longrightarrow> p < 2 ^ 32"
  using wf_openD(1,2) [of "{}" b] by (simp add: free_pages_def buddy_inv_def free_at_def)

text \<open>The panics of \<open>spawn_user\<close> on a machine that is set up: out of memory.\<close>

definition spawn_panics :: "panic set" where
  "spawn_panics = {Expect ''out of memory for page table'', Expect ''no memory for user PML4'',
     Expect ''no memory for user task kernel stack'', Expect ''no memory for user code page'',
     Expect ''no memory for user stack''}"

lemma take_frames_cases:
  assumes "vm_ok R st"
  obtains "take_frames msg k st = Inr (None, st)"
  | p st' where "take_frames msg k st = Inr (Some (p * PAGE_SIZE), st')" "frames p k \<subseteq> vm_free st" "p + 2 ^ k \<le> 2 ^ 32"
      "vm_free st' = vm_free st - frames p k"
proof -
  obtain b where b: "vm_buddy st = Some b" "buddy_inv b" using assms by (auto simp: vm_ok_def vm_inv_def)
  show thesis
  proof (rule allocate_cases [OF b(2), of k])
    assume "allocate k b = Inr (None, b)"
    then show thesis using that(1) b(1) by (simp add: take_frames_def with_buddy_def)
  next
    fix p b' assume a: "allocate k b = Inr (Some (p * PAGE_SIZE), b')" "alloc_step k p b b'"
    have "p + 2 ^ k - 1 \<in> frames p k" 
      using one_le_power [of "2 :: nat" k] unfolding frames_def atLeastLessThan_iff by linarith
    then have "p + 2 ^ k - 1 \<in> free_pages b" using a(2) by (auto simp: alloc_step_def)
    then have "p + 2 ^ k - 1 < 2 ^ 32" using free_pages_bound [OF b(2)] by blast
    then show thesis
      using that(2) [of p "st\<lparr>vm_buddy := Some b'\<rparr>"] a b(1)
      by (auto simp: take_frames_def with_buddy_def alloc_step_def vm_free_def)
  qed
qed

lemma take_frames_Some:
  assumes "vm_ok R st" "take_frames msg k st = Inr (Some a, st')"
  obtains p where "a = p * PAGE_SIZE" "frames p k \<subseteq> vm_free st" "p + 2 ^ k \<le> 2 ^ 32" "vm_free st' = vm_free st - frames p k"
  by (rule take_frames_cases [OF assms(1), of msg k]) (use assms(2) that in auto)

text \<open>Taking frames one after the other, as \<open>spawn_elf\<close> does before it gives up.\<close>

definition frames_taken :: "machine \<Rightarrow> machine \<Rightarrow> bool" where
  "frames_taken = (\<lambda>s s'. \<exists>msg k r. take_frames msg k s = Inr (r, s'))\<^sup>*\<^sup>*"

lemma frames_taken_step: "frames_taken s s1 \<Longrightarrow> take_frames msg k s1 = Inr (r, s') \<Longrightarrow> frames_taken s s'"
  unfolding frames_taken_def by (metis (mono_tags, lifting) rtranclp.rtrancl_into_rtrancl)

lemma frames_taken_refl: "frames_taken s s"
  by (simp add: frames_taken_def)

lemma frames_taken_ok:
  assumes "frames_taken s s'"
  shows "vm_only s s'" "pt_mem s' = pt_mem s" "vm_ok R s \<Longrightarrow> vm_ok R s'" "vm_ok R s \<Longrightarrow> vm_free s' \<subseteq> vm_free s"
proof -
  have "vm_only s s' \<and> pt_mem s' = pt_mem s \<and> (vm_ok R s \<longrightarrow> vm_ok R s' \<and> vm_free s' \<subseteq> vm_free s)"
    using assms unfolding frames_taken_def
  proof (induction rule: rtranclp_induct)
    case (step s1 s2)
    then obtain msg k r where t: "take_frames msg k s1 = Inr (r, s2)" by blast
    have "vm_free s2 \<subseteq> vm_free s1" if "vm_ok R s1"
    proof (rule take_frames_cases [OF that, of msg k])
      assume "take_frames msg k s1 = Inr (None, s1)"
      then show ?thesis using t by simp
    next
      fix p st' assume "take_frames msg k s1 = Inr (Some (p * PAGE_SIZE), st')" "vm_free st' = vm_free s1 - frames p k"
      then show ?thesis using t by auto
    qed
    then show ?case
      using step(3) take_frames_vm_only [OF t] take_frames_ok [OF _ t] vm_only_trans [of s s1 s2] by auto
  qed simp
  then show "vm_only s s'" "pt_mem s' = pt_mem s" "vm_ok R s \<Longrightarrow> vm_ok R s'" "vm_ok R s \<Longrightarrow> vm_free s' \<subseteq> vm_free s" by blast+
qed

lemma try_frames_Inr: "try_frames m f = Inr (res, st') \<longleftrightarrow>
    (m = Inr (None, st') \<and> res = Inl NoMemory) \<or> (\<exists>a s. m = Inr (Some a, s) \<and> f a s = Inr (res, st'))"
  by (auto simp: try_frames_def rbind_eq_Inr_iff split: option.splits)

text \<open>The three ways \<open>spawn_elf\<close> can return.\<close>

lemma spawn_elf_cases:
  assumes "spawn_elf img st = Inr (res, st')" "current st \<noteq> None"
  obtains (refused) "st' = st" "res = Inl BadElf \<or> res = Inl ProgramTooLarge"
  | (no_memory) pt s1 s2 where "res = Inl NoMemory" "create_user_page_table (st\<lparr>next_pid := next_pid st + 1\<rparr>) = Inr (pt, s1)"
      "map_bootdata_identity pt s1 = Inr s2" "frames_taken s2 st'"
  | (started) r e stop pt s1 s2 ks k1 cp k2 us k3 s4 s5 where "res = Inr r" "elf_parse img = Inr (Inr e)"
      "file_size (elf_load e) \<le> PAGE_SIZE" "user_stack_top (next_pid st) = Inr stop"
      "create_user_page_table (st\<lparr>next_pid := next_pid st + 1\<rparr>) = Inr (pt, s1)" "map_bootdata_identity pt s1 = Inr s2"
      "take_frames no_buddy KERNEL_STACK_ORDER s2 = Inr (Some ks, k1)" "take_frames no_buddy 0 k1 = Inr (Some cp, k2)"
      "take_frames no_buddy USER_STACK_ORDER k2 = Inr (Some us, k3)"
      "map_into_page_table pt (virt_addr (elf_load e)) cp (PRESENT OR USER)
         (write_code cp (take (file_size (elf_load e)) (drop (seg_offset (elf_load e)) img)) k3) = Inr s4"
      "map_user_stack pt stop us s4 = Inr s5" "finish_user (next_pid st) pt ks cp us (of_nat (elf_entry e)) stop s5 = Inr (r, st')"
proof -
  obtain c where c: "current st = Some c" using assms(2) by blast
  obtain parsed where parsed: "elf_parse img = Inr parsed"
    using assms(1) unfolding spawn_elf_def proc_init_running [OF c] by (auto simp: rbind_eq_Inr_iff)
  show thesis
  proof (cases parsed)
    case (Inl x)
    then show ?thesis using assms(1) refused unfolding spawn_elf_def proc_init_running [OF c] parsed by simp
  next
    case (Inr e)
    show ?thesis
    proof (cases "PAGE_SIZE < file_size (elf_load e) \<or> PAGE_SIZE < mem_size (elf_load e)")
      case True
      then show ?thesis using assms(1) refused unfolding spawn_elf_def proc_init_running [OF c] parsed Inr by simp
    next
      case False
      have run: "rbind (user_stack_top (next_pid st)) (\<lambda>stop.
         rbind (create_user_page_table (st\<lparr>next_pid := next_pid st + 1\<rparr>)) (\<lambda>(pt, s1).
         rbind (map_bootdata_identity pt s1) (\<lambda>s2.
         try_frames (take_frames no_buddy KERNEL_STACK_ORDER s2) (\<lambda>ks k1.
         try_frames (take_frames no_buddy 0 k1) (\<lambda>cp k2.
         try_frames (take_frames no_buddy USER_STACK_ORDER k2) (\<lambda>us k3.
         rbind (add_usize cp KERNEL_VMA) (\<lambda>_.
         rbind (guard (seg_offset (elf_load e) \<le> length img) OutOfBounds) (\<lambda>_.
         rbind (map_into_page_table pt (virt_addr (elf_load e)) cp (PRESENT OR USER)
           (write_code cp (take (file_size (elf_load e)) (drop (seg_offset (elf_load e)) img)) k3)) (\<lambda>s4.
         rbind (map_user_stack pt stop us s4) (\<lambda>s5.
         rbind (finish_user (next_pid st) pt ks cp us (of_nat (elf_entry e)) stop s5) (\<lambda>(r, st). Inr (Inr r, st)))))))))))) = Inr (res, st')"
        using assms(1) False unfolding spawn_elf_def proc_init_running [OF c] parsed Inr fetch_pid_def Let_def by simp
      then obtain stop pt s1 s2 where s: "user_stack_top (next_pid st) = Inr stop"
          "create_user_page_table (st\<lparr>next_pid := next_pid st + 1\<rparr>) = Inr (pt, s1)" "map_bootdata_identity pt s1 = Inr s2"
        by (auto simp: rbind_eq_Inr_iff)
      consider (kstack) "take_frames no_buddy KERNEL_STACK_ORDER s2 = Inr (None, st')" "res = Inl NoMemory"
        | (code) ks k1 where "take_frames no_buddy KERNEL_STACK_ORDER s2 = Inr (Some ks, k1)" "take_frames no_buddy 0 k1 = Inr (None, st')"
            "res = Inl NoMemory"
        | (stack) ks k1 cp k2 where "take_frames no_buddy KERNEL_STACK_ORDER s2 = Inr (Some ks, k1)" "take_frames no_buddy 0 k1 = Inr (Some cp, k2)"
            "take_frames no_buddy USER_STACK_ORDER k2 = Inr (None, st')" "res = Inl NoMemory"
        | (all) r ks k1 cp k2 us k3 s4 s5 where "res = Inr r" "take_frames no_buddy KERNEL_STACK_ORDER s2 = Inr (Some ks, k1)"
            "take_frames no_buddy 0 k1 = Inr (Some cp, k2)" "take_frames no_buddy USER_STACK_ORDER k2 = Inr (Some us, k3)"
            "map_into_page_table pt (virt_addr (elf_load e)) cp (PRESENT OR USER)
               (write_code cp (take (file_size (elf_load e)) (drop (seg_offset (elf_load e)) img)) k3) = Inr s4"
            "map_user_stack pt stop us s4 = Inr s5" "finish_user (next_pid st) pt ks cp us (of_nat (elf_entry e)) stop s5 = Inr (r, st')"
        using run unfolding s rbind_simps prod.case try_frames_Inr
        by (elim disjE exE conjE; (unfold rbind_eq_Inr_iff)?; (elim exE conjE)?; (auto simp: rbind_eq_Inr_iff)?)
      then show ?thesis
      proof cases
        case kstack
        show ?thesis by (rule no_memory [OF kstack(2) s(2,3) frames_taken_step [OF frames_taken_refl kstack(1)]])
      next
        case code
        show ?thesis
          by (rule no_memory [OF code(3) s(2,3) frames_taken_step [OF frames_taken_step [OF frames_taken_refl code(1)] code(2)]])
      next
        case stack
        show ?thesis
          by (rule no_memory [OF stack(4) s(2,3)
              frames_taken_step [OF frames_taken_step [OF frames_taken_step [OF frames_taken_refl stack(1)] stack(2)] stack(3)]])
      next
        case all
        show ?thesis by (rule started [OF all(1) parsed [unfolded Inr] _ s all(2-7)]) (use False in simp)
      qed
    qed
  qed
qed

lemma expect_frames_Inl:
  assumes "vm_ok R st" "expect_frames w (take_frames msg k st) = Inl e" shows "e = Expect w"
  by (rule take_frames_cases [OF assms(1), of msg k])
    (use assms(2) in \<open>auto simp: expect_frames_def\<close>)

lemma write_code_simps [simp]:
  "pt_mem (write_code f c st) = pt_mem st" "vm_buddy (write_code f c st) = vm_buddy st"
  "procs (write_code f c st) = procs st" "ready_queue (write_code f c st) = ready_queue st"
  "current (write_code f c st) = current st" "trap_frames (write_code f c st) = trap_frames st"
  "tss_rsp0 (write_code f c st) = tss_rsp0 st" "cr3 (write_code f c st) = cr3 st"
  "KERNEL_PML4 (write_code f c st) = KERNEL_PML4 st" "bootdata (write_code f c st) = bootdata st"
  "next_pid (write_code f c st) = next_pid st"
  by (simp_all add: write_code_def)

lemma map_user_stack_failure:
  assumes "vm_ok R st" "pt \<in> R" "USER_STACK_SIZE \<le> stack_top" "map_user_stack pt stack_top ustack st = Inl e"
  shows "e = Expect ''out of memory for page table''"
  using assms(3,4) paging.run_all_failure [OF assms(1,2)]
  by (auto simp: map_user_stack_def map_list_run_all sub_usize_ok)

lemma map_bootdata_failure:
  assumes "vm_ok R st" "pt \<in> R" "bootdata_pages st = Inr as" "map_bootdata_identity pt st = Inl e"
  shows "e = Expect ''out of memory for page table''"
  using assms(3,4) paging.run_all_failure [OF assms(1,2)]
  by (auto simp: map_bootdata_identity_def map_list_run_all rbind_eq_Inl_iff)

lemma finish_user_total:
  assumes "ks + KERNEL_STACK_SIZE \<le> 2 ^ 44"
  shows "finish_user np pt ks cp us rip stop st \<noteq> Inl e"
  using assms by (simp add: finish_user_def kstack_top_of_def run_simps USIZE_MAX_def Let_def split: prod.splits)


lemma user_layout:
  assumes "unat q < 2 ^ 25"
  shows "user_code_base q = Inr (USER_CODE_BASE + unat q * USER_SLOT_SIZE)"
    "user_stack_top q = Inr (USER_STACK_TOP - unat q * USER_SLOT_SIZE)"
    "USER_STACK_SIZE \<le> USER_STACK_TOP - unat q * USER_SLOT_SIZE"
    "user_half (USER_CODE_BASE + unat q * USER_SLOT_SIZE)"
    "user_half (USER_STACK_TOP - unat q * USER_SLOT_SIZE - USER_STACK_SIZE)"
    "user_half (USER_STACK_TOP - unat q * USER_SLOT_SIZE - PAGE_SIZE)"
proof -
  have half: "user_half v" if "v < 2 ^ 47" for v
  proof -
    have "v div 2 ^ 39 < 256" using that by (simp add: div_less_iff_less_mult)
    then show ?thesis by simp
  qed
  show "user_code_base q = Inr (USER_CODE_BASE + unat q * USER_SLOT_SIZE)"
    "user_stack_top q = Inr (USER_STACK_TOP - unat q * USER_SLOT_SIZE)"
    "USER_STACK_SIZE \<le> USER_STACK_TOP - unat q * USER_SLOT_SIZE"
    using assms by (simp_all add: user_code_base_def user_stack_top_def run_simps USIZE_MAX_def)
  show "user_half (USER_CODE_BASE + unat q * USER_SLOT_SIZE)"
    "user_half (USER_STACK_TOP - unat q * USER_SLOT_SIZE - USER_STACK_SIZE)"
    "user_half (USER_STACK_TOP - unat q * USER_SLOT_SIZE - PAGE_SIZE)"
    using assms by (intro half; simp)+
qed

definition panics_in :: "panic set \<Rightarrow> 'a run \<Rightarrow> bool" where
  "panics_in S m \<longleftrightarrow> (\<forall>e. m = Inl e \<longrightarrow> e \<in> S)"

lemma panics_in_rbind:
  "panics_in S m \<Longrightarrow> (\<And>x. m = Inr x \<Longrightarrow> panics_in S (f x)) \<Longrightarrow> panics_in S (rbind m f)"
  by (auto simp: panics_in_def rbind_eq_Inl_iff)

lemma panics_in_rbind_pair:
  "panics_in S m \<Longrightarrow> (\<And>x y. m = Inr (x, y) \<Longrightarrow> panics_in S (f x y)) \<Longrightarrow> panics_in S (rbind m (\<lambda>(x, y). f x y))"
  by (auto simp: panics_in_def rbind_eq_Inl_iff)

lemma expect_frames_ok:
  assumes "vm_ok R st" "expect_frames w (take_frames msg k st) = Inr (a, st')"
  shows "vm_ok R st'" "\<exists>p. a = p * PAGE_SIZE \<and> p + 2 ^ k \<le> 2 ^ 32"
proof -
  have t: "take_frames msg k st = Inr (Some a, st')" using assms(2) by (simp add: expect_frames_Inr)
  show "vm_ok R st'" by (rule take_frames_ok [OF assms(1) t])
  show "\<exists>p. a = p * PAGE_SIZE \<and> p + 2 ^ k \<le> 2 ^ 32" by (rule take_frames_Some [OF assms(1) t]) blast
qed

lemma spawn_user_panics:
  assumes ok: "vm_ok R st" "current st \<noteq> None" and K: "KERNEL_PML4 st = k" "k \<noteq> 0" "k \<in> R"
    and pid: "unat (next_pid st) < 2 ^ 25" and boot: "bootdata_pages st = Inr as" and len: "length code \<le> PAGE_SIZE"
  shows "panics_in spawn_panics (spawn_user code st)"
proof -
  define st0 where "st0 = st\<lparr>next_pid := next_pid st + 1\<rparr>"
  obtain c where "current st = Some c" using ok(2) by blast
  note start = proc_init_running [OF this] user_layout(1,2) [OF pid]
  obtain b where b: "vm_buddy st0 = Some b" "vm_inv R (pt_mem st0) b" using ok(1) by (auto simp: vm_ok_def st0_def)
  have K0: "KERNEL_PML4 st0 = k" using K(1) by (simp add: st0_def)
  have c1: "panics_in spawn_panics (create_user_page_table st0)"
    by (rule create_user_page_table_effect [OF b K0 K(2,3)]) (auto simp: panics_in_def spawn_panics_def)
  have c2: "vm_ok (insert pt R) s1 \<and> bootdata_pages s1 = Inr as" if "create_user_page_table st0 = Inr (pt, s1)" for pt s1
    by (rule create_user_page_table_effect [OF b K0 K(2,3)])
      (use that boot in \<open>auto simp: vm_ok_def st0_def bootdata_pages_def\<close>)
  note ok2 = paging.run_all_ok [OF _ insertI1]
  have c3: "vm_ok (insert pt R) s2" if "create_user_page_table st0 = Inr (pt, s1)" "map_bootdata_identity pt s1 = Inr s2" for pt s1 s2
    by (rule map_bootdata_run_all [OF that(2)]) (use ok2 c2 [OF that(1)] in blast)
  show ?thesis
    unfolding spawn_user_def fetch_pid_def Let_def start rbind_simps st0_def [symmetric] prod.case
    using len
  proof (simp only: not_less [symmetric] if_False, intro panics_in_rbind_pair panics_in_rbind c1, goal_cases)
    case 1
    then show ?case using map_bootdata_failure [OF _ insertI1] c2 by (auto simp: panics_in_def spawn_panics_def)
  next
    case 2
    then show ?case using expect_frames_Inl [OF c3] by (auto simp: panics_in_def spawn_panics_def)
  next
    case 3
    then show ?case using expect_frames_Inl [OF expect_frames_ok(1) [OF c3]] by (auto simp: panics_in_def spawn_panics_def)
  next
    case 4
    then show ?case using expect_frames_Inl [OF expect_frames_ok(1) [OF expect_frames_ok(1) [OF c3]]]
      by (auto simp: panics_in_def spawn_panics_def)
  next
    case (5 pt s1 s2 ks k1 cp k2)
    then obtain p where "cp = p * PAGE_SIZE" "p + 1 \<le> 2 ^ 32" using expect_frames_ok(2) [OF expect_frames_ok(1) [OF c3]] by fastforce
    then show ?case by (simp add: panics_in_def run_simps USIZE_MAX_def)
  next
    case (6 pt s1 s2 ks k1 cp k2 us k3)
    then have ok3: "vm_ok (insert pt R) k3" by (intro expect_frames_ok(1) [OF expect_frames_ok(1) [OF expect_frames_ok(1) [OF c3]]])
    have "vm_ok (insert pt R) (write_code cp c k3)" for c by (rule vm_ok_cong [THEN iffD2, OF write_code_simps(1,2) ok3])
    then have "map_into_page_table pt v p f (write_code cp c k3) = Inl e \<Longrightarrow> e = Expect ''out of memory for page table''" for v p f c e
      using paging.mp_failure [OF _ insertI1] by blast
    then show ?case unfolding panics_in_def spawn_panics_def by blast
  next
    case (7 pt s1 s2 ks k1 cp k2 us k3 u s4)
    then have ok3: "vm_ok (insert pt R) k3" by (intro expect_frames_ok(1) [OF expect_frames_ok(1) [OF expect_frames_ok(1) [OF c3]]])
    have "vm_ok (insert pt R) (write_code cp c k3)" for c by (rule vm_ok_cong [THEN iffD2, OF write_code_simps(1,2) ok3])
    then have "vm_ok (insert pt R) s4" using paging.mp_ok [OF _ insertI1 7(9)] by blast
    then show ?case
      using map_user_stack_failure [OF _ insertI1 user_layout(3) [OF pid]] unfolding panics_in_def spawn_panics_def by blast
  next
    case (8 pt s1 s2 ks k1)
    then obtain p where "ks = p * PAGE_SIZE" "p + 4 \<le> 2 ^ 32" using expect_frames_ok(2) [OF c3] by fastforce
    then show ?case using finish_user_total by (simp add: panics_in_def)
  qed
qed


section \<open>What a process owns\<close>

text \<open>The user frames of a process, and the frames ring 3 reaches through a page table.\<close>

definition proc_frames :: "proc \<Rightarrow> nat set" where
  "proc_frames p = (case user_code_phys p of None \<Rightarrow> {} | Some a \<Rightarrow> frames (a div PAGE_SIZE) 0) \<union>
     (case user_stack_phys p of None \<Rightarrow> {} | Some a \<Rightarrow> frames (a div PAGE_SIZE) USER_STACK_ORDER)"

definition user_frames :: "pt_memory \<Rightarrow> phys_addr \<Rightarrow> nat set" where
  "user_frames m r = {pte_addr e div PAGE_SIZE | w e. lookup m r w = Some e \<and> has_flag e USER}"

definition user_reach :: "proc \<Rightarrow> virt_addr \<Rightarrow> bool" where
  "user_reach p w \<longleftrightarrow> same_page (USER_CODE_BASE + unat (pid p) * USER_SLOT_SIZE) w \<or>
     same_page (USER_STACK_TOP - unat (pid p) * USER_SLOT_SIZE - USER_STACK_SIZE) w \<or>
     same_page (USER_STACK_TOP - unat (pid p) * USER_SLOT_SIZE - PAGE_SIZE) w"

lemma user_frames_bound:
  assumes "\<And>w e. lookup m r w = Some e \<Longrightarrow> has_flag e USER \<Longrightarrow>
       \<exists>f fl. e = pte_set_addr f fl \<and> fl AND ADDR_MASK = 0 \<and> f \<in> {cp * PAGE_SIZE, us * PAGE_SIZE, us * PAGE_SIZE + PAGE_SIZE}"
    and "cp + 1 \<le> 2 ^ 32" "us + 2 \<le> 2 ^ 32"
  shows "user_frames m r \<subseteq> frames cp 0 \<union> frames us 1"
proof
  fix x assume "x \<in> user_frames m r"
  then obtain w e where x: "x = pte_addr e div PAGE_SIZE" and "lookup m r w = Some e" "has_flag e USER"
    by (auto simp: user_frames_def)
  then obtain f fl where f: "e = pte_set_addr f fl" "fl AND ADDR_MASK = 0" "f \<in> (\<lambda>j. j * PAGE_SIZE) ` {cp, us, us + 1}"
    using assms(1) by fastforce
  then obtain j where j: "f = j * PAGE_SIZE" "j \<in> {cp, us, us + 1}" by blast
  have "pte_addr e = f" unfolding f(1) by (rule pte_addr_set_addr [OF j(1) _ f(2)]) (use j assms(2,3) in auto)
  then show "x \<in> frames cp 0 \<union> frames us 1" using j by (auto simp: x frames_def)
qed

end
