(* ===== verification/Proc_System.thy ===== *)
theory Proc_System
  imports Proc_Space
begin

text \<open>
  The processes of src/src/task/proc.rs together: spawning, timer ticks, yields and exits in any
  order.  The scheduler invariant holds in every reachable state, every user process reaches only its
  own frames, and every ready process gets the processor within a bounded number of ticks.
\<close>

unbundle bit_operations_syntax

section \<open>Spawning\<close>

text \<open>An empty program is replaced by \<^verbatim>\<open>jmp $\<close>.\<close>

definition loaded_code :: "data \<Rightarrow> data" where
  "loaded_code code = (if code = [] then [0xeb, 0xfe] else code)"

text \<open>The common end of both ways to start a user process: with the page table made, the frames taken and
  code and stack mapped, the process is ready and its address space is as it should be.\<close>

lemma user_process_sched:
  assumes inv: "sched_inv st"
    and S: "create_user_page_table (st\<lparr>next_pid := next_pid st + 1\<rparr>) = Inr (pt, s1)" "map_bootdata_identity pt s1 = Inr s2"
    "take_frames no_buddy KERNEL_STACK_ORDER s2 = Inr (Some ks, k1)" "take_frames no_buddy 0 k1 = Inr (Some cp, k2)"
    "take_frames no_buddy USER_STACK_ORDER k2 = Inr (Some us, k3)"
    "map_into_page_table pt v cp (PRESENT OR USER) (write_code cp code k3) = Inr s4"
    "map_user_stack pt stop us s4 = Inr s5" "finish_user (next_pid st) pt ks cp us rip stop s5 = Inr (r, st')"
  obtains p a where "sched_inv st'" "r = length (procs st)" "ready_queue st' = ready_queue st @ [r]" "procs st' = procs st @ [p]"
    "KERNEL_PML4 st' = KERNEL_PML4 st" "bootdata st' = bootdata st" "next_pid st' = next_pid st + 1"
    "pt_mem st' = pt_mem s5" "vm_buddy st' = vm_buddy s5" "frame_bytes st' = frame_bytes (write_code cp code k3)"
    "pkind p = UserProc" "pid p = next_pid st" "pagetable p = pt" "user_code_phys p = Some cp" "user_stack_phys p = Some us"
    "c_rip (pcontext p) = UserTaskBootstrap" "ptrap_frame p = Some a" "a + TRAP_FRAME_SIZE = kstack_top p"
    "trap_frames st' a = Some (trap_frame_new_user rip (of_nat stop))"
proof -
  have only: "vm_only s2 k3"
    using take_frames_vm_only [OF S(3)] take_frames_vm_only [OF S(4)] take_frames_vm_only [OF S(5)] vm_only_trans by blast
  have o5: "vm_only (write_code cp code k3) s5"
    using map_into_vm_only [OF S(6)] S(7) by (auto simp: map_user_stack_def rbind_eq_Inr_iff dest: map_list_vm_only intro: vm_only_trans)
  have o2: "vm_only (st\<lparr>next_pid := next_pid st + 1\<rparr>) s2"
    using create_user_vm_only [OF S(1)] S(2) by (auto simp: map_bootdata_identity_def rbind_eq_Inr_iff dest: map_list_vm_only intro: vm_only_trans)
  note e = vm_only_simps [OF o5, unfolded write_code_simps] vm_only_simps [OF only] vm_only_simps [OF o2]
  have "procs s5 = procs st" "ready_queue s5 = ready_queue st" "current s5 = current st" "tss_rsp0 s5 = tss_rsp0 st"
    "cr3 s5 = cr3 st" "trap_frames s5 = trap_frames st"
    by (simp_all add: e)
  note F = finish_user_effect [OF S(8) inv this]
  obtain p a where p: "procs st' = procs st @ [p]" "pkind p = UserProc" "pid p = next_pid st" "pagetable p = pt"
      "user_code_phys p = Some cp" "user_stack_phys p = Some us" "c_rip (pcontext p) = UserTaskBootstrap"
      "ptrap_frame p = Some a" "a + TRAP_FRAME_SIZE = kstack_top p"
      "trap_frames st' a = Some (trap_frame_new_user rip (of_nat stop))"
    using F(10) by blast
  have "KERNEL_PML4 st' = KERNEL_PML4 st" "bootdata st' = bootdata st" "next_pid st' = next_pid st + 1"
    "frame_bytes st' = frame_bytes (write_code cp code k3)"
    using F(6-9) vm_only_simps(9) [OF o5] by (simp_all add: e)
  then show thesis using that [OF F(1-3) p(1)] F(4,5) p by simp
qed

lemma user_process_built:
  assumes inv: "sched_inv st" and ok: "vm_ok R st" and K: "KERNEL_PML4 st = k" "k \<noteq> 0" "k \<in> R"
    and sup: "all_leaves supervisor (pt_mem st) k" and boot: "bootdata_pages st = Inr as" "\<forall>a\<in>set as. user_half a"
    and S: "create_user_page_table (st\<lparr>next_pid := next_pid st + 1\<rparr>) = Inr (pt, s1)" "map_bootdata_identity pt s1 = Inr s2"
    "take_frames no_buddy KERNEL_STACK_ORDER s2 = Inr (Some ks, k1)" "take_frames no_buddy 0 k1 = Inr (Some cp, k2)"
    "take_frames no_buddy USER_STACK_ORDER k2 = Inr (Some us, k3)"
    "map_into_page_table pt v cp (PRESENT OR USER) (write_code cp code k3) = Inr s4"
    "map_user_stack pt stop us s4 = Inr s5" "finish_user (next_pid st) pt ks cp us rip stop s5 = Inr (r, st')"
    and half: "user_half v" "user_half (stop - USER_STACK_SIZE)" "user_half (stop - PAGE_SIZE)"
  obtains p a where
    "sched_inv st'" "r = length (procs st)" "ready_queue st' = ready_queue st @ [r]" "procs st' = procs st @ [p]"
    "KERNEL_PML4 st' = k" "bootdata st' = bootdata st" "next_pid st' = next_pid st + 1"
    "\<And>t w. t \<in> R \<Longrightarrow> lookup (pt_mem st') t w = lookup (pt_mem st) t w"
    "pkind p = UserProc" "pid p = next_pid st" "pagetable p \<notin> R" "vm_ok (insert (pagetable p) R) st'"
    "\<And>w. user_access (pt_mem st') (pagetable p) w \<longleftrightarrow>
       same_page v w \<or> same_page (stop - USER_STACK_SIZE) w \<or> same_page (stop - PAGE_SIZE) w"
    "user_frames (pt_mem st') (pagetable p) \<subseteq> proc_frames p" "proc_frames p \<subseteq> vm_free st"
    "vm_free st' \<subseteq> vm_free st - proc_frames p"
    "c_rip (pcontext p) = UserTaskBootstrap" "ptrap_frame p = Some a" "a + TRAP_FRAME_SIZE = kstack_top p"
    "trap_frames st' a = Some (trap_frame_new_user rip (of_nat stop))" "user_code_phys p = Some cp"
    "\<And>i. i < PAGE_SIZE \<Longrightarrow> frame_bytes st' (cp + i) = (if i < length code then code ! i else 0)"
proof (rule user_process_sched [OF inv S])
  fix p a
  assume F: "sched_inv st'" "r = length (procs st)" "ready_queue st' = ready_queue st @ [r]" "procs st' = procs st @ [p]"
    "KERNEL_PML4 st' = KERNEL_PML4 st" "bootdata st' = bootdata st" "next_pid st' = next_pid st + 1"
    "pt_mem st' = pt_mem s5" "vm_buddy st' = vm_buddy s5" "frame_bytes st' = frame_bytes (write_code cp code k3)"
    and p: "pkind p = UserProc" "pid p = next_pid st" "pagetable p = pt" "user_code_phys p = Some cp" "user_stack_phys p = Some us"
    "c_rip (pcontext p) = UserTaskBootstrap" "ptrap_frame p = Some a" "a + TRAP_FRAME_SIZE = kstack_top p"
    "trap_frames st' a = Some (trap_frame_new_user rip (of_nat stop))"
  define st0 where "st0 = st\<lparr>next_pid := next_pid st + 1\<rparr>"
  have mem: "pt_mem k3 = pt_mem s2"
    using take_frames_vm_only [OF S(3)] take_frames_vm_only [OF S(4)] take_frames_vm_only [OF S(5)] by simp
  have ok3: "\<forall>R. vm_ok R s2 \<longrightarrow> vm_ok R (write_code cp code k3)"
    using take_frames_ok [OF take_frames_ok [OF take_frames_ok [OF _ S(3)] S(4)] S(5)] vm_ok_cong [OF write_code_simps(1,2)] by blast
  have pre: "vm_ok R st0" "KERNEL_PML4 st0 = k" "all_leaves supervisor (pt_mem st0) k"
    "bootdata_pages st0 = Inr as" "vm_free st0 = vm_free st"
    using ok K(1) sup boot(1) by (simp_all add: st0_def vm_ok_def bootdata_pages_def vm_free_def)
  note U = user_space_built [OF pre(1,2) K(2,3) pre(3) S(1) [folded st0_def] S(2) pre(4) boot(2) _ ok3 S(6) half(1) S(7) half(2,3),
      unfolded write_code_simps, OF mem]
  obtain qk where qk: "vm_free k1 = vm_free s2 - frames qk KERNEL_STACK_ORDER" by (rule take_frames_Some [OF U(8) S(3)])
  have okk: "vm_ok (insert pt R) k1" "vm_ok (insert pt R) k2"
    using take_frames_ok [OF U(8) S(3)] take_frames_ok [OF take_frames_ok [OF U(8) S(3)] S(4)] .
  obtain qc where qc: "cp = qc * PAGE_SIZE" "frames qc 0 \<subseteq> vm_free k1" "qc + 2 ^ 0 \<le> 2 ^ 32" "vm_free k2 = vm_free k1 - frames qc 0"
    by (rule take_frames_Some [OF okk(1) S(4)])
  obtain qs where qs: "us = qs * PAGE_SIZE" "frames qs USER_STACK_ORDER \<subseteq> vm_free k2" "qs + 2 ^ USER_STACK_ORDER \<le> 2 ^ 32"
      "vm_free k3 = vm_free k2 - frames qs USER_STACK_ORDER"
    by (rule take_frames_Some [OF okk(2) S(5)])
  have own: "frames qc 0 \<union> frames qs USER_STACK_ORDER \<subseteq> vm_free st"
    "vm_free s5 \<subseteq> vm_free st - (frames qc 0 \<union> frames qs USER_STACK_ORDER)"
  proof -
    have "vm_free s5 \<subseteq> vm_free k3" "vm_free s2 \<subseteq> vm_free st" using U(6,7) pre(5) by (simp_all add: vm_free_def)
    then show "frames qc 0 \<union> frames qs USER_STACK_ORDER \<subseteq> vm_free st"
      "vm_free s5 \<subseteq> vm_free st - (frames qc 0 \<union> frames qs USER_STACK_ORDER)" using qk qc(2,4) qs(2,4) by blast+
  qed
  have uf: "user_frames (pt_mem s5) pt \<subseteq> frames qc 0 \<union> frames qs USER_STACK_ORDER"
    by (rule user_frames_bound [OF _ _ _]) (use U(5) qc(1,3) qs(1,3) in auto)
  have pf: "proc_frames p = frames qc 0 \<union> frames qs USER_STACK_ORDER" by (simp add: proc_frames_def p(4,5) qc(1) qs(1))
  have fr: "vm_free st' = vm_free s5" "vm_ok (insert pt R) st' = vm_ok (insert pt R) s5"
    using F(8,9) by (simp_all add: vm_free_def vm_ok_def)
  show thesis
  proof (rule that [OF F(1-4)])
    show "KERNEL_PML4 st' = k" using F(5) K(1) by simp
    show "vm_ok (insert (pagetable p) R) st'" "pagetable p \<notin> R" using U(1,2) by (simp_all add: p(3) fr)
    show "lookup (pt_mem st') t w = lookup (pt_mem st) t w" if "t \<in> R" for t w using U(3) [OF that] by (simp add: F(8) st0_def)
    show "user_access (pt_mem st') (pagetable p) w \<longleftrightarrow>
       same_page v w \<or> same_page (stop - USER_STACK_SIZE) w \<or> same_page (stop - PAGE_SIZE) w" for w
      unfolding p(3) F(8) by (rule U(4))
    show "user_frames (pt_mem st') (pagetable p) \<subseteq> proc_frames p" using uf unfolding pf p(3) F(8) .
    show "proc_frames p \<subseteq> vm_free st" "vm_free st' \<subseteq> vm_free st - proc_frames p" using own unfolding pf fr .
    show "frame_bytes st' (cp + i) = (if i < length code then code ! i else 0)" if "i < PAGE_SIZE" for i
      using that by (simp add: F(10) write_code_def)
  qed (use F(6,7) p in simp_all)
qed

lemma spawn_user_effect:
  assumes inv: "sched_inv st" and ok: "vm_ok R st" and K: "KERNEL_PML4 st = k" "k \<noteq> 0" "k \<in> R"
    and sup: "all_leaves supervisor (pt_mem st) k" and pid: "unat (next_pid st) < 2 ^ 25"
    and boot: "bootdata_pages st = Inr as" "\<forall>a\<in>set as. user_half a"
    and run: "spawn_user code st = Inr (r, st')"
  obtains p a cp where
    "sched_inv st'" "r = length (procs st)" "ready_queue st' = ready_queue st @ [r]" "procs st' = procs st @ [p]"
    "KERNEL_PML4 st' = k" "bootdata st' = bootdata st" "next_pid st' = next_pid st + 1"
    "\<And>t w. t \<in> R \<Longrightarrow> lookup (pt_mem st') t w = lookup (pt_mem st) t w"
    "pkind p = UserProc" "pid p = next_pid st" "pagetable p \<notin> R" "vm_ok (insert (pagetable p) R) st'"
    "\<And>w. user_access (pt_mem st') (pagetable p) w = user_reach p w"
    "user_frames (pt_mem st') (pagetable p) \<subseteq> proc_frames p" "proc_frames p \<subseteq> vm_free st"
    "vm_free st' \<subseteq> vm_free st - proc_frames p"
    "c_rip (pcontext p) = UserTaskBootstrap" "ptrap_frame p = Some a" "a + TRAP_FRAME_SIZE = kstack_top p"
    "trap_frames st' a = Some (trap_frame_new_user (of_nat (USER_CODE_BASE + unat (pid p) * USER_SLOT_SIZE))
       (of_nat (USER_STACK_TOP - unat (pid p) * USER_SLOT_SIZE)))"
    "user_code_phys p = Some cp"
    "\<And>i. i < PAGE_SIZE \<Longrightarrow> frame_bytes st' (cp + i) = (if i < length (loaded_code code) then loaded_code code ! i else 0)"
proof -
  have cur: "current st \<noteq> None" by (rule sched_invE [OF inv]) simp
  define base where "base = USER_CODE_BASE + unat (next_pid st) * USER_SLOT_SIZE"
  define stop where "stop = USER_STACK_TOP - unat (next_pid st) * USER_SLOT_SIZE"
  note lay = user_layout [OF pid, folded base_def stop_def]
  obtain pt s1 s2 ks k1 cp k2 us k3 s4 s5 where
    S: "create_user_page_table (st\<lparr>next_pid := next_pid st + 1\<rparr>) = Inr (pt, s1)" "map_bootdata_identity pt s1 = Inr s2"
    "take_frames no_buddy KERNEL_STACK_ORDER s2 = Inr (Some ks, k1)" "take_frames no_buddy 0 k1 = Inr (Some cp, k2)"
    "take_frames no_buddy USER_STACK_ORDER k2 = Inr (Some us, k3)"
    "map_into_page_table pt base cp (PRESENT OR USER) (write_code cp (loaded_code code) k3) = Inr s4"
    "map_user_stack pt stop us s4 = Inr s5" "finish_user (next_pid st) pt ks cp us (of_nat base) stop s5 = Inr (r, st')"
    using run cur unfolding loaded_code_def by (rule spawn_user_steps) (use lay that in simp)
  show thesis
  proof (rule user_process_built [OF inv ok K sup boot S lay(4-6)], goal_cases)
    case (1 p a)
    have "user_access (pt_mem st') (pagetable p) w = user_reach p w" for w
      unfolding user_reach_def 1(10) base_def [symmetric] stop_def [symmetric] by (rule 1(13))
    moreover have "trap_frames st' a = Some (trap_frame_new_user (of_nat (USER_CODE_BASE + unat (pid p) * USER_SLOT_SIZE))
       (of_nat (USER_STACK_TOP - unat (pid p) * USER_SLOT_SIZE)))" using 1(20) unfolding 1(10) base_def stop_def .
    ultimately show thesis using that [OF 1(1-12) _ 1(14-19) _ 1(21,22)] by blast
  qed
qed

text \<open>\<open>spawn_elf\<close> starts a process in the same way, with the load segment of the image as its code page;
  it asks that the segment lies in the user half.\<close>

lemma spawn_elf_effect:
  assumes inv: "sched_inv st" and ok: "vm_ok R st" and K: "KERNEL_PML4 st = k" "k \<noteq> 0" "k \<in> R"
    and sup: "all_leaves supervisor (pt_mem st) k" and pid: "unat (next_pid st) < 2 ^ 25"
    and boot: "bootdata_pages st = Inr as" "\<forall>a\<in>set as. user_half a"
    and run: "spawn_elf img st = Inr (Inr r, st')"
    and low: "\<And>e. elf_parse img = Inr (Inr e) \<Longrightarrow> user_half (virt_addr (elf_load e))"
  obtains e p a cp where "elf_parse img = Inr (Inr e)"
    "sched_inv st'" "r = length (procs st)" "ready_queue st' = ready_queue st @ [r]" "procs st' = procs st @ [p]"
    "KERNEL_PML4 st' = k" "bootdata st' = bootdata st" "next_pid st' = next_pid st + 1"
    "\<And>t w. t \<in> R \<Longrightarrow> lookup (pt_mem st') t w = lookup (pt_mem st) t w"
    "pkind p = UserProc" "pid p = next_pid st" "pagetable p \<notin> R" "vm_ok (insert (pagetable p) R) st'"
    "\<And>w. user_access (pt_mem st') (pagetable p) w \<longleftrightarrow> same_page (virt_addr (elf_load e)) w \<or>
       same_page (USER_STACK_TOP - unat (pid p) * USER_SLOT_SIZE - USER_STACK_SIZE) w \<or>
       same_page (USER_STACK_TOP - unat (pid p) * USER_SLOT_SIZE - PAGE_SIZE) w"
    "user_frames (pt_mem st') (pagetable p) \<subseteq> proc_frames p" "proc_frames p \<subseteq> vm_free st"
    "vm_free st' \<subseteq> vm_free st - proc_frames p"
    "c_rip (pcontext p) = UserTaskBootstrap" "ptrap_frame p = Some a" "a + TRAP_FRAME_SIZE = kstack_top p"
    "trap_frames st' a = Some (trap_frame_new_user (of_nat (elf_entry e)) (of_nat (USER_STACK_TOP - unat (pid p) * USER_SLOT_SIZE)))"
    "user_code_phys p = Some cp"
    "\<And>i. i < PAGE_SIZE \<Longrightarrow> frame_bytes st' (cp + i) =
       (let code = take (file_size (elf_load e)) (drop (seg_offset (elf_load e)) img) in if i < length code then code ! i else 0)"
proof -
  have cur: "current st \<noteq> None" by (rule sched_invE [OF inv]) simp
  define stop where "stop = USER_STACK_TOP - unat (next_pid st) * USER_SLOT_SIZE"
  note lay = user_layout [OF pid, folded stop_def]
  show thesis
    using run cur
  proof (cases rule: spawn_elf_cases)
    case (started r' e stop' pt s1 s2 ks k1 cp k2 us k3 s4 s5)
    have eq: "r' = r" "stop' = stop" using started(1,4) lay(2) by simp_all
    note v = low [OF started(2)]
    show ?thesis
    proof (rule user_process_built [OF inv ok K sup boot started(5-12) [unfolded eq] v lay(5,6)], goal_cases)
      case (1 p a)
      show thesis
        by (rule that [OF started(2) 1(1-12) 1(13) [unfolded stop_def 1(10) [symmetric]] 1(14-19)
              1(20) [unfolded stop_def 1(10) [symmetric]] 1(21)]) (assumption, unfold Let_def, rule 1(22), assumption)
    qed
  qed simp_all
qed


lemma spawn_kernel_sched:
  assumes inv: "sched_inv st" and run: "spawn_kernel entry st = Inr (r, st')"
  obtains p ks s where "sched_inv st'" "r = length (procs st)" "ready_queue st' = ready_queue st @ [r]" "procs st' = procs st @ [p]"
    "KERNEL_PML4 st' = KERNEL_PML4 st" "bootdata st' = bootdata st" "next_pid st' = next_pid st + 1" "pt_mem st' = pt_mem st"
    "take_frames ''You must initialize buddy allocator before spawning a kernel task.'' KERNEL_STACK_ORDER
       (st\<lparr>next_pid := next_pid st + 1\<rparr>) = Inr (Some ks, s)" "vm_buddy st' = vm_buddy s" "pt_mem s = pt_mem st"
    "pkind p = KernelProc" "pagetable p = KERNEL_PML4 st" "user_code_phys p = None" "user_stack_phys p = None" "pentry p = Some entry"
proof -
  obtain c where cur: "current st = Some c" by (rule sched_invE [OF inv])
  define st0 where "st0 = st\<lparr>next_pid := next_pid st + 1\<rparr>"
  obtain ks s stop p where
    S: "take_frames ''You must initialize buddy allocator before spawning a kernel task.'' KERNEL_STACK_ORDER st0 = Inr (Some ks, s)"
    and p: "p = \<lparr>pid = next_pid st, pstate = Ready,
           pcontext = context_new\<lparr>c_rsp := proc_align_down stop 16, c_rip := KernelTaskBootstrap\<rparr>,
           pagetable = KERNEL_PML4 s, kstack_phys = ks, kstack_top = stop, pkind = KernelProc,
           ticks_left = DEFAULT_TIME_SLICE_TICKS, pentry = Some entry, ptrap_frame = None,
           user_code_phys = None, user_stack_phys = None\<rparr>"
    and new: "r = fst (new_proc p s)" "st' = push_ready r (snd (new_proc p s))"
    using run unfolding spawn_kernel_def proc_init_running [OF cur] fetch_pid_def Let_def st0_def
    by (auto simp: rbind_eq_Inr_iff expect_frames_Inr kernel_pml4_def case_prod_beta split: if_splits)
  define s1 where "s1 = snd (new_proc p s)"
  have s1: "new_proc p s = (r, s1)" "st' = push_ready r s1" using new by (simp_all add: s1_def prod_eq_iff)
  have o: "vm_only st0 s" "pt_mem s = pt_mem st0" using take_frames_vm_only [OF S] by blast+
  note e = vm_only_simps [OF o(1)]
  have "procs s = procs st" "ready_queue s = ready_queue st" "current s = current st" "tss_rsp0 s = tss_rsp0 st"
    "cr3 s = cr3 st" "\<And>a. trap_frames st a \<noteq> None \<Longrightarrow> trap_frames s a \<noteq> None"
    by (simp_all add: e st0_def)
  note A = add_ready_inv [OF inv this _ s1(1), folded s1(2)]
  have cok: "code_ok s p" by (simp add: code_ok_def p)
  have same: "pt_mem st' = pt_mem s" "vm_buddy st' = vm_buddy s" "KERNEL_PML4 st' = KERNEL_PML4 s"
    "bootdata st' = bootdata s" "next_pid st' = next_pid s"
    using s1 by (auto simp: new_proc_def push_ready_def Let_def)
  have "p\<lparr>pstate := Ready\<rparr> = p" by (simp add: p)
  then show thesis
    using that [of p ks s] A [OF _ cok] same S e by (simp add: o(2) st0_def p)
qed

lemma spawn_kernel_effect:
  assumes inv: "sched_inv st" and ok: "vm_ok R st" and run: "spawn_kernel entry st = Inr (r, st')"
  obtains p where
    "sched_inv st'" "r = length (procs st)" "ready_queue st' = ready_queue st @ [r]" "procs st' = procs st @ [p]"
    "KERNEL_PML4 st' = KERNEL_PML4 st" "bootdata st' = bootdata st" "next_pid st' = next_pid st + 1" "pt_mem st' = pt_mem st"
    "vm_ok R st'" "vm_free st' \<subseteq> vm_free st"
    "pkind p = KernelProc" "pagetable p = KERNEL_PML4 st" "user_code_phys p = None" "user_stack_phys p = None" "pentry p = Some entry"
proof (rule spawn_kernel_sched [OF inv run], goal_cases)
  case (1 p ks s)
  have ok0: "vm_ok R (st\<lparr>next_pid := next_pid st + 1\<rparr>)" using ok by (simp add: vm_ok_def)
  have "vm_free s \<subseteq> vm_free st" by (rule take_frames_Some [OF ok0 1(10)]) (auto simp: vm_free_def)
  moreover have "vm_ok R s" by (rule take_frames_ok [OF ok0 1(10)])
  ultimately have "vm_free st' \<subseteq> vm_free st" "vm_ok R st'" using 1(9,11,12) by (simp_all add: vm_free_def vm_ok_def)
  then show thesis using that [OF 1(2-9)] 1(13-17) by blast
qed

section \<open>The invariant of the whole system\<close>

definition static :: "proc \<Rightarrow> proc_kind \<times> phys_addr \<times> usize option \<times> usize option" where
  "static p = (pkind p, pagetable p, user_code_phys p, user_stack_phys p)"

text \<open>Kernel tasks run in the kernel address space and own no user frame; a user process has a root
  of its own through which ring 3 reaches only the frames the process owns; owned frames are
  disjoint and not free.\<close>

definition proc_space_ok :: "machine \<Rightarrow> proc \<Rightarrow> bool" where
  "proc_space_ok st p \<longleftrightarrow> (case pkind p of
       KernelProc \<Rightarrow> pagetable p = KERNEL_PML4 st \<and> proc_frames p = {}
     | UserProc \<Rightarrow> pagetable p \<noteq> KERNEL_PML4 st \<and> user_frames (pt_mem st) (pagetable p) \<subseteq> proc_frames p) \<and>
     proc_frames p \<inter> vm_free st = {}"

definition disjoint_procs :: "proc list \<Rightarrow> bool" where
  "disjoint_procs ps \<longleftrightarrow> (\<forall>i<length ps. \<forall>j<length ps. i \<noteq> j \<longrightarrow> proc_frames (ps ! i) \<inter> proc_frames (ps ! j) = {} \<and>
     (pkind (ps ! i) = UserProc \<longrightarrow> pagetable (ps ! i) \<noteq> pagetable (ps ! j)))"

definition sys_roots :: "machine \<Rightarrow> phys_addr set" where
  "sys_roots st = insert (KERNEL_PML4 st) (pagetable ` set (procs st))"

definition space_inv :: "machine \<Rightarrow> bool" where
  "space_inv st \<longleftrightarrow> KERNEL_PML4 st \<noteq> 0 \<and> vm_ok (sys_roots st) st \<and>
     all_leaves supervisor (pt_mem st) (KERNEL_PML4 st) \<and>
     (\<exists>as. bootdata_pages st = Inr as \<and> (\<forall>a\<in>set as. user_half a)) \<and>
     (\<forall>p\<in>set (procs st). proc_space_ok st p) \<and> disjoint_procs (procs st)"

definition sys_inv :: "machine \<Rightarrow> bool" where
  "sys_inv st \<longleftrightarrow> sched_inv st \<and> space_inv st"


section \<open>Scheduling does not touch address spaces\<close>

definition same_spaces :: "machine \<Rightarrow> machine \<Rightarrow> bool" where
  "same_spaces st st' \<longleftrightarrow> map static (procs st') = map static (procs st) \<and> pt_mem st' = pt_mem st \<and>
     vm_buddy st' = vm_buddy st \<and> KERNEL_PML4 st' = KERNEL_PML4 st \<and> bootdata st' = bootdata st \<and> next_pid st' = next_pid st"

lemma same_spaces_trans: "same_spaces a b \<Longrightarrow> same_spaces b c \<Longrightarrow> same_spaces a c"
  by (simp add: same_spaces_def)

lemma map_update_same: "g x = g (xs ! p) \<Longrightarrow> map g (xs[p := x]) = map g xs"
  by (cases "p < length xs") (simp_all add: map_update list_update_same_conv list_update_beyond)

lemma same_spaces_upd:
  "static (f (procs st ! p)) = static (procs st ! p) \<Longrightarrow> same_spaces st (upd_proc p f st)"
  by (simp add: same_spaces_def map_update_same)

lemma same_spaces_switched:
  "n \<noteq> c \<Longrightarrow> same_spaces st ((switched st c n q)\<lparr>iflag := b\<rparr>)"
  by (simp add: same_spaces_def switched_def map_update_same static_def)

lemma static_eq: "static p = static q \<longleftrightarrow> pkind p = pkind q \<and> pagetable p = pagetable q \<and>
    user_code_phys p = user_code_phys q \<and> user_stack_phys p = user_stack_phys q"
  by (simp add: static_def)

lemma space_inv_cong:
  assumes "same_spaces st st'" "space_inv st" shows "space_inv st'"
proof -
  have s: "map static (procs st') = map static (procs st)" "pt_mem st' = pt_mem st" "vm_buddy st' = vm_buddy st"
    "KERNEL_PML4 st' = KERNEL_PML4 st" "bootdata st' = bootdata st"
    using assms(1) by (simp_all add: same_spaces_def)
  have len: "length (procs st') = length (procs st)" using arg_cong [OF s(1), of length] by simp
  have nth: "static (procs st' ! i) = static (procs st ! i)" if "i < length (procs st)" for i
    using arg_cong [OF s(1), of "\<lambda>xs. xs ! i"] that len by simp
  have pf: "proc_frames (procs st' ! i) = proc_frames (procs st ! i)" "pkind (procs st' ! i) = pkind (procs st ! i)"
    "pagetable (procs st' ! i) = pagetable (procs st ! i)" if "i < length (procs st)" for i
    using nth [OF that] by (simp_all add: static_eq proc_frames_def)
  have "pagetable ` set (procs st') = pagetable ` set (procs st)"
  proof -
    have "(\<lambda>(k, r, c, u). r) ` set (map static (procs st')) = (\<lambda>(k, r, c, u). r) ` set (map static (procs st))" by (simp only: s(1))
    then show ?thesis by (simp add: static_def image_image)
  qed
  then have "sys_roots st' = sys_roots st" using s(4) by (simp add: sys_roots_def)
  moreover have "disjoint_procs (procs st') = disjoint_procs (procs st)"
    unfolding disjoint_procs_def len using pf by simp
  moreover have "proc_space_ok st' (procs st' ! i) = proc_space_ok st (procs st ! i)" if "i < length (procs st)" for i
    using pf [OF that] s
    by (cases "pkind (procs st ! i)") (simp_all add: proc_space_ok_def vm_free_def)
  then have "(\<forall>p\<in>set (procs st'). proc_space_ok st' p) = (\<forall>p\<in>set (procs st). proc_space_ok st p)"
    unfolding all_set_conv_all_nth len by simp
  ultimately show ?thesis
    using assms(2) s by (simp add: space_inv_def vm_ok_def bootdata_pages_def)
qed

lemma schedule_keeps:
  assumes "sched_inv st"
  obtains ctl st' where "schedule st = Inr (ctl, st')" "sched_inv st'" "same_spaces st st'"
proof -
  obtain c where "current st = Some c" by (rule sched_invE [OF assms])
  with assms show thesis
    by (rule schedule_cases) (use that assms same_spaces_switched in \<open>auto simp: same_spaces_def\<close>)
qed

lemma sched_inv_mark:
  assumes inv: "sched_inv st" and c: "current st = Some c" and f: "pstate (f (procs st ! c)) \<in> {Running, Exited}"
    "kstack_top (f (procs st ! c)) = kstack_top (procs st ! c)" "pagetable (f (procs st ! c)) = pagetable (procs st ! c)"
    "0 < ticks_left (f (procs st ! c))" "ticks_left (f (procs st ! c)) \<le> DEFAULT_TIME_SLICE_TICKS"
  shows "sched_inv (upd_proc c f st)"
proof -
  define S where "S = upd_proc c f st"
  obtain c' where "current st = Some c'" and E: "c' < length (procs st)" "c' \<notin> set (ready_queue st)" "distinct (ready_queue st)"
    "\<And>p. p \<in> set (ready_queue st) \<Longrightarrow> p < length (procs st) \<and> pstate (procs st ! p) = Ready \<and> resumable st p"
    "\<And>p. p < length (procs st) \<Longrightarrow> p = c' \<or> p \<in> set (ready_queue st) \<or> pstate (procs st ! p) = Exited" "loaded st c'"
    by (rule sched_invE [OF inv]) (rule that)
  then have [simp]: "c' = c" using c by simp
  have S: "procs S = (procs st)[c := f (procs st ! c)]" "ready_queue S = ready_queue st" "current S = Some c" "trap_frames S = trap_frames st"
    "tss_rsp0 S = tss_rsp0 st" "cr3 S = cr3 st" by (simp_all add: S_def c)
  have o: "procs S ! p = procs st ! p" if "p \<noteq> c" for p using that by (simp add: S)
  have "\<forall>p\<in>set (ready_queue S). p < length (procs S) \<and> pstate (procs S ! p) = Ready \<and> resumable S p"
    using E(2,4) o resumable_cong [OF o S(4)] unfolding S(2) by (metis S(1) \<open>c' = c\<close> length_list_update)
  moreover have "\<forall>p<length (procs S). p = c \<or> p \<in> set (ready_queue S) \<or> pstate (procs S ! p) = Exited"
    using E(5) o by (auto simp: S(2)) (auto simp: S(1))
  moreover have "procs S ! c = f (procs st ! c)" using E(1) by (simp add: S)
  ultimately show "sched_inv (upd_proc c f st)"
    unfolding sched_inv_def S_def [symmetric] using E f by (auto simp: S(1-3,5,6) loaded_def)
qed


lemma exit_current_keeps:
  assumes "sched_inv st"
  obtains ctl st' where "exit_current st = Inr (ctl, st')" "sched_inv st'" "same_spaces st st'"
proof -
  obtain c where c: "current st = Some c" "0 < ticks_left (procs st ! c)" "ticks_left (procs st ! c) \<le> DEFAULT_TIME_SLICE_TICKS"
    by (rule sched_invE [OF assms])
  define S where "S = upd_proc c (pstate_update (\<lambda>_. Exited)) (st\<lparr>iflag := False\<rparr>)"
  have "sched_inv S" unfolding S_def by (rule sched_inv_mark) (use assms c in simp_all)
  moreover have "same_spaces st S"
    using same_spaces_upd [of "pstate_update (\<lambda>_. Exited)" "st\<lparr>iflag := False\<rparr>" c] by (simp add: S_def static_def same_spaces_def)
  ultimately obtain ctl st' where s: "schedule S = Inr (ctl, st')" "sched_inv st'" "same_spaces st st'"
    by (metis schedule_keeps same_spaces_trans)
  then have "same_spaces st (st'\<lparr>iflag := True\<rparr>)" by (simp add: same_spaces_def)
  then show thesis
    using that s c(1) by (cases "ctl = NoProc \<or> ctl = InProc c") (auto simp: exit_current_def Let_def S_def)
qed

lemma on_timer_tick_keeps:
  assumes "sched_inv st"
  obtains r st' where "on_timer_tick st = Inr (r, st')" "sched_inv st'" "same_spaces st st'"
proof -
  obtain c where c: "current st = Some c" "pstate (procs st ! c) \<in> {Running, Exited}"
    "0 < ticks_left (procs st ! c)" "ticks_left (procs st ! c) \<le> DEFAULT_TIME_SLICE_TICKS"
    by (rule sched_invE [OF assms])
  define t where "t = snd (consume_tick (ticks_left (procs st ! c)) DEFAULT_TIME_SLICE_TICKS)"
  have t: "0 < t" "t \<le> DEFAULT_TIME_SLICE_TICKS" using c(3,4) by (auto simp: t_def consume_tick_def Let_def)
  define S where "S = upd_proc c (ticks_left_update (\<lambda>_. t)) st"
  have S: "sched_inv S" unfolding S_def by (rule sched_inv_mark) (use assms c t in simp_all)
  have sp: "same_spaces st S" unfolding S_def by (rule same_spaces_upd) (simp add: static_def)
  have run: "on_timer_tick st = (if fst (consume_tick (ticks_left (procs st ! c)) DEFAULT_TIME_SLICE_TICKS)
      then rbind (schedule S) (\<lambda>(ctl, st). Inr (Some ctl, st)) else Inr (None, S))"
    by (simp add: on_timer_tick_def c(1) S_def t_def case_prod_beta Let_def)
  show thesis
    by (rule schedule_keeps [OF S]) (use that run S sp same_spaces_trans in \<open>auto split: if_splits\<close>)
qed

text \<open>What the processes, the timer and the kernel heap do to the system.  \<open>admitted\<close> restricts the programs that are
  started, by the process identifier they get and by the code or image.\<close>

datatype program = RawCode data | ElfImage data

inductive sys_step :: "(u64 \<Rightarrow> program \<Rightarrow> bool) \<Rightarrow> machine \<Rightarrow> machine \<Rightarrow> bool" for admitted where
  tick: "on_timer_tick st = Inr (r, st') \<Longrightarrow> sys_step admitted st st'"
| yield_call: "yield_now st = Inr (ctl, st') \<Longrightarrow> sys_step admitted st st'"
| exit_call: "exit_current st = Inr (ctl, st') \<Longrightarrow> sys_step admitted st st'"
| kernel_spawn: "spawn_kernel entry st = Inr (r, st') \<Longrightarrow> sys_step admitted st st'"
| user_spawn: "admitted (next_pid st) (RawCode code) \<Longrightarrow> spawn_user code st = Inr (r, st') \<Longrightarrow> sys_step admitted st st'"
| elf_spawn: "admitted (next_pid st) (ElfImage img) \<Longrightarrow> spawn_elf img st = Inr (res, st') \<Longrightarrow> sys_step admitted st st'"
| heap_growth: "heap_grow st = Inr st' \<Longrightarrow> sys_step admitted st st'"

text \<open>Programs that stay in the user half: the layout of \<^verbatim>\<open>proc_layout.rs\<close> has room for \<open>2 ^ 25\<close> process
  identifiers, and \<open>spawn_elf\<close> maps the segment of an image wherever the image says.\<close>

definition user_space_program :: "u64 \<Rightarrow> program \<Rightarrow> bool" where
  "user_space_program q prog \<longleftrightarrow> unat q < 2 ^ 25 \<and> (case prog of RawCode _ \<Rightarrow> True
     | ElfImage img \<Rightarrow> (case elf_parse img of Inr (Inr e) \<Rightarrow> user_half (virt_addr (elf_load e)) | _ \<Rightarrow> True))"

text \<open>The built-in programs are such images.\<close>

lemma built_in_user_space:
  assumes "build_program_image p = Inr img" "unat q < 2 ^ 25" shows "user_space_program q (ElfImage img)"
proof -
  have "program_entry p \<le> ENTRY_BASE + 10 * ENTRY_STRIDE" by (cases p) (simp_all add: program_entry_def)
  then have "program_entry p div 2 ^ 39 = 0" by simp
  then have "user_half (program_entry p)" by (simp only: mod_0)
  then show ?thesis using parse_built(1) [OF assms(1)] assms(2) by (simp add: user_space_program_def)
qed

lemma heap_grow_effect:
  assumes "heap_grow st = Inr st'" shows "frames_taken st st'"
  using assms by (auto simp: heap_grow_def rbind_eq_Inr_iff split: option.splits intro: frames_taken_step [OF frames_taken_refl])

lemma vm_only_sched: "vm_only st st' \<Longrightarrow> sched_inv st \<Longrightarrow> sched_inv st'"
  by (erule sched_inv_cong) (simp_all add: vm_only_simps)

text \<open>The scheduler invariant needs no restriction on the programs.\<close>

lemma sched_inv_spawn_elf:
  assumes inv: "sched_inv st" and run: "spawn_elf img st = Inr (res, st')"
  shows "sched_inv st'"
proof -
  have cur: "current st \<noteq> None" by (rule sched_invE [OF inv]) simp
  show ?thesis
    using run cur
  proof (cases rule: spawn_elf_cases)
    case refused
    then show ?thesis using inv by simp
  next
    case (no_memory pt s1 s2)
    have "vm_only s1 s2" using no_memory(3) by (auto simp: map_bootdata_identity_def rbind_eq_Inr_iff dest: map_list_vm_only)
    then have "vm_only (st\<lparr>next_pid := next_pid st + 1\<rparr>) st'"
      using vm_only_trans create_user_vm_only [OF no_memory(2)] frames_taken_ok(1) [OF no_memory(4)] by blast
    moreover have "sched_inv (st\<lparr>next_pid := next_pid st + 1\<rparr>)" by (rule sched_inv_cong [OF inv]) simp_all
    ultimately show ?thesis by (rule vm_only_sched)
  next
    case started
    show ?thesis by (rule user_process_sched [OF inv started(5-12)])
  qed
qed

lemma sched_step_inv: "sys_step admitted st st' \<Longrightarrow> sched_inv st \<Longrightarrow> sched_inv st'"
proof (induction rule: sys_step.induct)
  case (tick st r st')
  then show ?case by - (rule on_timer_tick_keeps, auto)
next
  case (yield_call st ctl st')
  then show ?case by - (rule schedule_keeps, auto simp: yield_now_def)
next
  case (exit_call st ctl st')
  then show ?case by - (rule exit_current_keeps, auto)
next
  case (kernel_spawn entry st r st')
  show ?case by (rule spawn_kernel_sched [OF kernel_spawn(2,1)])
next
  case (user_spawn st code r st')
  have "current st \<noteq> None" by (rule sched_invE [OF user_spawn(3)]) simp
  with user_spawn(2) show ?case by (rule spawn_user_steps) (rule user_process_sched [OF user_spawn(3)])
next
  case (elf_spawn st img res st')
  show ?case by (rule sched_inv_spawn_elf [OF elf_spawn(3,2)])
next
  case (heap_growth st st')
  then show ?case using frames_taken_ok(1) [OF heap_grow_effect] vm_only_sched by blast
qed

text \<open>Steps that start no process: the address spaces stay, free frames may go.\<close>

lemma space_inv_shrink:
  assumes inv: "space_inv st" and "procs st' = procs st" "KERNEL_PML4 st' = KERNEL_PML4 st" "bootdata st' = bootdata st"
      "vm_ok (sys_roots st) st'" "vm_free st' \<subseteq> vm_free st"
      "\<And>t w. t \<in> sys_roots st \<Longrightarrow> lookup (pt_mem st') t w = lookup (pt_mem st) t w"
  shows "space_inv st'"
proof -
  have roots: "sys_roots st' = sys_roots st" using assms(2,3) by (simp add: sys_roots_def)
  have "proc_space_ok st' p" if p: "p \<in> set (procs st)" for p
  proof -
    have "pagetable p \<in> sys_roots st" using p by (simp add: sys_roots_def)
    then have "user_frames (pt_mem st') (pagetable p) = user_frames (pt_mem st) (pagetable p)" by (simp add: user_frames_def assms(7))
    moreover have "proc_space_ok st p" using inv p by (simp add: space_inv_def)
    ultimately show ?thesis using assms(3,6) by (cases "pkind p") (auto simp: proc_space_ok_def)
  qed
  moreover have "all_leaves supervisor (pt_mem st') (KERNEL_PML4 st)"
    using inv assms(7) [of "KERNEL_PML4 st"] by (simp add: space_inv_def all_leaves_def sys_roots_def)
  ultimately show ?thesis using inv assms(2-5) roots by (simp add: space_inv_def bootdata_pages_def)
qed

lemma space_inv_spawn:
  assumes inv: "space_inv st" and new: "procs st' = procs st @ [p]" "KERNEL_PML4 st' = KERNEL_PML4 st"
      "bootdata st' = bootdata st" "vm_ok (insert (pagetable p) (sys_roots st)) st'" "proc_space_ok st' p"
      "vm_free st' \<subseteq> vm_free st" "proc_frames p \<subseteq> vm_free st"
      "pkind p = UserProc \<Longrightarrow> pagetable p \<notin> sys_roots st" "pkind p = KernelProc \<Longrightarrow> pagetable p = KERNEL_PML4 st"
      "\<And>t w. t \<in> sys_roots st \<Longrightarrow> lookup (pt_mem st') t w = lookup (pt_mem st) t w"
  shows "space_inv st'"
proof -
  have roots: "sys_roots st' = insert (pagetable p) (sys_roots st)" using new by (auto simp: sys_roots_def)
  have uf: "user_frames (pt_mem st') t = user_frames (pt_mem st) t" if "t \<in> sys_roots st" for t
    by (simp add: user_frames_def new(10) [OF that])
  have old: "proc_space_ok st' q" if q: "q \<in> set (procs st)" for q
  proof -
    have "pagetable q \<in> sys_roots st" using q by (simp add: sys_roots_def)
    moreover have "proc_space_ok st q" using inv q by (simp add: space_inv_def)
    ultimately show ?thesis using uf [of "pagetable q"] new(2,6)
      by (cases "pkind q") (auto simp: proc_space_ok_def)
  qed
  have fresh: "proc_frames p \<inter> proc_frames q = {}" "pkind p = UserProc \<Longrightarrow> pagetable p \<noteq> pagetable q"
      "pkind q = UserProc \<Longrightarrow> pagetable q \<noteq> pagetable p" if q: "q \<in> set (procs st)" for q
  proof -
    have k: "proc_space_ok st q" "pagetable q \<in> sys_roots st" using inv q by (simp_all add: space_inv_def sys_roots_def)
    then show "proc_frames p \<inter> proc_frames q = {}" using new(7) by (auto simp: proc_space_ok_def)
    show pq: "pagetable p \<noteq> pagetable q" if "pkind p = UserProc" using new(8) [OF that] k(2) by metis
    show "pagetable q \<noteq> pagetable p" if "pkind q = UserProc"
      using k(1) that new(9) pq by (cases "pkind p") (auto simp: proc_space_ok_def)
  qed
  have "disjoint_procs (procs st')"
    unfolding disjoint_procs_def new(1)
  proof (intro allI impI)
    fix i j assume ij: "i < length (procs st @ [p])" "j < length (procs st @ [p])" "i \<noteq> j"
    have d: "disjoint_procs (procs st)" using inv by (simp add: space_inv_def)
    consider "i < length (procs st)" "j < length (procs st)" | "i = length (procs st)" "j < length (procs st)"
      | "i < length (procs st)" "j = length (procs st)" using ij by force
    then show "proc_frames ((procs st @ [p]) ! i) \<inter> proc_frames ((procs st @ [p]) ! j) = {} \<and>
      (pkind ((procs st @ [p]) ! i) = UserProc \<longrightarrow> pagetable ((procs st @ [p]) ! i) \<noteq> pagetable ((procs st @ [p]) ! j))"
    proof cases
      case 1 then show ?thesis using d ij(3) by (simp add: disjoint_procs_def nth_append)
    next
      case 2 then show ?thesis using fresh [OF nth_mem [OF 2(2)]] by (simp add: nth_append)
    next
      case 3 then show ?thesis using fresh [OF nth_mem [OF 3(1)]] by (auto simp: nth_append)
    qed
  qed
  moreover have "all_leaves supervisor (pt_mem st') (KERNEL_PML4 st)"
    using inv new(10) [of "KERNEL_PML4 st"] by (simp add: space_inv_def all_leaves_def sys_roots_def)
  ultimately show ?thesis
    using inv old new roots by (simp add: space_inv_def bootdata_pages_def)
qed


lemma sys_inv_spawn_user:
  assumes "sys_inv st" "spawn_user code st = Inr (r, st')" "unat (next_pid st) < 2 ^ 25"
  shows "sys_inv st'"
proof -
  define k where "k = KERNEL_PML4 st"
  have i: "sched_inv st" "space_inv st" "vm_ok (sys_roots st) st" "KERNEL_PML4 st = k" "k \<noteq> 0" "k \<in> sys_roots st"
    "all_leaves supervisor (pt_mem st) k"
    using assms(1) by (auto simp: sys_inv_def space_inv_def sys_roots_def k_def)
  obtain as where as: "bootdata_pages st = Inr as" "\<forall>a\<in>set as. user_half a" using i(2) by (auto simp: space_inv_def)
  show ?thesis
  proof (rule spawn_user_effect [OF i(1,3-7) assms(3) as assms(2)])
    fix p a cp
    assume n: "sched_inv st'" "procs st' = procs st @ [p]" "KERNEL_PML4 st' = k" "bootdata st' = bootdata st"
      "\<And>t w. t \<in> sys_roots st \<Longrightarrow> lookup (pt_mem st') t w = lookup (pt_mem st) t w"
      "pkind p = UserProc" "pagetable p \<notin> sys_roots st" "vm_ok (insert (pagetable p) (sys_roots st)) st'"
      "user_frames (pt_mem st') (pagetable p) \<subseteq> proc_frames p" "proc_frames p \<subseteq> vm_free st"
      "vm_free st' \<subseteq> vm_free st - proc_frames p"
    have "proc_space_ok st' p" using n(3,6,7,9-11) i(6) by (auto simp: proc_space_ok_def)
    then have "space_inv st'" by (intro space_inv_spawn [OF i(2) n(2)]) (use n i(4) in auto)
    then show ?thesis using n(1) by (simp add: sys_inv_def)
  qed
qed

lemma sys_inv_spawn_kernel:
  assumes "sys_inv st" "spawn_kernel entry st = Inr (r, st')"
  shows "sys_inv st'"
proof -
  define k where "k = KERNEL_PML4 st"
  have i: "sched_inv st" "space_inv st" "vm_ok (sys_roots st) st" "KERNEL_PML4 st = k" "k \<noteq> 0" "k \<in> sys_roots st"
    using assms(1) by (auto simp: sys_inv_def space_inv_def sys_roots_def k_def)
  show ?thesis
  proof (rule spawn_kernel_effect [OF i(1,3) assms(2), unfolded i(4)])
    fix p
    assume n: "sched_inv st'" "procs st' = procs st @ [p]" "KERNEL_PML4 st' = k" "bootdata st' = bootdata st"
      "pt_mem st' = pt_mem st" "vm_ok (sys_roots st) st'" "vm_free st' \<subseteq> vm_free st"
      "pkind p = KernelProc" "pagetable p = k" "user_code_phys p = None" "user_stack_phys p = None"
    have "proc_frames p = {}" by (simp add: proc_frames_def n)
    then have "space_inv st'"
      by (intro space_inv_spawn [OF i(2) n(2)]) (use n i(4,6) in \<open>auto simp: proc_space_ok_def insert_absorb\<close>)
    then show ?thesis using n(1) by (simp add: sys_inv_def)
  qed
qed

lemma sys_inv_heap_grow:
  assumes "sys_inv st" "heap_grow st = Inr st'"
  shows "sys_inv st'"
proof -
  note f = frames_taken_ok [OF heap_grow_effect [OF assms(2)]]
  have i: "sched_inv st" "space_inv st" "vm_ok (sys_roots st) st" using assms(1) by (auto simp: sys_inv_def space_inv_def)
  have "space_inv st'"
    by (rule space_inv_shrink [OF i(2)]) (use f i(3) vm_only_simps [OF f(1)] in simp_all)
  then show ?thesis using vm_only_sched [OF f(1) i(1)] by (simp add: sys_inv_def)
qed

lemma sys_inv_spawn_elf:
  assumes "sys_inv st" "spawn_elf img st = Inr (res, st')" "user_space_program (next_pid st) (ElfImage img)"
  shows "sys_inv st'"
proof -
  define k where "k = KERNEL_PML4 st"
  have i: "sched_inv st" "space_inv st" "vm_ok (sys_roots st) st" "KERNEL_PML4 st = k" "k \<noteq> 0" "k \<in> sys_roots st"
    "all_leaves supervisor (pt_mem st) k"
    using assms(1) by (auto simp: sys_inv_def space_inv_def sys_roots_def k_def)
  obtain as where as: "bootdata_pages st = Inr as" "\<forall>a\<in>set as. user_half a" using i(2) by (auto simp: space_inv_def)
  have pid: "unat (next_pid st) < 2 ^ 25" using assms(3) by (simp add: user_space_program_def)
  have low: "user_half (virt_addr (elf_load e))" if "elf_parse img = Inr (Inr e)" for e
    using assms(3) that by (simp add: user_space_program_def)
  have cur: "current st \<noteq> None" by (rule sched_invE [OF i(1)]) simp
  show ?thesis
  proof (cases res)
    case (Inr r)
    show ?thesis
    proof (rule spawn_elf_effect [OF i(1,3-7) pid as assms(2) [unfolded Inr] low])
      fix p
      assume n: "sched_inv st'" "procs st' = procs st @ [p]" "KERNEL_PML4 st' = k" "bootdata st' = bootdata st"
        "\<And>t w. t \<in> sys_roots st \<Longrightarrow> lookup (pt_mem st') t w = lookup (pt_mem st) t w"
        "pkind p = UserProc" "pagetable p \<notin> sys_roots st" "vm_ok (insert (pagetable p) (sys_roots st)) st'"
        "user_frames (pt_mem st') (pagetable p) \<subseteq> proc_frames p" "proc_frames p \<subseteq> vm_free st"
        "vm_free st' \<subseteq> vm_free st - proc_frames p"
      have "proc_space_ok st' p" using n(3,6,7,9-11) i(6) by (auto simp: proc_space_ok_def)
      then have "space_inv st'" by (intro space_inv_spawn [OF i(2) n(2)]) (use n i(4) in auto)
      then show ?thesis using n(1) by (simp add: sys_inv_def)
    qed
  next
    case (Inl x)
    show ?thesis
      using assms(2) cur
    proof (cases rule: spawn_elf_cases)
      case refused
      then show ?thesis using assms(1) by simp
    next
      case (no_memory pt s1 s2)
      have o: "vm_only (st\<lparr>next_pid := next_pid st + 1\<rparr>) s2"
        using create_user_vm_only [OF no_memory(2)] no_memory(3)
        by (auto simp: map_bootdata_identity_def rbind_eq_Inr_iff dest: map_list_vm_only intro: vm_only_trans)
      note f = frames_taken_ok [OF no_memory(4)]
      have pre: "vm_ok (sys_roots st) (st\<lparr>next_pid := next_pid st + 1\<rparr>)" "KERNEL_PML4 (st\<lparr>next_pid := next_pid st + 1\<rparr>) = k"
        "bootdata_pages (st\<lparr>next_pid := next_pid st + 1\<rparr>) = Inr as"
        using i(3,4) as(1) by (simp_all add: vm_ok_def bootdata_pages_def)
      note B = boot_space_built [OF pre(1,2) i(5,6) no_memory(2,3) pre(3) as(2)]
      have "vm_free st' \<subseteq> vm_free st" using B(3) f(4) [OF B(1)] by (auto simp: vm_free_def)
      then have "space_inv st'"
        by (intro space_inv_shrink [OF i(2)])
          (use B(2) f(2) f(3) [OF B(1)] vm_only_simps [OF f(1)] vm_only_simps [OF o] in simp_all)
      then show ?thesis using sched_inv_spawn_elf [OF i(1) assms(2)] by (simp add: sys_inv_def)
    qed (use Inl in simp)
  qed
qed

lemma sys_step_inv: "sys_step user_space_program st st' \<Longrightarrow> sys_inv st \<Longrightarrow> sys_inv st'"
proof (induction rule: sys_step.induct)
  case (tick st r st')
  then have "sched_inv st" "space_inv st" by (simp_all add: sys_inv_def)
  then show ?case
    by - (rule on_timer_tick_keeps, use tick space_inv_cong in \<open>auto simp: sys_inv_def\<close>)
next
  case (yield_call st ctl st')
  then have "sched_inv st" "space_inv st" by (simp_all add: sys_inv_def)
  then show ?case
    by - (rule schedule_keeps, use yield_call space_inv_cong in \<open>auto simp: sys_inv_def yield_now_def\<close>)
next
  case (exit_call st ctl st')
  then have "sched_inv st" "space_inv st" by (simp_all add: sys_inv_def)
  then show ?case
    by - (rule exit_current_keeps, use exit_call space_inv_cong in \<open>auto simp: sys_inv_def\<close>)
next
  case (kernel_spawn entry st r st')
  then show ?case by (rule sys_inv_spawn_kernel [rotated])
next
  case (user_spawn st code r st')
  then show ?case using sys_inv_spawn_user by (simp add: user_space_program_def)
next
  case (elf_spawn st img res st')
  show ?case by (rule sys_inv_spawn_elf [OF elf_spawn(3,2,1)])
next
  case (heap_growth st st')
  show ?case by (rule sys_inv_heap_grow [OF heap_growth(2,1)])
qed

text \<open>The machine as the boot code hands it over: the kernel page table is loaded, no process exists.\<close>

definition booted :: "machine \<Rightarrow> bool" where
  "booted st \<longleftrightarrow> procs st = [] \<and> ready_queue st = [] \<and> current st = None \<and> KERNEL_PML4 st \<noteq> 0 \<and>
     vm_ok {KERNEL_PML4 st} st \<and> all_leaves supervisor (pt_mem st) (KERNEL_PML4 st) \<and>
     cr3 st = unat (phys_as_u64 (KERNEL_PML4 st) AND ADDR_MASK) \<and> tss_rsp0 st = ring0_top st \<and>
     (\<exists>as. bootdata_pages st = Inr as \<and> (\<forall>a\<in>set as. user_half a))"

lemma proc_init_sys_inv:
  assumes "booted st" obtains st0 where "proc_init st = Inr st0" "sys_inv st0"
proof -
  define p where "p = \<lparr>pid = 0, pstate = Running, pcontext = context_new, pagetable = KERNEL_PML4 st,
              kstack_phys = 0, kstack_top = ring0_top st, pkind = KernelProc,
              ticks_left = DEFAULT_TIME_SLICE_TICKS, pentry = None, ptrap_frame = None,
              user_code_phys = None, user_stack_phys = None\<rparr>"
  define st0 where "st0 = st\<lparr>procs := [p], current := Some 0\<rparr>"
  have run: "proc_init st = Inr st0"
    using assms by (simp add: booted_def proc_init_def kernel_pml4_def new_proc_def st0_def p_def)
  have "sched_inv st0" using assms by (simp add: booted_def sched_inv_def loaded_def st0_def p_def)
  moreover have "space_inv st0"
    using assms by (simp add: booted_def space_inv_def st0_def p_def sys_roots_def vm_ok_def proc_space_ok_def
        proc_frames_def disjoint_procs_def bootdata_pages_def)
  ultimately show thesis using that run by (simp add: sys_inv_def)
qed

lemma reachable_sys_inv:
  assumes "booted st" "proc_init st = Inr st0" "(sys_step user_space_program)\<^sup>*\<^sup>* st0 st'" shows "sys_inv st'"
  using assms(3)
proof (induction rule: rtranclp_induct)
  case base
  show ?case by (rule proc_init_sys_inv [OF assms(1)]) (use assms(2) in simp)
next
  case (step y z)
  then show ?case using sys_step_inv by blast
qed

lemma reachable_sched_inv:
  assumes "booted st" "proc_init st = Inr st0" "(sys_step admitted)\<^sup>*\<^sup>* st0 st'" shows "sched_inv st'"
  using assms(3)
proof (induction rule: rtranclp_induct)
  case base
  show ?case by (rule proc_init_sys_inv [OF assms(1)]) (use assms(2) in \<open>simp add: sys_inv_def\<close>)
next
  case (step y z)
  then show ?case using sched_step_inv by blast
qed


section \<open>Time slices\<close>

fun run_ticks :: "nat \<Rightarrow> machine \<Rightarrow> machine run" where
  "run_ticks 0 st = Inr st"
| "run_ticks (Suc n) st = rbind (on_timer_tick st) (\<lambda>(_, st). run_ticks n st)"

lemma run_ticks_add: "run_ticks (m + n) st = rbind (run_ticks m st) (run_ticks n)"
  by (induction m arbitrary: st) (auto simp: rbind_assoc case_prod_beta intro!: rbind_cong)

lemma tick_within_slice:
  assumes "sched_inv st" "current st = Some c" "1 < ticks_left (procs st ! c)"
  shows "\<exists>st'. on_timer_tick st = Inr (None, st') \<and> sched_inv st' \<and> current st' = Some c \<and>
    ready_queue st' = ready_queue st \<and> ticks_left (procs st' ! c) = ticks_left (procs st ! c) - 1"
proof -
  have c: "c < length (procs st)" by (rule sched_invE [OF assms(1)]) (use assms(2) in simp)
  obtain r st' where s: "on_timer_tick st = Inr (r, st')" "sched_inv st'" by (rule on_timer_tick_keeps [OF assms(1)])
  then have "r = None \<and> st' = upd_proc c (ticks_left_update (\<lambda>_. ticks_left (procs st ! c) - 1)) st"
    using assms(2,3) by (simp add: on_timer_tick_def consume_tick_def Let_def)
  then show ?thesis using s assms(2) c by auto
qed

lemma tick_ends_slice:
  assumes "sched_inv st" "current st = Some c" "ticks_left (procs st ! c) = 1" "ready_queue st = n # q"
  shows "\<exists>r st'. on_timer_tick st = Inr (r, st') \<and> sched_inv st' \<and> current st' = Some n \<and>
    (\<exists>z. ready_queue st' = q @ z)"
proof -
  define S where "S = upd_proc c (ticks_left_update (\<lambda>_. DEFAULT_TIME_SLICE_TICKS)) st"
  have run: "on_timer_tick st = rbind (schedule S) (\<lambda>(ctl, st). Inr (Some ctl, st))"
    using assms(2,3) by (simp add: on_timer_tick_def consume_tick_def Let_def S_def)
  have "pstate (procs st ! c) \<in> {Running, Exited}" by (rule sched_invE [OF assms(1)]) (use assms(2) in simp)
  then have S: "sched_inv S" unfolding S_def by (intro sched_inv_mark assms(1,2)) simp_all
  have cur: "current S = Some c" "ready_queue S = n # q" using assms(2,4) by (simp_all add: S_def)
  show ?thesis
    by (rule schedule_cases [OF S cur(1)])
      (use run cur(2) switched_simps(1,3) [of c n S q] in auto)
qed

lemma slice_ends:
  assumes "sched_inv st" "current st = Some c" "ready_queue st = n # q"
  shows "\<exists>m\<le>ticks_left (procs st ! c). \<exists>st' z. run_ticks m st = Inr st' \<and> sched_inv st' \<and> current st' = Some n \<and>
    ready_queue st' = q @ z"
  using assms
proof (induction "ticks_left (procs st ! c)" arbitrary: st)
  case 0
  have "0 < ticks_left (procs st ! c)" by (rule sched_invE [OF 0(2)]) (use 0(3) in simp)
  then show ?case using 0(1) by simp
next
  case (Suc t)
  show ?case
  proof (cases t)
    case 0
    then obtain r st' z where "on_timer_tick st = Inr (r, st')" "sched_inv st'" "current st' = Some n" "ready_queue st' = q @ z"
      using tick_ends_slice [OF Suc(3,4) _ Suc(5)] Suc(2) by auto
    then show ?thesis using Suc(2) by (intro exI [of _ "Suc 0"]) simp
  next
    case (Suc t')
    then obtain s1 where s1: "on_timer_tick st = Inr (None, s1)" "sched_inv s1" "current s1 = Some c" "ready_queue s1 = n # q"
        "ticks_left (procs s1 ! c) = t"
      using tick_within_slice [OF Suc.prems(1,2)] Suc.prems(3) Suc.hyps(2) by fastforce
    obtain m st' z where m: "m \<le> t" "run_ticks m s1 = Inr st'" "sched_inv st'" "current st' = Some n" "ready_queue st' = q @ z"
      using Suc.hyps(1) [OF _ s1(2-4)] s1(5) by auto
    then show ?thesis using s1(1) Suc.hyps(2) by (intro exI [of _ "Suc m"]) simp
  qed
qed

lemma queue_position_runs:
  assumes "sched_inv st" "ready_queue st = xs @ p # ys"
  shows "\<exists>n\<le>DEFAULT_TIME_SLICE_TICKS * (length xs + 1). \<exists>st'. run_ticks n st = Inr st' \<and> sched_inv st' \<and> current st' = Some p"
  using assms
proof (induction xs arbitrary: st ys)
  case Nil
  obtain c where c: "current st = Some c" "ticks_left (procs st ! c) \<le> DEFAULT_TIME_SLICE_TICKS" by (rule sched_invE [OF Nil(1)])
  obtain m st' where m: "m \<le> ticks_left (procs st ! c)" "run_ticks m st = Inr st'" "sched_inv st'" "current st' = Some p"
    using slice_ends [OF Nil(1) c(1), of p ys] Nil(2) by auto
  then show ?case using c(2) by (intro exI [of _ m]) simp
next
  case (Cons x xs)
  obtain c where c: "current st = Some c" "ticks_left (procs st ! c) \<le> DEFAULT_TIME_SLICE_TICKS" by (rule sched_invE [OF Cons.prems(1)])
  obtain m s1 z where m: "m \<le> DEFAULT_TIME_SLICE_TICKS" "run_ticks m st = Inr s1" "sched_inv s1" "ready_queue s1 = xs @ p # (ys @ z)"
    using slice_ends [OF Cons.prems(1) c(1), of x "xs @ p # ys"] Cons.prems(2) c(2) by (auto intro: order_trans)
  obtain n st' where n: "n \<le> DEFAULT_TIME_SLICE_TICKS * (length xs + 1)" "run_ticks n s1 = Inr st'" "sched_inv st'" "current st' = Some p"
    using Cons.IH [OF m(3,4)] by blast
  then show ?case using m by (intro exI [of _ "m + n"]) (simp add: run_ticks_add)
qed


section \<open>Properties\<close>

text \<open>A small machine for the examples: 16 frames, the kernel root in one of them.\<close>

definition demo_machine :: "phys_addr \<Rightarrow> buddy \<Rightarrow> machine" where
  "demo_machine f b = \<lparr>pt_mem = fill_table f (\<lambda>_. 0), vm_buddy = Some b, KERNEL_PML4 = f, procs = [], ready_queue = [],
     next_pid = 1, current = None, iflag = True, cr3 = unat (phys_as_u64 f AND ADDR_MASK), tss_rsp0 = 0x9000,
     cpu = context_new, suspended_if = (\<lambda>_. False), frame_bytes = (\<lambda>_. 0), trap_frames = (\<lambda>_. None),
     bootdata = (0x1000, 0x2800), ring0_top = 0x9000\<rparr>"

lemma demo_machine_booted:
  assumes "buddy_inv b" "allocate_below 0 EARLY_PAGE_TABLE_LIMIT b = Inr (Some f, b')" "0 \<notin> free_pages b"
  shows "booted (demo_machine f b')"
proof -
  obtain q where q: "f = q * PAGE_SIZE" "q \<in> free_pages b" using frame_source.alloc_some [OF assms(1,2)] by auto
  then have f: "f \<noteq> 0" using assms(3) by (metis mult_eq_0_iff zero_neq_numeral)
  have pages: "bootdata_pages (demo_machine f b') = Inr [0x1000, 0x2000]"
  proof -
    have "page_steps 0x1000 0x3000 = [0x1000, 0x2000 :: nat]" by (simp add: page_steps_def upt_rec)
    then show ?thesis
      by (simp add: bootdata_pages_def demo_machine_def run_simps USIZE_MAX_def proc_align_down_def not_usize_def)
  qed
  have "vm_inv {f} (fill_table f (\<lambda>_. 0)) b'" "all_leaves supervisor (fill_table f (\<lambda>_. 0)) f"
    using empty_root [OF assms(1,2), of "\<lambda>_. 0"] by (auto simp: all_leaves_def)
  then show ?thesis using pages f by (simp add: booted_def demo_machine_def vm_ok_def)
qed

lemma demo_booted:
  obtains f b' where "booted (demo_machine f b')"
proof -
  obtain b f b' where d: "buddy_inv b" "allocate_below 0 EARLY_PAGE_TABLE_LIMIT b = Inr (Some f, b')"
    "buddy_new 16 demo_areas demo_reserved = Inr b" "free_pages b = {1..<16} - {5}" by (rule demo_root)
  then show thesis using that demo_machine_booted [OF d(1,2)] by simp
qed

text \<open>C7: round robin.  A process with \<open>n\<close> processes before it in the ready queue gets the processor
  after at most \<open>n + 1\<close> time slices of timer ticks, whatever the processes before it are.\<close>

theorem ready_process_runs:
  assumes "sched_inv st" "ready_queue st = xs @ p # ys"
  shows "\<exists>n\<le>DEFAULT_TIME_SLICE_TICKS * (length xs + 1). \<exists>st'. run_ticks n st = Inr st' \<and> sched_inv st' \<and> current st' = Some p"
  using assms by (rule queue_position_runs)

theorem ready_process_runs_witness:
  "\<exists>b. \<exists>n\<le>5. \<exists>st'. run_ticks n ((demo_machine 0x1000 b)\<lparr>
      procs := [\<lparr>pid = 0, pstate = Running, pcontext = context_new, pagetable = 0x1000, kstack_phys = 0, kstack_top = 0x9000,
          pkind = KernelProc, ticks_left = 3, pentry = None, ptrap_frame = None, user_code_phys = None, user_stack_phys = None\<rparr>,
        \<lparr>pid = 1, pstate = Ready, pcontext = context_new\<lparr>c_rip := KernelTaskBootstrap\<rparr>, pagetable = 0x1000, kstack_phys = 0x5000,
          kstack_top = 0x9000, pkind = KernelProc, ticks_left = 5, pentry = Some 7, ptrap_frame = None, user_code_phys = None,
          user_stack_phys = None\<rparr>],
      ready_queue := [1], current := Some 0\<rparr>) = Inr st' \<and> current st' = Some 1"
proof -
  obtain b :: buddy where True by blast
  let ?st = "(demo_machine 0x1000 b)\<lparr>
      procs := [\<lparr>pid = 0, pstate = Running, pcontext = context_new, pagetable = 0x1000, kstack_phys = 0, kstack_top = 0x9000,
          pkind = KernelProc, ticks_left = 3, pentry = None, ptrap_frame = None, user_code_phys = None, user_stack_phys = None\<rparr>,
        \<lparr>pid = 1, pstate = Ready, pcontext = context_new\<lparr>c_rip := KernelTaskBootstrap\<rparr>, pagetable = 0x1000, kstack_phys = 0x5000,
          kstack_top = 0x9000, pkind = KernelProc, ticks_left = 5, pentry = Some 7, ptrap_frame = None, user_code_phys = None,
          user_stack_phys = None\<rparr>],
      ready_queue := [1], current := Some 0\<rparr>"
  have "sched_inv ?st"
    by (auto simp: sched_inv_def loaded_def resumable_def demo_machine_def less_Suc_eq numeral_2_eq_2)
  from ready_process_runs [OF this, of "[]" 1 "[]"] show ?thesis by (intro exI [of _ b]) auto
qed

end
