(* ===== verification/Buddy_Supply.thy ===== *)
theory Buddy_Supply
  imports Buddy_Theorems
begin

text \<open>
  How long the memory lasts.  Single pages below a limit are counted (\<open>low_free\<close>); blocks of the
  largest order above the limit are kept as a set (\<open>big_blocks\<close>).  A page allocation below the limit takes
  exactly one low page and no big block; any other allocation takes at most one big block, and cannot fail
  while there is one.
\<close>

definition low_pages :: "usize \<Rightarrow> nat set" where
  "low_pages lim = {q. q * PAGE_SIZE + PAGE_SIZE \<le> lim}"

definition low_free :: "usize \<Rightarrow> buddy \<Rightarrow> nat" where
  "low_free lim b = card (free_pages b \<inter> low_pages lim)"

definition big_blocks :: "usize \<Rightarrow> buddy \<Rightarrow> nat set" where
  "big_blocks lim b = {p \<in> free_blocks (metadata b) {} 10. lim \<le> p * PAGE_SIZE}"

lemma finite_low_pages [simp]: "finite (low_pages lim)"
  by (rule finite_subset [of _ "{..lim}"]) (auto simp: low_pages_def)

lemma finite_free_pages: "finite (free_pages b)"
  by (rule finite_subset [of _ "{..<length (metadata b)}"]) (auto simp: free_pages_def free_at_def)

lemma finite_big_blocks [simp]: "finite (big_blocks lim b)"
  by (rule finite_subset [of _ "{..<length (metadata b)}"]) (auto simp: big_blocks_def free_blocks_def head_at_def)

text \<open>The block an allocation comes from, and that every other free block stays.\<close>

lemma allocate_scan_block:
  assumes inv: "buddy_inv b" and "\<forall>q \<in> set qs. ord \<le> q \<and> q < MAX_ORDER" "allocate_scan pred ord qs b = Inr (Some a, b')"
  obtains p k where "p \<in> free_blocks (metadata b) {} k" "pred p" "k < MAX_ORDER"
    "\<And>j. free_blocks (metadata b) {} j - {p} \<subseteq> free_blocks (metadata b') {} j"
  using assms(2,3)
proof (induction qs arbitrary: thesis)
  case (Cons q qs)
  have wf: "wf_open {} b" using inv by (simp add: buddy_inv_def)
  obtain xs where xs: "find_free q pred b = Inr (find pred xs)" "set xs = free_blocks (metadata b) {} q"
    using find_free_eq [OF wf, of q pred] Cons.prems by auto
  show ?case
  proof (cases "find pred xs")
    case None
    then show ?thesis using Cons xs(1) by auto
  next
    case (Some p)
    then have p: "p \<in> free_blocks (metadata b) {} q" "pred p" using xs(2) by (auto simp: find_Some_iff)
    obtain b1 where b1: "take_block p q ord b = Inr (Some (p * PAGE_SIZE), b1)" "tags_off (frames p q) (metadata b) (metadata b1)"
      using take_block_correct [OF inv p(1), of ord] Cons.prems(2) by auto
    have b': "b' = b1" using Cons.prems(3) xs(1) Some b1(1) by simp
    have "x \<in> free_blocks (metadata b') {} j" if x: "x \<in> free_blocks (metadata b) {} j" "x \<noteq> p" for x j
    proof -
      have h: "head_at (metadata b) x" using x(1) by (simp add: free_blocks_def)
      then have "x \<notin> frames p q" using free_block_frames(3) [OF wf p(1), of x] x(2) by blast
      then show ?thesis using x(1) b1(2) h unfolding b'
        by (auto simp: free_blocks_def tags_off_def free_at_def head_at_def ord_at_def simp del: frames_iff)
    qed
    then show ?thesis using Cons.prems(1) [OF p] Cons.prems(2) by auto
  qed
qed simp

lemma allocate_where_block:
  assumes "buddy_inv b" "allocate_where ord pred b = Inr (Some a, b')"
  obtains p k where "p \<in> free_blocks (metadata b) {} k" "pred p" "k < MAX_ORDER"
    "\<And>j. free_blocks (metadata b) {} j - {p} \<subseteq> free_blocks (metadata b') {} j"
  using allocate_scan_block [OF assms(1), of "[ord..<MAX_ORDER]" ord pred a b'] assms(2) that
  by (auto simp: allocate_where_def split: if_splits)

section \<open>Pages below the limit\<close>

lemma allocate_below_supply:
  assumes inv: "buddy_inv b" and low: "0 < low_free lim b" and lim: "lim \<le> USIZE_MAX"
  obtains f b' where "allocate_below 0 lim b = Inr (Some f, b')" "low_free lim b' = low_free lim b - 1"
    "big_blocks lim b \<subseteq> big_blocks lim b'"
proof (rule allocate_below_cases [OF inv, of 0 lim], goal_cases)
  case (1 p b')
  have "p \<in> free_pages b \<inter> low_pages lim" "free_pages b' \<inter> low_pages lim = free_pages b \<inter> low_pages lim - {p}"
    using 1(3,4) by (auto simp: alloc_step_def low_pages_def frames_def)
  then have "low_free lim b' = low_free lim b - 1" by (simp add: low_free_def)
  moreover have "big_blocks lim b \<subseteq> big_blocks lim b'"
  proof (rule allocate_where_block [OF inv 1(2) [unfolded allocate_below_def]])
    fix x k assume x: "block_below 0 lim x" and keep: "\<And>j. free_blocks (metadata b) {} j - {x} \<subseteq> free_blocks (metadata b') {} j"
    have "x * PAGE_SIZE < lim" using x by (simp add: block_below_iff)
    then show ?thesis using keep [of 10] by (auto simp: big_blocks_def)
  qed
  ultimately show thesis using that [OF 1(2)] by blast
next
  case 2
  have "free_pages b \<inter> low_pages lim \<noteq> {}" using low by (auto simp: low_free_def card_gt_0_iff)
  then obtain q where q: "q \<in> free_pages b" "q * PAGE_SIZE + PAGE_SIZE \<le> lim" by (auto simp: low_pages_def)
  show thesis by (rule allocate_below_succeeds [OF inv q lim]) (use 2(2) in simp)
qed

section \<open>Other allocations\<close>

lemma allocate_supply:
  assumes inv: "buddy_inv b" and big: "big_blocks lim b \<noteq> {}" and k: "k < MAX_ORDER"
  obtains f b' where "allocate k b = Inr (Some f, b')" "low_free lim b \<le> low_free lim b' + 2 ^ k"
    "card (big_blocks lim b) \<le> Suc (card (big_blocks lim b'))"
proof (rule allocate_cases [OF inv, of k], goal_cases)
  case (1 p b')
  have fr: "free_pages b' = free_pages b - frames p k" using 1(3) by (simp add: alloc_step_def)
  have "card (free_pages b \<inter> low_pages lim) \<le> card ((free_pages b' \<inter> low_pages lim) \<union> frames p k)"
    by (rule card_mono) (auto simp: fr frames_def)
  also have "\<dots> \<le> card (free_pages b' \<inter> low_pages lim) + card (frames p k)" by (rule card_Un_le)
  finally have "low_free lim b \<le> low_free lim b' + 2 ^ k" by (simp add: low_free_def frames_def)
  moreover have "card (big_blocks lim b) \<le> Suc (card (big_blocks lim b'))"
  proof (rule allocate_where_block [OF inv 1(2) [unfolded allocate_def]])
    fix x j assume "\<And>j. free_blocks (metadata b) {} j - {x} \<subseteq> free_blocks (metadata b') {} j"
    then have "big_blocks lim b \<subseteq> insert x (big_blocks lim b')" by (auto simp: big_blocks_def dest: subsetD)
    then have "card (big_blocks lim b) \<le> card (insert x (big_blocks lim b'))" by (intro card_mono) simp_all
    also have "\<dots> \<le> Suc (card (big_blocks lim b'))" by (simp add: card_insert_if)
    finally show ?thesis .
  qed
  ultimately show thesis using that [OF 1(2)] by blast
next
  case 2
  then have "free_blocks (metadata b) {} 10 = {}" using k 2(3) by simp
  then show thesis using big by (simp add: big_blocks_def)
qed

section \<open>Page 0\<close>

text \<open>A free page whose partner is not free is a block of its own.  When there is such a page below the limit
  and page 0 is not one, the first page allocation is not page 0.\<close>

definition partner :: "nat \<Rightarrow> nat" where
  "partner q = (if even q then q + 1 else q - 1)"

lemma partner_in_frames:
  assumes "q \<in> frames p (Suc k)" "2 ^ Suc k dvd p" shows "partner q \<in> frames p (Suc k)"
proof -
  obtain c where c: "p = 2 * c" using assms(2) by (auto elim!: dvdE)
  have q: "2 * c \<le> q" "q < 2 * c + 2 * 2 ^ k" using assms(1) by (simp_all add: frames_def c)
  have "2 * c \<le> partner q \<and> partner q < 2 * c + 2 * 2 ^ k"
  proof (cases "even q")
    case True
    then obtain d where d: "q = 2 * d" by (elim evenE)
    then have "c \<le> d" "d < c + 2 ^ k" using q by simp_all
    then show ?thesis by (simp add: partner_def d)
  next
    case False
    then obtain d where "q = 2 * d + 1" by (elim oddE)
    then show ?thesis using q by (simp add: partner_def)
  qed
  then show ?thesis by (simp add: frames_def c)
qed

lemma lone_page_block:
  assumes "buddy_inv b" "q \<in> free_pages b" "partner q \<notin> free_pages b"
  shows "q \<in> free_blocks (metadata b) {} 0"
proof -
  obtain p k where p: "p \<in> free_blocks (metadata b) {} k" "q \<in> frames p k" using free_page_block [OF assms(1,2)] by blast
  note f = free_block_frames [OF assms(1) [unfolded buddy_inv_def] p(1)]
  have "k = 0"
  proof (rule ccontr)
    assume "k \<noteq> 0"
    then obtain j where j: "k = Suc j" by (cases k) auto
    have "2 ^ k dvd p" using f(1) by (simp add: placeable_def)
    then have "partner q \<in> frames p k" using partner_in_frames p(2) by (simp only: j)
    then show False using f(2) assms(3) by (simp add: free_pages_def del: frames_iff)
  qed
  then show ?thesis using p by (simp add: frames_def)
qed

lemma allocate_below_nonzero:
  assumes inv: "buddy_inv b" and q: "q \<in> free_blocks (metadata b) {} 0" "block_below 0 lim q" "0 \<notin> free_blocks (metadata b) {} 0"
    and run: "allocate_below 0 lim b = Inr (Some f, b')"
  shows "f \<noteq> 0"
proof -
  have "wf_open {} b" using inv by (simp add: buddy_inv_def)
  then obtain xs where xs: "find_free 0 (block_below 0 lim) b = Inr (find (block_below 0 lim) xs)" "set xs = free_blocks (metadata b) {} 0"
    using find_free_eq [of "{}" b 0 "block_below 0 lim"] by auto
  have "find (block_below 0 lim) xs \<noteq> None" using q(1,2) xs(2) by (auto simp: find_None_iff)
  then obtain p where p: "find (block_below 0 lim) xs = Some p" by blast
  then have pb: "p \<in> free_blocks (metadata b) {} 0" using xs(2) by (auto simp: find_Some_iff)
  obtain b1 where b1: "take_block p 0 0 b = Inr (Some (p * PAGE_SIZE), b1)" using take_block_correct [OF inv pb, of 0] by auto
  have up: "[0..<MAX_ORDER] = 0 # [1..<MAX_ORDER]" by (simp add: upt_rec)
  have "f = p * PAGE_SIZE"
    using run unfolding allocate_below_def allocate_where_def up allocate_scan.simps xs(1) rbind_simps p option.case using b1 by simp
  then show ?thesis using pb q(3) by (cases "p = 0") auto
qed

text \<open>On a memory map: page 0 is not offered, or it comes with page 1 and some other low page has no partner.\<close>

definition page_zero_spared :: "usize \<Rightarrow> nat \<Rightarrow> (usize \<times> usize) list \<Rightarrow> memory_area list \<Rightarrow> bool" where
  "page_zero_spared lim n reserved areas \<longleftrightarrow> (let pages = area_pages reserved areas \<inter> {..<n} in
     0 \<notin> pages \<or> 0 \<notin> area_singles n reserved areas \<and> (\<exists>q\<in>pages \<inter> low_pages lim. partner q \<notin> pages))"

lemma first_page_nonzero:
  assumes inv: "buddy_inv b" and b: "free_pages b = area_pages reserved areas \<inter> {..<n}"
      "free_blocks (metadata b) {} 0 \<subseteq> area_singles n reserved areas"
    and z: "page_zero_spared lim n reserved areas" and lim: "lim \<le> USIZE_MAX"
    and run: "allocate_below 0 lim b = Inr (Some f, b')"
  shows "f \<noteq> 0"
proof (cases "0 \<in> free_pages b")
  case False
  obtain p where "f = p * PAGE_SIZE" "p \<in> free_pages b" using frame_source.alloc_some [OF inv run] by auto
  then show ?thesis using False by (cases "p = 0") auto
next
  case True
  then obtain q where q: "0 \<notin> area_singles n reserved areas" "q \<in> free_pages b" "q \<in> low_pages lim" "partner q \<notin> free_pages b"
    using z by (auto simp: page_zero_spared_def Let_def b(1))
  have "block_below 0 lim q" using q(3) lim by (simp add: block_below_iff low_pages_def)
  then show ?thesis using allocate_below_nonzero [OF inv lone_page_block [OF inv q(2,4)] _ _ run] q(1) b(2) by blast
qed

section \<open>An example memory map\<close>

text \<open>32 MiB with the kernel image, its boot data and the boot information reserved.\<close>

definition map_32 :: "memory_area list" where
  "map_32 = [(1, 0x100000, 0x2000000), (2, 0x2000000, 0x2100000)]"

definition reserved_32 :: "(usize \<times> usize) list" where
  "reserved_32 = [(0x100000, 0x180000), (0x180000, 0x190000), (0x300000, 0x301000)]"

lemma pages_32:
  "area_pages reserved_32 map_32 = usable reserved_32 0x100000 0x2000000"
  "area_runs n reserved_32 map_32 = runs_in (usable reserved_32 0x100000 0x2000000 \<inter> {..<n})"
  by (simp_all add: area_pages_def area_runs_def map_32_def)

lemma low_32: "1024 \<le> card (area_pages reserved_32 map_32 \<inter> {..<8448} \<inter> low_pages 8388608)"
proof -
  have "{1024..<2048} \<subseteq> area_pages reserved_32 map_32 \<inter> {..<8448} \<inter> low_pages 8388608"
    unfolding pages_32 by (auto simp: usable_def reserved_32_def low_pages_def)
  then have "card {1024..<2048 :: nat} \<le> card (area_pages reserved_32 map_32 \<inter> {..<8448} \<inter> low_pages 8388608)"
    by (intro card_mono) auto
  then show ?thesis by simp
qed

lemma runs_in_sub: "runs_in U \<subseteq> U"
  using head_in_frames unfolding runs_in_def by blast

lemma runs_32: "6 \<le> card {p \<in> area_runs 8448 reserved_32 map_32. 8388608 \<le> p * PAGE_SIZE}"
proof -
  have "(\<lambda>i. 2048 + 1024 * i) ` {..<6} \<subseteq> {p \<in> area_runs 8448 reserved_32 map_32. 8388608 \<le> p * PAGE_SIZE}"
    unfolding pages_32 runs_in_def by (auto simp: usable_def reserved_32_def)
  moreover have "finite {p \<in> area_runs 8448 reserved_32 map_32. 8388608 \<le> p * PAGE_SIZE}"
    by (rule finite_subset [of _ "{..<8448}"]) (use runs_in_sub in \<open>auto simp: pages_32\<close>)
  ultimately have "card ((\<lambda>i :: nat. 2048 + 1024 * i) ` {..<6}) \<le> card {p \<in> area_runs 8448 reserved_32 map_32. 8388608 \<le> p * PAGE_SIZE}"
    by (rule card_mono [rotated])
  moreover have "inj_on (\<lambda>i :: nat. 2048 + 1024 * i) {..<6}" by (rule inj_onI) simp
  ultimately show ?thesis by (simp add: card_image)
qed

lemma buddy_32:
  obtains b where "buddy_new 8448 map_32 reserved_32 = Inr b" "buddy_inv b" "1024 \<le> low_free 8388608 b" "6 \<le> card (big_blocks 8388608 b)"
    "0 \<notin> free_pages b"
proof -
  have "reserved_ok reserved_32" "areas_ok 8448 map_32" by (simp_all add: reserved_ok_def reserved_32_def map_32_def USIZE_MAX_def)
  then obtain b where b: "buddy_new 8448 map_32 reserved_32 = Inr b" "buddy_inv b" "free_pages b = area_pages reserved_32 map_32 \<inter> {..<8448}"
      "area_runs 8448 reserved_32 map_32 \<subseteq> free_blocks (metadata b) {} 10"
    using buddy_new_correct [of 8448 reserved_32 map_32] by auto
  have "{p \<in> area_runs 8448 reserved_32 map_32. 8388608 \<le> p * PAGE_SIZE} \<subseteq> big_blocks 8388608 b" using b(4) by (auto simp: big_blocks_def)
  then have "6 \<le> card (big_blocks 8388608 b)" by (rule order_trans [OF runs_32 card_mono [OF finite_big_blocks]])
  moreover have "0 \<notin> free_pages b" by (simp add: b(3) pages_32 usable_def)
  ultimately show thesis using that b(1-3) low_32 by (simp add: low_free_def)
qed

end
