(* ===== verification/Paging_Supply.thy ===== *)
theory Paging_Supply
  imports Paging_Theorems Buddy_Supply
begin

text \<open>
  Enough memory for page tables.  Mapping the addresses of a set needs one page below the early limit
  for every table on their paths that does not exist yet; when that many are free, no mapping fails.
\<close>

definition tables :: "pt_memory \<Rightarrow> phys_addr \<Rightarrow> nat list set" where
  "tables m r = {q. path_ok q \<and> walk m r q \<noteq> None}"

text \<open>The paths of the tables below the root that lead to an address.\<close>

definition table_paths :: "virt_addr \<Rightarrow> nat list set" where
  "table_paths v = {take 1 (vpath v), take 2 (vpath v), vpath v}"

definition tables_for :: "virt_addr set \<Rightarrow> nat list set" where
  "tables_for V = (\<Union>v\<in>V. table_paths v)"

lemma finite_tables_for [simp]: "finite V \<Longrightarrow> finite (tables_for V)"
  by (simp add: tables_for_def table_paths_def)

lemma tables_for_mono: "V \<subseteq> W \<Longrightarrow> tables_for V \<subseteq> tables_for W"
  by (auto simp: tables_for_def)

lemma table_paths_sub: "v \<in> V \<Longrightarrow> table_paths v \<subseteq> tables_for V"
  by (auto simp: tables_for_def)

text \<open>The paths of \<open>T\<close> without a table, and \<open>n\<close> pages more, are available below the limit; \<open>g\<close> large blocks
  are available above it.\<close>

definition supplied :: "nat \<Rightarrow> nat \<Rightarrow> nat list set \<Rightarrow> phys_addr set \<Rightarrow> phys_addr \<Rightarrow> pt_memory \<times> buddy \<Rightarrow> bool" where
  "supplied n g T R r s \<longleftrightarrow> vm_inv R (fst s) (snd s) \<and> r \<in> R \<and> finite T \<and>
     card (T - tables (fst s) r) + n \<le> low_free EARLY_PAGE_TABLE_LIMIT (snd s) \<and>
     g \<le> card (big_blocks EARLY_PAGE_TABLE_LIMIT (snd s))"

lemma get_or_create_frame:
  assumes "get_or_create_table c fl (m, b) = Inr (u, m', b')"
  shows "pte_is_present (m c) \<and> b' = b \<or> (\<exists>f. \<not> pte_is_present (m c) \<and> allocate_below 0 EARLY_PAGE_TABLE_LIMIT b = Inr (Some f, b'))"
  using assms by (auto simp: get_or_create_table_def rbind_eq_Inr_iff Let_def split: if_splits option.splits)

lemma descend_supplied:
  assumes s: "supplied n g T R r (m, b)" and p: "path_ok (p @ [i])" "walk m r p = Some t" "p @ [i] \<in> T" and fl: "table_flags fl"
  obtains u m' b' where "rbind (entry_mut t i) (\<lambda>c. rbind (get_or_create_table c fl (m, b)) f) = f (u, m', b')"
    "supplied n g T R r (m', b')" "walk m' r (p @ [i]) = Some u"
proof -
  have inv: "vm_inv R m b" and r: "r \<in> R" and T: "finite T" "card (T - tables m r) + n \<le> low_free EARLY_PAGE_TABLE_LIMIT b"
    and g: "g \<le> card (big_blocks EARLY_PAGE_TABLE_LIMIT b)" using s by (auto simp: supplied_def)
  have i: "entry_mut t i = Inr (t + 8 * i)" using p(1) by (simp add: entry_mut_def)
  have new: "p @ [i] \<in> T - tables m r" if "\<not> pte_is_present (m (t + 8 * i))"
    using that p by (simp add: tables_def walk_snoc)
  have alloc: "\<exists>f b'. allocate_below 0 EARLY_PAGE_TABLE_LIMIT b = Inr (Some f, b') \<and>
      low_free EARLY_PAGE_TABLE_LIMIT b' = low_free EARLY_PAGE_TABLE_LIMIT b - 1 \<and> g \<le> card (big_blocks EARLY_PAGE_TABLE_LIMIT b')"
    if "\<not> pte_is_present (m (t + 8 * i))"
  proof -
    have low: "0 < low_free EARLY_PAGE_TABLE_LIMIT b" using new [OF that] T card_gt_0_iff [of "T - tables m r"] by fastforce
    have "buddy_inv b" using inv by (simp add: vm_inv_def)
    then obtain f b' where "allocate_below 0 EARLY_PAGE_TABLE_LIMIT b = Inr (Some f, b')"
        "low_free EARLY_PAGE_TABLE_LIMIT b' = low_free EARLY_PAGE_TABLE_LIMIT b - 1"
        "big_blocks EARLY_PAGE_TABLE_LIMIT b \<subseteq> big_blocks EARLY_PAGE_TABLE_LIMIT b'"
      by (rule allocate_below_supply [OF _ low]) (simp_all add: USIZE_MAX_def)
    moreover from this(3) have "g \<le> card (big_blocks EARLY_PAGE_TABLE_LIMIT b')"
      by (rule order_trans [OF g card_mono [OF finite_big_blocks]])
    ultimately show ?thesis by blast
  qed
  show thesis
  proof (rule get_or_create_table_ext [OF inv r p(1,2) fl], goal_cases)
    case 1
    then have "\<not> pte_is_present (m (t + 8 * i))" using inv r p by (auto simp: get_or_create_table_def rbind_eq_Inl_iff phys_to_virt_def add_usize_def Let_def split: if_splits)
    then show thesis using alloc 1(2) by auto
  next
    case (2 u m' b')
    have sub: "tables m r \<subseteq> tables m' r" using pt_extD(4) [OF 2(2) r] by (auto simp: tables_def)
    have mem: "p @ [i] \<in> tables m' r" using p(1) 2(3) by (simp add: tables_def)
    have "supplied n g T R r (m', b')"
    proof (cases "pte_is_present (m (t + 8 * i))")
      case True
      then have "b' = b" using get_or_create_frame [OF 2(1)] by blast
      moreover have "card (T - tables m' r) \<le> card (T - tables m r)" using sub T(1) by (intro card_mono) auto
      ultimately show ?thesis using T g r pt_extD(1) [OF 2(2)] by (simp add: supplied_def)
    next
      case False
      have "card (T - tables m' r) < card (T - tables m r)" using sub mem new [OF False] T(1) by (intro psubset_card_mono) auto
      moreover obtain f where "allocate_below 0 EARLY_PAGE_TABLE_LIMIT b = Inr (Some f, b')" using get_or_create_frame [OF 2(1)] False by blast
      then have "low_free EARLY_PAGE_TABLE_LIMIT b' = low_free EARLY_PAGE_TABLE_LIMIT b - 1" "g \<le> card (big_blocks EARLY_PAGE_TABLE_LIMIT b')"
        using alloc [OF False] by auto
      ultimately show ?thesis using T r pt_extD(1) [OF 2(2)] by (simp add: supplied_def)
    qed
    then show thesis using that [of u m' b'] 2(1,3) by (simp add: i)
  qed
qed

lemma map_page_supplied:
  assumes s: "supplied n g T R r (m, b)" and v: "table_paths v \<subseteq> T"
  obtains m' b' where "map_page r v phys fl (m, b) = Inr (m', b')" "supplied n g T R r (m', b')"
proof -
  define tf :: u64 where "tf = (if has_flag fl USER then PRESENT OR WRITABLE OR USER else PRESENT OR WRITABLE)"
  have tf: "table_flags tf" by (simp add: tf_def pte_is_present_def)
  define i4 i3 i2 where "i4 = v div 2 ^ 39 mod 512" "i3 = v div 2 ^ 30 mod 512" "i2 = v div 2 ^ 21 mod 512"
  have lt: "i4 < 512" "i3 < 512" "i2 < 512" by (simp_all add: i4_i3_i2_def)
  have vp: "vpath v = [] @ [i4] @ [i3] @ [i2]" by (simp add: vpath_def i4_i3_i2_def)
  have paths: "[] @ [i4] \<in> T" "([] @ [i4]) @ [i3] \<in> T" "(([] @ [i4]) @ [i3]) @ [i2] \<in> T"
    using v by (simp_all add: table_paths_def vp)
  have ok: "path_ok ([] @ [i4])" "path_ok (([] @ [i4]) @ [i3])" "path_ok ((([] @ [i4]) @ [i3]) @ [i2])"
    using lt by (simp_all add: path_ok_def)
  have inv: "vm_inv R m b" and r: "r \<in> R" using s by (simp_all add: supplied_def)
  have "r + PAGE_SIZE \<le> EARLY_PAGE_TABLE_LIMIT" using vm_invD(1) [OF inv r, of "[]"] by (simp add: table_ok_def)
  then have virt: "phys_to_virt r = Inr (r + KERNEL_VMA)" by (simp add: phys_to_virt_def run_simps USIZE_MAX_def)
  define k3 where "k3 = (\<lambda>(pt, m, b). rbind (entry_mut pt (vslot v)) (\<lambda>c.
    Inr ((m :: pt_memory)(c := pte_set_addr phys (fl OR PRESENT)), b :: buddy)))"
  define k2 where "k2 = (\<lambda>(pd, st). rbind (entry_mut pd i2) (\<lambda>c. rbind (get_or_create_table c tf st) k3))"
  define k1 where "k1 = (\<lambda>(pdpt, st). rbind (entry_mut pdpt i3) (\<lambda>c. rbind (get_or_create_table c tf st) k2))"
  have run: "map_page r v phys fl (m, b) = rbind (entry_mut r i4) (\<lambda>c. rbind (get_or_create_table c tf (m, b)) k1)"
    unfolding map_page_def Let_def index_bits tf_def [symmetric] i4_i3_i2_def [symmetric] vslot_def [symmetric]
      virt rbind_simps k1_def k2_def k3_def ..
  have w0: "walk m r [] = Some r" by simp
  obtain t3 m3 b3 where d3: "rbind (entry_mut r i4) (\<lambda>c. rbind (get_or_create_table c tf (m, b)) k1) = k1 (t3, m3, b3)"
      "supplied n g T R r (m3, b3)" "walk m3 r ([] @ [i4]) = Some t3"
    by (rule descend_supplied [OF s ok(1) w0 paths(1) tf])
  obtain t2 m2 b2 where d2: "rbind (entry_mut t3 i3) (\<lambda>c. rbind (get_or_create_table c tf (m3, b3)) k2) = k2 (t2, m2, b2)"
      "supplied n g T R r (m2, b2)" "walk m2 r (([] @ [i4]) @ [i3]) = Some t2"
    by (rule descend_supplied [OF d3(2) ok(2) d3(3) paths(2) tf])
  obtain t1 m1 b1 where d1: "rbind (entry_mut t2 i2) (\<lambda>c. rbind (get_or_create_table c tf (m2, b2)) k3) = k3 (t1, m1, b1)"
      "supplied n g T R r (m1, b1)" "walk m1 r ((([] @ [i4]) @ [i3]) @ [i2]) = Some t1"
    by (rule descend_supplied [OF d2(2) ok(3) d2(3) paths(3) tf])
  define m' where "m' = m1(t1 + 8 * vslot v := pte_set_addr phys (fl OR PRESENT))"
  have w1: "walk m1 r (vpath v) = Some t1" using d1(3) by (simp add: vp)
  have inv1: "vm_inv R m1 b1" using d1(2) by (simp add: supplied_def)
  note wl = write_leaf [OF inv1 r vpath_ok(1,2) w1 vpath_ok(3) m'_def]
  have "tables m' r = tables m1 r" using wl(2) [OF r] by (auto simp: tables_def)
  then have "supplied n g T R r (m', b1)" using d1(2) wl(1) by (simp add: supplied_def)
  moreover have "map_page r v phys fl (m, b) = Inr (m', b1)"
    using d1(1) d2(1) unfolding run d3(1) by (simp add: k1_def k2_def k3_def entry_mut_def m'_def)
  ultimately show thesis using that by blast
qed

section \<open>Sequences of mappings\<close>

definition supplies :: "nat \<Rightarrow> nat \<Rightarrow> nat list set \<Rightarrow> phys_addr \<Rightarrow> (pt_memory \<times> buddy \<Rightarrow> (pt_memory \<times> buddy) run) \<Rightarrow> bool" where
  "supplies n g T r f \<longleftrightarrow> (\<forall>s. supplied n g T {r} r s \<longrightarrow> (\<exists>s'. f s = Inr s' \<and> supplied n g T {r} r s'))"

lemma supplies_Inr: "supplies n g T r Inr"
  by (simp add: supplies_def)

lemma supplies_rbind: "supplies n g T r f \<Longrightarrow> supplies n g T r h \<Longrightarrow> supplies n g T r (\<lambda>s. rbind (f s) h)"
  unfolding supplies_def by (metis rbind_simps(2))

lemma supplies_map_page:
  assumes "table_paths v \<subseteq> T" shows "supplies n g T r (map_page r v p fl)"
  unfolding supplies_def
proof (intro allI impI)
  fix s assume "supplied n g T {r} r s"
  then have "supplied n g T {r} r (fst s, snd s)" by simp
  then show "\<exists>s'. map_page r v p fl s = Inr s' \<and> supplied n g T {r} r s'"
    by (rule map_page_supplied [OF _ assms, of n g "{r}" r "fst s" "snd s" p fl]) simp
qed

lemma supplies_pages:
  assumes "\<forall>a\<in>set as. \<exists>v p. place a = Inr (v, p) \<and> table_paths v \<subseteq> T"
  shows "supplies n g T r (map_pages r fl place as)"
  using assms
proof (induction "as")
  case Nil
  have "map_pages r fl place [] = Inr" by (rule ext) simp
  then show ?case using supplies_Inr by simp
next
  case (Cons a "as")
  then obtain v p where v: "place a = Inr (v, p)" "table_paths v \<subseteq> T" by auto
  then have "map_pages r fl place (a # as) = (\<lambda>s. rbind (map_page r v p fl s) (map_pages r fl place as))" by (rule_tac ext) simp
  then show ?case using supplies_rbind [OF supplies_map_page [OF v(2)] Cons.IH] Cons.prems by simp
qed

text \<open>A fresh root has no tables, so all of \<open>T\<close> is needed.\<close>

lemma supplied_root:
  assumes "buddy_inv b" "finite T" "Suc (card T + n) \<le> low_free EARLY_PAGE_TABLE_LIMIT b" "g \<le> card (big_blocks EARLY_PAGE_TABLE_LIMIT b)"
  obtains f b' where "allocate_below 0 EARLY_PAGE_TABLE_LIMIT b = Inr (Some f, b')" "card T + n \<le> low_free EARLY_PAGE_TABLE_LIMIT b'"
    "g \<le> card (big_blocks EARLY_PAGE_TABLE_LIMIT b')" "supplied n g T {f} f (fill_table f m, b')"
proof -
  obtain f b' where f: "allocate_below 0 EARLY_PAGE_TABLE_LIMIT b = Inr (Some f, b')"
      "low_free EARLY_PAGE_TABLE_LIMIT b' = low_free EARLY_PAGE_TABLE_LIMIT b - 1"
      "big_blocks EARLY_PAGE_TABLE_LIMIT b \<subseteq> big_blocks EARLY_PAGE_TABLE_LIMIT b'"
    by (rule allocate_below_supply [OF assms(1), of EARLY_PAGE_TABLE_LIMIT]) (use assms(3) in \<open>simp_all add: USIZE_MAX_def\<close>)
  have low: "card T + n \<le> low_free EARLY_PAGE_TABLE_LIMIT b'" using f(2) assms(3) by simp
  have big: "g \<le> card (big_blocks EARLY_PAGE_TABLE_LIMIT b')"
    by (rule order_trans [OF assms(4) card_mono [OF finite_big_blocks f(3)]])
  have "card (T - X) \<le> card T" for X using assms(2) by (intro card_mono) auto
  then have "card (T - X) + n \<le> low_free EARLY_PAGE_TABLE_LIMIT b'" for X using low by (meson add_le_mono1 order_trans)
  then have "supplied n g T {f} f (fill_table f m, b')"
    using empty_root(1) [OF assms(1) f(1), of m] assms(2) big by (simp add: supplied_def)
  then show thesis by (rule that [OF f(1) low big])
qed

section \<open>Counting tables\<close>

text \<open>Addresses in \<open>n\<close> consecutive regions of 2 MiB need at most \<open>3 * n\<close> tables.\<close>

lemma vpath_region: "vpath v = vpath (v div 2 ^ 21 * 2 ^ 21)"
proof -
  have "v div 2 ^ 39 = v div 2 ^ 21 div 2 ^ 18" "v div 2 ^ 30 = v div 2 ^ 21 div 2 ^ 9" for v :: nat
    by (simp_all add: div_mult2_eq [symmetric])
  then show ?thesis by (simp add: vpath_def)
qed

lemma card_tables_for:
  assumes "V \<subseteq> {a * 2 ^ 21..<(a + n) * 2 ^ 21}"
  shows "card (tables_for V) \<le> 3 * n"
proof -
  have "table_paths v \<subseteq> (\<Union>i\<in>{a..<a + n}. table_paths (i * 2 ^ 21))" if "v \<in> V" for v
  proof -
    have "a * 2 ^ 21 \<le> v" "v < (a + n) * 2 ^ 21" using assms that by auto
    then have "v div 2 ^ 21 \<in> {a..<a + n}" by (auto simp: less_eq_div_iff_mult_less_eq div_less_iff_less_mult)
    moreover have "table_paths v = table_paths (v div 2 ^ 21 * 2 ^ 21)" unfolding table_paths_def using vpath_region by metis
    ultimately show ?thesis by blast
  qed
  then have "tables_for V \<subseteq> (\<Union>i\<in>{a..<a + n}. table_paths (i * 2 ^ 21))" by (auto simp: tables_for_def)
  then have "card (tables_for V) \<le> card (\<Union>i\<in>{a..<a + n}. table_paths (i * 2 ^ 21))"
    by (intro card_mono) (auto simp: table_paths_def)
  also have "\<dots> \<le> (\<Sum>i\<in>{a..<a + n}. card (table_paths (i * 2 ^ 21)))" by (rule card_UN_le) simp
  also have "\<dots> \<le> (\<Sum>i\<in>{a..<a + n}. 3)"
    by (rule sum_mono) (auto simp: table_paths_def card_insert_if)
  finally show ?thesis by simp
qed

lemma card_tables_Un: "card (tables_for (V \<union> W)) \<le> card (tables_for V) + card (tables_for W)"
  by (simp add: tables_for_def UN_Un card_Un_le)

section \<open>Mapping a page\<close>

text \<open>C3: \<^verbatim>\<open>Mapper::map\<close> on well-formed page tables panics only when fewer frames are free below the early
  limit than tables on the path of the page are missing, and otherwise is an update of the address map
  of its root at one page: the invariant is kept, the page gets exactly the given frame and flags, every
  other page of the root keeps its entry, and a mapping in the user half changes nothing in any other
  address space (the tables of the kernel half are shared).  A user mapping is reachable from ring 3.\<close>

theorem map_page_updates_one_page:
  assumes "vm_inv R m b" "r \<in> R"
  shows "case map_page r v phys flags (m, b) of
      Inl e \<Rightarrow> e = Expect ''out of memory for page table'' \<and>
        low_free EARLY_PAGE_TABLE_LIMIT b < card (table_paths v - tables m r)
    | Inr (m', b') \<Rightarrow> vm_inv R m' b' \<and>
        (\<forall>w. lookup m' r w = (if same_page v w then Some (pte_set_addr phys (flags OR PRESENT)) else lookup m r w)) \<and>
        (user_half v \<longrightarrow> (\<forall>s\<in>R - {r}. \<forall>w. lookup m' s w = lookup m s w)) \<and>
        (has_flag flags USER \<longrightarrow> user_access m' r v)"
proof (rule map_page_effect [OF assms, of v phys flags])
  fix m' b' assume e: "map_page r v phys flags (m, b) = Inr (m', b')" "map_effect R r v phys flags (m, b) (m', b')"
  note D = map_effectD [OF e(2) assms(2)]
  have "user_access m' r v" if "has_flag flags USER"
    using D(4) [of v] D(7) [OF that] that by (simp add: user_access_def has_flag_set_addr has_flag_or)
  then show ?thesis using e(1) D(1,4,5) by simp
next
  assume e: "map_page r v phys flags (m, b) = Inl (Expect ''out of memory for page table'')"
  have "\<not> supplied 0 0 (table_paths v) R r (m, b)"
    using map_page_supplied [of 0 0 "table_paths v" R r m b v phys flags] e by auto
  then show ?thesis using e assms by (auto simp: supplied_def table_paths_def)
qed

theorem map_page_updates_one_page_witness:
  "\<exists>b f b' m' b''. buddy_new 8448 map_32 reserved_32 = Inr b \<and> allocate_below 0 EARLY_PAGE_TABLE_LIMIT b = Inr (Some f, b') \<and>
    map_page f 0x401000 0x5000 (PRESENT OR USER) (fill_table f (\<lambda>_. 0), b') = Inr (m', b'') \<and>
    vm_inv {f} m' b'' \<and> user_access m' f 0x401000"
proof -
  obtain b where d: "buddy_new 8448 map_32 reserved_32 = Inr b" "buddy_inv b" "1024 \<le> low_free EARLY_PAGE_TABLE_LIMIT b"
    by (rule buddy_32)
  obtain f b' where f: "allocate_below 0 EARLY_PAGE_TABLE_LIMIT b = Inr (Some f, b')" "card ({} :: nat list set) + 3 \<le> low_free EARLY_PAGE_TABLE_LIMIT b'"
    by (rule supplied_root [OF d(2), of "{}" 3 0]) (use d(3) in simp_all)
  have "card (table_paths v - X) \<le> 3" for v X
    by (rule order_trans [OF card_mono [of "table_paths v"]]) (auto simp: table_paths_def card_insert_if)
  then have "\<not> low_free EARLY_PAGE_TABLE_LIMIT b' < card (table_paths v - X)" for v X using f(2) by (simp add: not_less) (metis le_trans)
  moreover have "has_flag (PRESENT OR USER) USER" by (simp add: has_flag_def)
  ultimately show ?thesis
    using map_page_updates_one_page [where v = "0x401000" and phys = "0x5000" and flags = "PRESENT OR USER",
        OF empty_root(1) [OF d(2) f(1), of "\<lambda>_. 0"] singletonI] d(1) f(1)
    by (auto split: sum.splits)
qed

end
