(* ===== verification/Proc_Supply.thy ===== *)
theory Proc_Supply
  imports Proc_System Paging_Supply
begin

text \<open>
  Enough memory for a process: \<^verbatim>\<open>spawn_user\<close> of src/src/task/proc.rs succeeds when there is a page below the
  early limit for its root, for each table its addresses need and for the frames it takes, and three
  blocks of the largest order for these frames; so does \<^verbatim>\<open>spawn_elf\<close>.  At the end the properties of the
  states the system reaches, with an example that holds two user processes.
\<close>

definition stocked :: "nat \<Rightarrow> nat \<Rightarrow> nat list set \<Rightarrow> phys_addr set \<Rightarrow> phys_addr \<Rightarrow> machine \<Rightarrow> bool" where
  "stocked n g T R r st \<longleftrightarrow> (\<exists>b. vm_buddy st = Some b \<and> supplied n g T R r (pt_mem st, b))"

definition room_for :: "nat \<Rightarrow> nat \<Rightarrow> machine \<Rightarrow> bool" where
  "room_for n g st \<longleftrightarrow> (\<exists>b. vm_buddy st = Some b \<and> n \<le> low_free EARLY_PAGE_TABLE_LIMIT b \<and>
     g \<le> card (big_blocks EARLY_PAGE_TABLE_LIMIT b))"

lemma stocked_cong: "pt_mem s' = pt_mem s \<Longrightarrow> vm_buddy s' = vm_buddy s \<Longrightarrow> stocked n g T R r s' = stocked n g T R r s"
  by (simp add: stocked_def)

lemma room_cong: "vm_buddy s' = vm_buddy s \<Longrightarrow> room_for n g s' = room_for n g s"
  by (simp add: room_for_def)

lemma stocked_room: "stocked n g T R r st \<Longrightarrow> room_for n g st"
  by (auto simp: stocked_def room_for_def supplied_def)

lemma run_all_stocked:
  assumes "stocked n g T R r st" "\<forall>x\<in>set xs. table_paths (fst x) \<subseteq> T"
  obtains st' where "run_all (\<lambda>(v, p, f). map_into_page_table r v p f) xs st = Inr st'" "stocked n g T R r st'"
  using assms
proof (induction xs arbitrary: st thesis)
  case (Cons x xs)
  obtain v p f where x: "x = (v, p, f)" by (cases x)
  obtain b where b: "vm_buddy st = Some b" "supplied n g T R r (pt_mem st, b)" using Cons.prems(2) by (auto simp: stocked_def)
  have v: "table_paths v \<subseteq> T" using Cons.prems(3) by (simp add: x)
  obtain m' b' where m': "map_page r v p f (pt_mem st, b) = Inr (m', b')" "supplied n g T R r (m', b')"
    by (rule map_page_supplied [OF b(2) v])
  define st1 where "st1 = st\<lparr>pt_mem := m', vm_buddy := Some b'\<rparr>"
  have s1: "map_into_page_table r v p f st = Inr st1" "stocked n g T R r st1"
    using m' b(1) by (simp_all add: map_into_page_table_def with_buddy_def stocked_def st1_def)
  obtain st' where "run_all (\<lambda>(v, p, f). map_into_page_table r v p f) xs st1 = Inr st'" "stocked n g T R r st'"
    by (rule Cons.IH [OF _ s1(2)]) (use Cons.prems(3) in auto)
  then show ?case using Cons.prems(1) s1(1) by (simp add: x)
qed simp

lemma create_stocked:
  assumes "vm_ok R st" "KERNEL_PML4 st \<noteq> 0" "KERNEL_PML4 st \<in> R" "finite T" "room_for (Suc (card T + n)) g st"
  obtains pt s1 where "create_user_page_table st = Inr (pt, s1)" "stocked n g T (insert pt R) pt s1"
proof -
  obtain b where b: "vm_buddy st = Some b" "vm_inv R (pt_mem st) b" using assms(1) by (auto simp: vm_ok_def)
  have inv: "buddy_inv b" using b(2) by (simp add: vm_inv_def)
  have lg: "Suc (card T + n) \<le> low_free EARLY_PAGE_TABLE_LIMIT b" "g \<le> card (big_blocks EARLY_PAGE_TABLE_LIMIT b)"
    using assms(5) b(1) by (auto simp: room_for_def)
  obtain f b' where f: "allocate_below 0 EARLY_PAGE_TABLE_LIMIT b = Inr (Some f, b')" "card T + n \<le> low_free EARLY_PAGE_TABLE_LIMIT b'"
      "g \<le> card (big_blocks EARLY_PAGE_TABLE_LIMIT b')" by (rule supplied_root [OF inv assms(4) lg])
  have k: "table_ok b (KERNEL_PML4 st)" using vm_invD(1) [OF b(2) assms(3), of "[]"] by simp
  have "f + PAGE_SIZE \<le> EARLY_PAGE_TABLE_LIMIT" using frame_source.alloc_some [OF inv f(1)] by auto
  then have virt: "phys_to_virt f = Inr (f + KERNEL_VMA)" "phys_to_virt (KERNEL_PML4 st) = Inr (KERNEL_PML4 st + KERNEL_VMA)"
    using k by (simp_all add: phys_to_virt_def run_simps table_ok_def USIZE_MAX_def)
  have kp: "kernel_pml4 st = Inr (KERNEL_PML4 st)" using assms(2) by (simp add: kernel_pml4_def)
  define M where "M = copy_entries (KERNEL_PML4 st) f [256..<512] (fill_table f (pt_mem st))"
  have run: "create_user_page_table st = Inr (f, st\<lparr>pt_mem := M, vm_buddy := Some b'\<rparr>)"
    unfolding create_user_page_table_def kp with_buddy_def b(1) expect_frame_def f(1) option.case rbind_simps prod.case virt M_def ..
  show thesis
  proof (rule create_user_page_table_effect [OF b refl assms(2,3)], goal_cases)
    case 1
    then show thesis by (simp add: run)
  next
    case (2 u m' b'')
    have "vm_buddy (st\<lparr>pt_mem := M, vm_buddy := Some b'\<rparr>) = vm_buddy (st\<lparr>pt_mem := m', vm_buddy := Some b''\<rparr>)"
      using 2(1) unfolding run by (simp only: sum.inject prod.inject)
    then have eq: "b'' = b'" by simp
    have "card (T - tables m' u) \<le> card T" using assms(4) by (intro card_mono) auto
    then have "card (T - tables m' u) + n \<le> low_free EARLY_PAGE_TABLE_LIMIT b'" using f(2) by linarith
    then have "stocked n g T (insert u R) u (st\<lparr>pt_mem := m', vm_buddy := Some b''\<rparr>)"
      using 2(2) f(3) assms(4) by (simp add: stocked_def supplied_def eq)
    then show thesis by (rule that [OF 2(1)])
  qed
qed

lemma take_stocked:
  assumes "stocked (n + 2 ^ k) (Suc g) T R r st" "k < MAX_ORDER"
  obtains f st' where "take_frames msg k st = Inr (Some f, st')" "stocked n g T R r st'"
proof -
  obtain b where b: "vm_buddy st = Some b" "supplied (n + 2 ^ k) (Suc g) T R r (pt_mem st, b)" using assms(1) by (auto simp: stocked_def)
  have inv: "vm_inv R (pt_mem st) b" "buddy_inv b" using b(2) by (auto simp: supplied_def vm_inv_def)
  have ne: "big_blocks EARLY_PAGE_TABLE_LIMIT b \<noteq> {}" using b(2) by (auto simp: supplied_def)
  obtain f b' where f: "allocate k b = Inr (Some f, b')" "low_free EARLY_PAGE_TABLE_LIMIT b \<le> low_free EARLY_PAGE_TABLE_LIMIT b' + 2 ^ k"
      "card (big_blocks EARLY_PAGE_TABLE_LIMIT b) \<le> Suc (card (big_blocks EARLY_PAGE_TABLE_LIMIT b'))"
    by (rule allocate_supply [OF inv(2) ne assms(2)])
  have "vm_inv R (pt_mem st) b'"
    by (rule allocate_cases [OF inv(2), of k]) (use f(1) vm_inv_smaller [OF inv(1)] in \<open>auto simp: alloc_step_def\<close>)
  then have "stocked n g T R r (st\<lparr>vm_buddy := Some b'\<rparr>)" using b(2) f(2,3) by (simp add: stocked_def supplied_def)
  then show thesis using that [of f "st\<lparr>vm_buddy := Some b'\<rparr>"] f(1) b(1) by (simp add: take_frames_def with_buddy_def)
qed

text \<open>The addresses the address space of a process maps: boot data, the code page at \<open>v\<close>, two stack pages.\<close>

definition space_addresses :: "usize \<times> usize \<Rightarrow> virt_addr \<Rightarrow> u64 \<Rightarrow> virt_addr set" where
  "space_addresses bd v q =
     set (page_steps (proc_align_down (fst bd) PAGE_SIZE) ((snd bd + PAGE_SIZE - 1) AND not_usize (PAGE_SIZE - 1))) \<union>
     {v, USER_STACK_TOP - unat q * USER_SLOT_SIZE - USER_STACK_SIZE, USER_STACK_TOP - unat q * USER_SLOT_SIZE - PAGE_SIZE}"

text \<open>The pages of its tables, its root, and the frames of its stacks and code; \<^verbatim>\<open>spawn_user\<close> puts the code
  at the slot of the process.\<close>

definition image_need :: "usize \<times> usize \<Rightarrow> virt_addr \<Rightarrow> u64 \<Rightarrow> nat" where
  "image_need bd v q = card (tables_for (space_addresses bd v q)) + 8"

definition spawn_need :: "usize \<times> usize \<Rightarrow> u64 \<Rightarrow> nat" where
  "spawn_need bd q = image_need bd (USER_CODE_BASE + unat q * USER_SLOT_SIZE) q"

text \<open>With enough memory every step of the two loaders succeeds.\<close>

lemma user_process_total:
  assumes ok: "vm_ok R st" and K: "KERNEL_PML4 st \<noteq> 0" "KERNEL_PML4 st \<in> R"
    and pid: "unat (next_pid st) < 2 ^ 25" and boot: "bootdata_pages st = Inr as"
    and stop: "stop = USER_STACK_TOP - unat (next_pid st) * USER_SLOT_SIZE"
    and room: "room_for (image_need (bootdata st) v (next_pid st) + n) (3 + g) st"
  obtains pt s1 s2 ks k1 cp k2 us k3 s4 s5 r st' where
    "create_user_page_table (st\<lparr>next_pid := next_pid st + 1\<rparr>) = Inr (pt, s1)" "map_bootdata_identity pt s1 = Inr s2"
    "take_frames no_buddy KERNEL_STACK_ORDER s2 = Inr (Some ks, k1)" "take_frames no_buddy 0 k1 = Inr (Some cp, k2)"
    "take_frames no_buddy USER_STACK_ORDER k2 = Inr (Some us, k3)" "add_usize cp KERNEL_VMA = Inr (cp + KERNEL_VMA)"
    "map_into_page_table pt v cp (PRESENT OR USER) (write_code cp code k3) = Inr s4"
    "map_user_stack pt stop us s4 = Inr s5" "finish_user (next_pid st) pt ks cp us rip stop s5 = Inr (r, st')" "room_for n g st'"
proof -
  define T where "T = tables_for (space_addresses (bootdata st) v (next_pid st))"
  have T: "finite T" "\<And>a. a \<in> space_addresses (bootdata st) v (next_pid st) \<Longrightarrow> table_paths a \<subseteq> T"
    unfolding T_def using table_paths_sub by (simp_all add: space_addresses_def)
  have pages: "as = page_steps (proc_align_down (fst (bootdata st)) PAGE_SIZE) ((snd (bootdata st) + PAGE_SIZE - 1) AND not_usize (PAGE_SIZE - 1))"
    using boot by (auto simp: bootdata_pages_def rbind_eq_Inr_iff add_usize_Inr sub_usize_def split: if_splits)
  define st0 where "st0 = st\<lparr>next_pid := next_pid st + 1\<rparr>"
  have sz: "USER_STACK_SIZE \<le> stop" using user_layout(3) [OF pid] by (simp only: stop)
  have ok0: "vm_ok R st0" "KERNEL_PML4 st0 \<noteq> 0" "KERNEL_PML4 st0 \<in> R" using ok K by (simp_all add: st0_def vm_ok_def)
  have room0: "room_for (Suc (card T + (n + 2 + 1 + 4))) (Suc (Suc (Suc g))) st0"
    using room unfolding room_for_def image_need_def T_def [symmetric] by (auto simp: st0_def)
  obtain pt s1 where s1: "create_user_page_table st0 = Inr (pt, s1)" "stocked (n + 2 + 1 + 4) (Suc (Suc (Suc g))) T (insert pt R) pt s1"
    by (rule create_stocked [OF ok0 T(1) room0])
  have as1: "bootdata_pages s1 = Inr as"
    using boot vm_only_simps [OF create_user_vm_only [OF s1(1)]] by (simp add: st0_def bootdata_pages_def)
  have "a \<in> space_addresses (bootdata st) v (next_pid st)" if "a \<in> set as" for a
    using that unfolding pages space_addresses_def by blast
  then have bm: "\<forall>x\<in>set (boot_maps as). table_paths (fst x) \<subseteq> T" using T(2) by (simp add: boot_maps_def)
  obtain s2 where s2: "run_all (\<lambda>(v, p, f). map_into_page_table pt v p f) (boot_maps as) s1 = Inr s2"
      "stocked (n + 2 + 1 + 4) (Suc (Suc (Suc g))) T (insert pt R) pt s2"
    by (rule run_all_stocked [OF s1(2) bm])
  have m2: "map_bootdata_identity pt s1 = Inr s2"
    using s2(1) by (simp add: map_bootdata_identity_def as1 map_list_run_all boot_maps_def comp_def)
  obtain ks k1 where k1: "take_frames no_buddy KERNEL_STACK_ORDER s2 = Inr (Some ks, k1)" "stocked (n + 2 + 1) (Suc (Suc g)) T (insert pt R) pt k1"
    by (rule take_stocked [of "n + 2 + 1" 2 "Suc (Suc g)" T "insert pt R" pt s2 no_buddy]) (use s2(2) in simp_all)
  obtain cp k2 where k2: "take_frames no_buddy 0 k1 = Inr (Some cp, k2)" "stocked (n + 2) (Suc g) T (insert pt R) pt k2"
    by (rule take_stocked [of "n + 2" 0 "Suc g" T "insert pt R" pt k1 no_buddy]) (use k1(2) in simp_all)
  obtain us k3 where k3: "take_frames no_buddy USER_STACK_ORDER k2 = Inr (Some us, k3)" "stocked n g T (insert pt R) pt k3"
    by (rule take_stocked [of n 1 g T "insert pt R" pt k2 no_buddy]) (use k2(2) in simp_all)
  have okk: "vm_ok (insert pt R) s2" "vm_ok (insert pt R) k1" using s2(2) k1(2) by (auto simp: stocked_def vm_ok_def supplied_def)
  obtain p q where pq: "ks = p * PAGE_SIZE" "p + 2 ^ KERNEL_STACK_ORDER \<le> 2 ^ 32" "cp = q * PAGE_SIZE" "q + 2 ^ 0 \<le> 2 ^ 32"
    using take_frames_Some [OF okk(1) k1(1)] take_frames_Some [OF okk(2) k2(1)] by metis
  have cv: "add_usize cp KERNEL_VMA = Inr (cp + KERNEL_VMA)" using pq(3,4) by (simp add: run_simps USIZE_MAX_def)
  define w where "w = write_code cp code k3"
  have w: "stocked n g T (insert pt R) pt w" using k3(2) stocked_cong [of w k3] by (simp add: w_def)
  have um: "\<forall>x\<in>set (user_maps v cp (stop - USER_STACK_SIZE) us). table_paths (fst x) \<subseteq> T"
  proof -
    have "stop - USER_STACK_SIZE + PAGE_SIZE = stop - PAGE_SIZE" using sz by simp
    moreover have "{v, stop - USER_STACK_SIZE, stop - PAGE_SIZE} \<subseteq> space_addresses (bootdata st) v (next_pid st)"
      unfolding stop space_addresses_def by blast
    ultimately show ?thesis using T(2) unfolding user_maps_def by (simp only: set_simps ball_simps fst_conv) blast
  qed
  obtain s5 where s5: "run_all (\<lambda>(v, p, f). map_into_page_table pt v p f) (user_maps v cp (stop - USER_STACK_SIZE) us) w = Inr s5"
      "stocked n g T (insert pt R) pt s5" by (rule run_all_stocked [OF w um])
  have "[0..<2 ^ USER_STACK_ORDER] = [0, 1 :: nat]" by (simp add: upt_rec)
  then obtain s4 where s4: "map_into_page_table pt v cp (PRESENT OR USER) w = Inr s4" "map_user_stack pt stop us s4 = Inr s5"
    using s5(1) sz by (auto simp: user_maps_def map_user_stack_def map_list_run_all rbind_eq_Inr_iff sub_usize_ok)
  have "ks + KERNEL_STACK_SIZE \<le> 2 ^ 44" using pq(1,2) by simp
  then obtain r st' where fin: "finish_user (next_pid st) pt ks cp us rip stop s5 = Inr (r, st')"
    using finish_user_total by (metis sum.exhaust prod.exhaust)
  have "vm_buddy st' = vm_buddy s5"
    using fin by (auto simp: finish_user_def rbind_eq_Inr_iff new_proc_def push_ready_def Let_def)
  then have "room_for n g st'" using stocked_room [OF s5(2)] room_cong by blast
  then show thesis by (rule that [OF s1(1) [unfolded st0_def] m2 k1(1) k2(1) k3(1) cv s4(1) [unfolded w_def] s4(2) fin])
qed

lemma spawn_user_total:
  assumes ok: "vm_ok R st" "current st \<noteq> None" and K: "KERNEL_PML4 st \<noteq> 0" "KERNEL_PML4 st \<in> R"
    and pid: "unat (next_pid st) < 2 ^ 25" and boot: "bootdata_pages st = Inr as" and len: "length code \<le> PAGE_SIZE"
    and room: "room_for (spawn_need (bootdata st) (next_pid st) + n) (3 + g) st"
  obtains r st' where "spawn_user code st = Inr (r, st')" "room_for n g st'"
proof -
  obtain c where "current st = Some c" using ok(2) by blast
  note start = proc_init_running [OF this] user_layout(1,2) [OF pid]
  show thesis
  proof (rule user_process_total [OF ok(1) K pid boot refl room [unfolded spawn_need_def],
        where code = "if code = [] then [0xeb, 0xfe] else code" and rip = "of_nat (USER_CODE_BASE + unat (next_pid st) * USER_SLOT_SIZE)"], goal_cases)
    case (1 pt s1 s2 ks k1 cp k2 us k3 s4 s5 r st')
    have "spawn_user code st = Inr (r, st')"
      unfolding spawn_user_def fetch_pid_def Let_def start rbind_simps prod.case 1(1-5) expect_frames_def option.case 1(6-9)
      using len by simp
    then show thesis using that 1(10) by blast
  qed
qed

lemma spawn_elf_total:
  assumes ok: "vm_ok R st" "current st \<noteq> None" and K: "KERNEL_PML4 st \<noteq> 0" "KERNEL_PML4 st \<in> R"
    and pid: "unat (next_pid st) < 2 ^ 25" and boot: "bootdata_pages st = Inr as"
    and img: "elf_parse img = Inr (Inr e)" "mem_size (elf_load e) \<le> PAGE_SIZE"
    and room: "room_for (image_need (bootdata st) (virt_addr (elf_load e)) (next_pid st) + n) (3 + g) st"
  obtains r st' where "spawn_elf img st = Inr (Inr r, st')" "room_for n g st'"
proof -
  obtain c where "current st = Some c" using ok(2) by blast
  note start = proc_init_running [OF this] user_layout(2) [OF pid]
  have "seg_offset (elf_load e) \<le> length img" "file_size (elf_load e) \<le> mem_size (elf_load e)"
    using elf_parse_accepted [OF img(1)] by auto
  note fits = this guard_def
  show thesis
  proof (rule user_process_total [OF ok(1) K pid boot refl room, where rip = "of_nat (elf_entry e)" and
        code = "take (file_size (elf_load e)) (drop (seg_offset (elf_load e)) img)"], goal_cases)
    case (1 pt s1 s2 ks k1 cp k2 us k3 s4 s5 r st')
    have "spawn_elf img st = Inr (Inr r, st')"
      unfolding spawn_elf_def fetch_pid_def Let_def start rbind_simps prod.case img(1) sum.case 1(1,2) try_frames_def 1(3-5) option.case 1(6)
      using fits img(2) 1(7-9) by simp
    then show thesis using that 1(10) by blast
  qed
qed

text \<open>A heap chunk takes 1024 pages; \<open>n\<close> chunks need \<open>n\<close> of the large blocks.\<close>

lemma heap_grows_total:
  assumes "vm_ok R st" "room_for (n + 1024 * h) (g + h) st"
  obtains st' where "heap_grows h st = Inr st'" "room_for n g st'"
  using assms
proof (induction h arbitrary: st thesis)
  case (Suc h)
  obtain b where b: "vm_buddy st = Some b" "vm_inv R (pt_mem st) b" using Suc.prems(2) by (auto simp: vm_ok_def)
  have inv: "buddy_inv b" using b(2) by (simp add: vm_inv_def)
  have ne: "big_blocks EARLY_PAGE_TABLE_LIMIT b \<noteq> {}" using Suc.prems(3) b(1) by (auto simp: room_for_def)
  obtain f b' where f: "allocate CHUNK_ORDER b = Inr (Some f, b')" "low_free EARLY_PAGE_TABLE_LIMIT b \<le> low_free EARLY_PAGE_TABLE_LIMIT b' + 2 ^ CHUNK_ORDER"
      "card (big_blocks EARLY_PAGE_TABLE_LIMIT b) \<le> Suc (card (big_blocks EARLY_PAGE_TABLE_LIMIT b'))"
    by (rule allocate_supply [OF inv ne, of CHUNK_ORDER]) simp_all
  have "heap_grow st = Inr (st\<lparr>vm_buddy := Some b'\<rparr>)" using f(1) b(1) by (simp add: heap_grow_def take_frames_def with_buddy_def)
  moreover have "vm_inv R (pt_mem st) b'"
    by (rule allocate_cases [OF inv, of CHUNK_ORDER]) (use f(1) vm_inv_smaller [OF b(2)] in \<open>auto simp: alloc_step_def\<close>)
  then have "vm_ok R (st\<lparr>vm_buddy := Some b'\<rparr>)" by (simp add: vm_ok_def)
  moreover have "room_for (n + 1024 * h) (g + h) (st\<lparr>vm_buddy := Some b'\<rparr>)"
    using Suc.prems(3) b(1) f(2,3) by (simp add: room_for_def)
  ultimately show ?case using Suc.IH [of "st\<lparr>vm_buddy := Some b'\<rparr>"] Suc.prems(1) by (metis heap_grows.simps(2) rbind_simps(2))
qed simp

section \<open>A process on an example machine\<close>

lemma image_need_small:
  assumes "snd bd < 2 ^ 21 - PAGE_SIZE"
  shows "image_need bd v q \<le> 20"
proof -
  define B where "B = set (page_steps (proc_align_down (fst bd) PAGE_SIZE) ((snd bd + PAGE_SIZE - 1) AND not_usize (PAGE_SIZE - 1)))"
  have one: "card (tables_for {v}) \<le> 3" for v
    by (auto simp: tables_for_def table_paths_def card_insert_if)
  have "(snd bd + PAGE_SIZE - 1) AND not_usize (PAGE_SIZE - 1) \<le> snd bd + PAGE_SIZE - 1"
    using and_not_mask [of 12 "snd bd + PAGE_SIZE - 1"] assms by (simp add: USIZE_MAX_def)
  then have "B \<subseteq> {0 * 2 ^ 21..<(0 + 1) * 2 ^ 21}" using assms by (auto simp: B_def page_steps_def)
  then have "card (tables_for B) \<le> 3" using card_tables_for [of B 0 1] by simp
  moreover have "space_addresses bd v q = B \<union> ({v} \<union>
      ({USER_STACK_TOP - unat q * USER_SLOT_SIZE - USER_STACK_SIZE} \<union> {USER_STACK_TOP - unat q * USER_SLOT_SIZE - PAGE_SIZE}))"
    by (simp add: space_addresses_def B_def insert_commute)
  ultimately have "card (tables_for (space_addresses bd v q)) \<le> 3 + (3 + (3 + 3))"
    by (simp only:) (intro order_trans [OF card_tables_Un] add_mono one)
  then show ?thesis by (simp add: image_need_def)
qed

lemma process_need: "snd bd < 2 ^ 21 - PAGE_SIZE \<Longrightarrow> spawn_need bd q \<le> 20"
  unfolding spawn_need_def by (rule image_need_small)

lemma room_mono: "room_for n g st \<Longrightarrow> n' \<le> n \<Longrightarrow> g' \<le> g \<Longrightarrow> room_for n' g' st"
  by (auto simp: room_for_def)

lemma demo_running:
  obtains m f st where "booted m" "proc_init m = Inr st" "sys_inv st" "KERNEL_PML4 st = f" "ready_queue st = []" "next_pid st = 1"
    "bootdata st = (0x1000, 0x2800)" "length (procs st) = 1" "\<forall>w. lookup (pt_mem st) f w = None" "room_for 40 6 st"
proof -
  obtain b where b: "buddy_inv b" "1024 \<le> low_free EARLY_PAGE_TABLE_LIMIT b" "6 \<le> card (big_blocks EARLY_PAGE_TABLE_LIMIT b)" "0 \<notin> free_pages b"
    by (rule buddy_32)
  obtain f b' where f: "allocate_below 0 EARLY_PAGE_TABLE_LIMIT b = Inr (Some f, b')" "card ({} :: nat list set) + 40 \<le> low_free EARLY_PAGE_TABLE_LIMIT b'"
      "6 \<le> card (big_blocks EARLY_PAGE_TABLE_LIMIT b')"
    by (rule supplied_root [OF b(1), of "{}" 40 6]) (use b(2,3) in simp_all)
  note booted = demo_machine_booted [OF b(1) f(1) b(4)]
  obtain st where st: "proc_init (demo_machine f b') = Inr st" "sys_inv st" by (rule proc_init_sys_inv [OF booted])
  have e: "KERNEL_PML4 st = f" "ready_queue st = []" "next_pid st = 1" "pt_mem st = fill_table f (\<lambda>_. 0)" "vm_buddy st = Some b'" "bootdata st = (0x1000, 0x2800)"
    "length (procs st) = 1"
    using st(1) by (auto simp: proc_init_def kernel_pml4_def new_proc_def demo_machine_def guard_def Let_def split: if_splits)
  have "\<forall>w. lookup (pt_mem st) f w = None" unfolding e(4) using empty_root(2) [OF b(1) f(1)] by simp
  moreover have "room_for 40 6 st" using f(2,3) by (simp add: room_for_def e(5))
  ultimately show thesis using that booted st e by blast
qed

lemma user_access_frames: "user_access m r w \<Longrightarrow> user_frames m r \<noteq> {}"
  by (auto simp: user_access_def user_frames_def)

lemma user_frames_cong: "\<forall>w. lookup m' r w = lookup m r w \<Longrightarrow> user_frames m' r = user_frames m r"
  by (simp add: user_frames_def)

text \<open>An example with two user processes: one from raw code, one from the image of a built-in program.\<close>

lemma demo_two_processes:
  obtains m st0 r1 st1 r2 st2 where "booted m" "proc_init m = Inr st0" "spawn_user [0xeb, 0xfe] st0 = Inr (r1, st1)"
    "spawn_elf (program_image Echo) st1 = Inr (Inr r2, st2)" "(sys_step user_space_program)\<^sup>*\<^sup>* st0 st2"
    "length (procs st2) = 3" "ready_queue st2 = [1, 2]"
    "\<forall>i\<in>{1, 2}. pkind (procs st2 ! i) = UserProc \<and> user_frames (pt_mem st2) (pagetable (procs st2 ! i)) \<noteq> {}"
proof (rule demo_running)
  fix m f st0
  assume d: "booted m" "proc_init m = Inr st0" "sys_inv st0" "ready_queue st0 = []" "next_pid st0 = 1" "bootdata st0 = (0x1000, 0x2800)"
    "length (procs st0) = 1" "room_for 40 6 st0"
  have state: "sched_inv st \<and> vm_ok (sys_roots st) st \<and> current st \<noteq> None \<and> KERNEL_PML4 st \<noteq> 0 \<and> KERNEL_PML4 st \<in> sys_roots st \<and>
      all_leaves supervisor (pt_mem st) (KERNEL_PML4 st) \<and> (\<exists>as. bootdata_pages st = Inr as \<and> (\<forall>a\<in>set as. user_half a))"
    if "sys_inv st" for st using that by (auto simp: sys_inv_def space_inv_def sys_roots_def elim: sched_invE)
  obtain as where i: "sched_inv st0" "vm_ok (sys_roots st0) st0" "current st0 \<noteq> None" "KERNEL_PML4 st0 \<noteq> 0" "KERNEL_PML4 st0 \<in> sys_roots st0"
      "all_leaves supervisor (pt_mem st0) (KERNEL_PML4 st0)" "bootdata_pages st0 = Inr as" "\<forall>a\<in>set as. user_half a"
    using state [OF d(3)] by blast
  have pid0: "unat (next_pid st0) < 2 ^ 25" by (simp add: d(5))
  have need0: "room_for (spawn_need (bootdata st0) (next_pid st0) + 20) (3 + 3) st0"
    using process_need [of "(0x1000, 0x2800)" 1] by (intro room_mono [OF d(8)]) (simp_all add: d(5,6))
  have small: "length [0xeb, 0xfe :: u8] \<le> PAGE_SIZE" by simp
  obtain r1 st1 where s1: "spawn_user [0xeb, 0xfe] st0 = Inr (r1, st1)" "room_for 20 3 st1"
    by (rule spawn_user_total [OF i(2-5) pid0 i(7) small need0])
  note inv1 = sys_inv_spawn_user [OF d(3) s1(1) pid0]
  obtain p where p: "ready_queue st1 = ready_queue st0 @ [length (procs st0)]" "procs st1 = procs st0 @ [p]" "bootdata st1 = bootdata st0"
      "next_pid st1 = next_pid st0 + 1" "pkind p = UserProc" "user_frames (pt_mem st1) (pagetable p) \<noteq> {}"
  proof (rule spawn_user_effect [OF i(1,2) refl i(4-6) pid0 i(7,8) s1(1)], goal_cases)
    case (1 p a cp)
    have "user_access (pt_mem st1) (pagetable p) (USER_CODE_BASE + unat (pid p) * USER_SLOT_SIZE)"
      unfolding 1(14) user_reach_def by blast
    then show ?case using 1(1-5,7,8,10) user_access_frames by blast
  qed
  define img where "img = program_image Echo"
  have e: "elf_parse img = Inr (Inr \<lparr>elf_entry = program_entry Echo, elf_program = Echo,
    elf_load = \<lparr>seg_offset = 120, virt_addr = program_entry Echo, file_size = length (payload Echo),
      mem_size = length (payload Echo), seg_flags = 5\<rparr>\<rparr>)"
    unfolding img_def by (rule parse_built(1) [OF build_program_image_eq])
  have pid1: "unat (next_pid st1) < 2 ^ 25" by (simp add: p(4) d(5))
  have ok: "user_space_program (next_pid st1) (ElfImage img)"
    unfolding img_def by (rule built_in_user_space [OF build_program_image_eq pid1])
  obtain as1 where i1: "sched_inv st1" "vm_ok (sys_roots st1) st1" "current st1 \<noteq> None" "KERNEL_PML4 st1 \<noteq> 0" "KERNEL_PML4 st1 \<in> sys_roots st1"
      "all_leaves supervisor (pt_mem st1) (KERNEL_PML4 st1)" "bootdata_pages st1 = Inr as1" "\<forall>a\<in>set as1. user_half a"
    using state [OF inv1] by blast
  have need1: "room_for (image_need (bootdata st1) v (next_pid st1) + 0) (3 + 0) st1" for v
    using image_need_small [of "(0x1000, 0x2800)" v] by (intro room_mono [OF s1(2)]) (simp_all add: d(6) p(3))
  have short: "mem_size (elf_load \<lparr>elf_entry = program_entry Echo, elf_program = Echo,
    elf_load = \<lparr>seg_offset = 120, virt_addr = program_entry Echo, file_size = length (payload Echo),
      mem_size = length (payload Echo), seg_flags = 5\<rparr>\<rparr>) \<le> PAGE_SIZE"
    using length_program_message [of Echo] length_program_prefix [of Echo] by simp
  obtain r2 st2 where s2: "spawn_elf img st1 = Inr (Inr r2, st2)" by (rule spawn_elf_total [OF i1(2-5) pid1 i1(7) e short need1])
  have low: "user_half (virt_addr (elf_load x))" if "elf_parse img = Inr (Inr x)" for x
    using ok that by (simp add: user_space_program_def)
  obtain q where q: "ready_queue st2 = ready_queue st1 @ [length (procs st1)]" "procs st2 = procs st1 @ [q]" "pkind q = UserProc"
      "user_frames (pt_mem st2) (pagetable q) \<noteq> {}" "\<forall>t\<in>sys_roots st1. \<forall>w. lookup (pt_mem st2) t w = lookup (pt_mem st1) t w"
  proof (rule spawn_elf_effect [OF i1(1,2) refl i1(4-6) pid1 i1(7,8) s2 low], goal_cases)
    case (2 x q a cp)
    have "user_access (pt_mem st2) (pagetable q) (virt_addr (elf_load x))" unfolding 2(15) by blast
    then show ?case using 2(1-6,10,11) user_access_frames by blast
  qed
  have "sys_step user_space_program st0 st1" "sys_step user_space_program st1 st2"
    using sys_step.user_spawn [of user_space_program, OF _ s1(1)] sys_step.elf_spawn [of user_space_program, OF ok s2] pid0
    by (simp_all add: user_space_program_def)
  then have "(sys_step user_space_program)\<^sup>*\<^sup>* st0 st2" by (meson converse_rtranclp_into_rtranclp r_into_rtranclp)
  moreover have "pagetable p \<in> sys_roots st1" by (simp add: sys_roots_def p(2))
  then have "user_frames (pt_mem st2) (pagetable p) \<noteq> {}" using q(5) user_frames_cong p(6) by metis
  then have "\<forall>i\<in>{1, 2}. pkind (procs st2 ! i) = UserProc \<and> user_frames (pt_mem st2) (pagetable (procs st2 ! i)) \<noteq> {}"
    using p(5) q(3,4) d(7) by (simp add: q(2) p(2) nth_append numeral_2_eq_2)
  ultimately show thesis using that [OF d(1,2) s1(1) s2 [unfolded img_def]] p(1,2) q(1,2) d(4,7) by simp
qed

text \<open>C4: \<^verbatim>\<open>spawn_user\<close>, on a running system that used fewer than \<open>2 ^ 25\<close> process identifiers and with code of at
  most one page, succeeds when there are enough free pages below the early
  limit (\<open>spawn_need\<close>) and three free blocks of 4 MiB above it, and panics only for lack of memory.  When it
  succeeds it appends one ready process
  at the end of the queue and keeps the scheduler consistent.  Ring 3 of that process reaches exactly
  its code page and its two stack pages, all in frames that were free before; no translation of any
  other address space changes; the code frame holds the program padded with zeros; and the process
  first enters user mode, with the user selectors, at the start of its code and the top of its stack.\<close>

theorem spawn_user_isolated:
  assumes "sched_inv st" "vm_ok R st" "KERNEL_PML4 st = k" "k \<noteq> 0" "k \<in> R" "all_leaves supervisor (pt_mem st) k"
    and "unat (next_pid st) < 2 ^ 25" "bootdata_pages st = Inr as" "\<forall>a\<in>set as. user_half a" "length code \<le> PAGE_SIZE"
  shows "case spawn_user code st of
      Inl e \<Rightarrow> e \<in> spawn_panics \<and> \<not> room_for (spawn_need (bootdata st) (next_pid st)) 3 st
    | Inr (r, st') \<Rightarrow> sched_inv st' \<and> ready_queue st' = ready_queue st @ [r] \<and>
       (\<forall>t\<in>R. \<forall>w. lookup (pt_mem st') t w = lookup (pt_mem st) t w) \<and>
       (\<exists>p a cp. procs st' = procs st @ [p] \<and> pid p = next_pid st \<and> pagetable p \<notin> R \<and>
          (\<forall>w. user_access (pt_mem st') (pagetable p) w = user_reach p w) \<and>
          user_frames (pt_mem st') (pagetable p) \<subseteq> proc_frames p \<and> proc_frames p \<subseteq> vm_free st \<and>
          user_code_phys p = Some cp \<and>
          (\<forall>i<PAGE_SIZE. frame_bytes st' (cp + i) = (if i < length (loaded_code code) then loaded_code code ! i else 0)) \<and>
          ptrap_frame p = Some a \<and>
          trap_frames st' a = Some (trap_frame_new_user (of_nat (USER_CODE_BASE + unat (pid p) * USER_SLOT_SIZE))
            (of_nat (USER_STACK_TOP - unat (pid p) * USER_SLOT_SIZE))))"
proof (cases "spawn_user code st")
  case (Inl e)
  have cur: "current st \<noteq> None" by (rule sched_invE [OF assms(1)]) simp
  have "e \<in> spawn_panics" using spawn_user_panics [OF assms(2) cur assms(3-5,7,8,10)] Inl by (simp add: panics_in_def)
  moreover have "\<not> room_for (spawn_need (bootdata st) (next_pid st) + 0) (3 + 0) st"
    using spawn_user_total [OF assms(2) cur _ _ assms(7,8,10), of 0 0] assms(3-5) Inl by (metis sum.distinct(1))
  ultimately show ?thesis using Inl by simp
next
  case (Inr x)
  then obtain r st' where run: "spawn_user code st = Inr (r, st')" by (cases x) simp
  show ?thesis
    unfolding run sum.case prod.case
    by (rule spawn_user_effect [OF assms(1-9) run]) (intro conjI exI allI ballI impI; assumption?; blast)
qed

theorem spawn_user_isolated_witness:
  "\<exists>f st r st' p. KERNEL_PML4 st = f \<and> next_pid st = 1 \<and> spawn_user [0xeb, 0xfe] st = Inr (r, st') \<and> sched_inv st' \<and> ready_queue st' = [r] \<and>
     (\<forall>w. lookup (pt_mem st') f w = None) \<and> procs st' = procs st @ [p] \<and>
     (\<forall>w. user_access (pt_mem st') (pagetable p) w = user_reach p w)"
proof -
  obtain f st where d: "sys_inv st" "KERNEL_PML4 st = f" "ready_queue st = []" "next_pid st = 1" "bootdata st = (0x1000, 0x2800)"
    "\<forall>w. lookup (pt_mem st) f w = None" "room_for 40 6 st" by (rule demo_running)
  have "spawn_need (bootdata st) (next_pid st) \<le> 20" using process_need [of "(0x1000, 0x2800)" 1] by (simp add: d(4,5))
  then have room: "room_for (spawn_need (bootdata st) (next_pid st)) 3 st" using d(7) by (auto simp: room_for_def)
  obtain as where i: "sched_inv st" "vm_ok (sys_roots st) st" "f \<noteq> 0" "f \<in> sys_roots st" "all_leaves supervisor (pt_mem st) f"
      "bootdata_pages st = Inr as" "\<forall>a\<in>set as. user_half a"
    using d(1,2) by (auto simp: sys_inv_def space_inv_def sys_roots_def)
  show ?thesis
    using spawn_user_isolated [OF i(1,2) d(2) i(3-5) _ i(6,7), of "[0xeb, 0xfe]"] room i(4) d(2-4,6)
    by (auto split: sum.splits)
qed

text \<open>C5: take any state the system reaches from boot by timer ticks, yields, exits, kernel tasks, growth of the
  kernel heap and both ways to start a user process (\<^verbatim>\<open>spawn_user\<close> and \<^verbatim>\<open>spawn_elf\<close>, the failing calls
  included), as long as every image started has its load segment in the user half and fewer than
  \<open>2 ^ 25\<close> process identifiers are used.  There the user
  processes are isolated: the frames ring 3 reaches through one process's page table are frames of that
  process, no other process owns them and the allocator does not consider them free; kernel tasks
  expose nothing to ring 3.  The images of the built-in programs meet the condition; \<^verbatim>\<open>spawn_elf\<close> itself
  does not check it.\<close>

theorem reachable_processes_isolated:
  assumes "booted st" "proc_init st = Inr st0" "(sys_step user_space_program)\<^sup>*\<^sup>* st0 st'"
  shows "\<forall>i<length (procs st'). user_frames (pt_mem st') (pagetable (procs st' ! i)) \<subseteq> proc_frames (procs st' ! i) \<and>
      user_frames (pt_mem st') (pagetable (procs st' ! i)) \<inter> vm_free st' = {} \<and>
      (\<forall>j<length (procs st'). i \<noteq> j \<longrightarrow>
         user_frames (pt_mem st') (pagetable (procs st' ! i)) \<inter> user_frames (pt_mem st') (pagetable (procs st' ! j)) = {})"
proof -
  have inv: "space_inv st'" using reachable_sys_inv [OF assms] by (simp add: sys_inv_def)
  have ok: "user_frames (pt_mem st') (pagetable (procs st' ! i)) \<subseteq> proc_frames (procs st' ! i) \<and> proc_frames (procs st' ! i) \<inter> vm_free st' = {}"
    if "i < length (procs st')" for i
  proof -
    have p: "proc_space_ok st' (procs st' ! i)" using inv that by (simp add: space_inv_def)
    show ?thesis
    proof (cases "pkind (procs st' ! i)")
      case KernelProc
      then have "pagetable (procs st' ! i) = KERNEL_PML4 st'" using p by (simp add: proc_space_ok_def)
      then have "user_frames (pt_mem st') (pagetable (procs st' ! i)) = {}"
        using inv by (auto simp: space_inv_def user_frames_def all_leaves_def)
      then show ?thesis using p by (simp add: proc_space_ok_def)
    next
      case UserProc then show ?thesis using p by (simp add: proc_space_ok_def)
    qed
  qed
  have "disjoint_procs (procs st')" using inv by (simp add: space_inv_def)
  then show ?thesis using ok unfolding disjoint_procs_def by blast
qed

theorem reachable_processes_isolated_witness:
  "\<exists>st st0 r1 st1 r2 st2. booted st \<and> proc_init st = Inr st0 \<and> spawn_user [0xeb, 0xfe] st0 = Inr (r1, st1) \<and>
     spawn_elf (program_image Echo) st1 = Inr (Inr r2, st2) \<and>
     user_frames (pt_mem st2) (pagetable (procs st2 ! 1)) \<noteq> {} \<and> user_frames (pt_mem st2) (pagetable (procs st2 ! 2)) \<noteq> {} \<and>
     user_frames (pt_mem st2) (pagetable (procs st2 ! 1)) \<inter> user_frames (pt_mem st2) (pagetable (procs st2 ! 2)) = {} \<and>
     user_frames (pt_mem st2) (pagetable (procs st2 ! 2)) \<inter> vm_free st2 = {}"
proof (rule demo_two_processes)
  fix st st0 r1 st1 r2 st2
  assume d: "booted st" "proc_init st = Inr st0" "spawn_user [0xeb, 0xfe] st0 = Inr (r1, st1)"
    "spawn_elf (program_image Echo) st1 = Inr (Inr r2, st2)" "(sys_step user_space_program)\<^sup>*\<^sup>* st0 st2" "length (procs st2) = 3"
    "\<forall>i\<in>{1, 2}. pkind (procs st2 ! i) = UserProc \<and> user_frames (pt_mem st2) (pagetable (procs st2 ! i)) \<noteq> {}"
  note iso = reachable_processes_isolated [OF d(1,2,5), rule_format]
  have "user_frames (pt_mem st2) (pagetable (procs st2 ! 1)) \<inter> user_frames (pt_mem st2) (pagetable (procs st2 ! 2)) = {}"
    "user_frames (pt_mem st2) (pagetable (procs st2 ! 2)) \<inter> vm_free st2 = {}"
    using iso [of 1] iso [of 2] d(6) by auto
  then show ?thesis using d(1-4,7) by (intro exI [of _ st] exI [of _ st0] exI [of _ r1] exI [of _ st1] exI [of _ r2] exI [of _ st2]) simp
qed



end
