(* ===== verification/Format.thy ===== *)
theory Format
  imports Prelude
begin

text \<open>
  Printing and reading of numbers: the decimal and hexadecimal formats of \<^verbatim>\<open>format!\<close> and \<^verbatim>\<open>printk!\<close>
  that the kernel uses, and the digit parsers \<^verbatim>\<open>parse_u32\<close> and \<^verbatim>\<open>parse_u64\<close> of src/src/main.rs.
\<close>

section \<open>Printing\<close>

definition digit :: "nat \<Rightarrow> char" where
  "digit d = char_of (if d < 10 then 48 + d else 87 + d)"

fun dec :: "nat \<Rightarrow> string" where
  "dec n = (if n < 10 then [digit n] else dec (n div 10) @ [digit (n mod 10)])"

fun hex :: "nat \<Rightarrow> string" where
  "hex n = (if n < 16 then [digit n] else hex (n div 16) @ [digit (n mod 16)])"

text \<open>The format \<^verbatim>\<open>{:#x}\<close>.\<close>

definition hex_prefixed :: "nat \<Rightarrow> string" where
  "hex_prefixed n = ''0x'' @ hex n"

declare dec.simps [simp del] hex.simps [simp del]

section \<open>Reading\<close>

definition is_ascii_digit :: "char \<Rightarrow> bool" where
  "is_ascii_digit c \<longleftrightarrow> 48 \<le> (of_char c :: nat) \<and> of_char c \<le> (57 :: nat)"

text \<open>\<open>checked w n\<close> is \<open>n\<close> when it fits into \<open>w\<close> bits.\<close>

definition checked :: "nat \<Rightarrow> nat \<Rightarrow> nat option" where
  "checked w n = (if n < 2 ^ w then Some n else None)"

fun parse_digits :: "nat \<Rightarrow> nat \<Rightarrow> string \<Rightarrow> nat option" where
  "parse_digits w value [] = Some value"
| "parse_digits w value (c # cs) =
     (if \<not> is_ascii_digit c then None
      else Option.bind (checked w (value * 10)) (\<lambda>v.
           Option.bind (checked w (v + (of_char c - 48))) (\<lambda>v. parse_digits w v cs)))"

definition parse_u32 :: "string \<Rightarrow> nat option" where
  "parse_u32 ds = parse_digits 32 0 ds"

definition parse_u64 :: "string \<Rightarrow> nat option" where
  "parse_u64 ds = parse_digits 64 0 ds"

section \<open>Round trip\<close>

lemma of_char_digit [simp]: "d < 10 \<Longrightarrow> of_char (digit d) = (48 + d :: nat)"
  by (simp add: digit_def)

lemma is_ascii_digit_digit [simp]: "d < 10 \<Longrightarrow> is_ascii_digit (digit d)"
  by (simp add: is_ascii_digit_def)

lemma parse_digits_append:
  "parse_digits w v (xs @ ys) = Option.bind (parse_digits w v xs) (\<lambda>u. parse_digits w u ys)"
  by (induction xs arbitrary: v) (auto simp: Option.bind_assoc)

lemma parse_dec: "n < 2 ^ w \<Longrightarrow> parse_digits w 0 (dec n) = Some n"
proof (induction n rule: dec.induct)
  case (1 n)
  have d: "dec n = (if n < 10 then [digit n] else dec (n div 10) @ [digit (n mod 10)])" by (rule dec.simps)
  show ?case
  proof (cases "n < 10")
    case True
    then show ?thesis using d 1(2) by (simp add: checked_def)
  next
    case False
    have "parse_digits w 0 (dec (n div 10)) = Some (n div 10)" using 1(1) [OF False] 1(2) False
      by (meson div_le_dividend le_less_trans)
    moreover have "n div 10 * 10 < 2 ^ w" using 1(2) by (meson div_times_less_eq_dividend le_less_trans)
    moreover have "n div 10 * 10 + n mod 10 = n" by simp
    ultimately show ?thesis using d False 1(2) by (simp add: parse_digits_append checked_def)
  qed
qed

lemma parse_digits_bound: "parse_digits w v ds = Some n \<Longrightarrow> v < 2 ^ w \<Longrightarrow> n < 2 ^ w"
  by (induction ds arbitrary: v) (auto simp: checked_def split: if_splits Option.bind_splits)

text \<open>What a word of digits denotes.\<close>

definition digits_value :: "string \<Rightarrow> nat" where
  "digits_value ds = foldl (\<lambda>v c. v * 10 + (of_char c - 48)) 0 ds"

lemma foldl_digits_ge: "v \<le> foldl (\<lambda>v c. v * 10 + (of_char c - 48)) (v :: nat) ds"
proof (induction ds arbitrary: v)
  case (Cons c ds)
  have "v \<le> v * 10 + (of_char c - 48)" by simp
  also have "\<dots> \<le> foldl (\<lambda>v c. v * 10 + (of_char c - 48)) (v * 10 + (of_char c - 48)) ds" by (rule Cons)
  finally show ?case by simp
qed simp

lemma parse_digits_iff:
  "v < 2 ^ w \<Longrightarrow> parse_digits w v ds =
    (if (\<forall>c\<in>set ds. is_ascii_digit c) \<and> foldl (\<lambda>v c. v * 10 + (of_char c - 48)) v ds < 2 ^ w
     then Some (foldl (\<lambda>v c. v * 10 + (of_char c - 48)) v ds) else None)"
proof (induction ds arbitrary: v)
  case (Cons c ds)
  define u where "u = v * 10 + (of_char c - 48 :: nat)"
  have ge: "u \<le> foldl (\<lambda>v c. v * 10 + (of_char c - 48)) u ds" by (rule foldl_digits_ge)
  show ?case
  proof (cases "u < 2 ^ w")
    case True
    then have "v * 10 < 2 ^ w" by (simp add: u_def)
    then show ?thesis using Cons.IH [OF True] True by (simp add: checked_def u_def)
  next
    case False
    then have "\<not> foldl (\<lambda>v c. v * 10 + (of_char c - 48)) u ds < 2 ^ w" using ge by simp
    then show ?thesis using False by (auto simp: checked_def u_def is_ascii_digit_def)
  qed
qed simp

end
