(* ===== verification/Spin_Lock.thy ===== *)
theory Spin_Lock
  imports Prelude
begin

text \<open>
  src/src/lock/spin_lock.rs: the spin lock.  Each thread of control has an interrupt flag of its own
  (a processor, or the code and its interrupt handlers on one processor); \<^verbatim>\<open>lock\<close> is two steps, saving
  and clearing the flag, and a compare-and-exchange that is repeated until it succeeds, so the step
  relation interleaves the attempts of all threads.  The interrupt flag the guard restores is compared
  with the one the thread had when it called \<^verbatim>\<open>lock\<close>, kept in \<open>entry_flag\<close>.
\<close>

section \<open>The lock\<close>

record 'a spin_lock =
  locked :: bool
  inner :: 'a

record spin_guard =
  interrupts_were_enabled :: bool

definition spin_new :: "'a \<Rightarrow> 'a spin_lock" where
  "spin_new d = \<lparr>locked = False, inner = d\<rparr>"

definition compare_exchange :: "'a spin_lock \<Rightarrow> bool \<times> 'a spin_lock" where
  "compare_exchange l = (if locked l then (False, l) else (True, l\<lparr>locked := True\<rparr>))"

text \<open>The first half of \<^verbatim>\<open>lock\<close>: the saved flag and the new one.\<close>

definition lock_enter :: "bool \<Rightarrow> spin_guard \<times> bool" where
  "lock_enter iflag = (\<lparr>interrupts_were_enabled = iflag\<rparr>, False)"

definition try_lock :: "bool \<Rightarrow> 'a spin_lock \<Rightarrow> spin_guard option \<times> bool \<times> 'a spin_lock" where
  "try_lock iflag l =
     (let (g, iflag) = lock_enter iflag; (ok, l) = compare_exchange l
      in if ok then (Some g, iflag, l)
         else (None, (if interrupts_were_enabled g then True else iflag), l))"

definition spin_unlock :: "'a spin_lock \<Rightarrow> 'a spin_lock" where
  "spin_unlock l = l\<lparr>locked := False\<rparr>"

definition guard_drop :: "spin_guard \<Rightarrow> bool \<Rightarrow> 'a spin_lock \<Rightarrow> bool \<times> 'a spin_lock" where
  "guard_drop g iflag l =
     (let l = spin_unlock l in (if interrupts_were_enabled g then True else iflag, l))"

text \<open>\<^verbatim>\<open>lock\<close> of a thread no other thread interferes with, for at most \<open>n\<close> attempts.\<close>

fun lock_attempts :: "nat \<Rightarrow> 'a spin_lock \<Rightarrow> 'a spin_lock option" where
  "lock_attempts 0 l = None"
| "lock_attempts (Suc n) l = (let (ok, l) = compare_exchange l in if ok then Some l else lock_attempts n l)"

definition lock_alone :: "nat \<Rightarrow> bool \<Rightarrow> 'a spin_lock \<Rightarrow> (spin_guard \<times> bool \<times> 'a spin_lock) option" where
  "lock_alone n iflag l =
     (let (g, iflag) = lock_enter iflag in map_option (\<lambda>l. (g, iflag, l)) (lock_attempts n l))"

section \<open>Threads\<close>

datatype lock_pc = Outside | Spinning spin_guard | Holding spin_guard

record 'a threads =
  lk :: "'a spin_lock"
  iflags :: "nat \<Rightarrow> bool"
  pcs :: "nat \<Rightarrow> lock_pc"
  entry_flag :: "nat \<Rightarrow> bool"

definition threads_start :: "'a \<Rightarrow> (nat \<Rightarrow> bool) \<Rightarrow> 'a threads" where
  "threads_start d fl = \<lparr>lk = spin_new d, iflags = fl, pcs = (\<lambda>_. Outside), entry_flag = fl\<rparr>"

inductive lock_step :: "nat \<Rightarrow> 'a threads \<Rightarrow> 'a threads \<Rightarrow> bool" where
  set_flag: "pcs s t = Outside \<Longrightarrow> lock_step t s (s\<lparr>iflags := (iflags s)(t := b)\<rparr>)"
| enter: "pcs s t = Outside \<Longrightarrow> lock_enter (iflags s t) = (g, fl) \<Longrightarrow>
    lock_step t s (s\<lparr>pcs := (pcs s)(t := Spinning g), iflags := (iflags s)(t := fl), entry_flag := (entry_flag s)(t := iflags s t)\<rparr>)"
| attempt: "pcs s t = Spinning g \<Longrightarrow> compare_exchange (lk s) = (ok, l) \<Longrightarrow>
    lock_step t s (s\<lparr>pcs := (pcs s)(t := (if ok then Holding g else Spinning g)), lk := l\<rparr>)"
| try_ok: "pcs s t = Outside \<Longrightarrow> try_lock (iflags s t) (lk s) = (Some g, fl, l) \<Longrightarrow>
    lock_step t s (s\<lparr>pcs := (pcs s)(t := Holding g), iflags := (iflags s)(t := fl), lk := l, entry_flag := (entry_flag s)(t := iflags s t)\<rparr>)"
| try_fail: "pcs s t = Outside \<Longrightarrow> try_lock (iflags s t) (lk s) = (None, fl, l) \<Longrightarrow>
    lock_step t s (s\<lparr>iflags := (iflags s)(t := fl), lk := l\<rparr>)"
| deref_mut: "pcs s t = Holding g \<Longrightarrow> lock_step t s (s\<lparr>lk := (lk s)\<lparr>inner := d\<rparr>\<rparr>)"
| release: "pcs s t = Holding g \<Longrightarrow> guard_drop g (iflags s t) (lk s) = (fl, l) \<Longrightarrow>
    lock_step t s (s\<lparr>pcs := (pcs s)(t := Outside), iflags := (iflags s)(t := fl), lk := l\<rparr>)"

inductive_cases lock_stepE: "lock_step t s s'"

inductive lock_run :: "'a threads \<Rightarrow> 'a threads \<Rightarrow> bool" where
  start: "lock_run s s"
| step: "lock_run s s' \<Longrightarrow> lock_step t s' s'' \<Longrightarrow> lock_run s s''"

definition holding :: "'a threads \<Rightarrow> nat \<Rightarrow> bool" where
  "holding s t \<longleftrightarrow> (\<exists>g. pcs s t = Holding g)"

definition lock_inv :: "'a threads \<Rightarrow> bool" where
  "lock_inv s \<longleftrightarrow> (\<forall>t u. holding s t \<longrightarrow> holding s u \<longrightarrow> t = u) \<and> (locked (lk s) \<longleftrightarrow> (\<exists>t. holding s t)) \<and>
     (\<forall>t g. pcs s t = Spinning g \<or> pcs s t = Holding g \<longrightarrow> \<not> iflags s t \<and> interrupts_were_enabled g = entry_flag s t)"

lemma lock_step_inv:
  assumes "lock_step t s s'" "lock_inv s" shows "lock_inv s'"
  using assms
proof (cases rule: lock_step.cases)
  case (attempt g ok l)
  show ?thesis
  proof (cases "locked (lk s)")
    case True
    then have "s' = s" using attempt by (simp add: compare_exchange_def fun_upd_idem)
    then show ?thesis using assms(2) by simp
  next
    case False
    then show ?thesis using assms(2) attempt by (auto simp: lock_inv_def holding_def compare_exchange_def)
  qed
next
  case (enter g fl)
  have h: "holding s' u = holding s u" for u using enter by (auto simp: holding_def)
  show ?thesis
    unfolding lock_inv_def h using assms(2) [unfolded lock_inv_def] enter by (auto simp: lock_enter_def)
next
  case (release g fl l)
  have "\<not> holding s u" if "u \<noteq> t" for u using assms(2) release(2) that by (auto simp: lock_inv_def holding_def)
  then show ?thesis using assms(2) release by (auto simp: lock_inv_def holding_def guard_drop_def spin_unlock_def)
qed (auto simp: lock_inv_def holding_def lock_enter_def try_lock_def compare_exchange_def Let_def split: if_splits)

lemma lock_run_inv: "lock_run s s' \<Longrightarrow> lock_inv s \<Longrightarrow> lock_inv s'"
  by (induction rule: lock_run.induct) (auto dest: lock_step_inv)

lemma threads_start_inv: "lock_inv (threads_start d fl)"
  by (simp add: lock_inv_def holding_def threads_start_def spin_new_def)

lemma lock_attempts_held: "locked l \<Longrightarrow> lock_attempts n l = None"
  by (induction n) (simp_all add: compare_exchange_def)

lemma lock_attempts_free: "\<not> locked l \<Longrightarrow> lock_attempts (Suc n) l = Some (l\<lparr>locked := True\<rparr>)"
  by (simp add: compare_exchange_def)

text \<open>Taking a free lock and dropping the guard leaves flag and lock as they were.\<close>

lemma lock_drop_roundtrip:
  assumes "\<not> locked l" "lock_alone (Suc n) fl l = Some (g, fl', l')"
  shows "\<not> fl' \<and> locked l' \<and> guard_drop g fl' (l'\<lparr>inner := d\<rparr>) = (fl, l\<lparr>inner := d\<rparr>)"
  using assms by (auto simp: lock_alone_def lock_attempts_free lock_enter_def guard_drop_def spin_unlock_def simp del: lock_attempts.simps)

section \<open>Properties\<close>

text \<open>C31: mutual exclusion for every interleaving of any number of threads.  At most one thread holds the
  lock, and the lock word says whether one does; the data changes only in a step of the holder;
  a thread that waits for the lock or holds it runs with interrupts off, and dropping the guard gives
  it back the interrupt flag it had when it asked for the lock; and a waiting thread takes the lock
  with its next attempt whenever nobody holds it.\<close>

theorem spin_lock_excludes:
  assumes "lock_run (threads_start d fl) s"
  shows "(\<forall>t u. holding s t \<longrightarrow> holding s u \<longrightarrow> t = u) \<and> (locked (lk s) \<longleftrightarrow> (\<exists>t. holding s t)) \<and>
    (\<forall>t s'. lock_step t s s' \<longrightarrow> inner (lk s') \<noteq> inner (lk s) \<longrightarrow> holding s t) \<and>
    (\<forall>t. pcs s t \<noteq> Outside \<longrightarrow> \<not> iflags s t) \<and>
    (\<forall>t s'. lock_step t s s' \<longrightarrow> holding s t \<longrightarrow> \<not> holding s' t \<longrightarrow> iflags s' t = entry_flag s t) \<and>
    (\<forall>t g s'. pcs s t = Spinning g \<longrightarrow> (\<forall>u. \<not> holding s u) \<longrightarrow> lock_step t s s' \<longrightarrow> holding s' t)"
proof -
  have inv: "lock_inv s" by (rule lock_run_inv [OF assms threads_start_inv])
  have data: "holding s t" if "lock_step t s s'" "inner (lk s') \<noteq> inner (lk s)" for t s'
    using that by (auto elim!: lock_stepE simp: holding_def compare_exchange_def try_lock_def lock_enter_def guard_drop_def
        spin_unlock_def Let_def split: if_splits)
  have restore: "iflags s' t = entry_flag s t" if "lock_step t s s'" "holding s t" "\<not> holding s' t" for t s'
    using that inv by (auto elim!: lock_stepE simp: holding_def guard_drop_def lock_inv_def Let_def split: if_splits)
  have take: "holding s' t" if "pcs s t = Spinning g" "\<forall>u. \<not> holding s u" "lock_step t s s'" for t g s'
  proof -
    have "\<not> locked (lk s)" using inv that(2) by (simp add: lock_inv_def)
    then show ?thesis using that(1,3) by (auto elim!: lock_stepE simp: holding_def compare_exchange_def)
  qed
  have "\<not> iflags s t" if "pcs s t \<noteq> Outside" for t
    using inv that by (cases "pcs s t") (auto simp: lock_inv_def)
  then show ?thesis using inv data restore take by (auto simp: lock_inv_def)
qed

theorem spin_lock_excludes_witness:
  "\<exists>s. lock_run (threads_start (0 :: nat) (\<lambda>_. True)) s \<and> holding s 1 \<and> pcs s 2 \<noteq> Outside \<and> \<not> holding s 2 \<and> \<not> iflags s 2"
proof -
  let ?g = "\<lparr>interrupts_were_enabled = True\<rparr>"
  let ?s0 = "threads_start (0 :: nat) (\<lambda>_. True)"
  let ?s1 = "?s0\<lparr>pcs := (pcs ?s0)(1 := Spinning ?g), iflags := (iflags ?s0)(1 := False), entry_flag := (entry_flag ?s0)(1 := iflags ?s0 1)\<rparr>"
  let ?s2 = "?s1\<lparr>pcs := (pcs ?s1)(1 := (if True then Holding ?g else Spinning ?g)), lk := (lk ?s1)\<lparr>locked := True\<rparr>\<rparr>"
  let ?s3 = "?s2\<lparr>pcs := (pcs ?s2)(2 := Spinning ?g), iflags := (iflags ?s2)(2 := False), entry_flag := (entry_flag ?s2)(2 := iflags ?s2 2)\<rparr>"
  have "lock_step 1 ?s0 ?s1" by (rule enter) (simp_all add: threads_start_def lock_enter_def)
  moreover have "lock_step 1 ?s1 ?s2" by (rule attempt) (simp_all add: threads_start_def spin_new_def compare_exchange_def)
  moreover have "lock_step 2 ?s2 ?s3" by (rule enter) (simp_all add: threads_start_def lock_enter_def)
  ultimately have run: "lock_run ?s0 ?s3" by (blast intro: lock_run.intros)
  have "holding ?s3 1" "pcs ?s3 2 \<noteq> Outside" by (simp_all add: holding_def)
  moreover from this have "\<not> holding ?s3 2" "\<not> iflags ?s3 2"
    using spin_lock_excludes [OF run] by (metis numeral_eq_one_iff semiring_norm(85), blast)
  ultimately show ?thesis using run by blast
qed

end
