(* ===== verification/Fd_Table.thy ===== *)
theory Fd_Table
  imports Ram_Fs
begin

text \<open>
  src/src/syscall/fd.rs: the per-process file descriptor table.

  A table is a list of optional open files.  \<open>open_flags\<close> is the flag byte; \<open>OpenFile\<close> values are
  the constructors of \<open>open_file\<close>.  Reads fill a caller buffer, so they return the number of bytes
  and the buffer afterwards.  Errors of \<^verbatim>\<open>write\<close> are values, its slice copies are checked.
\<close>

unbundle bit_operations_syntax

type_synonym open_flags = u8

abbreviation READ :: open_flags where "READ \<equiv> 1"
abbreviation WRITE :: open_flags where "WRITE \<equiv> 2"
abbreviation CREATE :: open_flags where "CREATE \<equiv> 4"
abbreviation TRUNC :: open_flags where "TRUNC \<equiv> 8"
abbreviation APPEND :: open_flags where "APPEND \<equiv> 16"

definition flags_contain :: "open_flags \<Rightarrow> open_flags \<Rightarrow> bool" where
  "flags_contain f g \<longleftrightarrow> f AND g = g"

datatype fd_error = BadFd | Permission | FdFs fs_error

datatype open_file =
    Stdin data usize
  | Stdout data
  | Stderr data
  | OFile path usize open_flags

type_synonym fd_table = "open_file option list"

section \<open>Operations\<close>

definition fd_table_new :: fd_table where
  "fd_table_new = [Some (Stdin [] 0), Some (Stdout []), Some (Stderr [])]"

definition set_stdin :: "data \<Rightarrow> fd_table \<Rightarrow> fd_table run" where
  "set_stdin d t = index_upd t 0 (\<lambda>_. Some (Stdin d 0))"

definition fd_stdout :: "fd_table \<Rightarrow> data" where
  "fd_stdout t = (case get t 1 of Some (Some (Stdout d)) \<Rightarrow> d | _ \<Rightarrow> [])"

definition fd_stderr :: "fd_table \<Rightarrow> data" where
  "fd_stderr t = (case get t 2 of Some (Some (Stderr d)) \<Rightarrow> d | _ \<Rightarrow> [])"

text \<open>The first empty slot takes the file; otherwise the table grows.\<close>

fun fd_insert :: "open_file \<Rightarrow> fd_table \<Rightarrow> usize \<times> fd_table" where
  "fd_insert f [] = (0, [Some f])"
| "fd_insert f (None # t) = (0, Some f # t)"
| "fd_insert f (Some g # t) = (let (fd, t') = fd_insert f t in (Suc fd, Some g # t'))"

definition fd_entry :: "usize \<Rightarrow> fd_table \<Rightarrow> fd_error + open_file" where
  "fd_entry fd t = (case get t fd of Some (Some f) \<Rightarrow> Inr f | _ \<Rightarrow> Inl BadFd)"

definition fd_open ::
  "path \<Rightarrow> open_flags \<Rightarrow> ramfs \<times> fd_table \<Rightarrow> (fd_error + usize) \<times> ramfs \<times> fd_table" where
  "fd_open p flags st = (case st of (fs, t) \<Rightarrow>
     (case (if flags_contain flags CREATE then fs_touch p fs else (Inr (), fs)) of
        (Inl e, fs) \<Rightarrow> (Inl (FdFs e), fs, t)
      | (Inr _, fs) \<Rightarrow>
        (case (if flags_contain flags TRUNC then fs_write p [] fs
               else if \<not> flags_contain flags CREATE
               then (case fs_read p fs of Inl e \<Rightarrow> (Inl e, fs) | Inr _ \<Rightarrow> (Inr (), fs))
               else (Inr (), fs)) of
           (Inl e, fs) \<Rightarrow> (Inl (FdFs e), fs, t)
         | (Inr _, fs) \<Rightarrow>
             let (fd, t) = fd_insert (OFile p 0 flags) t in (Inr fd, fs, t))))"

definition fd_close :: "usize \<Rightarrow> fd_table \<Rightarrow> (fd_error + usize) \<times> fd_table" where
  "fd_close fd t =
     (if length t \<le> fd \<or> t ! fd = None then (Inl BadFd, t) else (Inr 0, t[fd := None]))"

definition fd_dup2 :: "usize \<Rightarrow> usize \<Rightarrow> fd_table \<Rightarrow> (fd_error + usize) \<times> fd_table" where
  "fd_dup2 old_fd new_fd t =
     (case fd_entry old_fd t of Inl e \<Rightarrow> (Inl e, t)
      | Inr old \<Rightarrow> (Inr new_fd, (t @ replicate (Suc new_fd - length t) None)[new_fd := Some old]))"

definition copy_from_offset :: "data \<Rightarrow> usize \<Rightarrow> data \<Rightarrow> usize \<times> data" where
  "copy_from_offset src offset dst =
     (if length src \<le> offset then (0, dst)
      else let n = min (length dst) (length src - offset)
           in (n, take n (drop offset src) @ drop n dst))"

definition fd_read ::
  "usize \<Rightarrow> data \<Rightarrow> ramfs \<Rightarrow> fd_table \<Rightarrow> (fd_error + usize) \<times> data \<times> fd_table" where
  "fd_read fd buf fs t =
     (case fd_entry fd t of Inl e \<Rightarrow> (Inl e, buf, t)
      | Inr (Stdin d offset) \<Rightarrow>
          let (n, buf') = copy_from_offset d offset buf
          in (Inr n, buf', t[fd := Some (Stdin d (offset + n))])
      | Inr (OFile p offset flags) \<Rightarrow>
          if \<not> flags_contain flags READ then (Inl Permission, buf, t)
          else (case fs_read p fs of Inl e \<Rightarrow> (Inl (FdFs e), buf, t)
            | Inr d \<Rightarrow> let (n, buf') = copy_from_offset d offset buf
                       in (Inr n, buf', t[fd := Some (OFile p (offset + n) flags)]))
      | Inr _ \<Rightarrow> (Inl Permission, buf, t))"

text \<open>\<^verbatim>\<open>Vec::resize\<close> to a larger length with zero bytes, and the splice a positioned write makes.\<close>

definition resize_up :: "usize \<Rightarrow> data \<Rightarrow> data" where
  "resize_up n d = (if length d < n then d @ replicate (n - length d) 0 else d)"

definition splice_at :: "usize \<Rightarrow> data \<Rightarrow> data \<Rightarrow> data" where
  "splice_at offset buf d =
     (let d = resize_up offset d; d = resize_up (offset + length buf) d
      in take offset d @ buf @ drop (offset + length buf) d)"

definition fd_write ::
  "usize \<Rightarrow> data \<Rightarrow> ramfs \<times> fd_table \<Rightarrow> (fd_error + usize) \<times> ramfs \<times> fd_table" where
  "fd_write fd buf st = (case st of (fs, t) \<Rightarrow>
     (case fd_entry fd t of Inl e \<Rightarrow> (Inl e, fs, t)
      | Inr (Stdout d) \<Rightarrow> (Inr (length buf), fs, t[fd := Some (Stdout (d @ buf))])
      | Inr (Stderr d) \<Rightarrow> (Inr (length buf), fs, t[fd := Some (Stderr (d @ buf))])
      | Inr (OFile p offset flags) \<Rightarrow>
          if \<not> flags_contain flags WRITE then (Inl Permission, fs, t)
          else if flags_contain flags APPEND then
            (case fs_append p buf fs of (Inl e, fs) \<Rightarrow> (Inl (FdFs e), fs, t)
             | (Inr _, fs) \<Rightarrow> (Inr (length buf), fs, t))
          else
            let d = (case fs_read p fs of Inl _ \<Rightarrow> [] | Inr d \<Rightarrow> d) in
            (case fs_write p (splice_at offset buf d) fs of (Inl e, fs) \<Rightarrow> (Inl (FdFs e), fs, t)
             | (Inr _, fs) \<Rightarrow> (Inr (length buf), fs, t[fd := Some (OFile p (offset + length buf) flags)]))
      | Inr (Stdin _ _) \<Rightarrow> (Inl Permission, fs, t)))"

section \<open>Descriptors\<close>

lemma fd_insert_spec:
  assumes "fd_insert f t = (fd, t')"
  shows "fd \<le> length t" "\<forall>k<fd. t ! k \<noteq> None" "fd < length t \<Longrightarrow> t ! fd = None"
    "t' = (if fd < length t then t[fd := Some f] else t @ [Some f])"
proof -
  have "fd \<le> length t \<and> (\<forall>k<fd. t ! k \<noteq> None) \<and> (fd < length t \<longrightarrow> t ! fd = None) \<and>
    t' = (if fd < length t then t[fd := Some f] else t @ [Some f])"
    using assms
  proof (induction f t arbitrary: fd t' rule: fd_insert.induct)
    case (3 f g t)
    obtain k t1 where k: "fd_insert f t = (k, t1)" by (cases "fd_insert f t")
    then show ?case using 3 by (auto simp: less_Suc_eq_0_disj)
  qed auto
  then show "fd \<le> length t" "\<forall>k<fd. t ! k \<noteq> None" "fd < length t \<Longrightarrow> t ! fd = None"
    "t' = (if fd < length t then t[fd := Some f] else t @ [Some f])" by auto
qed

lemma fd_entry_iff: "fd_entry fd t = Inr f \<longleftrightarrow> fd < length t \<and> t ! fd = Some f"
  by (auto simp: fd_entry_def get_def split: option.splits)

lemma fd_entry_error: "fd_entry fd t = Inl e \<longleftrightarrow> e = BadFd \<and> (length t \<le> fd \<or> t ! fd = None)"
  by (auto simp: fd_entry_def get_def split: option.splits)

lemma fd_entry_upd [simp]:
  "fd < length t \<Longrightarrow> fd_entry k (t[fd := Some f]) = (if k = fd then Inr f else fd_entry k t)"
  by (auto simp: fd_entry_def get_def)

lemma fd_insert_entry:
  assumes "fd_insert f t = (fd, t')"
  shows "fd_entry fd t' = Inr f" "k \<noteq> fd \<Longrightarrow> fd_entry k t' = fd_entry k t" "fd_entry fd t = Inl BadFd"
proof -
  note sp = fd_insert_spec [OF assms]
  show "fd_entry fd t' = Inr f" "fd_entry fd t = Inl BadFd"
    using sp(1,3,4) by (auto simp: fd_entry_def get_def split: option.splits)
  show "fd_entry k t' = fd_entry k t" if "k \<noteq> fd"
    using sp(1,4) that by (auto simp: fd_entry_def get_def nth_append split: option.splits)
qed

section \<open>Buffers\<close>

lemma copy_from_offset_eq:
  "copy_from_offset src off dst =
     (let n = min (length dst) (length src - off) in (n, take n (drop off src) @ drop n dst))"
  by (auto simp: copy_from_offset_def Let_def)

lemma resize_up_simps:
  "length (resize_up n d) = max n (length d)"
  "i < length d \<Longrightarrow> resize_up n d ! i = d ! i"
  "length d \<le> i \<Longrightarrow> i < n \<Longrightarrow> resize_up n d ! i = 0"
  by (auto simp: resize_up_def nth_append)

lemma resize_up_twice: "resize_up (off + k) (resize_up off d) = resize_up (off + k) d"
  by (auto simp: resize_up_def replicate_add [symmetric])

lemma splice_eq: "splice_at off buf d =
    take off (resize_up (off + length buf) d) @ buf @ drop (off + length buf) d"
proof -
  have "drop (off + length buf) (resize_up (off + length buf) d) = drop (off + length buf) d"
    by (simp add: resize_up_def)
  then show ?thesis by (simp add: splice_at_def Let_def resize_up_twice)
qed

lemma length_splice: "length (splice_at off buf d) = max (length d) (off + length buf)"
  by (simp add: splice_eq resize_up_simps)

lemma nth_splice:
  assumes "i < length (splice_at off buf d)"
  shows "splice_at off buf d ! i =
    (if off \<le> i \<and> i < off + length buf then buf ! (i - off)
     else if i < length d then d ! i else 0)"
proof -
  let ?r = "resize_up (off + length buf) d"
  have l: "length (take off ?r) = off" by (simp add: resize_up_simps)
  have lr: "length ?r = max (off + length buf) (length d)" by (simp add: resize_up_simps)
  consider "i < off" | "off \<le> i" "i < off + length buf" | "off + length buf \<le> i" by linarith
  then show ?thesis
  proof cases
    case 1
    then show ?thesis using l by (auto simp: splice_eq nth_append resize_up_simps)
  next
    case 2
    then have "i - off < length buf" by linarith
    then show ?thesis using 2 lr by (simp add: splice_eq nth_append)
  next
    case 3
    then show ?thesis using l assms by (auto simp: splice_eq nth_append length_splice resize_up_simps)
  qed
qed

lemma splice_read: "take (length buf) (drop off (splice_at off buf d)) = buf"
  by (simp add: splice_eq resize_up_simps)

section \<open>Reading and writing through descriptors\<close>

lemma fd_read_file:
  assumes "fd_entry fd t = Inr (OFile p off flags)" "flags_contain flags READ" "fs_read p fs = Inr d"
  shows "fd_read fd buf fs t =
    (let n = min (length buf) (length d - off)
     in (Inr n, take n (drop off d) @ drop n buf, t[fd := Some (OFile p (off + n) flags)]))"
  using assms by (simp add: fd_read_def copy_from_offset_eq Let_def)

lemma fd_write_file:
  assumes "fd_entry fd t = Inr (OFile p off flags)" "flags_contain flags WRITE"
    "\<not> flags_contain flags APPEND" "fs_read p fs = Inr d" "fs_ok fs"
  shows "\<exists>fs'. fd_write fd buf (fs, t) = (Inr (length buf), fs', t[fd := Some (OFile p (off + length buf) flags)]) \<and>
    fs_ok fs' \<and> fs_read p fs' = Inr (splice_at off buf d) \<and>
    (\<forall>q r. \<not> same_path p q \<longrightarrow> (fs_read q fs' = Inr r \<longleftrightarrow> fs_read q fs = Inr r))"
proof -
  obtain fs' where w: "fs_write p (splice_at off buf d) fs = (Inr (), fs')" "fs_ok fs'"
    "fs_read p fs' = Inr (splice_at off buf d)"
    using ram.rewrite_total [OF assms(5,4)] by blast
  then show ?thesis using assms(1-4) ram.read_other [OF w(1)] by (auto simp: fd_write_def Let_def)
qed

text \<open>A sequence of reads with buffers of the given sizes, and a sequence of writes.\<close>

fun fd_reads :: "usize \<Rightarrow> nat list \<Rightarrow> ramfs \<Rightarrow> fd_table \<Rightarrow> data" where
  "fd_reads fd [] fs t = []"
| "fd_reads fd (k # ks) fs t =
     (case fd_read fd (replicate k 0) fs t of
        (Inl _, _) \<Rightarrow> []
      | (Inr n, buf, t') \<Rightarrow> take n buf @ fd_reads fd ks fs t')"

fun fd_writes :: "usize \<Rightarrow> data list \<Rightarrow> ramfs \<times> fd_table \<Rightarrow> ramfs \<times> fd_table" where
  "fd_writes fd [] st = st"
| "fd_writes fd (b # bs) st = fd_writes fd bs (snd (fd_write fd b st))"

lemma fd_reads_eq:
  assumes "fd_entry fd t = Inr (OFile p off flags)" "flags_contain flags READ" "fs_read p fs = Inr d"
  shows "fd_reads fd ks fs t = take (sum_list ks) (drop off d)"
  using assms(1)
proof (induction ks arbitrary: off t)
  case (Cons k ks)
  let ?n = "min k (length d - off)"
  have fd: "fd < length t" using Cons.prems by (simp add: fd_entry_iff)
  have "fd_reads fd (k # ks) fs t =
    take ?n (drop off d) @ fd_reads fd ks fs (t[fd := Some (OFile p (off + ?n) flags)])"
    using fd_read_file [OF Cons.prems assms(2,3), of "replicate k 0"] by (simp add: Let_def)
  also have "\<dots> = take ?n (drop off d) @ take (sum_list ks) (drop (off + ?n) d)"
    using Cons.IH [of "t[fd := Some (OFile p (off + ?n) flags)]"] fd by simp
  also have "\<dots> = take (k + sum_list ks) (drop off d)"
    by (cases "k \<le> length d - off") (simp_all add: take_add min_def add.commute)
  finally show ?case by simp
qed simp

lemma splice_splice:
  "splice_at (off + length a) b (splice_at off a d) = splice_at off (a @ b) d"
proof (rule nth_equalityI)
  show len: "length (splice_at (off + length a) b (splice_at off a d)) = length (splice_at off (a @ b) d)"
    by (simp add: length_splice)
  fix i assume "i < length (splice_at (off + length a) b (splice_at off a d))"
  then show "splice_at (off + length a) b (splice_at off a d) ! i = splice_at off (a @ b) d ! i"
    using len by (auto simp: nth_splice length_splice nth_append)
qed

lemma fd_writes_eq:
  assumes "fd_entry fd t = Inr (OFile p off flags)" "flags_contain flags WRITE"
    "\<not> flags_contain flags APPEND" "fs_read p fs = Inr d" "fs_ok fs" "off \<le> length d"
  shows "\<exists>fs' off'. fd_writes fd bs (fs, t) = (fs', t[fd := Some (OFile p off' flags)]) \<and>
    fs_ok fs' \<and> fs_read p fs' = Inr (splice_at off (concat bs) d)"
  using assms(1,4,5,6)
proof (induction bs arbitrary: off t fs d)
  case Nil
  then have "t[fd := Some (OFile p off flags)] = t" by (simp add: fd_entry_iff list_update_same_conv)
  moreover have "splice_at off [] d = d" using Nil.prems(4) by (simp add: splice_eq resize_up_def)
  ultimately show ?case using Nil.prems by (auto intro!: exI [of _ off])
next
  case (Cons b bs)
  obtain fs1 where w: "fd_write fd b (fs, t) = (Inr (length b), fs1, t[fd := Some (OFile p (off + length b) flags)])"
    "fs_ok fs1" "fs_read p fs1 = Inr (splice_at off b d)"
    using fd_write_file [OF Cons.prems(1) assms(2,3) Cons.prems(2,3)] by blast
  have fd: "fd < length t" using Cons.prems(1) by (simp add: fd_entry_iff)
  obtain fs' off' where "fd_writes fd bs (fs1, t[fd := Some (OFile p (off + length b) flags)]) =
      (fs', t[fd := Some (OFile p off' flags)])" "fs_ok fs'"
    "fs_read p fs' = Inr (splice_at (off + length b) (concat bs) (splice_at off b d))"
    using Cons.IH [OF _ w(3,2), of "t[fd := Some (OFile p (off + length b) flags)]" "off + length b"] fd
    by (auto simp: length_splice)
  then show ?case using w(1) by (auto simp: splice_splice)
qed

lemma fd_open_result:
  assumes "fd_open p flags (fs, t) = (Inr fd, fs', t')"
  shows "fd_insert (OFile p 0 flags) t = (fd, t')"
    "fs_ok fs \<Longrightarrow> fs_ok fs'"
    "flags_contain flags TRUNC \<Longrightarrow> fs_read p fs' = Inr []"
    "\<not> flags_contain flags TRUNC \<Longrightarrow> \<not> flags_contain flags CREATE \<Longrightarrow> fs' = fs \<and> (\<exists>d. fs_read p fs = Inr d)"
proof -
  have okt: "fs_ok fs \<Longrightarrow> fs_touch p fs = (r, fs1) \<Longrightarrow> fs_ok fs1" for r fs1 using fs_touch_ok [of fs p] by auto
  have okw: "fs_ok fs1 \<Longrightarrow> fs_write p [] fs1 = (r, fs2) \<Longrightarrow> fs_ok fs2" for r fs1 fs2
    using fs_write_ok [of fs1 p "[]"] by auto
  show "fd_insert (OFile p 0 flags) t = (fd, t')"
    using assms by (auto simp: fd_open_def Let_def split: prod.splits sum.splits if_splits)
  show "fs_ok fs \<Longrightarrow> fs_ok fs'"
    using assms by (auto simp: fd_open_def Let_def split: prod.splits sum.splits if_splits dest: okt okw)
  show "flags_contain flags TRUNC \<Longrightarrow> fs_read p fs' = Inr []"
    using assms by (auto simp: fd_open_def Let_def ram.read_after_write split: prod.splits sum.splits if_splits)
  show "\<not> flags_contain flags TRUNC \<Longrightarrow> \<not> flags_contain flags CREATE \<Longrightarrow> fs' = fs \<and> (\<exists>d. fs_read p fs = Inr d)"
    using assms by (auto simp: fd_open_def Let_def split: prod.splits sum.splits if_splits)
qed

definition demo_file_fs :: ramfs where
  "demo_file_fs = \<lparr>root = Dir [(''home'', Dir [(''a'', File [1, 2, 3])])]\<rparr>"

lemma demo_file_read: "fs_read ''/home/a'' demo_file_fs = Inr [1, 2, 3]"
  unfolding demo_file_fs_def by code_simp

lemma demo_file_ok: "fs_ok demo_file_fs"
  unfolding demo_file_fs_def fs_ok_def by code_simp

section \<open>Properties\<close>

text \<open>Opening a file takes the lowest free descriptor, points it at the path with offset zero and
  leaves every other descriptor as it was; a failing open leaves the table unchanged.\<close>

lemma fd_open_lowest:
  assumes "fd_open p flags (fs, t) = (r, fs', t')"
  shows "case r of
      Inl _ \<Rightarrow> t' = t
    | Inr fd \<Rightarrow> fd_entry fd t = Inl BadFd \<and> (\<forall>k<fd. fd_entry k t \<noteq> Inl BadFd) \<and>
        fd_entry fd t' = Inr (OFile p 0 flags) \<and> (\<forall>k. k \<noteq> fd \<longrightarrow> fd_entry k t' = fd_entry k t)"
proof (cases r)
  case (Inl e)
  then show ?thesis
    using assms by (auto simp: fd_open_def Let_def split: prod.splits sum.splits if_splits)
next
  case (Inr fd)
  have i: "fd_insert (OFile p 0 flags) t = (fd, t')" using fd_open_result(1) assms Inr by simp
  have "fd_entry k t \<noteq> Inl BadFd" if "k < fd" for k
    using fd_insert_spec(1,2) [OF i] that by (auto simp: fd_entry_error)
  then show ?thesis using fd_insert_entry [OF i] Inr by auto
qed

text \<open>Reading through a descriptor delivers the file in order: for any sequence of buffer sizes the
  bytes received are the file from the current offset on, as far as the buffers reach.\<close>

lemma fd_reads_in_order:
  assumes "fd_entry fd t = Inr (OFile p off flags)" "flags_contain flags READ" "fs_read p fs = Inr d"
  shows "fd_reads fd ks fs t = take (sum_list ks) (drop off d)"
  by (rule fd_reads_eq [OF assms])

text \<open>C25: a positioned write through a descriptor succeeds on an existing file and replaces exactly the
  bytes from the offset on: bytes before it stay, a gap is filled with zeros, the descriptor advances,
  and every file at another path reads as before.\<close>

theorem fd_write_splices:
  assumes "fd_entry fd t = Inr (OFile p off flags)" "flags_contain flags WRITE"
    "\<not> flags_contain flags APPEND" "fs_read p fs = Inr d" "fs_ok fs"
  shows "\<exists>fs' d'. fd_write fd buf (fs, t) =
      (Inr (length buf), fs', t[fd := Some (OFile p (off + length buf) flags)]) \<and>
    fs_read p fs' = Inr d' \<and> length d' = max (length d) (off + length buf) \<and>
    (\<forall>i<length d'. d' ! i = (if off \<le> i \<and> i < off + length buf then buf ! (i - off)
       else if i < length d then d ! i else 0)) \<and>
    (\<forall>q r. \<not> same_path p q \<longrightarrow> (fs_read q fs' = Inr r \<longleftrightarrow> fs_read q fs = Inr r))"
  using fd_write_file [OF assms, of buf] length_splice [of off buf d] nth_splice [of _ off buf d] by blast

theorem fd_write_splices_witness:
  "\<exists>fs'. fst (fd_write 3 [9] (demo_file_fs, fd_table_new @ [Some (OFile ''/home/a'' 1 WRITE)])) = Inr 1 \<and>
     fst (snd (fd_write 3 [9] (demo_file_fs, fd_table_new @ [Some (OFile ''/home/a'' 1 WRITE)]))) = fs' \<and>
     (\<exists>d'. fs_read ''/home/a'' fs' = Inr d' \<and> length d' = 3 \<and> d' ! 1 = 9 \<and> d' ! 0 = 1)"
proof -
  have e: "fd_entry 3 (fd_table_new @ [Some (OFile ''/home/a'' 1 WRITE)]) = Inr (OFile ''/home/a'' 1 WRITE)"
    by (simp add: fd_entry_iff fd_table_new_def)
  have "flags_contain WRITE WRITE" "\<not> flags_contain WRITE APPEND" by (simp_all add: flags_contain_def)
  from fd_write_splices [OF e this demo_file_read demo_file_ok, of "[9]"]
  obtain fs' d' where r: "fd_write 3 [9] (demo_file_fs, fd_table_new @ [Some (OFile ''/home/a'' 1 WRITE)]) =
      (Inr 1, fs', (fd_table_new @ [Some (OFile ''/home/a'' 1 WRITE)])[3 := Some (OFile ''/home/a'' 2 WRITE)])"
    "fs_read ''/home/a'' fs' = Inr d'" "length d' = 3"
    "\<forall>i<length d'. d' ! i = (if 1 \<le> i \<and> i < 2 then [9] ! (i - 1) else if i < 3 then [1, 2, 3] ! i else 0)"
    by (auto simp: numeral_2_eq_2 numeral_3_eq_3)
  have "d' ! 1 = 9" "d' ! 0 = 1" using r(3,4) by auto
  then show ?thesis using r(1,2,3) by auto
qed

text \<open>What is written through one descriptor can be read through another.  Opening a path with
  create, write and truncate, writing any sequence of buffers, opening it again for reading and
  reading with any large enough buffers yields the concatenation of the buffers.\<close>

lemma fd_write_read_roundtrip:
  assumes "fs_ok fs" "flags_contain wfl WRITE" "flags_contain wfl TRUNC" "\<not> flags_contain wfl APPEND"
    "fd_open p wfl (fs, t) = (Inr fd, fs1, t1)" "fd_writes fd bufs (fs1, t1) = (fs2, t2)"
    "fd_open p READ (fs2, t2) = (Inr rd, fs3, t3)" "length (concat bufs) \<le> sum_list ks"
  shows "fd_reads rd ks fs3 t3 = concat bufs"
proof -
  note o = fd_open_result [OF assms(5)]
  have e: "fd_entry fd t1 = Inr (OFile p 0 wfl)" by (rule fd_insert_entry(1) [OF o(1)])
  have w: "fs_read p fs2 = Inr (splice_at 0 (concat bufs) [])"
    using fd_writes_eq [OF e assms(2,4) o(3) [OF assms(3)] o(2) [OF assms(1)], of bufs] assms(6) by auto
  have "flags_contain READ READ" "\<not> flags_contain READ TRUNC" "\<not> flags_contain READ CREATE"
    by (simp_all add: flags_contain_def)
  then have "fs3 = fs2" "flags_contain READ READ" using fd_open_result(4) [OF assms(7)] by auto
  moreover have "fd_entry rd t3 = Inr (OFile p 0 READ)"
    by (rule fd_insert_entry(1) [OF fd_open_result(1) [OF assms(7)]])
  moreover have "splice_at 0 (concat bufs) [] = concat bufs" by (simp add: splice_eq)
  ultimately show ?thesis using fd_reads_eq [of rd t3 p 0 READ fs3 "concat bufs" ks] w assms(8) by simp
qed

text \<open>C26: \<open>dup2\<close> redirects a descriptor: on success the new descriptor is the same open file as the old one,
  every other descriptor is as before and slots the table grew by are closed; a bad old descriptor
  changes nothing.  \<open>close\<close> frees exactly its descriptor.\<close>

theorem fd_dup2_redirects:
  "(case fd_dup2 old new t of
      (Inl e, t') \<Rightarrow> e = BadFd \<and> t' = t \<and> fd_entry old t = Inl BadFd
    | (Inr n, t') \<Rightarrow> n = new \<and> fd_entry new t' = fd_entry old t \<and> fd_entry old t \<noteq> Inl BadFd \<and>
        (\<forall>k. k \<noteq> new \<longrightarrow> fd_entry k t' = fd_entry k t)) \<and>
   (case fd_close old t of
      (Inl e, t') \<Rightarrow> e = BadFd \<and> t' = t \<and> fd_entry old t = Inl BadFd
    | (Inr n, t') \<Rightarrow> n = 0 \<and> fd_entry old t' = Inl BadFd \<and> fd_entry old t \<noteq> Inl BadFd \<and>
        (\<forall>k. k \<noteq> old \<longrightarrow> fd_entry k t' = fd_entry k t))"
proof -
  have grow: "fd_entry k (t @ replicate n None) = fd_entry k t" for k n
    by (auto simp: fd_entry_def get_def nth_append)
  have bad: "e = BadFd" if "fd_entry old t = Inl e" for e using that by (simp add: fd_entry_error)
  have "case fd_dup2 old new t of
      (Inl e, t') \<Rightarrow> e = BadFd \<and> t' = t \<and> fd_entry old t = Inl BadFd
    | (Inr n, t') \<Rightarrow> n = new \<and> fd_entry new t' = fd_entry old t \<and> fd_entry old t \<noteq> Inl BadFd \<and>
        (\<forall>k. k \<noteq> new \<longrightarrow> fd_entry k t' = fd_entry k t)"
    using bad by (cases "fd_entry old t") (simp_all add: fd_dup2_def grow)
  moreover have "case fd_close old t of
      (Inl e, t') \<Rightarrow> e = BadFd \<and> t' = t \<and> fd_entry old t = Inl BadFd
    | (Inr n, t') \<Rightarrow> n = 0 \<and> fd_entry old t' = Inl BadFd \<and> fd_entry old t \<noteq> Inl BadFd \<and>
        (\<forall>k. k \<noteq> old \<longrightarrow> fd_entry k t' = fd_entry k t)"
    by (auto simp: fd_close_def fd_entry_def get_def split: option.splits)
  ultimately show ?thesis by blast
qed

theorem fd_dup2_redirects_witness:
  "fd_dup2 1 4 fd_table_new = (Inr 4, fd_table_new @ [None, Some (Stdout [])]) \<and>
   fd_entry 4 (snd (fd_dup2 1 4 fd_table_new)) = Inr (Stdout []) \<and>
   fd_entry 2 (snd (fd_dup2 1 4 fd_table_new)) = Inr (Stderr []) \<and>
   fd_entry 1 (snd (fd_close 1 fd_table_new)) = Inl BadFd"
proof -
  have d: "fd_dup2 1 4 fd_table_new = (Inr 4, fd_table_new @ [None, Some (Stdout [])])"
    "fd_close 1 fd_table_new = (Inr 0, fd_table_new[1 := None])"
    "fd_entry 1 fd_table_new = Inr (Stdout [])" "fd_entry 2 fd_table_new = Inr (Stderr [])" by code_simp+
  show ?thesis using fd_dup2_redirects [where old = 1 and new = 4 and t = fd_table_new] by (simp add: d del: One_nat_def)
qed

end
