(* ===== verification/Syscall.thy ===== *)
theory Syscall
  imports Fd_Table Elf Spin_Lock
begin

text \<open>
  src/src/syscall.rs: the system call interface on the file system and the descriptor table.

  \<open>sys\<close> holds the locked globals and the user memory, a total map from addresses to bytes; a page
  fault on a bad user pointer is outside this model.  The hooks the kernel registers are functions on
  an abstract world \<open>'w\<close> (console, processes).  System calls run on one processor with interrupts
  off, so waiting for a lock that is held is waiting for ever: \<open>acquire\<close> then is the panic value
  \<open>Deadlock\<close>.  A call answers a result, or \<open>Left\<close> when the exit hook took control away for good.
\<close>

unbundle bit_operations_syntax

section \<open>Errors and numbers\<close>

datatype sys_error =
    NoSuchSyscall | InvalidArgument | NoEntry | Exists | NotDir | IsDir | NotEmpty
  | BadFdNumber | PermissionDenied | UnsupportedCall

primrec errno :: "sys_error \<Rightarrow> int" where
  "errno NoSuchSyscall = -38"
| "errno InvalidArgument = -22"
| "errno NoEntry = -2"
| "errno Exists = -17"
| "errno NotDir = -20"
| "errno IsDir = -21"
| "errno NotEmpty = -39"
| "errno BadFdNumber = -9"
| "errno PermissionDenied = -13"
| "errno UnsupportedCall = -95"

primrec sys_of_fs :: "fs_error \<Rightarrow> sys_error" where
  "sys_of_fs InvalidPath = InvalidArgument"
| "sys_of_fs NotFound = NoEntry"
| "sys_of_fs AlreadyExists = Exists"
| "sys_of_fs NotDirectory = NotDir"
| "sys_of_fs IsDirectory = IsDir"
| "sys_of_fs DirectoryNotEmpty = NotEmpty"

primrec sys_of_fd :: "fd_error \<Rightarrow> sys_error" where
  "sys_of_fd BadFd = BadFdNumber"
| "sys_of_fd Permission = PermissionDenied"
| "sys_of_fd (FdFs e) = sys_of_fs e"

datatype syscall_number = Fork | Exec | Exit | WaitPid | Read | Write | Open | Close | Dup2 | Unlink | Rename | Mkdir

primrec syscall_code :: "syscall_number \<Rightarrow> usize" where
  "syscall_code Fork = 1" | "syscall_code Exec = 2" | "syscall_code Exit = 3" | "syscall_code WaitPid = 4"
| "syscall_code Read = 5" | "syscall_code Write = 6" | "syscall_code Open = 7" | "syscall_code Close = 8"
| "syscall_code Dup2 = 9" | "syscall_code Unlink = 10" | "syscall_code Rename = 11" | "syscall_code Mkdir = 12"

abbreviation MAX_USER_STRING :: usize where "MAX_USER_STRING \<equiv> 256"

section \<open>The globals\<close>

type_synonym sys_result = "sys_error + usize"

record 'w sys =
  KERNEL_FS :: "ramfs option spin_lock"
  KERNEL_FD_TABLE :: "fd_table option spin_lock"
  CONSOLE_WRITE :: "(data \<Rightarrow> 'w \<Rightarrow> 'w) option spin_lock"
  EXEC_PROGRAM :: "(data \<Rightarrow> 'w \<Rightarrow> (sys_result \<times> 'w) run) option spin_lock"
  EXIT_CURRENT :: "(usize \<Rightarrow> 'w \<Rightarrow> 'w run) option spin_lock"
  user_mem :: "usize \<Rightarrow> byte"
  world :: 'w

datatype answer = Answer sys_result | Left

definition acquire :: "'a spin_lock \<Rightarrow> 'a spin_lock run" where
  "acquire l = (case lock_attempts 1 l of None \<Rightarrow> Inl Deadlock | Some l \<Rightarrow> Inr l)"

definition init_runtime_fs :: "'w sys \<Rightarrow> 'w sys run" where
  "init_runtime_fs st =
     rbind ramfs_new (\<lambda>fs.
     rbind (install_programs fs) (\<lambda>fs.
     let fs = snd (fs_write ''/home/readme.txt'' (str_bytes (''Welcome to Zeronix shell.'' @ [CHR 0x0A])) fs) in
     rbind (acquire (KERNEL_FS st)) (\<lambda>l.
     let st = st\<lparr>KERNEL_FS := spin_unlock (l\<lparr>inner := Some fs\<rparr>)\<rparr> in
     rbind (acquire (KERNEL_FD_TABLE st)) (\<lambda>l.
     Inr (st\<lparr>KERNEL_FD_TABLE := spin_unlock (l\<lparr>inner := Some fd_table_new\<rparr>)\<rparr>)))))"

definition set_console_write :: "(data \<Rightarrow> 'w \<Rightarrow> 'w) \<Rightarrow> 'w sys \<Rightarrow> 'w sys run" where
  "set_console_write writer st =
     rbind (acquire (CONSOLE_WRITE st)) (\<lambda>l. Inr (st\<lparr>CONSOLE_WRITE := spin_unlock (l\<lparr>inner := Some writer\<rparr>)\<rparr>))"

definition set_process_hooks ::
  "(data \<Rightarrow> 'w \<Rightarrow> (sys_result \<times> 'w) run) \<Rightarrow> (usize \<Rightarrow> 'w \<Rightarrow> 'w run) \<Rightarrow> 'w sys \<Rightarrow> 'w sys run" where
  "set_process_hooks exec_program exit_current st =
     rbind (acquire (EXEC_PROGRAM st)) (\<lambda>l.
     let st = st\<lparr>EXEC_PROGRAM := spin_unlock (l\<lparr>inner := Some exec_program\<rparr>)\<rparr> in
     rbind (acquire (EXIT_CURRENT st)) (\<lambda>l.
     Inr (st\<lparr>EXIT_CURRENT := spin_unlock (l\<lparr>inner := Some exit_current\<rparr>)\<rparr>)))"

text \<open>\<open>with_fs\<close> and \<open>with_fd_table\<close> keep their lock for the whole of the operation on the state.\<close>

definition with_fs :: "(ramfs \<Rightarrow> 'w sys \<Rightarrow> (sys_result \<times> ramfs \<times> 'w sys) run) \<Rightarrow> 'w sys \<Rightarrow> (sys_result \<times> 'w sys) run" where
  "with_fs f st =
     rbind (acquire (KERNEL_FS st)) (\<lambda>l.
     case inner l of None \<Rightarrow> Inr (Inl UnsupportedCall, st\<lparr>KERNEL_FS := spin_unlock l\<rparr>)
     | Some fs \<Rightarrow> rbind (f fs (st\<lparr>KERNEL_FS := l\<rparr>)) (\<lambda>(r, fs, st).
         Inr (r, st\<lparr>KERNEL_FS := spin_unlock ((KERNEL_FS st)\<lparr>inner := Some fs\<rparr>)\<rparr>)))"

definition with_fd_table :: "(fd_table \<Rightarrow> 'w sys \<Rightarrow> (sys_result \<times> fd_table \<times> 'w sys) run) \<Rightarrow> 'w sys \<Rightarrow> (sys_result \<times> 'w sys) run" where
  "with_fd_table f st =
     rbind (acquire (KERNEL_FD_TABLE st)) (\<lambda>l.
     case inner l of None \<Rightarrow> Inr (Inl UnsupportedCall, st\<lparr>KERNEL_FD_TABLE := spin_unlock l\<rparr>)
     | Some t \<Rightarrow> rbind (f t (st\<lparr>KERNEL_FD_TABLE := l\<rparr>)) (\<lambda>(r, t, st).
         Inr (r, st\<lparr>KERNEL_FD_TABLE := spin_unlock ((KERNEL_FD_TABLE st)\<lparr>inner := Some t\<rparr>)\<rparr>)))"

section \<open>User memory\<close>

definition user_slice :: "(usize \<Rightarrow> byte) \<Rightarrow> usize \<Rightarrow> usize \<Rightarrow> data" where
  "user_slice m ptr len = map (\<lambda>i. m (ptr + i)) [0..<len]"

definition write_user :: "usize \<Rightarrow> data \<Rightarrow> (usize \<Rightarrow> byte) \<Rightarrow> usize \<Rightarrow> byte" where
  "write_user ptr d m = (\<lambda>a. if ptr \<le> a \<and> a < ptr + length d then d ! (a - ptr) else m a)"

text \<open>\<^verbatim>\<open>String::from_utf8\<close> accepts the well-formed sequences of the Unicode standard.\<close>

definition in_range :: "byte \<Rightarrow> byte \<Rightarrow> byte \<Rightarrow> bool" where
  "in_range lo hi b \<longleftrightarrow> lo \<le> b \<and> b \<le> hi"

abbreviation cont :: "byte \<Rightarrow> bool" where "cont \<equiv> in_range 0x80 0xBF"

fun utf8_ok :: "byte list \<Rightarrow> bool" where
  "utf8_ok [] = True"
| "utf8_ok (a # as) =
     (if a < 0x80 then utf8_ok as
      else case as of
        b # bs \<Rightarrow>
          if in_range 0xC2 0xDF a then cont b \<and> utf8_ok bs
          else (case bs of
            c # cs \<Rightarrow>
              if a = 0xE0 then in_range 0xA0 0xBF b \<and> cont c \<and> utf8_ok cs
              else if a = 0xED then in_range 0x80 0x9F b \<and> cont c \<and> utf8_ok cs
              else if in_range 0xE1 0xEF a then cont b \<and> cont c \<and> utf8_ok cs
              else (case cs of
                d # ds \<Rightarrow>
                  if a = 0xF0 then in_range 0x90 0xBF b \<and> cont c \<and> cont d \<and> utf8_ok ds
                  else if in_range 0xF1 0xF3 a then cont b \<and> cont c \<and> cont d \<and> utf8_ok ds
                  else if a = 0xF4 then in_range 0x80 0x8F b \<and> cont c \<and> cont d \<and> utf8_ok ds
                  else False
              | [] \<Rightarrow> False)
          | [] \<Rightarrow> False)
      | [] \<Rightarrow> False)"

text \<open>The loop of \<^verbatim>\<open>copy_user_cstr\<close>; \<open>n\<close> is the number of offsets left below the limit.\<close>

fun cstr_loop :: "nat \<Rightarrow> usize \<Rightarrow> (usize \<Rightarrow> byte) \<Rightarrow> byte list option" where
  "cstr_loop 0 ptr m = None"
| "cstr_loop (Suc n) ptr m =
     (if m ptr = 0 then Some [] else map_option (\<lambda>bs. m ptr # bs) (cstr_loop n (ptr + 1) m))"

definition copy_user_cstr :: "usize \<Rightarrow> (usize \<Rightarrow> byte) \<Rightarrow> sys_error + string" where
  "copy_user_cstr ptr m =
     (if ptr = 0 then Inl InvalidArgument
      else case cstr_loop MAX_USER_STRING ptr m of None \<Rightarrow> Inl InvalidArgument
      | Some bs \<Rightarrow> if utf8_ok bs then Inr (map (\<lambda>b. char_of (unat b)) bs) else Inl InvalidArgument)"

definition decode_open_flags :: "usize \<Rightarrow> open_flags" where
  "decode_open_flags raw =
     (if raw AND 1 \<noteq> 0 then READ else 0) OR (if raw AND 2 \<noteq> 0 then WRITE else 0) OR
     (if raw AND 4 \<noteq> 0 then CREATE else 0) OR (if raw AND 8 \<noteq> 0 then TRUNC else 0) OR
     (if raw AND 16 \<noteq> 0 then APPEND else 0)"

section \<open>The calls\<close>

definition fd_result :: "fd_error + usize \<Rightarrow> sys_result" where
  "fd_result r = (case r of Inl e \<Rightarrow> Inl (sys_of_fd e) | Inr n \<Rightarrow> Inr n)"

definition fs_result :: "fs_error + unit \<Rightarrow> sys_result" where
  "fs_result r = (case r of Inl e \<Rightarrow> Inl (sys_of_fs e) | Inr _ \<Rightarrow> Inr 0)"

definition syscall_open :: "usize \<Rightarrow> usize \<Rightarrow> 'w sys \<Rightarrow> (sys_result \<times> 'w sys) run" where
  "syscall_open path_ptr raw_flags st =
     (case copy_user_cstr path_ptr (user_mem st) of Inl e \<Rightarrow> Inr (Inl e, st)
      | Inr path \<Rightarrow>
        with_fs (\<lambda>fs st.
          rbind (acquire (KERNEL_FD_TABLE st)) (\<lambda>l.
          case inner l of None \<Rightarrow> Inr (Inl UnsupportedCall, fs, st\<lparr>KERNEL_FD_TABLE := spin_unlock l\<rparr>)
          | Some t \<Rightarrow> (case fd_open path (decode_open_flags raw_flags) (fs, t) of (r, fs, t) \<Rightarrow>
              Inr (fd_result r, fs, st\<lparr>KERNEL_FD_TABLE := spin_unlock (l\<lparr>inner := Some t\<rparr>)\<rparr>)))) st)"

definition syscall_read :: "usize \<Rightarrow> usize \<Rightarrow> usize \<Rightarrow> 'w sys \<Rightarrow> (sys_result \<times> 'w sys) run" where
  "syscall_read fd buf_ptr len st =
     (if buf_ptr = 0 then Inr (Inl InvalidArgument, st)
      else with_fs (\<lambda>fs st.
        rbind (with_fd_table (\<lambda>t st.
          (case fd_read fd (user_slice (user_mem st) buf_ptr len) fs t of (r, buf, t) \<Rightarrow>
             Inr (fd_result r, t, st\<lparr>user_mem := write_user buf_ptr buf (user_mem st)\<rparr>))) st) (\<lambda>(r, st).
        Inr (r, fs, st))) st)"

definition mirror_console_write :: "usize \<Rightarrow> data \<Rightarrow> 'w sys \<Rightarrow> 'w sys run" where
  "mirror_console_write fd buf st =
     (if fd \<noteq> 1 \<and> fd \<noteq> 2 then Inr st
      else rbind (acquire (CONSOLE_WRITE st)) (\<lambda>l.
        Inr (st\<lparr>CONSOLE_WRITE := spin_unlock l, world := (case inner l of None \<Rightarrow> world st | Some writer \<Rightarrow> writer buf (world st))\<rparr>)))"

definition table_write :: "usize \<Rightarrow> data \<Rightarrow> 'w sys \<Rightarrow> (sys_result \<times> 'w sys) run" where
  "table_write fd buf =
     with_fs (\<lambda>fs st.
       rbind (acquire (KERNEL_FD_TABLE st)) (\<lambda>l.
       case inner l of None \<Rightarrow> Inr (Inl UnsupportedCall, fs, st\<lparr>KERNEL_FD_TABLE := spin_unlock l\<rparr>)
       | Some t \<Rightarrow> (case fd_write fd buf (fs, t) of (r, fs, t) \<Rightarrow>
           Inr (fd_result r, fs, st\<lparr>KERNEL_FD_TABLE := spin_unlock (l\<lparr>inner := Some t\<rparr>)\<rparr>))))"

definition syscall_write :: "usize \<Rightarrow> usize \<Rightarrow> usize \<Rightarrow> 'w sys \<Rightarrow> (sys_result \<times> 'w sys) run" where
  "syscall_write fd buf_ptr len st =
     (if buf_ptr = 0 then Inr (Inl InvalidArgument, st)
      else
        let buf = user_slice (user_mem st) buf_ptr len in
        rbind (table_write fd buf st) (\<lambda>(r, st).
        case r of Inl e \<Rightarrow> Inr (Inl e, st)
        | Inr written \<Rightarrow>
          rbind (guard (written \<le> length buf) OutOfBounds) (\<lambda>_.
          rbind (mirror_console_write fd (take written buf) st) (\<lambda>st. Inr (Inr written, st)))))"

definition fs_call :: "unit fs_op \<Rightarrow> 'w sys \<Rightarrow> (sys_result \<times> 'w sys) run" where
  "fs_call f st = with_fs (\<lambda>fs st. case f fs of (r, fs) \<Rightarrow> Inr (fs_result r, fs, st)) st"

definition fd_call :: "(fd_table \<Rightarrow> (fd_error + usize) \<times> fd_table) \<Rightarrow> 'w sys \<Rightarrow> (sys_result \<times> 'w sys) run" where
  "fd_call f st = with_fd_table (\<lambda>t st. case f t of (r, t) \<Rightarrow> Inr (fd_result r, t, st)) st"

definition syscall_exec :: "string \<Rightarrow> 'w sys \<Rightarrow> (sys_result \<times> 'w sys) run" where
  "syscall_exec path st =
     with_fs (\<lambda>fs st.
       case fs_read path fs of Inl e \<Rightarrow> Inr (Inl (sys_of_fs e), fs, st)
       | Inr img \<Rightarrow>
         rbind (acquire (EXEC_PROGRAM st)) (\<lambda>l.
         let st = st\<lparr>EXEC_PROGRAM := spin_unlock l\<rparr> in
         case inner l of None \<Rightarrow> Inr (Inl UnsupportedCall, fs, st)
         | Some exec_program \<Rightarrow> rbind (exec_program img (world st)) (\<lambda>(r, w). Inr (r, fs, st\<lparr>world := w\<rparr>)))) st"

text \<open>The guard on \<^verbatim>\<open>EXIT_CURRENT\<close> lives while the hook runs, and the hook does not return.\<close>

definition syscall_exit :: "usize \<Rightarrow> 'w sys \<Rightarrow> (answer \<times> 'w sys) run" where
  "syscall_exit status st =
     rbind (acquire (EXIT_CURRENT st)) (\<lambda>l.
     case inner l of None \<Rightarrow> Inr (Answer (Inl UnsupportedCall), st\<lparr>EXIT_CURRENT := spin_unlock l\<rparr>)
     | Some exit_current \<Rightarrow> rbind (exit_current status (world st)) (\<lambda>w. Inr (Left, st\<lparr>EXIT_CURRENT := l, world := w\<rparr>)))"

definition answered :: "(sys_result \<times> 'w sys) run \<Rightarrow> (answer \<times> 'w sys) run" where
  "answered m = rbind m (\<lambda>(r, st). Inr (Answer r, st))"

definition with_path :: "usize \<Rightarrow> (string \<Rightarrow> 'w sys \<Rightarrow> (sys_result \<times> 'w sys) run) \<Rightarrow> 'w sys \<Rightarrow> (sys_result \<times> 'w sys) run" where
  "with_path ptr f st = (case copy_user_cstr ptr (user_mem st) of Inl e \<Rightarrow> Inr (Inl e, st) | Inr path \<Rightarrow> f path st)"

definition dispatch :: "usize \<Rightarrow> usize \<Rightarrow> usize \<Rightarrow> usize \<Rightarrow> 'w sys \<Rightarrow> (answer \<times> 'w sys) run" where
  "dispatch number arg0 arg1 arg2 st =
     (if number = syscall_code Read then answered (syscall_read arg0 arg1 arg2 st)
      else if number = syscall_code Write then answered (syscall_write arg0 arg1 arg2 st)
      else if number = syscall_code Open then answered (syscall_open arg0 arg1 st)
      else if number = syscall_code Close then answered (fd_call (fd_close arg0) st)
      else if number = syscall_code Dup2 then answered (fd_call (fd_dup2 arg0 arg1) st)
      else if number = syscall_code Unlink then answered (with_path arg0 (\<lambda>path. fs_call (fs_remove path)) st)
      else if number = syscall_code Rename then
        answered (with_path arg0 (\<lambda>old. with_path arg1 (\<lambda>new. fs_call (fs_rename old new))) st)
      else if number = syscall_code Mkdir then answered (with_path arg0 (\<lambda>path. fs_call (fs_mkdir path)) st)
      else if number = syscall_code Fork then Inr (Answer (Inl UnsupportedCall), st)
      else if number = syscall_code Exec then answered (with_path arg0 syscall_exec st)
      else if number = syscall_code Exit then syscall_exit arg0 st
      else Inr (Answer (Inl NoSuchSyscall), st))"

text \<open>What the user program finds in \<^verbatim>\<open>rax\<close>: \<open>None\<close> when the call does not return.\<close>

definition syscall_dispatch :: "usize \<Rightarrow> usize \<Rightarrow> usize \<Rightarrow> usize \<Rightarrow> 'w sys \<Rightarrow> (int option \<times> 'w sys) run" where
  "syscall_dispatch number arg0 arg1 arg2 st =
     rbind (dispatch number arg0 arg1 arg2 st) (\<lambda>(a, st).
     Inr (case a of Left \<Rightarrow> None | Answer (Inl e) \<Rightarrow> Some (errno e)
       | Answer (Inr v) \<Rightarrow> Some (sint (of_nat v :: 64 word)), st))"

section \<open>Free locks\<close>

lemma acquire_simps [simp]: "\<not> locked l \<Longrightarrow> acquire l = Inr (l\<lparr>locked := True\<rparr>)" "locked l \<Longrightarrow> acquire l = Inl Deadlock"
  by (simp_all add: acquire_def compare_exchange_def)

text \<open>The deadlock value stands for a loop that never ends.\<close>

lemma acquire_deadlock: "acquire l = Inl Deadlock \<longleftrightarrow> (\<forall>n. lock_attempts n l = None)"
proof (cases "locked l")
  case True
  then show ?thesis by (simp add: lock_attempts_held)
next
  case False
  then show ?thesis using lock_attempts_free [OF False, of 0] by (metis acquire_simps(1) option.distinct(1) sum.distinct(1))
qed

definition io_ready :: "'w sys \<Rightarrow> ramfs \<Rightarrow> fd_table \<Rightarrow> bool" where
  "io_ready st fs t \<longleftrightarrow> KERNEL_FS st = \<lparr>locked = False, inner = Some fs\<rparr> \<and>
     KERNEL_FD_TABLE st = \<lparr>locked = False, inner = Some t\<rparr> \<and> \<not> locked (CONSOLE_WRITE st) \<and> \<not> locked (EXEC_PROGRAM st)"

lemma unlock_simps [simp]: "spin_unlock (l\<lparr>locked := b\<rparr>) = l\<lparr>locked := False\<rparr>" "locked (spin_unlock l) = False" "inner (spin_unlock l) = inner l"
  "spin_unlock \<lparr>locked = b, inner = x\<rparr> = \<lparr>locked = False, inner = x\<rparr>"
  by (simp_all add: spin_unlock_def)

lemmas io_defs = io_ready_def table_write_def with_fs_def with_fd_table_def

lemma open_call:
  assumes "io_ready st fs t" "copy_user_cstr ptr (user_mem st) = Inr path" "fd_open path (decode_open_flags fl) (fs, t) = (r, fs', t')"
  shows "\<exists>st'. syscall_open ptr fl st = Inr (fd_result r, st') \<and> io_ready st' fs' t' \<and> user_mem st' = user_mem st \<and>
    EXIT_CURRENT st' = EXIT_CURRENT st"
  using assms by (simp add: syscall_open_def io_defs)

lemma read_call:
  assumes "io_ready st fs t" "ptr \<noteq> 0" "fd_read fd (user_slice (user_mem st) ptr len) fs t = (r, buf, t')"
  shows "\<exists>st'. syscall_read fd ptr len st = Inr (fd_result r, st') \<and> io_ready st' fs t' \<and>
    user_mem st' = write_user ptr buf (user_mem st) \<and> EXIT_CURRENT st' = EXIT_CURRENT st"
  using assms by (simp add: syscall_read_def io_defs)

lemma fd_write_length:
  "fd_write fd buf (fs, t) = (Inr n, fs', t') \<Longrightarrow> n = length buf"
  by (auto simp: fd_write_def Let_def split: sum.splits open_file.splits if_splits prod.splits)

lemma length_user_slice [simp]: "length (user_slice m ptr len) = len"
  by (simp add: user_slice_def)

lemma write_call:
  assumes "io_ready st fs t" "ptr \<noteq> 0" "fd_write fd (user_slice (user_mem st) ptr len) (fs, t) = (r, fs', t')"
  shows "\<exists>st'. syscall_write fd ptr len st = Inr (fd_result r, st') \<and> io_ready st' fs' t' \<and> user_mem st' = user_mem st \<and>
    EXIT_CURRENT st' = EXIT_CURRENT st"
proof (cases r)
  case (Inl e)
  then show ?thesis using assms by (simp add: syscall_write_def io_defs fd_result_def)
next
  case (Inr n)
  then have "n = len" using fd_write_length assms(3) by fastforce
  then show ?thesis
    using assms Inr by (simp add: syscall_write_def io_defs fd_result_def mirror_console_write_def guard_def)
qed

lemma fd_table_call:
  assumes "io_ready st fs t" "f t = (r, t')"
  shows "\<exists>st'. fd_call f st = Inr (fd_result r, st') \<and> io_ready st' fs t' \<and> user_mem st' = user_mem st \<and> EXIT_CURRENT st' = EXIT_CURRENT st"
  using assms by (simp add: fd_call_def io_defs)

lemma fs_op_call:
  assumes "io_ready st fs t" "f fs = (r, fs')"
  shows "\<exists>st'. fs_call f st = Inr (fs_result r, st') \<and> io_ready st' fs' t \<and> user_mem st' = user_mem st \<and> EXIT_CURRENT st' = EXIT_CURRENT st"
  using assms by (simp add: fs_call_def io_defs)

section \<open>Storing and fetching a file\<close>

lemma fd_reopen:
  assumes "fd_insert f t = (fd, t1)" "length t2 = length t1" "t2 ! fd = None" "\<forall>k. k \<noteq> fd \<longrightarrow> fd_entry k t2 = fd_entry k t1"
  shows "fst (fd_insert g t2) = fd"
proof -
  obtain fd' t3 where i: "fd_insert g t2 = (fd', t3)" by (cases "fd_insert g t2")
  note a = fd_insert_spec [OF assms(1)] and b = fd_insert_spec [OF i]
  have len: "fd < length t2" using a(1,4) assms(2) by (auto split: if_splits)
  have "\<not> fd < fd'" using b(2) assms(3) by auto
  moreover have "\<not> fd' < fd"
  proof
    assume l: "fd' < fd"
    then have "fd_entry fd' t1 = fd_entry fd' t" using fd_insert_entry(2) [OF assms(1)] by simp
    then have "fd_entry fd' t2 \<noteq> Inl BadFd" using assms(4) a(1,2) l by (auto simp: fd_entry_error)
    moreover have "t2 ! fd' = None" using b(3) l len by simp
    ultimately show False by (simp add: fd_entry_error)
  qed
  ultimately show ?thesis using i by simp
qed

abbreviation store_flags :: open_flags where "store_flags \<equiv> CREATE OR WRITE OR TRUNC"

lemma fd_session:
  assumes ok: "fs_ok fs" and o: "fd_open p store_flags (fs, t) = (Inr fd, fs1, t1)"
  obtains fs2 t2 t3 t4 t5 where "fd_write fd d (fs1, t1) = (Inr (length d), fs2, t2)" "fd_close fd t2 = (Inr 0, t3)"
    "fd_open p READ (fs2, t3) = (Inr fd, fs2, t4)"
    "fd_read fd buf fs2 t4 = (Inr (min (length buf) (length d)), take (length buf) d @ drop (length d) buf, t5)"
proof -
  have fl: "flags_contain store_flags WRITE" "flags_contain store_flags TRUNC" "\<not> flags_contain store_flags APPEND"
    "flags_contain READ READ" "\<not> flags_contain READ TRUNC" "\<not> flags_contain READ CREATE"
    by (simp_all add: flags_contain_def)
  note r = fd_open_result [OF o]
  have e: "fd_entry fd t1 = Inr (OFile p 0 store_flags)" by (rule fd_insert_entry(1) [OF r(1)])
  obtain fs2 where w: "fd_write fd d (fs1, t1) = (Inr (length d), fs2, t1[fd := Some (OFile p (length d) store_flags)])"
    "fs_read p fs2 = Inr d"
    using fd_write_file [OF e fl(1,3) r(3) [OF fl(2)] r(2) [OF ok], of d] by (auto simp: splice_eq)
  define t3 where "t3 = t1[fd := None]"
  have fd: "fd < length t1" using e by (simp add: fd_entry_iff)
  have c: "fd_close fd (t1[fd := Some (OFile p (length d) store_flags)]) = (Inr 0, t3)" using fd by (simp add: fd_close_def t3_def)
  have "fst (fd_insert (OFile p 0 READ) t3) = fd"
    by (rule fd_reopen [OF r(1)]) (use fd in \<open>simp_all add: t3_def fd_entry_def get_def\<close>)
  then obtain t4 where i: "fd_insert (OFile p 0 READ) t3 = (fd, t4)" by (metis prod.collapse)
  have o2: "fd_open p READ (fs2, t3) = (Inr fd, fs2, t4)" using fl(5,6) w(2) i by (simp add: fd_open_def)
  have "fd_read fd buf fs2 t4 = (Inr (min (length buf) (length d)), take (min (length buf) (length d)) d @ drop (min (length buf) (length d)) buf,
      t4[fd := Some (OFile p (min (length buf) (length d)) READ)])"
    using fd_read_file [OF fd_insert_entry(1) [OF i] fl(4) w(2), of buf] by (simp add: Let_def)
  moreover have "take (min (length buf) (length d)) d @ drop (min (length buf) (length d)) buf = take (length buf) d @ drop (length d) buf"
    by (cases "length buf \<le> length d") (simp_all add: min_def)
  ultimately show thesis using that [OF w(1) c o2] by simp
qed

lemma answered_Inr: "answered (Inr (r, st)) = Inr (Answer r, st)"
  by (simp add: answered_def)

lemma sint_small: "v < 2 ^ 63 \<Longrightarrow> sint (of_nat v :: 64 word) = int v"
  by (simp add: sint_uint unsigned_of_nat take_bit_nat_eq_self signed_take_bit_int_eq_self)

lemma write_user_slice: "n \<le> length d \<Longrightarrow> user_slice (write_user ptr d m) ptr n = take n d"
  by (auto simp: user_slice_def write_user_def intro!: nth_equalityI)

section \<open>Exiting\<close>

text \<open>System calls of any programs one after the other, each with its number and arguments.\<close>

fun run_calls :: "(usize \<times> usize \<times> usize \<times> usize) list \<Rightarrow> 'w sys \<Rightarrow> 'w sys run" where
  "run_calls [] st = Inr st"
| "run_calls ((n, a, b, c) # cs) st = rbind (dispatch n a b c st) (\<lambda>(_, st). run_calls cs st)"

lemma with_fs_exit:
  assumes "with_fs f st = Inr (r, st')" "\<And>fs s q fs' s'. f fs s = Inr (q, fs', s') \<Longrightarrow> EXIT_CURRENT s' = EXIT_CURRENT s"
  shows "EXIT_CURRENT st' = EXIT_CURRENT st"
  using assms by (auto simp: with_fs_def rbind_eq_Inr_iff split: option.splits)

lemma with_fd_table_exit:
  assumes "with_fd_table f st = Inr (r, st')" "\<And>t s q t' s'. f t s = Inr (q, t', s') \<Longrightarrow> EXIT_CURRENT s' = EXIT_CURRENT s"
  shows "EXIT_CURRENT st' = EXIT_CURRENT st"
  using assms by (auto simp: with_fd_table_def rbind_eq_Inr_iff split: option.splits)

lemma calls_keep_exit_lock:
  "syscall_read a b c st = Inr (r, st') \<Longrightarrow> EXIT_CURRENT st' = EXIT_CURRENT st"
  "syscall_write a b c st = Inr (r, st') \<Longrightarrow> EXIT_CURRENT st' = EXIT_CURRENT st"
  "syscall_open a b st = Inr (r, st') \<Longrightarrow> EXIT_CURRENT st' = EXIT_CURRENT st"
  "fd_call f st = Inr (r, st') \<Longrightarrow> EXIT_CURRENT st' = EXIT_CURRENT st"
  "fs_call g st = Inr (r, st') \<Longrightarrow> EXIT_CURRENT st' = EXIT_CURRENT st"
  "syscall_exec path st = Inr (r, st') \<Longrightarrow> EXIT_CURRENT st' = EXIT_CURRENT st"
proof -
  have mirror: "EXIT_CURRENT s' = EXIT_CURRENT s" if "mirror_console_write fd buf s = Inr s'" for fd buf and s s' :: "'a sys"
    using that by (auto simp: mirror_console_write_def rbind_eq_Inr_iff split: if_splits)
  have tw: "EXIT_CURRENT s' = EXIT_CURRENT s" if "table_write fd buf s = Inr (q, s')" for fd buf q and s s' :: "'a sys"
    using that unfolding table_write_def
    by (rule with_fs_exit) (auto simp: rbind_eq_Inr_iff simp: case_prod_beta split: option.splits)
  show "EXIT_CURRENT st' = EXIT_CURRENT st" if "syscall_read a b c st = Inr (r, st')"
  proof (cases "b = 0")
    case False
    show ?thesis using that unfolding syscall_read_def if_not_P [OF False]
      by (rule with_fs_exit) (auto simp: rbind_eq_Inr_iff dest!: with_fd_table_exit simp: case_prod_beta)
  qed (use that in \<open>simp add: syscall_read_def\<close>)
  show "EXIT_CURRENT st' = EXIT_CURRENT st" if run: "syscall_write a b c st = Inr (r, st')"
  proof (cases "b = 0")
    case False
    then obtain q s where q: "table_write a (user_slice (user_mem st) b c) st = Inr (q, s)"
      using run by (auto simp: syscall_write_def rbind_eq_Inr_iff Let_def)
    show ?thesis using run False tw [OF q] by (cases q) (auto simp: syscall_write_def q rbind_eq_Inr_iff dest!: mirror)
  qed (use run in \<open>simp add: syscall_write_def\<close>)
  show "EXIT_CURRENT st' = EXIT_CURRENT st" if "syscall_open a b st = Inr (r, st')"
    using that by (auto simp: syscall_open_def rbind_eq_Inr_iff dest!: with_fs_exit simp: case_prod_beta split: sum.splits option.splits)
  show "EXIT_CURRENT st' = EXIT_CURRENT st" if "fd_call f st = Inr (r, st')"
    using that by (auto simp: fd_call_def dest!: with_fd_table_exit simp: case_prod_beta)
  show "EXIT_CURRENT st' = EXIT_CURRENT st" if "fs_call g st = Inr (r, st')"
    using that by (auto simp: fs_call_def dest!: with_fs_exit simp: case_prod_beta)
  show "EXIT_CURRENT st' = EXIT_CURRENT st" if "syscall_exec path st = Inr (r, st')"
    using that by (auto simp: syscall_exec_def rbind_eq_Inr_iff Let_def dest!: with_fs_exit simp: case_prod_beta split: sum.splits option.splits)
qed

lemma with_path_exit:
  assumes "with_path ptr f st = Inr (r, st')" "\<And>path s q s'. f path s = Inr (q, s') \<Longrightarrow> EXIT_CURRENT s' = EXIT_CURRENT s"
  shows "EXIT_CURRENT st' = EXIT_CURRENT st"
  using assms by (auto simp: with_path_def split: sum.splits)

lemma locked_exit_stays:
  assumes "dispatch n a b c st = Inr (r, st')" "locked (EXIT_CURRENT st)"
  shows "EXIT_CURRENT st' = EXIT_CURRENT st \<and> n \<noteq> syscall_code Exit"
proof -
  have x: "syscall_exit k st = Inl Deadlock" for k using assms(2) by (simp add: syscall_exit_def)
  have p: "EXIT_CURRENT s' = EXIT_CURRENT st" if "answered m = Inr (r, s')" "\<And>q s. m = Inr (q, s) \<Longrightarrow> EXIT_CURRENT s = EXIT_CURRENT st"
    for s' m using that by (auto simp: answered_def rbind_eq_Inr_iff)
  have w: "EXIT_CURRENT s = EXIT_CURRENT st" if "with_path k (\<lambda>path. fs_call (f path)) st = Inr (q, s)" for k f q s
    by (rule with_path_exit [OF that]) (rule calls_keep_exit_lock(5))
  have w2: "EXIT_CURRENT s = EXIT_CURRENT st" if "with_path k (\<lambda>old. with_path j (\<lambda>new. fs_call (f old new))) st = Inr (q, s)" for k j f q s
    by (rule with_path_exit [OF that], erule with_path_exit) (rule calls_keep_exit_lock(5))
  have w3: "EXIT_CURRENT s = EXIT_CURRENT st" if "with_path k syscall_exec st = Inr (q, s)" for k q s
    by (rule with_path_exit [OF that]) (rule calls_keep_exit_lock(6))
  show ?thesis
    using assms(1) x unfolding dispatch_def
    by (auto split: if_splits elim!: p dest: calls_keep_exit_lock w w2 w3)
qed

lemma run_calls_exit_lock:
  assumes "run_calls cs st = Inr st'" "locked (EXIT_CURRENT st)"
  shows "EXIT_CURRENT st' = EXIT_CURRENT st"
  using assms
proof (induction cs st rule: run_calls.induct)
  case (2 n a b c cs st)
  obtain r s where s: "dispatch n a b c st = Inr (r, s)" "run_calls cs s = Inr st'"
    using "2.prems"(1) by (auto simp: rbind_eq_Inr_iff)
  have "EXIT_CURRENT s = EXIT_CURRENT st" using locked_exit_stays [OF s(1) "2.prems"(2)] by blast
  then show ?case using "2.IH" [OF s(1) refl s(2)] "2.prems"(2) by simp
qed simp

lemma fd_open_store:
  assumes "split_path p = Inr ps" "writable (view fs) ps"
  shows "\<exists>fd fs1 t1. fd_open p store_flags (fs, t) = (Inr fd, fs1, t1)"
proof -
  have fl: "flags_contain store_flags CREATE" "flags_contain store_flags TRUNC" by (simp_all add: flags_contain_def)
  obtain fs1 where t: "fs_touch p fs = (Inr (), fs1)" "writable (view fs1) ps"
  proof -
    obtain fs1 where f: "fs_touch p fs = (Inr (), fs1)" "view fs1 = (view fs)(ps \<mapsto> KFile (contents (view fs) ps))"
      using fs_touch_refines [OF assms(1), of fs] assms(2)
      by (cases "fs_touch p fs") (auto simp: fs_refines_def a_touch_def)
    have "butlast ps \<noteq> ps" using assms(2) by (cases ps rule: rev_cases) (auto simp: writable_def)
    then show thesis using that f assms(2) by (simp add: writable_def)
  qed
  obtain fs2 where "fs_write p [] fs1 = (Inr (), fs2)"
    using fs_write_result(2) [OF assms(1), of "[]" fs1] t(2) by (cases "fs_write p [] fs1"; cases "fst (fs_write p [] fs1)") auto
  then show ?thesis using fl t(1) by (auto simp: fd_open_def split: prod.splits)
qed

section \<open>Properties\<close>

text \<open>C10: the file system calls compose through user memory.  On an initialised system, opening a path for
  creating, writing and truncating, writing a buffer of user memory, closing, opening the path again
  for reading and reading into another buffer all return the expected numbers, with the same
  descriptor both times; the destination receives the bytes of the source buffer, as many as fit, and
  no other byte of user memory changes.  No call waits for a lock.\<close>

theorem syscalls_store_and_fetch:
  assumes "io_ready st fs t" "fs_ok fs" "copy_user_cstr path_ptr (user_mem st) = Inr path"
    and "split_path path = Inr parts" "writable (view fs) parts"
    and "src \<noteq> 0" "dst \<noteq> 0" "len < 2 ^ 63" "room < 2 ^ 63" "length t < 2 ^ 63"
  shows "\<exists>fd s1 s2 s3 s4 s5.
    syscall_dispatch (syscall_code Open) path_ptr 14 0 st = Inr (Some (int fd), s1) \<and>
    syscall_dispatch (syscall_code Write) fd src len s1 = Inr (Some (int len), s2) \<and>
    syscall_dispatch (syscall_code Close) fd 0 0 s2 = Inr (Some 0, s3) \<and>
    syscall_dispatch (syscall_code Open) path_ptr 1 0 s3 = Inr (Some (int fd), s4) \<and>
    syscall_dispatch (syscall_code Read) fd dst room s4 = Inr (Some (int (min room len)), s5) \<and>
    user_slice (user_mem s5) dst (min room len) = take (min room len) (user_slice (user_mem st) src len) \<and>
    (\<forall>a. a < dst \<or> dst + min room len \<le> a \<longrightarrow> user_mem s5 a = user_mem st a)"
proof -
  define d buf where "d = user_slice (user_mem st) src len" and "buf = user_slice (user_mem st) dst room"
  have len: "length d = len" "length buf = room" by (simp_all add: d_def buf_def)
  have fl: "decode_open_flags 14 = store_flags" "decode_open_flags 1 = READ" by (simp_all add: decode_open_flags_def)
  obtain fd fs1 t1 where o: "fd_open path store_flags (fs, t) = (Inr fd, fs1, t1)"
    using fd_open_store [OF assms(4,5)] by blast
  have "fd \<le> length t" using fd_insert_spec(1) [OF fd_open_result(1) [OF o]] .
  then have fd63: "fd < 2 ^ 63" using assms(10) by simp
  obtain fs2 t2 t3 t4 t5 where S: "fd_write fd d (fs1, t1) = (Inr len, fs2, t2)" "fd_close fd t2 = (Inr 0, t3)"
    "fd_open path READ (fs2, t3) = (Inr fd, fs2, t4)"
    "fd_read fd buf fs2 t4 = (Inr (min room len), take room d @ drop len buf, t5)"
    by (rule fd_session [OF assms(2) o, of d buf]) (use len that in simp)
  obtain s1 where s1: "syscall_open path_ptr 14 st = Inr (Inr fd, s1)" "io_ready s1 fs1 t1" "user_mem s1 = user_mem st"
    using open_call [OF assms(1,3) o [folded fl(1)]] by (auto simp: fd_result_def)
  obtain s2 where s2: "syscall_write fd src len s1 = Inr (Inr len, s2)" "io_ready s2 fs2 t2" "user_mem s2 = user_mem st"
    using write_call [OF s1(2) assms(6), of fd len] S(1) s1(3) by (auto simp: fd_result_def d_def)
  obtain s3 where s3: "fd_call (fd_close fd) s2 = Inr (Inr 0, s3)" "io_ready s3 fs2 t3" "user_mem s3 = user_mem st"
    using fd_table_call [where f = "fd_close fd", OF s2(2) S(2)] s2(3) by (auto simp: fd_result_def)
  have "copy_user_cstr path_ptr (user_mem s3) = Inr path" using assms(3) s3(3) by simp
  then obtain s4 where s4: "syscall_open path_ptr 1 s3 = Inr (Inr fd, s4)" "io_ready s4 fs2 t4" "user_mem s4 = user_mem st"
    using open_call [OF s3(2) _ S(3) [folded fl(2)]] s3(3) by (auto simp: fd_result_def)
  obtain s5 where s5: "syscall_read fd dst room s4 = Inr (Inr (min room len), s5)"
      "user_mem s5 = write_user dst (take room d @ drop len buf) (user_mem st)"
    using read_call [OF s4(2) assms(7), of fd room] S(4) s4(3) by (auto simp: fd_result_def buf_def)
  have out: "user_mem s5 a = user_mem st a" if "a < dst \<or> dst + min room len \<le> a" for a
  proof (cases "dst \<le> a \<and> a < dst + room")
    case True
    then have "len \<le> a - dst" "min room len = len" using that by linarith+
    moreover have "len + (a - (dst + len)) = a - dst" using calculation(1) True by linarith
    ultimately have "(take room d @ drop len buf) ! (a - dst) = buf ! (a - dst)"
      using True len by (simp add: nth_append)
    moreover have "buf ! (a - dst) = user_mem st a"
    proof -
      have "a - dst < room" "dst + (a - dst) = a" using True by linarith+
      then show ?thesis by (simp add: buf_def user_slice_def)
    qed
    ultimately show ?thesis by (simp add: s5(2) write_user_def)
  qed (use len in \<open>auto simp: s5(2) write_user_def\<close>)
  have "user_slice (user_mem s5) dst (min room len) = take (min room len) d"
    unfolding s5(2) using len by (subst write_user_slice) (simp_all add: min.commute)
  then show ?thesis
    using s1(1) s2(1) s3(1) s4(1) s5(1) out fd63 assms(8,9)
    by (intro exI [of _ fd] exI [of _ s1] exI [of _ s2] exI [of _ s3] exI [of _ s4] exI [of _ s5])
      (simp add: syscall_dispatch_def dispatch_def answered_Inr sint_small d_def min_def)
qed

text \<open>A program with the path \<^verbatim>\<open>/tmp/x\<close> at address 16 and the bytes 1, 2, 3 at address 32.\<close>

definition demo_sys :: "unit sys" where
  "demo_sys = \<lparr>KERNEL_FS = spin_new (Some demo_fs), KERNEL_FD_TABLE = spin_new (Some fd_table_new), CONSOLE_WRITE = spin_new None,
     EXEC_PROGRAM = spin_new None, EXIT_CURRENT = spin_new (Some (\<lambda>_. Inr)),
     user_mem = write_user 16 [47, 116, 109, 112, 47, 120, 0] (write_user 32 [1, 2, 3] (\<lambda>_. 0)), world = ()\<rparr>"

theorem syscalls_store_and_fetch_witness:
  "\<exists>fd s1 s2 s3 s4 s5. syscall_dispatch 7 16 14 0 demo_sys = Inr (Some (int fd), s1) \<and>
    syscall_dispatch 6 fd 32 3 s1 = Inr (Some 3, s2) \<and> syscall_dispatch 8 fd 0 0 s2 = Inr (Some 0, s3) \<and>
    syscall_dispatch 7 16 1 0 s3 = Inr (Some (int fd), s4) \<and> syscall_dispatch 5 fd 64 8 s4 = Inr (Some 3, s5) \<and>
    user_slice (user_mem s5) 64 3 = [1, 2, 3]"
proof -
  have io: "io_ready demo_sys demo_fs fd_table_new" by (simp add: io_ready_def demo_sys_def spin_new_def)
  have path: "copy_user_cstr 16 (user_mem demo_sys) = Inr ''/tmp/x''" by code_simp
  have parts: "split_path ''/tmp/x'' = Inr [''tmp'', ''x'']" by code_simp
  have w: "writable (view demo_fs) [''tmp'', ''x'']" by (simp add: writable_def view_def node_view_def demo_fs_def)
  have src: "user_slice (user_mem demo_sys) 32 3 = [1, 2, 3]" by code_simp
  have "length fd_table_new < 2 ^ 63" by (simp add: fd_table_new_def)
  with syscalls_store_and_fetch [OF io demo_fs_ok path parts w, of 32 64 3 8] show ?thesis by (simp add: src) blast
qed

text \<open>C27: the exit call never gives back the lock it takes.  The first exit takes control away while the
  guard on the hook is alive; whatever system calls other programs make after that, the next exit
  call waits for the lock for ever.\<close>

theorem second_exit_never_returns:
  assumes "dispatch (syscall_code Exit) status a b st = Inr (Left, st')" "run_calls calls st' = Inr st''"
  shows "dispatch (syscall_code Exit) status' a' b' st'' = Inl Deadlock \<and> (\<forall>n. lock_attempts n (EXIT_CURRENT st'') = None)"
proof -
  have "syscall_exit status st = Inr (Left, st')" using assms(1) by (simp add: dispatch_def)
  then have "locked (EXIT_CURRENT st')"
    by (cases "locked (EXIT_CURRENT st)") (auto simp: syscall_exit_def rbind_eq_Inr_iff split: option.splits)
  then have l: "locked (EXIT_CURRENT st'')" using run_calls_exit_lock [OF assms(2)] by simp
  then show ?thesis by (simp add: dispatch_def syscall_exit_def lock_attempts_held)
qed

theorem second_exit_never_returns_witness:
  "\<exists>st' st''. dispatch 3 0 0 0 demo_sys = Inr (Left, st') \<and> run_calls [(12, 16, 0, 0), (4, 0, 0, 0)] st' = Inr st'' \<and>
     dispatch 3 1 0 0 st'' = Inl Deadlock"
proof -
  obtain st' where e: "dispatch 3 0 0 0 demo_sys = Inr (Left, st')" "io_ready st' demo_fs fd_table_new" "user_mem st' = user_mem demo_sys"
    by (simp add: dispatch_def syscall_exit_def demo_sys_def spin_new_def io_ready_def)
  have path: "copy_user_cstr 16 (user_mem demo_sys) = Inr ''/tmp/x''" by code_simp
  obtain r fs where m: "fs_mkdir ''/tmp/x'' demo_fs = (r, fs)" by (metis prod.exhaust)
  obtain s where s: "fs_call (fs_mkdir ''/tmp/x'') st' = Inr (fs_result r, s)"
    using fs_op_call [where f = "fs_mkdir ''/tmp/x''", OF e(2) m] by blast
  have "run_calls [(12, 16, 0, 0), (4, 0, 0, 0)] st' = Inr s"
    using s by (simp add: dispatch_def with_path_def e(3) path answered_def)
  then show ?thesis using second_exit_never_returns [of 0 0 0 demo_sys st' "[(12, 16, 0, 0), (4, 0, 0, 0)]" s 1 0 0] e(1) by simp
qed

end
