(* ===== verification/Commands.thy ===== *)
theory Commands
  imports Elf
begin

text \<open>
  src/src/user/commands.rs: the shell commands.  A command line is a string of bytes; white space is the
  ASCII white space of \<^verbatim>\<open>split_whitespace\<close>.  Every command returns its result together with the file
  system afterwards; the outer sum is a panic, which only the ELF parser can raise.
\<close>

section \<open>Commands\<close>

datatype command_error = Empty | Unknown | MissingArgument | BadExecutable | Fs fs_error

record command_output =
  stdout :: data
  stderr :: data

definition output_stdout :: "data \<Rightarrow> command_output" where
  "output_stdout text = \<lparr>stdout = text, stderr = []\<rparr>"

definition output_empty :: command_output where
  "output_empty = \<lparr>stdout = [], stderr = []\<rparr>"

type_synonym 'a command = "ramfs \<Rightarrow> (command_error + 'a) \<times> ramfs"

definition is_space :: "char \<Rightarrow> bool" where
  "is_space c \<longleftrightarrow> c \<in> {CHR 0x09, CHR 0x0A, CHR 0x0B, CHR 0x0C, CHR 0x0D, CHR '' ''}"

fun split_whitespace_aux :: "string \<Rightarrow> string \<Rightarrow> string list" where
  "split_whitespace_aux w [] = (if w = [] then [] else [w])"
| "split_whitespace_aux w (c # cs) =
     (if is_space c then (if w = [] then split_whitespace_aux [] cs else w # split_whitespace_aux [] cs)
      else split_whitespace_aux (w @ [c]) cs)"

definition split_whitespace :: "string \<Rightarrow> string list" where
  "split_whitespace line = split_whitespace_aux [] line"

text \<open>\<^verbatim>\<open>words.get(i)\<close>, and an operation of the file system as a command.\<close>

definition word_at :: "string list \<Rightarrow> nat \<Rightarrow> command_error + string" where
  "word_at words i = (if i < length words then Inr (words ! i) else Inl MissingArgument)"

definition fs_command :: "unit fs_op \<Rightarrow> command_output command" where
  "fs_command f fs = (case f fs of (Inl e, fs) \<Rightarrow> (Inl (Fs e), fs) | (Inr _, fs) \<Rightarrow> (Inr output_empty, fs))"

definition cmd_ls :: "string list \<Rightarrow> ramfs \<Rightarrow> command_error + command_output" where
  "cmd_ls words fs =
     (let path = (if 1 < length words then words ! 1 else ''/'') in
      rbind (map_err Fs (fs_list path fs)) (\<lambda>names.
      Inr (output_stdout (str_bytes (concat (map (\<lambda>nm. nm @ [CHR 0x0A]) (sort names)))))))"

definition cmd_rm :: "string list \<Rightarrow> command_output command" where
  "cmd_rm words fs = (case word_at words 1 of Inl e \<Rightarrow> (Inl e, fs) | Inr path \<Rightarrow> fs_command (fs_remove path) fs)"

definition cmd_mv :: "string list \<Rightarrow> command_output command" where
  "cmd_mv words fs =
     (case rbind (word_at words 1) (\<lambda>old. rbind (word_at words 2) (\<lambda>new. Inr (old, new))) of Inl e \<Rightarrow> (Inl e, fs)
      | Inr (old, new) \<Rightarrow> fs_command (fs_rename old new) fs)"

definition cmd_cp :: "string list \<Rightarrow> command_output command" where
  "cmd_cp words fs =
     (case rbind (word_at words 1) (\<lambda>src. rbind (word_at words 2) (\<lambda>dst. Inr (src, dst))) of Inl e \<Rightarrow> (Inl e, fs)
      | Inr (src, dst) \<Rightarrow> fs_command (fs_copy src dst) fs)"

definition cmd_touch :: "string list \<Rightarrow> command_output command" where
  "cmd_touch words fs = (case word_at words 1 of Inl e \<Rightarrow> (Inl e, fs) | Inr path \<Rightarrow> fs_command (fs_touch path) fs)"

fun cat_files :: "string list \<Rightarrow> ramfs \<Rightarrow> command_error + data" where
  "cat_files [] fs = Inr []"
| "cat_files (path # paths) fs =
     rbind (map_err Fs (fs_read path fs)) (\<lambda>d. rbind (cat_files paths fs) (\<lambda>ds. Inr (d @ ds)))"

definition cmd_cat :: "string list \<Rightarrow> data \<Rightarrow> ramfs \<Rightarrow> command_error + command_output" where
  "cmd_cat words stdin fs =
     (if length words = 1 then Inr (output_stdout stdin)
      else rbind (cat_files (tl words) fs) (\<lambda>out. Inr (output_stdout out)))"

text \<open>The words separated by single spaces.\<close>

fun unwords :: "string list \<Rightarrow> string" where
  "unwords [] = []"
| "unwords [w] = w"
| "unwords (w # ws) = w @ CHR '' '' # unwords ws"

definition cmd_echo :: "string list \<Rightarrow> command_output" where
  "cmd_echo words = output_stdout (str_bytes (unwords (tl words) @ [CHR 0x0A]))"

section \<open>Dispatch\<close>

definition load_program :: "string \<Rightarrow> ramfs \<Rightarrow> (command_error + program_id) run" where
  "load_program name fs =
     (case from_name name of None \<Rightarrow> Inr (Inl Unknown)
      | Some program \<Rightarrow>
        (case fs_read (''/bin/'' @ program_name program) fs of Inl e \<Rightarrow> Inr (Inl (Fs e))
         | Inr img \<Rightarrow> rbind (elf_parse img) (\<lambda>parsed.
             Inr (case parsed of Inl _ \<Rightarrow> Inl BadExecutable
               | Inr e \<Rightarrow> if elf_program e = program then Inr program else Inl BadExecutable))))"

definition dispatch_command :: "string list \<Rightarrow> data \<Rightarrow> ramfs \<Rightarrow> ((command_error + command_output) \<times> ramfs) run" where
  "dispatch_command words stdin fs =
     (case words of [] \<Rightarrow> Inr (Inl Empty, fs)
      | name # _ \<Rightarrow> rbind (load_program name fs) (\<lambda>r. Inr (case r of Inl e \<Rightarrow> (Inl e, fs)
        | Inr Ls \<Rightarrow> (cmd_ls words fs, fs)
        | Inr Rm \<Rightarrow> cmd_rm words fs
        | Inr Mv \<Rightarrow> cmd_mv words fs
        | Inr Cp \<Rightarrow> cmd_cp words fs
        | Inr Touch \<Rightarrow> cmd_touch words fs
        | Inr Cat \<Rightarrow> (cmd_cat words stdin fs, fs)
        | Inr Echo \<Rightarrow> (Inr (cmd_echo words), fs)
        | Inr Sleep \<Rightarrow> (Inl Unknown, fs) | Inr Count \<Rightarrow> (Inl Unknown, fs) | Inr Shell \<Rightarrow> (Inl Unknown, fs))))"

text \<open>The loop over the words: redirections are taken out, the rest are the words of the command.\<close>

fun redirections ::
  "string list \<Rightarrow> data \<Rightarrow> (string \<times> bool) option \<Rightarrow> ramfs \<Rightarrow>
   command_error + (string list \<times> data \<times> (string \<times> bool) option)" where
  "redirections [] input out fs = Inr ([], input, out)"
| "redirections (w # ws) input out fs =
     (if w = ''>'' \<or> w = ''>>'' \<or> w = ''<'' then
        (case ws of [] \<Rightarrow> Inl MissingArgument
         | path # rest \<Rightarrow>
            if w = ''<'' then rbind (map_err Fs (fs_read path fs)) (\<lambda>input. redirections rest input out fs)
            else redirections rest input (Some (path, w = ''>>'')) fs)
      else rbind (redirections ws input out fs) (\<lambda>(words, input, out). Inr (w # words, input, out)))"

definition run_command :: "string \<Rightarrow> data \<Rightarrow> ramfs \<Rightarrow> ((command_error + command_output) \<times> ramfs) run" where
  "run_command line stdin fs =
     (let words = split_whitespace line in
      if words = [] then Inr (Inl Empty, fs)
      else case redirections words stdin None fs of Inl e \<Rightarrow> Inr (Inl e, fs)
      | Inr (words, input, redirect_out) \<Rightarrow>
        rbind (dispatch_command words input fs) (\<lambda>(r, fs). Inr (case r of Inl e \<Rightarrow> (Inl e, fs)
        | Inr output \<Rightarrow>
          (case redirect_out of None \<Rightarrow> (Inr output, fs)
           | Some (path, appending) \<Rightarrow>
              fs_command (if appending then fs_append path (stdout output) else fs_write path (stdout output)) fs))))"

section \<open>Words\<close>

definition word_ok :: "string \<Rightarrow> bool" where
  "word_ok w \<longleftrightarrow> w \<noteq> [] \<and> (\<forall>c\<in>set w. \<not> is_space c)"

lemma split_whitespace_aux_word:
  "\<forall>c\<in>set w. \<not> is_space c \<Longrightarrow> split_whitespace_aux v (w @ cs) = split_whitespace_aux (v @ w) cs"
  by (induction w arbitrary: v) auto

lemma split_unwords: "\<forall>w\<in>set ws. word_ok w \<Longrightarrow> split_whitespace (unwords ws) = ws"
proof (induction ws rule: unwords.induct)
  case (2 w)
  then show ?case using split_whitespace_aux_word [of w "[]" "[]"] by (simp add: split_whitespace_def word_ok_def)
next
  case (3 w v vs)
  then have w: "word_ok w" "split_whitespace (unwords (v # vs)) = v # vs" by simp_all
  then show ?case
    using split_whitespace_aux_word [of w "[]"] by (simp add: split_whitespace_def word_ok_def is_space_def)
qed (simp add: split_whitespace_def)

definition plain :: "string \<Rightarrow> bool" where
  "plain w \<longleftrightarrow> w \<notin> {''>'', ''>>'', ''<''}"

lemma redirections_plain:
  "\<forall>w\<in>set ws. plain w \<Longrightarrow>
   redirections (ws @ rest) input out fs = rbind (redirections rest input out fs) (\<lambda>(words, i, r). Inr (ws @ words, i, r))"
proof (induction ws)
  case Nil
  show ?case by (cases "redirections rest input out fs") (simp_all add: case_prod_beta)
next
  case (Cons w ws)
  then have "redirections ((w # ws) @ rest) input out fs =
      rbind (redirections (ws @ rest) input out fs) (\<lambda>(words, i, r). Inr (w # words, i, r))"
    by (simp add: plain_def)
  then show ?case using Cons by (cases "redirections rest input out fs") (simp_all add: case_prod_beta del: redirections.simps)
qed

section \<open>Programs\<close>

definition installed :: "ramfs \<Rightarrow> program_id \<Rightarrow> bool" where
  "installed fs p \<longleftrightarrow> (\<exists>img e. fs_read (''/bin/'' @ program_name p) fs = Inr img \<and> elf_parse img = Inr (Inr e) \<and> elf_program e = p)"

lemma load_program_installed: "installed fs p \<Longrightarrow> load_program (program_name p) fs = Inr (Inr p)"
  by (auto simp: installed_def load_program_def from_name_name)

lemma installed_keeps:
  "installed fs p \<Longrightarrow> fs_read (''/bin/'' @ program_name p) fs' = fs_read (''/bin/'' @ program_name p) fs \<Longrightarrow> installed fs' p"
  by (simp add: installed_def)

lemma program_word: "word_ok (program_name p)" "plain (program_name p)"
  by (cases p; simp add: word_ok_def plain_def is_space_def)+

lemma run_echo:
  assumes "installed fs Echo" "\<forall>w\<in>set ws. word_ok w \<and> plain w" "word_ok path"
  shows "run_command (unwords (''echo'' # ws @ [if app then ''>>'' else ''>'', path])) stdin fs =
    Inr (fs_command (if app then fs_append path (str_bytes (unwords ws @ [CHR 0x0A]))
      else fs_write path (str_bytes (unwords ws @ [CHR 0x0A]))) fs)"
proof -
  have e: "word_ok ''echo''" "plain ''echo''" using program_word [of Echo] by simp_all
  have "\<forall>w\<in>set (''echo'' # ws @ [if app then ''>>'' else ''>'', path]). word_ok w"
    using assms(2,3) e(1) by (auto simp: word_ok_def is_space_def)
  then have w: "split_whitespace (unwords (''echo'' # ws @ [if app then ''>>'' else ''>'', path])) =
      (''echo'' # ws) @ [if app then ''>>'' else ''>'', path]"
    by (simp only: split_unwords append_Cons)
  have "redirections ((''echo'' # ws) @ [if app then ''>>'' else ''>'', path]) stdin None fs = Inr (''echo'' # ws, stdin, Some (path, app))"
    using redirections_plain [of "''echo'' # ws"] assms(2) e(2) by simp
  moreover have "load_program ''echo'' fs = Inr (Inr Echo)" using load_program_installed [OF assms(1)] by simp
  ultimately show ?thesis
    unfolding run_command_def w Let_def
    by (simp add: dispatch_command_def cmd_echo_def output_stdout_def del: redirections.simps)
qed

lemma run_cat:
  assumes "installed fs Cat" "ps \<noteq> []" "\<forall>w\<in>set ps. word_ok w \<and> plain w"
  shows "run_command (unwords (''cat'' # ps)) stdin fs = Inr (rbind (cat_files ps fs) (\<lambda>out. Inr (output_stdout out)), fs)"
proof -
  have e: "word_ok ''cat''" "plain ''cat''" using program_word [of Cat] by simp_all
  have w: "split_whitespace (unwords (''cat'' # ps)) = ''cat'' # ps" by (rule split_unwords) (use assms(3) e(1) in simp)
  have "redirections (''cat'' # ps) stdin None fs = Inr (''cat'' # ps, stdin, None)"
    using redirections_plain [of "''cat'' # ps" "[]"] assms(3) e(2) by simp
  moreover have "load_program ''cat'' fs = Inr (Inr Cat)" using load_program_installed [OF assms(1)] by simp
  ultimately show ?thesis
    unfolding run_command_def w Let_def using assms(2)
    by (cases "cat_files ps fs") (simp_all add: dispatch_command_def cmd_cat_def del: redirections.simps)
qed

section \<open>Properties\<close>

text \<open>C34: output redirection through the whole shell.  With the programs installed, the line
  \<^verbatim>\<open>echo w1 ... wn > path\<close> (or \<^verbatim>\<open>>> path\<close>) for a path that can be written prints nothing and changes
  only that file; \<^verbatim>\<open>cat path\<close> then prints the words with single spaces and a newline, after the
  previous contents of the file when it was appended to.\<close>

theorem echo_redirect_cat:
  assumes "installed fs Echo" "installed fs Cat" "\<forall>w\<in>set ws. word_ok w \<and> plain w" "word_ok path" "plain path"
    and "split_path path = Inr parts" "parts \<noteq> [''bin'', ''cat'']"
    and "fst (if app then fs_append path msg fs else fs_write path msg fs) = Inr ()"
    and "msg = str_bytes (unwords ws @ [CHR 0x0A])"
  shows "\<exists>fs'. run_command (unwords (''echo'' # ws @ [if app then ''>>'' else ''>'', path])) stdin fs = Inr (Inr output_empty, fs') \<and>
    run_command (unwords [''cat'', path]) stdin fs' =
      Inr (Inr (output_stdout ((if app then (case fs_file fs path of None \<Rightarrow> [] | Some d \<Rightarrow> d) else []) @ msg)), fs') \<and>
    (\<forall>q. \<not> same_path path q \<longrightarrow> fs_file fs' q = fs_file fs q)"
proof -
  define f where "f = (if app then fs_append path msg else fs_write path msg)"
  obtain fs' where f: "f fs = (Inr (), fs')" using assms(8) unfolding f_def by (cases app) (auto simp: prod_eq_iff)
  have run: "run_command (unwords (''echo'' # ws @ [if app then ''>>'' else ''>'', path])) stdin fs = Inr (Inr output_empty, fs')"
    unfolding run_echo [OF assms(1,3,4)] assms(9) [symmetric] f_def [symmetric] by (simp add: fs_command_def f)
  have eff: "fs_file fs' q = (if same_path path q then Some ((if app then (case fs_file fs path of None \<Rightarrow> [] | Some d \<Rightarrow> d) else []) @ msg)
      else fs_file fs q)" for q
    using f ram.ap_ok [of path msg fs "()" fs' q] ram.wr_ok [of path msg fs "()" fs' q] by (cases app) (simp_all add: f_def)
  have "\<not> same_path path (''/bin/'' @ program_name Cat)"
    using assms(6,7) bin_path [of Cat] by (simp add: same_path_def)
  then have "fs_file fs' (''/bin/'' @ program_name Cat) = fs_file fs (''/bin/'' @ program_name Cat)" using eff by simp
  then have "installed fs' Cat" using assms(2) by (auto simp: installed_def ram.rd_file)
  moreover have "fs_read path fs' = Inr ((if app then (case fs_file fs path of None \<Rightarrow> [] | Some d \<Rightarrow> d) else []) @ msg)"
    by (simp add: ram.rd_file eff ram.same_refl)
  ultimately have "run_command (unwords [''cat'', path]) stdin fs' =
      Inr (Inr (output_stdout ((if app then (case fs_file fs path of None \<Rightarrow> [] | Some d \<Rightarrow> d) else []) @ msg)), fs')"
    using run_cat [of fs' "[path]"] assms(4,5) by (simp add: map_err_def)
  then show ?thesis using run eff by auto
qed

theorem echo_redirect_cat_witness:
  "\<exists>fs0 fs fs'. ramfs_new = Inr fs0 \<and> install_programs fs0 = Inr fs \<and>
     run_command ''echo hello world > /tmp/x'' [] fs = Inr (Inr output_empty, fs') \<and>
     run_command ''cat /tmp/x'' [] fs' = Inr (Inr (output_stdout (str_bytes (''hello world'' @ [CHR 0x0A]))), fs')"
proof -
  have v: "view demo_fs [''bin''] = Some KDir" "\<forall>p. view demo_fs [''bin'', program_name p] \<noteq> Some KDir"
    by (simp_all add: view_def node_view_def demo_fs_def)
  have new: "ramfs_new = Inr demo_fs" by (simp add: ramfs_new_eq demo_fs_def)
  obtain fs where fs: "install_programs demo_fs = Inr fs"
    "\<forall>p. \<exists>img e. fs_read (''/bin/'' @ program_name p) fs = Inr img \<and> elf_parse img = Inr (Inr e) \<and> elf_program e = p"
    "\<forall>q. (\<nexists>p. q = [''bin'', program_name p]) \<longrightarrow> view fs q = view demo_fs q"
    using install_programs_all [OF v] by (elim exE conjE) (rule that, assumption, metis, assumption)
  then have inst: "installed fs p" for p by (simp add: installed_def)
  have path: "split_path ''/tmp/x'' = Inr [''tmp'', ''x'']" by (simp add: split_path_def)
  have "view fs [''tmp''] = Some KDir" "view fs [''tmp'', ''x''] = None"
    using fs(3) by (simp_all add: view_def node_view_def demo_fs_def)
  then have w: "fst (fs_write ''/tmp/x'' d fs) = Inr ()" for d
    using fs_write_result(2) [OF path, of d fs]
    by (cases "fs_write ''/tmp/x'' d fs"; cases "fst (fs_write ''/tmp/x'' d fs)") (auto simp: writable_def)
  have ok: "word_ok ''hello''" "word_ok ''world''" "word_ok ''/tmp/x''" "plain ''hello''" "plain ''world''" "plain ''/tmp/x''"
    by (simp_all add: word_ok_def plain_def is_space_def)
  show ?thesis
    using echo_redirect_cat [OF inst inst _ ok(3,6) path, where ws = "[''hello'', ''world'']" and app = False and stdin = "[]"]
      ok w new fs(1) by fastforce
qed

end
