(* ===== verification/Stdio.thy ===== *)
theory Stdio
  imports Prelude
begin

text \<open>
  src/src/stdio.rs: the serial console.  The UART is the device the port instructions talk to: it
  answers reads of the line status and data registers and records what is written.  \<open>busy\<close> is the
  number of status reads until the transmitter is empty again after a byte, bounded by \<open>latency\<close>.
  The receive ring buffer drops its oldest byte when it is full.
\<close>

unbundle bit_operations_syntax

section \<open>The device\<close>

abbreviation COM1_DATA :: u16 where "COM1_DATA \<equiv> 0x3F8"
abbreviation COM1_IER :: u16 where "COM1_IER \<equiv> 0x3F9"
abbreviation COM1_FCR :: u16 where "COM1_FCR \<equiv> 0x3FA"
abbreviation COM1_LCR :: u16 where "COM1_LCR \<equiv> 0x3FB"
abbreviation COM1_MCR :: u16 where "COM1_MCR \<equiv> 0x3FC"
abbreviation COM1_LSR :: u16 where "COM1_LSR \<equiv> 0x3FD"
abbreviation LSR_DATA_READY :: u8 where "LSR_DATA_READY \<equiv> 0x01"
abbreviation LSR_THRE :: u8 where "LSR_THRE \<equiv> 0x20"

record uart =
  rx :: "byte list"
  tx :: "byte list"
  busy :: nat
  latency :: nat
  ier :: u8
  lcr :: u8
  fcr :: u8
  mcr :: u8
  divisor_low :: u8
  divisor_high :: u8

text \<open>A 16550: bit 7 of the line control register selects the divisor latch behind the first two
  ports, bit 1 of the FIFO control register clears the receive queue.\<close>

definition uart_out :: "u16 \<Rightarrow> u8 \<Rightarrow> uart \<Rightarrow> uart" where
  "uart_out port v u =
     (if port = COM1_DATA then (if bit (lcr u) 7 then u\<lparr>divisor_low := v\<rparr> else u\<lparr>tx := tx u @ [v], busy := latency u\<rparr>)
      else if port = COM1_IER then (if bit (lcr u) 7 then u\<lparr>divisor_high := v\<rparr> else u\<lparr>ier := v\<rparr>)
      else if port = COM1_FCR then u\<lparr>fcr := v, rx := (if bit v 1 then [] else rx u)\<rparr>
      else if port = COM1_LCR then u\<lparr>lcr := v\<rparr>
      else if port = COM1_MCR then u\<lparr>mcr := v\<rparr> else u)"

definition uart_status :: "uart \<Rightarrow> u8 \<times> uart" where
  "uart_status u = ((if rx u \<noteq> [] then LSR_DATA_READY else 0) OR (if busy u = 0 then LSR_THRE else 0), u\<lparr>busy := busy u - 1\<rparr>)"

definition uart_data :: "uart \<Rightarrow> u8 \<times> uart" where
  "uart_data u = (case rx u of [] \<Rightarrow> (0, u) | b # bs \<Rightarrow> (b, u\<lparr>rx := bs\<rparr>))"

section \<open>The ring buffer\<close>

abbreviation SERIAL_INPUT_CAPACITY :: nat where "SERIAL_INPUT_CAPACITY \<equiv> 256"

record serial_input =
  buf :: "byte list"
  head :: usize
  tail :: usize

definition serial_input_new :: serial_input where
  "serial_input_new = \<lparr>buf = replicate SERIAL_INPUT_CAPACITY 0, head = 0, tail = 0\<rparr>"

definition serial_push :: "byte \<Rightarrow> serial_input \<Rightarrow> serial_input run" where
  "serial_push b q =
     rbind (add_usize (tail q) 1) (\<lambda>t.
     let nxt = t mod SERIAL_INPUT_CAPACITY in
     rbind (if nxt = head q then rbind (add_usize (head q) 1) (\<lambda>h. Inr (q\<lparr>head := h mod SERIAL_INPUT_CAPACITY\<rparr>)) else Inr q) (\<lambda>q.
     rbind (guard (tail q < length (buf q)) OutOfBounds) (\<lambda>_.
     Inr (q\<lparr>buf := (buf q)[tail q := b], tail := nxt\<rparr>))))"

definition serial_pop :: "serial_input \<Rightarrow> (byte option \<times> serial_input) run" where
  "serial_pop q =
     (if head q = tail q then Inr (None, q)
      else rbind (guard (head q < length (buf q)) OutOfBounds) (\<lambda>_.
        rbind (add_usize (head q) 1) (\<lambda>h.
        Inr (Some (buf q ! head q), q\<lparr>head := h mod SERIAL_INPUT_CAPACITY\<rparr>))))"

section \<open>Console\<close>

datatype log_level = LogDebug | LogInfo | LogWarning | LogError

primrec level_num :: "log_level \<Rightarrow> usize" where
  "level_num LogDebug = 0"
| "level_num LogInfo = 1"
| "level_num LogWarning = 2"
| "level_num LogError = 3"

record console =
  CURRENT_LEVEL :: log_level
  SERIAL_INPUT :: serial_input
  com1 :: uart

definition should_print :: "log_level \<Rightarrow> console \<Rightarrow> bool" where
  "should_print level c = (level_num level \<ge> level_num (CURRENT_LEVEL c))"

text \<open>Waiting for the transmitter reads the status until the device reports it empty.\<close>

function wait_thre :: "uart \<Rightarrow> uart" where
  "wait_thre u = (let (lsr, u') = uart_status u in if lsr AND LSR_THRE \<noteq> 0 then u' else wait_thre u')"
  by pat_completeness auto

termination
  by (relation "measure busy") (auto simp: uart_status_def split: if_splits)

definition serial_putc :: "byte \<Rightarrow> uart \<Rightarrow> uart" where
  "serial_putc c u = uart_out COM1_DATA c (wait_thre u)"

fun serial_write :: "byte list \<Rightarrow> uart \<Rightarrow> uart" where
  "serial_write [] u = u"
| "serial_write (c # cs) u = serial_write cs (serial_putc c u)"

fun serial_puts :: "byte list \<Rightarrow> uart \<Rightarrow> uart" where
  "serial_puts [] u = u"
| "serial_puts (c # cs) u = (if c = 0 then u else serial_puts cs (serial_putc c u))"

definition level_prefix :: "log_level \<Rightarrow> string" where
  "level_prefix level = (case level of LogError \<Rightarrow> ''[ERROR] '' | LogWarning \<Rightarrow> ''[WARN]  ''
     | LogInfo \<Rightarrow> ''[INFO]  '' | LogDebug \<Rightarrow> ''[DEBUG] '')"

text \<open>\<open>pieces\<close> are the strings the formatter passes to \<^verbatim>\<open>write_str\<close>, one call each.\<close>

fun puts_all :: "byte list list \<Rightarrow> uart \<Rightarrow> uart" where
  "puts_all [] u = u"
| "puts_all (p # ps) u = puts_all ps (serial_puts p u)"

definition printk :: "log_level \<Rightarrow> byte list list \<Rightarrow> console \<Rightarrow> console" where
  "printk level pieces c =
     (if \<not> should_print level c then c
      else c\<lparr>com1 := serial_puts [10] (puts_all pieces (serial_puts (map of_char (level_prefix level)) (com1 c)))\<rparr>)"

text \<open>Draining and receiving read the status before every byte.\<close>

lemma uart_status_ready: "fst (uart_status u) AND LSR_DATA_READY \<noteq> 0 \<longleftrightarrow> rx u \<noteq> []"
  by (simp add: uart_status_def)

lemma uart_status_simps [simp]:
  "rx (snd (uart_status u)) = rx u" "tx (snd (uart_status u)) = tx u" "latency (snd (uart_status u)) = latency u"
  "ier (snd (uart_status u)) = ier u" "lcr (snd (uart_status u)) = lcr u" "mcr (snd (uart_status u)) = mcr u"
  "fcr (snd (uart_status u)) = fcr u" "divisor_low (snd (uart_status u)) = divisor_low u"
  "divisor_high (snd (uart_status u)) = divisor_high u"
  by (simp_all add: uart_status_def)

function drain :: "uart \<Rightarrow> uart" where
  "drain u = (if fst (uart_status u) AND LSR_DATA_READY \<noteq> 0 then drain (snd (uart_data (snd (uart_status u)))) else snd (uart_status u))"
  by pat_completeness auto
termination
  by (relation "measure (\<lambda>u. length (rx u))") (auto simp: uart_status_def uart_data_def split: list.splits if_splits)

function receive :: "uart \<Rightarrow> serial_input \<Rightarrow> (uart \<times> serial_input) run" where
  "receive u q =
     (if fst (uart_status u) AND LSR_DATA_READY \<noteq> 0
      then rbind (serial_push (fst (uart_data (snd (uart_status u)))) q) (receive (snd (uart_data (snd (uart_status u)))))
      else Inr (snd (uart_status u), q))"
  by pat_completeness auto
termination
  by (relation "measure (\<lambda>(u, q). length (rx u))") (auto simp: uart_status_def uart_data_def split: list.splits if_splits)

definition init_serial_interrupts :: "console \<Rightarrow> console" where
  "init_serial_interrupts c =
     (let u = com1 c;
          u = uart_out COM1_IER 0x00 u;
          u = uart_out COM1_LCR 0x80 u;
          u = uart_out COM1_DATA 0x01 u;
          u = uart_out COM1_IER 0x00 u;
          u = uart_out COM1_LCR 0x03 u;
          u = uart_out COM1_FCR 0xC7 u;
          u = uart_out COM1_MCR 0x0B u;
          u = uart_out COM1_IER 0x01 u
      in c\<lparr>com1 := drain u\<rparr>)"

definition handle_serial_rx_interrupt :: "console \<Rightarrow> console run" where
  "handle_serial_rx_interrupt c =
     rbind (receive (com1 c) (SERIAL_INPUT c)) (\<lambda>(u, q). Inr (c\<lparr>com1 := u, SERIAL_INPUT := q\<rparr>))"

definition read_serial_byte :: "console \<Rightarrow> (byte option \<times> console) run" where
  "read_serial_byte c = rbind (serial_pop (SERIAL_INPUT c)) (\<lambda>(r, q). Inr (r, c\<lparr>SERIAL_INPUT := q\<rparr>))"

declare drain.simps [simp del] receive.simps [simp del] wait_thre.simps [simp del]

section \<open>A queue that drops its oldest element\<close>

locale lossy_queue =
  fixes inv :: "'q \<Rightarrow> bool"
    and contents :: "'q \<Rightarrow> 'a list"
    and cap :: nat
    and push :: "'a \<Rightarrow> 'q \<Rightarrow> 'q run"
    and pop :: "'q \<Rightarrow> ('a option \<times> 'q) run"
  assumes room: "0 < cap"
    and bounded: "inv q \<Longrightarrow> length (contents q) \<le> cap"
    and push_law: "inv q \<Longrightarrow> \<exists>q'. push a q = Inr q' \<and> inv q' \<and>
      contents q' = (if length (contents q) = cap then tl (contents q) else contents q) @ [a]"
    and pop_empty: "inv q \<Longrightarrow> contents q = [] \<Longrightarrow> pop q = Inr (None, q)"
    and pop_law: "inv q \<Longrightarrow> contents q = a # as \<Longrightarrow> \<exists>q'. pop q = Inr (Some a, q') \<and> inv q' \<and> contents q' = as"
begin

definition keep :: "'a list \<Rightarrow> 'a list" where
  "keep as = drop (length as - cap) as"

lemma keep_snoc: "keep (keep as @ [a]) = keep (as @ [a])"
  by (cases "cap \<le> length as") (simp_all add: keep_def Suc_diff_le)

lemma push_keep:
  assumes "inv q"
  shows "\<exists>q'. push a q = Inr q' \<and> inv q' \<and> contents q' = keep (contents q @ [a])"
proof -
  obtain q' where q': "push a q = Inr q'" "inv q'"
    "contents q' = (if length (contents q) = cap then tl (contents q) else contents q) @ [a]"
    using push_law [OF assms] by blast
  moreover have "(if length (contents q) = cap then tl (contents q) else contents q) @ [a] = keep (contents q @ [a])"
    using bounded [OF assms] room by (auto simp: keep_def drop_Suc)
  ultimately show ?thesis by simp
qed

fun push_all :: "'a list \<Rightarrow> 'q \<Rightarrow> 'q run" where
  "push_all [] q = Inr q"
| "push_all (a # as) q = rbind (push a q) (push_all as)"

fun pop_all :: "nat \<Rightarrow> 'q \<Rightarrow> ('a list \<times> 'q) run" where
  "pop_all 0 q = Inr ([], q)"
| "pop_all (Suc n) q = rbind (pop q) (\<lambda>(r, q). case r of None \<Rightarrow> Inr ([], q)
     | Some a \<Rightarrow> rbind (pop_all n q) (\<lambda>(as, q). Inr (a # as, q)))"

lemma keep_keep: "keep (keep as @ bs) = keep (as @ bs)"
proof (induction bs rule: rev_induct)
  case Nil then show ?case by (simp add: keep_def)
next
  case (snoc b bs)
  have "keep (keep as @ bs @ [b]) = keep (keep (keep as @ bs) @ [b])" by (simp add: keep_snoc)
  then show ?case using snoc by (simp add: keep_snoc)
qed

lemma push_all_keep:
  assumes "inv q"
  shows "\<exists>q'. push_all as q = Inr q' \<and> inv q' \<and> contents q' = keep (contents q @ as)"
  using assms
proof (induction as arbitrary: q)
  case Nil then show ?case using bounded [of q] by (simp add: keep_def)
next
  case (Cons a as)
  obtain q1 where q1: "push a q = Inr q1" "inv q1" "contents q1 = keep (contents q @ [a])"
    using push_keep [OF Cons.prems] by blast
  obtain q2 where "push_all as q1 = Inr q2" "inv q2" "contents q2 = keep (contents q1 @ as)"
    using Cons.IH [OF q1(2)] by blast
  then show ?case using q1 by (simp add: keep_keep)
qed

lemma pop_all_contents:
  assumes "inv q" "length (contents q) \<le> n"
  shows "\<exists>q'. pop_all n q = Inr (contents q, q') \<and> inv q' \<and> contents q' = []"
  using assms
proof (induction n arbitrary: q)
  case 0 then show ?case by simp
next
  case (Suc n)
  show ?case
  proof (cases "contents q")
    case Nil then show ?thesis using pop_empty Suc.prems(1) by simp
  next
    case (Cons a as)
    obtain q1 where q1: "pop q = Inr (Some a, q1)" "inv q1" "contents q1 = as" using pop_law [OF Suc.prems(1) Cons] by blast
    then obtain q2 where "pop_all n q1 = Inr (as, q2)" "inv q2" "contents q2 = []"
      using Suc.IH [OF q1(2)] Suc.prems(2) Cons by auto
    then show ?thesis using q1 Cons by simp
  qed
qed

end

definition ring_inv :: "serial_input \<Rightarrow> bool" where
  "ring_inv q \<longleftrightarrow> length (buf q) = SERIAL_INPUT_CAPACITY \<and> head q < SERIAL_INPUT_CAPACITY \<and> tail q < SERIAL_INPUT_CAPACITY"

definition ring_length :: "serial_input \<Rightarrow> nat" where
  "ring_length q = (tail q + SERIAL_INPUT_CAPACITY - head q) mod SERIAL_INPUT_CAPACITY"

definition ring_contents :: "serial_input \<Rightarrow> byte list" where
  "ring_contents q = map (\<lambda>i. buf q ! ((head q + i) mod SERIAL_INPUT_CAPACITY)) [0..<ring_length q]"

lemma length_ring_contents [simp]: "length (ring_contents q) = ring_length q"
  by (simp add: ring_contents_def)

lemma ring_length_less: "ring_length q < SERIAL_INPUT_CAPACITY"
  by (simp add: ring_length_def)

lemma ring_next:
  assumes "h < 256" "t < (256 :: nat)"
  shows "(t + 1) mod 256 = h \<longleftrightarrow> (t + 256 - h) mod 256 = 255"
    "(t + 1) mod 256 \<noteq> h \<Longrightarrow> ((t + 1) mod 256 + 256 - h) mod 256 = (t + 256 - h) mod 256 + 1"
    "h \<noteq> t \<Longrightarrow> (t + 256 - (h + 1) mod 256) mod 256 + 1 = (t + 256 - h) mod 256"
    "(h + (t + 256 - h) mod 256) mod 256 = t"
  using assms by (cases "h \<le> t"; cases "t = 255"; cases "h = 255"; auto simp: mod_if split: if_splits)+

lemma ring_slot:
  assumes "i < n" "n < 256" "h < 256"
  shows "(h + i) mod 256 \<noteq> (h + n) mod (256 :: nat)"
proof
  assume "(h + i) mod 256 = (h + n) mod 256"
  then have "(n - i) mod 256 = 0" using mod_eq_dvd_iff_nat [of "h + i" "h + n" 256] assms(1) by auto
  then show False using assms by simp
qed

lemma ring_push_room:
  assumes inv: "ring_inv q" and room: "(tail q + 1) mod SERIAL_INPUT_CAPACITY \<noteq> head q"
  shows "ring_contents (q\<lparr>buf := (buf q)[tail q := b], tail := (tail q + 1) mod SERIAL_INPUT_CAPACITY\<rparr>) = ring_contents q @ [b]"
proof -
  let ?q = "q\<lparr>buf := (buf q)[tail q := b], tail := (tail q + 1) mod SERIAL_INPUT_CAPACITY\<rparr>"
  have i: "head q < 256" "tail q < 256" "length (buf q) = 256" using inv by (simp_all add: ring_inv_def)
  have len: "ring_length ?q = ring_length q + 1" using ring_next(2) [OF i(1,2) room] by (simp add: ring_length_def)
  have t: "(head q + ring_length q) mod 256 = tail q" using ring_next(4) [OF i(1,2)] by (simp add: ring_length_def)
  have old: "(buf q)[tail q := b] ! ((head q + k) mod 256) = buf q ! ((head q + k) mod 256)" if "k < ring_length q" for k
    using ring_slot [OF that ring_length_less i(1)] t by simp
  have "ring_contents ?q = map (\<lambda>k. (buf q)[tail q := b] ! ((head q + k) mod 256)) [0..<ring_length q + 1]"
    unfolding ring_contents_def len by simp
  also have "\<dots> = ring_contents q @ [b]" using t i(2,3) old by (simp add: ring_contents_def)
  finally show ?thesis .
qed

lemma ring_drop_head:
  assumes inv: "ring_inv q" and ne: "head q \<noteq> tail q"
  shows "ring_contents q = buf q ! head q # ring_contents (q\<lparr>head := (head q + 1) mod SERIAL_INPUT_CAPACITY\<rparr>)"
proof -
  let ?q = "q\<lparr>head := (head q + 1) mod SERIAL_INPUT_CAPACITY\<rparr>"
  have i: "head q < 256" "tail q < 256" using inv by (simp_all add: ring_inv_def)
  have len: "ring_length q = Suc (ring_length ?q)" using ring_next(3) [OF i ne] by (simp add: ring_length_def)
  have "[0..<ring_length q] = 0 # map Suc [0..<ring_length ?q]" unfolding len by (simp add: upt_conv_Cons map_Suc_upt del: upt_Suc)
  moreover have "(head q + Suc k) mod 256 = ((head q + 1) mod 256 + k) mod 256" for k by (simp add: mod_add_left_eq)
  ultimately show ?thesis using i(1) by (simp add: ring_contents_def)
qed

lemma ring_contents_Nil: "ring_inv q \<Longrightarrow> ring_contents q = [] \<longleftrightarrow> head q = tail q"
  using ring_drop_head [of q] by (cases "head q = tail q") (simp_all add: ring_contents_def ring_length_def)

interpretation ring: lossy_queue ring_inv ring_contents 255 serial_push serial_pop
proof (unfold_locales, goal_cases)
  case (2 q) then show ?case using ring_length_less [of q] by simp
next
  case (3 q a)
  have i: "head q < 256" "tail q < 256" "length (buf q) = 256" using 3 by (simp_all add: ring_inv_def)
  show ?case
  proof (cases "(tail q + 1) mod 256 = head q")
    case True
    let ?p = "q\<lparr>head := (head q + 1) mod SERIAL_INPUT_CAPACITY\<rparr>"
    have full: "length (ring_contents q) = 255" using ring_next(1) [OF i(1,2)] True by (simp add: ring_length_def)
    then have ne: "head q \<noteq> tail q" using ring_contents_Nil [OF 3] by (metis list.size(3) zero_neq_numeral)
    have p: "ring_inv ?p" using 3 by (simp add: ring_inv_def)
    have room: "(tail ?p + 1) mod SERIAL_INPUT_CAPACITY \<noteq> head ?p"
      using True i by (cases "head q = 255") (auto simp: mod_if split: if_splits)
    have run: "serial_push a q = Inr (?p\<lparr>buf := (buf ?p)[tail ?p := a], tail := (tail ?p + 1) mod SERIAL_INPUT_CAPACITY\<rparr>)"
      using True i by (simp add: serial_push_def run_simps USIZE_MAX_def guard_def Let_def)
    show ?thesis using run ring_push_room [OF p room, of a] ring_drop_head [OF 3 ne] full p by (simp add: ring_inv_def)
  next
    case False
    then have run: "serial_push a q = Inr (q\<lparr>buf := (buf q)[tail q := a], tail := (tail q + 1) mod SERIAL_INPUT_CAPACITY\<rparr>)"
      using i by (simp add: serial_push_def run_simps USIZE_MAX_def guard_def Let_def)
    have "length (ring_contents q) \<noteq> 255" using ring_next(1) [OF i(1,2)] False by (simp add: ring_length_def)
    then show ?thesis using run ring_push_room [OF 3 False, of a] 3 by (simp add: ring_inv_def)
  qed
next
  case (4 q) then show ?case using ring_contents_Nil [of q] by (simp add: serial_pop_def)
next
  case (5 q a as)
  have ne: "head q \<noteq> tail q" using ring_contents_Nil [OF 5(1)] 5(2) by simp
  then show ?case
    using ring_drop_head [OF 5(1) ne] 5 by (simp add: serial_pop_def ring_inv_def run_simps USIZE_MAX_def guard_def)
qed simp

section \<open>Receiving and printing\<close>

text \<open>A reader that polls \<^verbatim>\<open>read_serial_byte\<close> until it is empty or \<open>n\<close> bytes have been read.\<close>

fun read_bytes :: "nat \<Rightarrow> console \<Rightarrow> (byte list \<times> console) run" where
  "read_bytes 0 c = Inr ([], c)"
| "read_bytes (Suc n) c = rbind (read_serial_byte c) (\<lambda>(r, c). case r of None \<Rightarrow> Inr ([], c)
     | Some b \<Rightarrow> rbind (read_bytes n c) (\<lambda>(bs, c). Inr (b # bs, c)))"

lemma read_bytes_pop_all:
  "read_bytes n c = rbind (ring.pop_all n (SERIAL_INPUT c)) (\<lambda>(bs, q). Inr (bs, c\<lparr>SERIAL_INPUT := q\<rparr>))"
proof (induction n arbitrary: c)
  case (Suc n)
  show ?case
    by (cases "serial_pop (SERIAL_INPUT c)")
      (auto simp: read_serial_byte_def Suc rbind_assoc split: option.splits intro!: rbind_cong)
qed simp

lemma receive_push_all:
  "\<exists>u'. rx u' = [] \<and> tx u' = tx u \<and> receive u q = rbind (ring.push_all (rx u) q) (\<lambda>q. Inr (u', q))"
proof (induction "rx u" arbitrary: u q)
  case Nil
  then have "rx u = []" by simp
  then have "receive u q = Inr (snd (uart_status u), q)"
    by (subst receive.simps) (simp add: uart_status_ready)
  then show ?case using \<open>rx u = []\<close> by (intro exI [of _ "snd (uart_status u)"]) simp
next
  case (Cons b bs)
  define v where "v = (snd (uart_status u))\<lparr>rx := bs\<rparr>"
  have d: "uart_data (snd (uart_status u)) = (b, v)" using Cons(2) [symmetric] by (simp add: uart_data_def v_def)
  have ne: "rx u \<noteq> []" using Cons(2) by (metis list.distinct(1))
  have run: "receive u q = rbind (serial_push b q) (receive v)" by (subst receive.simps) (simp only: uart_status_ready ne d fst_conv snd_conv if_True not_False_eq_True)
  show ?case
  proof (cases "serial_push b q")
    case (Inl e)
    then have "receive u q = rbind (ring.push_all (rx u) q) (\<lambda>q. Inr (v\<lparr>rx := []\<rparr>, q))"
      using run by (simp add: Cons(2) [symmetric])
    then show ?thesis by (intro exI [of _ "v\<lparr>rx := []\<rparr>"]) (simp add: v_def)
  next
    case (Inr q1)
    obtain u' where "rx u' = []" "tx u' = tx v" "receive v q1 = rbind (ring.push_all bs q1) (\<lambda>q. Inr (u', q))"
      using Cons(1) [of v q1] by (auto simp: v_def)
    then show ?thesis using Inr run by (intro exI [of _ u']) (simp add: Cons(2) [symmetric] v_def)
  qed
qed

lemma wait_thre_simps [simp]:
  "tx (wait_thre u) = tx u" "lcr (wait_thre u) = lcr u" "rx (wait_thre u) = rx u" "latency (wait_thre u) = latency u"
proof (induction u rule: wait_thre.induct)
  case (1 u)
  { case 1 show ?case using "1.IH"(1) [OF refl prod.collapse] by (subst wait_thre.simps) (simp add: Let_def case_prod_beta)
  next case 2 show ?case using "1.IH"(2) [OF refl prod.collapse] by (subst wait_thre.simps) (simp add: Let_def case_prod_beta)
  next case 3 show ?case using "1.IH"(3) [OF refl prod.collapse] by (subst wait_thre.simps) (simp add: Let_def case_prod_beta)
  next case 4 show ?case using "1.IH"(4) [OF refl prod.collapse] by (subst wait_thre.simps) (simp add: Let_def case_prod_beta) }
qed

lemma serial_putc_simps [simp]:
  assumes "\<not> bit (lcr u) 7"
  shows "tx (serial_putc c u) = tx u @ [c]" "lcr (serial_putc c u) = lcr u" "rx (serial_putc c u) = rx u"
  using assms by (simp_all add: serial_putc_def uart_out_def)

lemma serial_write_simps:
  "\<not> bit (lcr u) 7 \<Longrightarrow> tx (serial_write bs u) = tx u @ bs \<and> lcr (serial_write bs u) = lcr u"
  by (induction bs u rule: serial_write.induct) simp_all

lemma serial_puts_simps:
  "\<not> bit (lcr u) 7 \<Longrightarrow> tx (serial_puts bs u) = tx u @ takeWhile (\<lambda>b. b \<noteq> 0) bs \<and> lcr (serial_puts bs u) = lcr u"
  by (induction bs u rule: serial_puts.induct) simp_all

lemma puts_all_simps:
  "\<not> bit (lcr u) 7 \<Longrightarrow> tx (puts_all ps u) = tx u @ concat (map (takeWhile (\<lambda>b. b \<noteq> 0)) ps) \<and> lcr (puts_all ps u) = lcr u"
  by (induction ps u rule: puts_all.induct) (simp_all add: serial_puts_simps)

lemma drain_simps: "rx (drain u) = [] \<and> tx (drain u) = tx u \<and> lcr (drain u) = lcr u \<and> ier (drain u) = ier u \<and>
    mcr (drain u) = mcr u \<and> fcr (drain u) = fcr u \<and> divisor_low (drain u) = divisor_low u \<and> divisor_high (drain u) = divisor_high u"
proof (induction u rule: drain.induct)
  case (1 u)
  show ?case
  proof (cases "rx u")
    case Nil
    have "drain u = snd (uart_status u)" by (subst drain.simps) (simp only: uart_status_ready Nil if_False simp_thms)
    then show ?thesis using Nil by simp
  next
    case (Cons b bs)
    have "drain u = drain (snd (uart_data (snd (uart_status u))))"
      by (subst drain.simps) (simp only: uart_status_ready Cons if_True simp_thms list.distinct)
    then show ?thesis using 1 Cons by (simp add: uart_status_ready uart_data_def)
  qed
qed

lemma printk_output:
  assumes "\<not> bit (lcr (com1 c)) 7"
  shows "tx (com1 (printk level pieces c)) = tx (com1 c) @ (if level_num level < level_num (CURRENT_LEVEL c) then []
      else map of_char (level_prefix level) @ concat (map (takeWhile (\<lambda>b. b \<noteq> 0)) pieces) @ [10])"
proof -
  have "takeWhile (\<lambda>b. b \<noteq> 0) (map of_char (level_prefix level)) = (map of_char (level_prefix level) :: byte list)"
    by (cases level) (simp_all add: level_prefix_def)
  then show ?thesis using assms by (simp add: printk_def should_print_def serial_puts_simps puts_all_simps)
qed

lemma init_serial_interrupts_programs:
  "let u = com1 (init_serial_interrupts c) in ier u = 1 \<and> lcr u = 3 \<and> mcr u = 0x0B \<and> divisor_low u = 1 \<and> divisor_high u = 0 \<and>
     rx u = [] \<and> \<not> bit (lcr u) 7"
  by (simp add: init_serial_interrupts_def drain_simps uart_out_def Let_def)

section \<open>Properties\<close>

text \<open>C30: the serial receive path is a queue of the latest 255 bytes.  A receive interrupt never panics and
  empties the device; reading afterwards delivers, in order and exactly once, the bytes that were
  already queued followed by the received ones, less the oldest when there are more than 255.\<close>

theorem serial_input_keeps_latest:
  assumes "ring_inv (SERIAL_INPUT c)"
  shows "\<exists>c' c''. handle_serial_rx_interrupt c = Inr c' \<and> rx (com1 c') = [] \<and> ring_inv (SERIAL_INPUT c') \<and>
    (let received = ring_contents (SERIAL_INPUT c) @ rx (com1 c)
     in read_bytes SERIAL_INPUT_CAPACITY c' = Inr (drop (length received - 255) received, c'')) \<and>
    read_serial_byte c'' = Inr (None, c'')"
proof -
  obtain u' where u': "rx u' = []" "receive (com1 c) (SERIAL_INPUT c) = rbind (ring.push_all (rx (com1 c)) (SERIAL_INPUT c)) (\<lambda>q. Inr (u', q))"
    using receive_push_all by blast
  obtain q where q: "ring.push_all (rx (com1 c)) (SERIAL_INPUT c) = Inr q" "ring_inv q"
    "ring_contents q = ring.keep (ring_contents (SERIAL_INPUT c) @ rx (com1 c))"
    using ring.push_all_keep [OF assms] by blast
  obtain q' where q': "ring.pop_all SERIAL_INPUT_CAPACITY q = Inr (ring_contents q, q')" "ring_inv q'" "ring_contents q' = []"
    using ring.pop_all_contents [OF q(2), of SERIAL_INPUT_CAPACITY] ring_length_less [of q] by auto
  have "read_serial_byte (c\<lparr>com1 := u', SERIAL_INPUT := q'\<rparr>) = Inr (None, c\<lparr>com1 := u', SERIAL_INPUT := q'\<rparr>)"
    using ring.pop_empty [OF q'(2,3)] by (simp add: read_serial_byte_def)
  then show ?thesis
    using u' q q'(1) by (intro exI [of _ "c\<lparr>com1 := u', SERIAL_INPUT := q\<rparr>"] exI [of _ "c\<lparr>com1 := u', SERIAL_INPUT := q'\<rparr>"])
      (simp add: handle_serial_rx_interrupt_def read_bytes_pop_all ring.keep_def Let_def del: ring.pop_all.simps)
qed

abbreviation demo_console :: console where
  "demo_console \<equiv> \<lparr>CURRENT_LEVEL = LogInfo, SERIAL_INPUT = serial_input_new, com1 = \<lparr>rx = [104, 105], tx = [], busy = 3,
     latency = 3, ier = 1, lcr = 3, fcr = 0, mcr = 11, divisor_low = 1, divisor_high = 0\<rparr>\<rparr>"

theorem serial_input_keeps_latest_witness:
  "\<exists>c' c''. handle_serial_rx_interrupt demo_console = Inr c' \<and> read_bytes 256 c' = Inr ([104, 105], c'')"
proof -
  have "ring_inv (SERIAL_INPUT demo_console)" "ring_contents (SERIAL_INPUT demo_console) = []"
    by (simp_all add: ring_inv_def serial_input_new_def ring_contents_def ring_length_def)
  with serial_input_keeps_latest [of demo_console] show ?thesis by (auto simp: Let_def)
qed

end
