(* ===== verification/Trap.thy ===== *)
theory Trap
  imports Proc_System Stdio Format
begin

text \<open>
  src/src/trap.rs and src/src/trap/: segment and interrupt descriptors, the interrupt controllers, the
  timer and the interrupt handler.  The addresses of the assembly stubs, of the tables and of the
  static stacks are decided by the linker and are arguments here.  The two interrupt controllers are
  the 8259 devices behind the port instructions: each takes its initialisation words in order after
  the first one, and after that a write to its data port sets the interrupt mask and a read returns it.
\<close>

unbundle bit_operations_syntax

section \<open>Global descriptor table and task state segment\<close>

abbreviation KERNEL_CODE_SELECTOR :: u16 where "KERNEL_CODE_SELECTOR \<equiv> 0x08"
abbreviation KERNEL_DATA_SELECTOR :: u16 where "KERNEL_DATA_SELECTOR \<equiv> 0x10"
abbreviation TSS_SELECTOR :: u16 where "TSS_SELECTOR \<equiv> 0x28"
abbreviation DOUBLE_FAULT_IST_INDEX :: u8 where "DOUBLE_FAULT_IST_INDEX \<equiv> 1"
abbreviation STACK_SIZE :: usize where "STACK_SIZE \<equiv> 16384"
abbreviation TSS_SIZE :: nat where "TSS_SIZE \<equiv> 104"

definition segment_descriptor :: "u8 \<Rightarrow> u8 \<Rightarrow> u64" where
  "segment_descriptor access fl =
     (let limit = 0x000FFFFF :: u64 in
      (limit AND 0xFFFF) OR push_bit 40 (ucast access) OR push_bit 48 (drop_bit 16 limit AND 0xF) OR push_bit 52 (ucast fl))"

definition tss_descriptor :: "u64 \<Rightarrow> u32 \<Rightarrow> u64 \<times> u64" where
  "tss_descriptor base limit =
     (let lim = ucast limit :: u64;
          low = (lim AND 0xFFFF) OR push_bit 16 (base AND 0xFFFFFF) OR push_bit 40 0x89 OR
                push_bit 48 (drop_bit 16 lim AND 0xF) OR push_bit 56 (drop_bit 24 base AND 0xFF);
          high = drop_bit 32 base
      in (low, high))"

record tss =
  tss_rsp :: "u64 list"
  tss_ist :: "u64 list"
  iomap_base :: u16

record descriptors =
  GDT :: "u64 list"
  TSS :: tss
  gdtr :: "(u16 \<times> u64) option"
  task_register :: "u16 option"
  data_segments :: "u16 option"

definition gdt_initial :: "u64 list" where
  "gdt_initial = [0, segment_descriptor 0x9A 0xA, segment_descriptor 0x92 0xC, segment_descriptor 0xF2 0xC,
     segment_descriptor 0xFA 0xA, 0, 0]"

definition tss_initial :: tss where
  "tss_initial = \<lparr>tss_rsp = replicate 3 0, tss_ist = replicate 7 0, iomap_base = of_nat TSS_SIZE\<rparr>"

definition stack_top :: "usize \<Rightarrow> usize run" where
  "stack_top stack = add_usize stack STACK_SIZE"

definition init_tss :: "usize \<Rightarrow> usize \<Rightarrow> descriptors \<Rightarrow> descriptors run" where
  "init_tss ring0_stack df_stack d =
     rbind (stack_top ring0_stack) (\<lambda>r0.
     rbind (stack_top df_stack) (\<lambda>df.
     Inr (d\<lparr>TSS := (TSS d)\<lparr>tss_rsp := (tss_rsp (TSS d))[0 := of_nat r0],
        tss_ist := (tss_ist (TSS d))[unat (DOUBLE_FAULT_IST_INDEX - 1) := of_nat df]\<rparr>\<rparr>)))"

definition init_tss_descriptor :: "u64 \<Rightarrow> descriptors \<Rightarrow> descriptors" where
  "init_tss_descriptor tss_base d =
     (let (low, high) = tss_descriptor tss_base (of_nat (TSS_SIZE - 1))
      in d\<lparr>GDT := (GDT d)[5 := low, 6 := high]\<rparr>)"

definition gdt_init :: "usize \<Rightarrow> usize \<Rightarrow> u64 \<Rightarrow> u64 \<Rightarrow> descriptors \<Rightarrow> descriptors run" where
  "gdt_init ring0_stack df_stack tss_base gdt_base d =
     rbind (init_tss ring0_stack df_stack d) (\<lambda>d.
     let d = init_tss_descriptor tss_base d;
         d = d\<lparr>gdtr := Some (of_nat (8 * 7 - 1), gdt_base)\<rparr>;
         d = d\<lparr>data_segments := Some KERNEL_DATA_SELECTOR\<rparr>
     in Inr (d\<lparr>task_register := Some TSS_SELECTOR\<rparr>))"

section \<open>Interrupt descriptor table\<close>

abbreviation IDT_ENTRIES :: nat where "IDT_ENTRIES \<equiv> 256"
abbreviation INTERRUPT_GATE :: u8 where "INTERRUPT_GATE \<equiv> 0x8E"
abbreviation IRQ_BASE :: nat where "IRQ_BASE \<equiv> 32"
abbreviation IRQ_COUNT :: nat where "IRQ_COUNT \<equiv> 16"

record idt_entry =
  offset_low :: u16
  selector :: u16
  ist :: u8
  type_attr :: u8
  offset_mid :: u16
  offset_high :: u32
  reserved :: u32

definition idt_missing :: idt_entry where
  "idt_missing = \<lparr>offset_low = 0, selector = 0, ist = 0, type_attr = 0, offset_mid = 0, offset_high = 0, reserved = 0\<rparr>"

definition set_handler :: "u64 \<Rightarrow> u8 \<Rightarrow> idt_entry" where
  "set_handler addr ist_index =
     \<lparr>offset_low = ucast addr, selector = KERNEL_CODE_SELECTOR, ist = ist_index AND 0x7, type_attr = INTERRUPT_GATE,
      offset_mid = ucast (drop_bit 16 addr), offset_high = ucast (drop_bit 32 addr), reserved = 0\<rparr>"

text \<open>The symbols \<^verbatim>\<open>__exception_stub_n\<close> and \<^verbatim>\<open>__irq_stub_n\<close> of the assembly, and the two tables of them.  The
  linker gives each symbol its address.\<close>

datatype stub = ExceptionStub nat | IrqStub nat

definition EXCEPTION_HANDLERS :: "stub list" where
  "EXCEPTION_HANDLERS =
    [ExceptionStub 0, ExceptionStub 1, ExceptionStub 2, ExceptionStub 3, ExceptionStub 4, ExceptionStub 5,
     ExceptionStub 6, ExceptionStub 7, ExceptionStub 8, ExceptionStub 9, ExceptionStub 10, ExceptionStub 11,
     ExceptionStub 12, ExceptionStub 13, ExceptionStub 14, ExceptionStub 15, ExceptionStub 16, ExceptionStub 17,
     ExceptionStub 18, ExceptionStub 19, ExceptionStub 20, ExceptionStub 21, ExceptionStub 22, ExceptionStub 23,
     ExceptionStub 24, ExceptionStub 25, ExceptionStub 26, ExceptionStub 27, ExceptionStub 28, ExceptionStub 29,
     ExceptionStub 30, ExceptionStub 31]"

definition IRQ_HANDLERS :: "stub list" where
  "IRQ_HANDLERS =
    [IrqStub 32, IrqStub 33, IrqStub 34, IrqStub 35, IrqStub 36, IrqStub 37, IrqStub 38, IrqStub 39,
     IrqStub 40, IrqStub 41, IrqStub 42, IrqStub 43, IrqStub 44, IrqStub 45, IrqStub 46, IrqStub 47]"

text \<open>The two loops of \<^verbatim>\<open>init_entries\<close> over the tables of stubs.\<close>

fun init_exceptions :: "nat \<Rightarrow> u64 list \<Rightarrow> idt_entry list \<Rightarrow> idt_entry list" where
  "init_exceptions vector [] idt = idt"
| "init_exceptions vector (h # hs) idt =
     init_exceptions (vector + 1) hs (idt[vector := set_handler h (if vector = 8 then DOUBLE_FAULT_IST_INDEX else 0)])"

fun init_irqs :: "nat \<Rightarrow> u64 list \<Rightarrow> idt_entry list \<Rightarrow> idt_entry list" where
  "init_irqs irq [] idt = idt"
| "init_irqs irq (h # hs) idt = init_irqs (irq + 1) hs (idt[IRQ_BASE + irq := set_handler h 0])"

definition init_entries :: "(stub \<Rightarrow> u64) \<Rightarrow> idt_entry list \<Rightarrow> idt_entry list" where
  "init_entries address idt = init_irqs 0 (map address IRQ_HANDLERS) (init_exceptions 0 (map address EXCEPTION_HANDLERS) idt)"

definition idt_init :: "(stub \<Rightarrow> u64) \<Rightarrow> u64 \<Rightarrow> idt_entry list \<Rightarrow> idt_entry list \<times> u16 \<times> u64" where
  "idt_init address idt_base idt = (init_entries address idt, of_nat (16 * IDT_ENTRIES - 1), idt_base)"

definition exception_name :: "nat \<Rightarrow> string" where
  "exception_name vector =
     (if vector = 0 then ''Divide Error'' else if vector = 1 then ''Debug'' else if vector = 2 then ''NMI''
      else if vector = 3 then ''Breakpoint'' else if vector = 4 then ''Overflow''
      else if vector = 5 then ''Bound Range Exceeded'' else if vector = 6 then ''Invalid Opcode''
      else if vector = 7 then ''Device Not Available'' else if vector = 8 then ''Double Fault''
      else if vector = 9 then ''Coprocessor Segment Overrun'' else if vector = 10 then ''Invalid TSS''
      else if vector = 11 then ''Segment Not Present'' else if vector = 12 then ''Stack Segment Fault''
      else if vector = 13 then ''General Protection Fault'' else if vector = 14 then ''Page Fault''
      else if vector = 15 then ''Reserved'' else if vector = 16 then ''x87 Floating-Point Exception''
      else if vector = 17 then ''Alignment Check'' else if vector = 18 then ''Machine Check''
      else if vector = 19 then ''SIMD Floating-Point Exception'' else if vector = 20 then ''Virtualization Exception''
      else if vector = 21 then ''Control Protection Exception'' else if 22 \<le> vector \<and> vector \<le> 27 then ''Reserved''
      else if vector = 28 then ''Hypervisor Injection Exception'' else if vector = 29 then ''VMM Communication Exception''
      else if vector = 30 then ''Security Exception'' else if vector = 31 then ''Reserved'' else ''Unknown'')"

text \<open>The exception stubs read error code and return address from the stack the processor left.\<close>

definition with_error_code :: "nat set" where
  "with_error_code = {8, 10, 11, 12, 13, 14, 17, 21, 29, 30}"

definition exception_stub :: "nat \<Rightarrow> u64 list \<Rightarrow> u64 \<times> u64 \<times> u64" where
  "exception_stub vector stack =
     (if vector \<in> with_error_code then (of_nat vector, stack ! 0, stack ! 1) else (of_nat vector, 0, stack ! 0))"

section \<open>Interrupt controllers and timer\<close>

abbreviation PIC1_COMMAND :: u16 where "PIC1_COMMAND \<equiv> 0x20"
abbreviation PIC1_DATA :: u16 where "PIC1_DATA \<equiv> 0x21"
abbreviation PIC2_COMMAND :: u16 where "PIC2_COMMAND \<equiv> 0xA0"
abbreviation PIC2_DATA :: u16 where "PIC2_DATA \<equiv> 0xA1"
abbreviation PIC_EOI :: u8 where "PIC_EOI \<equiv> 0x20"

record pic =
  icw_stage :: nat
  vector_offset :: u8
  cascade :: u8
  mode :: u8
  imr :: u8
  eois :: nat

definition pic_command :: "u8 \<Rightarrow> pic \<Rightarrow> pic" where
  "pic_command v p =
     (if bit v 4 then p\<lparr>icw_stage := 1\<rparr> else if v = PIC_EOI then p\<lparr>eois := eois p + 1\<rparr> else p)"

definition pic_data :: "u8 \<Rightarrow> pic \<Rightarrow> pic" where
  "pic_data v p =
     (if icw_stage p = 1 then p\<lparr>vector_offset := v, icw_stage := 2\<rparr>
      else if icw_stage p = 2 then p\<lparr>cascade := v, icw_stage := 3\<rparr>
      else if icw_stage p = 3 then p\<lparr>mode := v, icw_stage := 0\<rparr>
      else p\<lparr>imr := v\<rparr>)"

record pics =
  pic1 :: pic
  pic2 :: pic
  io_waits :: nat

definition pic_outb :: "u16 \<Rightarrow> u8 \<Rightarrow> pics \<Rightarrow> pics" where
  "pic_outb port v s =
     (if port = PIC1_COMMAND then s\<lparr>pic1 := pic_command v (pic1 s)\<rparr>
      else if port = PIC1_DATA then s\<lparr>pic1 := pic_data v (pic1 s)\<rparr>
      else if port = PIC2_COMMAND then s\<lparr>pic2 := pic_command v (pic2 s)\<rparr>
      else if port = PIC2_DATA then s\<lparr>pic2 := pic_data v (pic2 s)\<rparr>
      else if port = 0x80 then s\<lparr>io_waits := io_waits s + 1\<rparr> else s)"

definition pic_inb :: "u16 \<Rightarrow> pics \<Rightarrow> u8" where
  "pic_inb port s = (if port = PIC1_DATA then imr (pic1 s) else if port = PIC2_DATA then imr (pic2 s) else 0)"

definition io_wait :: "pics \<Rightarrow> pics" where
  "io_wait s = pic_outb 0x80 0 s"

definition pic_remap :: "u8 \<Rightarrow> u8 \<Rightarrow> pics \<Rightarrow> pics" where
  "pic_remap offset1 offset2 s =
     (let s = io_wait (pic_outb PIC1_COMMAND (0x10 OR 0x01) s);
          s = io_wait (pic_outb PIC2_COMMAND (0x10 OR 0x01) s);
          s = io_wait (pic_outb PIC1_DATA offset1 s);
          s = io_wait (pic_outb PIC2_DATA offset2 s);
          s = io_wait (pic_outb PIC1_DATA (push_bit 2 1) s);
          s = io_wait (pic_outb PIC2_DATA 2 s);
          s = io_wait (pic_outb PIC1_DATA 0x01 s);
          s = io_wait (pic_outb PIC2_DATA 0x01 s);
          s = pic_outb PIC1_DATA 0xff s
      in pic_outb PIC2_DATA 0xff s)"

definition pic_init :: "pics \<Rightarrow> pics" where
  "pic_init s = pic_remap (of_nat IRQ_BASE) (of_nat (IRQ_BASE + 8)) s"

definition unmask_irq :: "nat \<Rightarrow> pics \<Rightarrow> pics" where
  "unmask_irq irq s =
     (if irq \<ge> IRQ_COUNT then s
      else
        let (port, b) = (if irq < 8 then (PIC1_DATA, irq) else (PIC2_DATA, irq - 8));
            s = pic_outb port (pic_inb port s AND NOT (push_bit b 1)) s
        in if irq \<ge> 8 then pic_outb PIC1_DATA (pic_inb PIC1_DATA s AND NOT (push_bit 2 1)) s else s)"

definition end_of_interrupt :: "nat \<Rightarrow> pics \<Rightarrow> pics" where
  "end_of_interrupt irq s =
     (let s = (if irq \<ge> 8 then pic_outb PIC2_COMMAND PIC_EOI s else s) in pic_outb PIC1_COMMAND PIC_EOI s)"

text \<open>Channel 0 of the timer takes its divisor as two bytes, the low one first.\<close>

record pit =
  pit_command :: u8
  pit_written :: "u8 list"

definition pit_init :: "u32 \<Rightarrow> pit" where
  "pit_init divisor =
     (let d = ucast divisor :: u16
      in \<lparr>pit_command = 0x36, pit_written = [ucast (d AND 0xff), ucast (drop_bit 8 d)]\<rparr>)"

definition init_100hz :: pit where
  "init_100hz = pit_init (of_nat (1193182 div 100))"

section \<open>The interrupt handler\<close>

record irq_state =
  machine_of :: machine
  console_of :: console
  pics_of :: pics
  TIMER_TICKS :: u64

text \<open>\<open>scancode\<close> is what the keyboard port answers.  Where control goes after a timer tick is the answer
  of \<open>on_timer_tick\<close>.\<close>

definition irq_handler :: "u64 \<Rightarrow> u8 \<Rightarrow> irq_state \<Rightarrow> (control option \<times> irq_state) run" where
  "irq_handler vector scancode st =
     (let irq = unat (ucast (if of_nat IRQ_BASE \<le> vector then vector - of_nat IRQ_BASE else 0 :: u64) :: u8) in
      if irq = 0 then
        let st = st\<lparr>TIMER_TICKS := TIMER_TICKS st + 1\<rparr>;
            st = st\<lparr>pics_of := end_of_interrupt irq (pics_of st)\<rparr>
        in rbind (on_timer_tick (machine_of st)) (\<lambda>(ctl, m). Inr (ctl, st\<lparr>machine_of := m\<rparr>))
      else
        rbind (if irq = 1 then
                 Inr (st\<lparr>console_of := printk LogInfo [str_bytes ''keyboard scancode '', str_bytes (hex_prefixed (unat scancode))] (console_of st)\<rparr>)
               else if irq = 4 then rbind (handle_serial_rx_interrupt (console_of st)) (\<lambda>c. Inr (st\<lparr>console_of := c\<rparr>))
               else Inr (st\<lparr>console_of := printk LogWarning [str_bytes ''unexpected IRQ '', str_bytes (dec irq), str_bytes '' vector '',
                      str_bytes (dec (unat vector))] (console_of st)\<rparr>)) (\<lambda>st.
        Inr (None, st\<lparr>pics_of := end_of_interrupt irq (pics_of st)\<rparr>)))"

definition timer_ticks :: "irq_state \<Rightarrow> u64" where
  "timer_ticks st = TIMER_TICKS st"

text \<open>The panic handler prints and never returns: a panic ends with the console it leaves.  An exception
  is reported, then panics; \<open>info\<close> is the text of the panic.\<close>

definition panic_handler :: "data \<Rightarrow> console \<Rightarrow> console" where
  "panic_handler info c = printk LogError [info] c"

definition cpu_exception_handler :: "data \<Rightarrow> u64 \<times> u64 \<times> u64 \<Rightarrow> console \<Rightarrow> console" where
  "cpu_exception_handler info args c =
     (let (vector, error_code, rip) = args in
      panic_handler info (printk LogError [str_bytes ''CPU exception #'', str_bytes (dec (unat vector)), str_bytes '' ('',
        str_bytes (exception_name (unat vector)), str_bytes '') error='', str_bytes (hex_prefixed (unat error_code)),
        str_bytes '' rip='', str_bytes (hex_prefixed (unat rip))] c))"

section \<open>The interrupt stubs\<close>

text \<open>Registers and eight-byte cells of the stack.  \<open>handler\<close> is the compiled \<^verbatim>\<open>__irq_handler\<close>.\<close>

datatype reg = RAX | RCX | RDX | RBX | RBP | RSI | RDI | R8 | R9 | R10 | R11 | R12 | R13 | R14 | R15 | RSP

record cpu_state =
  regs :: "reg \<Rightarrow> u64"
  cells :: "u64 \<Rightarrow> u64"

definition push_reg :: "reg \<Rightarrow> cpu_state \<Rightarrow> cpu_state" where
  "push_reg r c = (let sp = regs c RSP - 8 in c\<lparr>cells := (cells c)(sp := regs c r), regs := (regs c)(RSP := sp)\<rparr>)"

definition pop_reg :: "reg \<Rightarrow> cpu_state \<Rightarrow> cpu_state" where
  "pop_reg r c = c\<lparr>regs := (regs c)(r := cells c (regs c RSP), RSP := regs c RSP + 8)\<rparr>"

definition saved_regs :: "reg list" where
  "saved_regs = [RAX, RCX, RDX, RBX, RBP, RSI, RDI, R8, R9, R10, R11, R12, R13, R14, R15]"

definition irq_stub :: "(cpu_state \<Rightarrow> cpu_state) \<Rightarrow> u64 \<Rightarrow> cpu_state \<Rightarrow> cpu_state" where
  "irq_stub handler vector c =
     (let c = fold push_reg saved_regs c;
          c = c\<lparr>regs := (regs c)(RBX := regs c RSP)\<rparr>;
          c = c\<lparr>regs := (regs c)(RSP := regs c RSP AND -16)\<rparr>;
          c = c\<lparr>regs := (regs c)(RDI := vector)\<rparr>;
          c = handler c;
          c = c\<lparr>regs := (regs c)(RSP := regs c RBX)\<rparr>
      in fold pop_reg (rev saved_regs) c)"

text \<open>The entry of system calls: on its own stack, the registers of the system call convention become the
  arguments of \<^verbatim>\<open>__syscall_dispatch\<close>.  The user stack pointer waits in \<^verbatim>\<open>__SYSCALL_USER_RSP\<close>.\<close>

definition syscall_saved :: "reg list" where
  "syscall_saved = [R11, RCX, RBX, RBP, R12, R13, R14, R15]"

definition mov :: "reg \<Rightarrow> reg \<Rightarrow> cpu_state \<Rightarrow> cpu_state" where
  "mov dst src c = c\<lparr>regs := (regs c)(dst := regs c src)\<rparr>"

definition syscall_entry_stub :: "(cpu_state \<Rightarrow> cpu_state) \<Rightarrow> u64 \<Rightarrow> cpu_state \<Rightarrow> cpu_state" where
  "syscall_entry_stub dispatcher syscall_stack c =
     (let user_rsp = regs c RSP;
          c = c\<lparr>regs := (regs c)(RSP := syscall_stack + 16384)\<rparr>;
          c = fold push_reg syscall_saved c;
          c = mov RBX RDI c; c = mov RDI RAX c; c = mov RAX RSI c; c = mov RSI RBX c; c = mov RBX RDX c;
          c = mov RDX RAX c; c = mov RCX RBX c; c = mov R9 R8 c; c = mov R8 R10 c;
          c = dispatcher c;
          c = fold pop_reg (rev syscall_saved) c
      in c\<lparr>regs := (regs c)(RSP := user_rsp)\<rparr>)"

text \<open>\<^verbatim>\<open>__enter_user\<close> of src/src/task/proc.rs: the stack pointer is set to the trap frame, the general
  registers are popped, and \<^verbatim>\<open>iretq\<close> takes the remaining five words.\<close>

record iret_state =
  i_regs :: "reg \<Rightarrow> u64"
  i_rip :: u64
  i_cs :: u64
  i_rflags :: u64
  i_ss :: u64

definition iretq :: "cpu_state \<Rightarrow> iret_state" where
  "iretq c = (let sp = regs c RSP in
     \<lparr>i_regs = (regs c)(RSP := cells c (sp + 24)), i_rip = cells c sp, i_cs = cells c (sp + 8),
      i_rflags = cells c (sp + 16), i_ss = cells c (sp + 32)\<rparr>)"

definition frame_regs :: "reg list" where
  "frame_regs = [R15, R14, R13, R12, R11, R10, R9, R8, RDI, RSI, RBP, RDX, RCX, RBX, RAX]"

definition enter_user :: "cpu_state \<Rightarrow> iret_state" where
  "enter_user c = iretq (fold pop_reg frame_regs (mov RSP RDI c))"

section \<open>The registers of the system call instruction\<close>

abbreviation IA32_EFER :: u32 where "IA32_EFER \<equiv> 0xC0000080"
abbreviation IA32_STAR :: u32 where "IA32_STAR \<equiv> 0xC0000081"
abbreviation IA32_LSTAR :: u32 where "IA32_LSTAR \<equiv> 0xC0000082"
abbreviation IA32_FMASK :: u32 where "IA32_FMASK \<equiv> 0xC0000084"

text \<open>The model-specific registers are read and written in two halves.\<close>

definition rdmsr :: "(u32 \<Rightarrow> u64) \<Rightarrow> u32 \<Rightarrow> u64" where
  "rdmsr m msr =
     (let low = ucast (m msr) :: u32; high = ucast (drop_bit 32 (m msr)) :: u32 in push_bit 32 (ucast high) OR ucast low)"

definition wrmsr :: "u32 \<Rightarrow> u64 \<Rightarrow> (u32 \<Rightarrow> u64) \<Rightarrow> u32 \<Rightarrow> u64" where
  "wrmsr msr v m =
     (let eax = ucast v :: u32; edx = ucast (drop_bit 32 v) :: u32 in m(msr := push_bit 32 (ucast edx) OR ucast eax))"

definition syscall_init :: "u64 \<Rightarrow> (u32 \<Rightarrow> u64) \<Rightarrow> u32 \<Rightarrow> u64" where
  "syscall_init syscall_entry m =
     (let m = wrmsr IA32_EFER (rdmsr m IA32_EFER OR 1) m;
          user_star = ucast (USER_DATA_SELECTOR :: u64) - 8;
          m = wrmsr IA32_STAR (push_bit 48 user_star OR push_bit 32 (ucast KERNEL_CODE_SELECTOR)) m;
          m = wrmsr IA32_LSTAR syscall_entry m
      in wrmsr IA32_FMASK (push_bit 9 1) m)"

section \<open>What the processor makes of the tables\<close>

text \<open>The address a gate holds; where an interrupt with a given vector leads: the handler, and the stack
  pointer its frame is pushed below.  The processor takes a gate that is present, is a 64-bit interrupt gate
  and names the kernel code segment.  The stack is the one of the interrupt stack table when the gate
  asks for it, \<^verbatim>\<open>rsp0\<close> when the interrupt comes from ring 3, and otherwise the current one; in long
  mode it is aligned to 16 bytes before the frame is pushed.\<close>

definition gate_address :: "idt_entry \<Rightarrow> u64" where
  "gate_address e = ucast (offset_low e) OR push_bit 16 (ucast (offset_mid e)) OR push_bit 32 (ucast (offset_high e))"

definition interrupt_stack :: "tss \<Rightarrow> u8 \<Rightarrow> nat \<Rightarrow> u64 \<Rightarrow> u64" where
  "interrupt_stack t i cpl rsp =
     (if i \<noteq> 0 then tss_ist t ! (unat i - 1) else if cpl = 3 then tss_rsp t ! 0 else rsp) AND - 16"

definition gate_target :: "idt_entry list \<Rightarrow> tss \<Rightarrow> nat \<Rightarrow> u64 \<Rightarrow> nat \<Rightarrow> (u64 \<times> u64) option" where
  "gate_target idt t cpl rsp v =
     (let e = idt ! v in
      if v < length idt \<and> bit (type_attr e) 7 \<and> type_attr e AND 0xF = 0xE \<and> selector e = KERNEL_CODE_SELECTOR
      then Some (gate_address e, interrupt_stack t (ist e) cpl rsp) else None)"

definition tss_base_of :: "u64 \<Rightarrow> u64 \<Rightarrow> u64" where
  "tss_base_of low high =
     (drop_bit 16 low AND 0xFFFFFF) OR push_bit 24 (drop_bit 56 low) OR push_bit 32 (high AND 0xFFFFFFFF)"

definition pic_vector :: "pics \<Rightarrow> nat \<Rightarrow> nat" where
  "pic_vector s irq = (if irq < 8 then unat (vector_offset (pic1 s)) + irq else unat (vector_offset (pic2 s)) + (irq - 8))"

text \<open>A line of the second controller also needs the cascade line of the first.\<close>

definition line_open :: "pics \<Rightarrow> nat \<Rightarrow> bool" where
  "line_open s irq \<longleftrightarrow> (if irq < 8 then \<not> bit (imr (pic1 s)) irq else \<not> bit (imr (pic2 s)) (irq - 8) \<and> \<not> bit (imr (pic1 s)) 2)"

definition pics_ready :: "pics \<Rightarrow> bool" where
  "pics_ready s \<longleftrightarrow> icw_stage (pic1 s) = 0 \<and> icw_stage (pic2 s) = 0"

lemma bit_split:
  assumes "(n :: nat) < 64"
  obtains "n < 16" | "16 \<le> n" "n < 32" "16 + (n - 16) = n" | "32 \<le> n" "\<not> n < 16" "32 + (n - 32) = n" "n < 64"
  using assms by linarith

lemma gate_address_set_handler [simp]: "gate_address (set_handler a i) = a"
proof (rule bit_word_eqI)
  fix n assume "n < LENGTH(64)"
  then have "n < 64" by simp
  then show "bit (gate_address (set_handler a i)) n \<longleftrightarrow> bit a n"
    by (cases rule: bit_split) (auto simp: gate_address_def set_handler_def bit_simps)
qed

lemma mask_numerals:
  "(0xFFFF :: u64) = mask 16" "(0xFFFFFF :: u64) = mask 24" "(0xFF :: u64) = mask 8" "(0xF :: u64) = mask 4" "(0xFFFFFFFF :: u64) = mask 32"
  by (simp_all add: mask_eq_exp_minus_1)

lemma bit_access_byte: "k < 40 \<or> 48 \<le> k \<Longrightarrow> \<not> bit (150633093005312 :: u64) k"
proof -
  have "(150633093005312 :: u64) = push_bit 40 (take_bit 8 0x89)" by simp
  then show "k < 40 \<or> 48 \<le> k \<Longrightarrow> \<not> bit (150633093005312 :: u64) k" by (simp only: bit_simps) auto
qed

lemma tss_base_of_descriptor:
  assumes "tss_descriptor base limit = (low, high)"
  shows "tss_base_of low high = base"
proof (rule bit_word_eqI)
  fix n assume "n < LENGTH(64)"
  then consider "n < 24" | "24 \<le> n" "n < 32" "24 + (n - 24) = n" | "32 \<le> n" "n < 64" "32 + (n - 32) = n" by fastforce
  then show "bit (tss_base_of low high) n \<longleftrightarrow> bit base n"
    using assms
    using bit_access_byte [of "16 + n"] bit_access_byte [of "32 + n"]
    by cases (auto simp: tss_base_of_def tss_descriptor_def bit_simps Let_def mask_numerals)
qed

lemma init_exceptions_nth:
  "length idt = n \<Longrightarrow> length (init_exceptions k hs idt) = n"
  "k + length hs \<le> length idt \<Longrightarrow> v < length idt \<Longrightarrow> init_exceptions k hs idt ! v =
     (if k \<le> v \<and> v < k + length hs then set_handler (hs ! (v - k)) (if v = 8 then DOUBLE_FAULT_IST_INDEX else 0) else idt ! v)"
  by (induction k hs idt rule: init_exceptions.induct) (auto simp: nth_Cons' nth_list_update)

lemma init_irqs_nth:
  "length idt = n \<Longrightarrow> length (init_irqs k hs idt) = n"
  "IRQ_BASE + k + length hs \<le> length idt \<Longrightarrow> v < length idt \<Longrightarrow> init_irqs k hs idt ! v =
     (if IRQ_BASE + k \<le> v \<and> v < IRQ_BASE + k + length hs then set_handler (hs ! (v - IRQ_BASE - k)) 0 else idt ! v)"
  by (induction k hs idt rule: init_irqs.induct) (auto simp: nth_Cons' nth_list_update)

lemma stub_tables:
  "length EXCEPTION_HANDLERS = 32" "length IRQ_HANDLERS = IRQ_COUNT"
  "v < 32 \<Longrightarrow> EXCEPTION_HANDLERS ! v = ExceptionStub v" "n < IRQ_COUNT \<Longrightarrow> IRQ_HANDLERS ! n = IrqStub (32 + n)"
proof -
  have e: "EXCEPTION_HANDLERS = map ExceptionStub [0..<32]" and i: "IRQ_HANDLERS = map (\<lambda>n. IrqStub (32 + n)) [0..<IRQ_COUNT]"
    by (simp_all add: EXCEPTION_HANDLERS_def IRQ_HANDLERS_def upt_rec)
  show "length EXCEPTION_HANDLERS = 32" "length IRQ_HANDLERS = IRQ_COUNT"
    "v < 32 \<Longrightarrow> EXCEPTION_HANDLERS ! v = ExceptionStub v" "n < IRQ_COUNT \<Longrightarrow> IRQ_HANDLERS ! n = IrqStub (32 + n)"
    unfolding e i by (simp_all del: upt_rec_numeral)
qed

section \<open>Interrupt controllers\<close>

lemmas pic_defs = pic_outb_def pic_inb_def pic_command_def pic_data_def io_wait_def

lemma icw_bits: "bit (17 :: u8) 4" "\<not> bit (32 :: u8) 4"
  by (simp_all add: bit_numeral_rec)

lemma pic_ports:
  "pic_outb PIC1_COMMAND v \<lparr>pic1 = p, pic2 = q, io_waits = w\<rparr> = \<lparr>pic1 = pic_command v p, pic2 = q, io_waits = w\<rparr>"
  "pic_outb PIC1_DATA v \<lparr>pic1 = p, pic2 = q, io_waits = w\<rparr> = \<lparr>pic1 = pic_data v p, pic2 = q, io_waits = w\<rparr>"
  "pic_outb PIC2_COMMAND v \<lparr>pic1 = p, pic2 = q, io_waits = w\<rparr> = \<lparr>pic1 = p, pic2 = pic_command v q, io_waits = w\<rparr>"
  "pic_outb PIC2_DATA v \<lparr>pic1 = p, pic2 = q, io_waits = w\<rparr> = \<lparr>pic1 = p, pic2 = pic_data v q, io_waits = w\<rparr>"
  "io_wait \<lparr>pic1 = p, pic2 = q, io_waits = w\<rparr> = \<lparr>pic1 = p, pic2 = q, io_waits = Suc w\<rparr>"
  by (simp_all add: pic_outb_def io_wait_def)

lemma pic_init_record:
  "pic_init \<lparr>pic1 = \<lparr>icw_stage = i1, vector_offset = v1, cascade = c1, mode = m1, imr = r1, eois = e1\<rparr>,
      pic2 = \<lparr>icw_stage = i2, vector_offset = v2, cascade = c2, mode = m2, imr = r2, eois = e2\<rparr>, io_waits = w\<rparr> =
    \<lparr>pic1 = \<lparr>icw_stage = 0, vector_offset = 32, cascade = 4, mode = 1, imr = 0xff, eois = e1\<rparr>,
      pic2 = \<lparr>icw_stage = 0, vector_offset = 40, cascade = 2, mode = 1, imr = 0xff, eois = e2\<rparr>, io_waits = w + 8\<rparr>"
  unfolding pic_init_def pic_remap_def Let_def pic_ports by (simp add: pic_command_def pic_data_def icw_bits)

lemma pic_init_effect:
  "vector_offset (pic1 (pic_init s)) = 32" "vector_offset (pic2 (pic_init s)) = 40"
  "imr (pic1 (pic_init s)) = 0xff" "imr (pic2 (pic_init s)) = 0xff" "pics_ready (pic_init s)"
  "cascade (pic1 (pic_init s)) = 4" "cascade (pic2 (pic_init s)) = 2" "mode (pic1 (pic_init s)) = 1" "mode (pic2 (pic_init s)) = 1"
  by (cases s; cases "pic1 s"; cases "pic2 s"; simp add: pic_init_record pics_ready_def)+

lemma unmask_irq_ready: "pics_ready s \<Longrightarrow> pics_ready (unmask_irq irq s)"
  by (simp add: unmask_irq_def pics_ready_def pic_defs Let_def)

lemma unmask_irq_offset [simp]:
  assumes "pics_ready s"
  shows "vector_offset (pic1 (unmask_irq irq s)) = vector_offset (pic1 s)" "vector_offset (pic2 (unmask_irq irq s)) = vector_offset (pic2 s)"
  using assms by (simp_all add: unmask_irq_def pics_ready_def pic_defs Let_def)

lemma unmask_irq_masks:
  assumes "pics_ready s" "irq < IRQ_COUNT"
  shows "imr (pic1 (unmask_irq irq s)) = imr (pic1 s) AND NOT (push_bit (if irq < 8 then irq else 2) 1)"
    and "imr (pic2 (unmask_irq irq s)) = (if irq < 8 then imr (pic2 s) else imr (pic2 s) AND NOT (push_bit (irq - 8) 1))"
  using assms by (simp_all add: unmask_irq_def pics_ready_def pic_defs Let_def)

lemma end_of_interrupt_effect:
  "eois (pic1 (end_of_interrupt irq s)) = eois (pic1 s) + 1"
  "eois (pic2 (end_of_interrupt irq s)) = eois (pic2 s) + (if 8 \<le> irq then 1 else 0)"
  "imr (pic1 (end_of_interrupt irq s)) = imr (pic1 s)" "imr (pic2 (end_of_interrupt irq s)) = imr (pic2 s)"
  by (simp_all add: end_of_interrupt_def pic_defs Let_def icw_bits)

section \<open>Saving and restoring registers\<close>

lemma push_regs_regs:
  "RSP \<notin> set rs \<Longrightarrow> r \<noteq> RSP \<Longrightarrow> regs (fold push_reg rs c) r = regs c r"
  "RSP \<notin> set rs \<Longrightarrow> regs (fold push_reg rs c) RSP = regs c RSP - 8 * of_nat (length rs)"
proof -
  have regs: "regs (push_reg x c) = (regs c)(RSP := regs c RSP - 8)" for x c by (simp add: push_reg_def Let_def)
  show "RSP \<notin> set rs \<Longrightarrow> r \<noteq> RSP \<Longrightarrow> regs (fold push_reg rs c) r = regs c r"
    and "RSP \<notin> set rs \<Longrightarrow> regs (fold push_reg rs c) RSP = regs c RSP - 8 * of_nat (length rs)"
    by (induction rs arbitrary: c) (simp_all add: regs algebra_simps)
qed

lemma cell_apart:
  assumes "8 * (k + 1) < 2 ^ 64" "i < k"
  shows "sp + 8 * of_nat i \<noteq> (sp :: u64) - 8"
proof
  assume "sp + 8 * of_nat i = sp - 8"
  then have "8 * of_nat (i + 1) = (0 :: u64)" by (simp add: algebra_simps)
  then have "(of_nat (8 * (i + 1)) :: u64) = 0" by simp
  then have "2 ^ 64 dvd 8 * (i + 1)" by (simp only: word_of_nat_eq_0_iff) simp
  then have "2 ^ 64 \<le> 8 * (i + 1)" by (rule dvd_imp_le) simp
  then show False using assms by simp
qed

lemma pop_restores:
  assumes "RSP \<notin> set rs" "distinct rs" "8 * length rs < 2 ^ 64" "regs d RSP = regs (fold push_reg rs c) RSP"
    and "\<forall>i<length rs. cells d (regs d RSP + 8 * of_nat i) = cells (fold push_reg rs c) (regs d RSP + 8 * of_nat i)"
  shows "regs (fold pop_reg (rev rs) d) r = (if r = RSP \<or> r \<in> set rs then regs c r else regs d r)"
  using assms
proof (induction rs arbitrary: d rule: rev_induct)
  case Nil
  then show ?case by simp
next
  case (snoc x rs)
  define c1 where "c1 = fold push_reg rs c"
  define d1 where "d1 = pop_reg x d"
  have x: "x \<noteq> RSP" "x \<notin> set rs" "RSP \<notin> set rs" using snoc.prems by auto
  have push: "push_reg x c1 = c1\<lparr>cells := (cells c1)(regs c1 RSP - 8 := regs c1 x), regs := (regs c1)(RSP := regs c1 RSP - 8)\<rparr>"
    by (simp add: push_reg_def Let_def)
  have pushed: "fold push_reg (rs @ [x]) c = push_reg x c1" by (simp add: c1_def)
  have sp: "regs d RSP = regs c1 RSP - 8" using snoc.prems(4) unfolding pushed push by simp
  have top_cell: "cells d (regs d RSP) = regs c x"
    using snoc.prems(5) [unfolded pushed push, rule_format, of 0] sp x push_regs_regs(1) [of rs x c] by (simp add: c1_def)
  have sp1: "regs d1 RSP = regs c1 RSP" using x sp by (simp add: d1_def pop_reg_def)
  have cells1: "cells d1 (regs d1 RSP + 8 * of_nat i) = cells c1 (regs d1 RSP + 8 * of_nat i)" if "i < length rs" for i
  proof -
    have "regs d RSP + 8 * of_nat (i + 1) = regs c1 RSP + 8 * of_nat i" using sp by (simp add: algebra_simps)
    moreover have "regs c1 RSP + 8 * of_nat i \<noteq> regs c1 RSP - 8" using cell_apart [of "length rs" i] that snoc.prems(3) by simp
    moreover have "cells d (regs d RSP + 8 * of_nat (i + 1)) = cells (push_reg x c1) (regs d RSP + 8 * of_nat (i + 1))"
      using snoc.prems(5) [unfolded pushed, rule_format, of "i + 1"] that by simp
    ultimately show ?thesis unfolding sp1 by (simp only: d1_def pop_reg_def push) simp
  qed
  have "regs (fold pop_reg (rev rs) d1) r = (if r = RSP \<or> r \<in> set rs then regs c r else regs d1 r)"
    by (rule snoc.IH) (use x snoc.prems sp1 cells1 in \<open>simp_all add: c1_def\<close>)
  moreover have "fold pop_reg (rev (rs @ [x])) d = fold pop_reg (rev rs) d1" by (simp add: d1_def)
  moreover have "regs d1 r = (if r = x then regs c x else regs d r)" if "r \<noteq> RSP" using that top_cell by (simp add: d1_def pop_reg_def)
  ultimately show ?case using x by auto
qed

lemma unmasked_bits:
  assumes "\<forall>i\<in>set ls. i < IRQ_COUNT"
  shows "pics_ready (fold unmask_irq ls (pic_init s)) \<and>
    (\<forall>k<8. bit (imr (pic1 (fold unmask_irq ls (pic_init s)))) k \<longleftrightarrow> k \<notin> set ls \<and> \<not> (k = 2 \<and> (\<exists>m\<in>set ls. 8 \<le> m))) \<and>
    (\<forall>k<8. bit (imr (pic2 (fold unmask_irq ls (pic_init s)))) k \<longleftrightarrow> k + 8 \<notin> set ls)"
  using assms
proof (induction ls rule: rev_induct)
  case Nil
  have "bit (0xff :: u8) k" if "k < 8" for k using that by (auto simp: less_Suc_eq numeral_eq_Suc bit_numeral_rec)
  then show ?case by (simp add: pic_init_effect)
next
  case (snoc i ls)
  define s1 where "s1 = fold unmask_irq ls (pic_init s)"
  have r: "pics_ready s1" and i: "i < IRQ_COUNT"
    and b1: "\<And>k. k < 8 \<Longrightarrow> bit (imr (pic1 s1)) k \<longleftrightarrow> k \<notin> set ls \<and> \<not> (k = 2 \<and> (\<exists>m\<in>set ls. 8 \<le> m))"
    and b2: "\<And>k. k < 8 \<Longrightarrow> bit (imr (pic2 s1)) k \<longleftrightarrow> k + 8 \<notin> set ls"
    using snoc unfolding s1_def by auto
  have "fold unmask_irq (ls @ [i]) (pic_init s) = unmask_irq i s1" by (simp add: s1_def)
  moreover have "bit (imr (pic1 (unmask_irq i s1))) k \<longleftrightarrow> bit (imr (pic1 s1)) k \<and> k \<noteq> (if i < 8 then i else 2)" if "k < 8" for k
    using that by (auto simp: unmask_irq_masks [OF r i] bit_simps)
  moreover have "bit (imr (pic2 (unmask_irq i s1))) k \<longleftrightarrow> bit (imr (pic2 s1)) k \<and> k + 8 \<noteq> i" if "k < 8" for k
    using that i by (auto simp: unmask_irq_masks [OF r i] bit_simps)
  ultimately show ?case using b1 b2 unmask_irq_ready [OF r] by auto
qed

lemma set_handler_fields:
  "selector (set_handler a i) = KERNEL_CODE_SELECTOR" "type_attr (set_handler a i) = INTERRUPT_GATE" "ist (set_handler a i) = i AND 7"
  by (simp_all add: set_handler_def)

lemma rx_interrupt_keeps:
  assumes "ring_inv (SERIAL_INPUT c)"
  obtains c' where "handle_serial_rx_interrupt c = Inr c'" "ring_inv (SERIAL_INPUT c')" "tx (com1 c') = tx (com1 c)" "rx (com1 c') = []"
    "ring_contents (SERIAL_INPUT c') = ring.keep (ring_contents (SERIAL_INPUT c) @ rx (com1 c))"
proof -
  obtain u' where u': "rx u' = []" "tx u' = tx (com1 c)"
    "receive (com1 c) (SERIAL_INPUT c) = rbind (ring.push_all (rx (com1 c)) (SERIAL_INPUT c)) (\<lambda>q. Inr (u', q))"
    using receive_push_all by blast
  obtain q where "ring.push_all (rx (com1 c)) (SERIAL_INPUT c) = Inr q" "ring_inv q"
    "ring_contents q = ring.keep (ring_contents (SERIAL_INPUT c) @ rx (com1 c))"
    using ring.push_all_keep [OF assms] by blast
  then show thesis using u' that [of "c\<lparr>com1 := u', SERIAL_INPUT := q\<rparr>"] by (simp add: handle_serial_rx_interrupt_def)
qed

lemma irq_number:
  assumes "n < IRQ_COUNT"
  shows "unat (ucast (if of_nat IRQ_BASE \<le> (of_nat (32 + n) :: u64) then of_nat (32 + n) - of_nat IRQ_BASE else 0 :: u64) :: u8) = n"
proof -
  have "unat (of_nat (32 + n) :: u64) = 32 + n" using assms by (simp add: unsigned_of_nat take_bit_nat_eq_self del: of_nat_add)
  then have "of_nat IRQ_BASE \<le> (of_nat (32 + n) :: u64)" by (simp add: word_le_nat_alt del: of_nat_add)
  moreover have "unat (ucast (of_nat n :: u64) :: u8) = n" using assms by (simp add: unsigned_ucast_eq unsigned_of_nat take_bit_nat_eq_self)
  ultimately show ?thesis by simp
qed

lemma SERIAL_INPUT_printk [simp]: "SERIAL_INPUT (printk l ps c) = SERIAL_INPUT c"
  by (simp add: printk_def)

text \<open>A system call enters the dispatcher with number and arguments in the registers of the calling convention, and
  gives the user program its stack pointer, return address, flags and callee-saved registers back.\<close>

lemma syscall_entry_restores:
  assumes "\<forall>c'. regs c' RDI = regs c RAX \<and> regs c' RSI = regs c RDI \<and> regs c' RDX = regs c RSI \<and> regs c' RCX = regs c RDX \<and>
      regs c' R8 = regs c R10 \<and> regs c' R9 = regs c R8 \<and> regs c' RSP = syscall_stack + 16384 - 64 \<longrightarrow>
      regs (dispatcher c') RSP = regs c' RSP \<and>
      (\<forall>i<8. cells (dispatcher c') (regs c' RSP + 8 * of_nat i) = cells c' (regs c' RSP + 8 * of_nat i))"
    and "r \<in> set (RSP # syscall_saved)"
  shows "regs (syscall_entry_stub dispatcher syscall_stack c) r = regs c r"
proof -
  define c0 where "c0 = c\<lparr>regs := (regs c)(RSP := syscall_stack + 16384)\<rparr>"
  define p where "p = fold push_reg syscall_saved c0"
  define q where "q = mov R8 R10 (mov R9 R8 (mov RCX RBX (mov RDX RAX (mov RBX RDX (mov RSI RBX (mov RAX RSI (mov RDI RAX (mov RBX RDI p))))))))"
  define d where "d = dispatcher q"
  have n: "RSP \<notin> set syscall_saved" "distinct syscall_saved" "length syscall_saved = 8" by (simp_all add: syscall_saved_def)
  have regs: "regs p x = regs c x" if "x \<noteq> RSP" for x using that push_regs_regs(1) [OF n(1) that, of c0] by (simp add: p_def c0_def)
  have sp: "regs p RSP = syscall_stack + 16384 - 64" using push_regs_regs(2) [OF n(1), of c0] by (simp add: p_def c0_def n(3))
  have q: "regs q RSP = regs p RSP" "cells q = cells p" by (simp_all add: q_def mov_def)
  have "regs q RDI = regs c RAX" "regs q RSI = regs c RDI" "regs q RDX = regs c RSI" "regs q RCX = regs c RDX" "regs q R8 = regs c R10"
    "regs q R9 = regs c R8" by (simp_all add: q_def mov_def regs)
  then have d: "regs d RSP = regs p RSP" "\<forall>i<8. cells d (regs d RSP + 8 * of_nat i) = cells p (regs d RSP + 8 * of_nat i)"
    using assms(1) [rule_format, of q] q sp by (simp_all add: d_def)
  have "regs (fold pop_reg (rev syscall_saved) d) r = (if r = RSP \<or> r \<in> set syscall_saved then regs c0 r else regs d r)"
    by (rule pop_restores) (use d n in \<open>simp_all add: p_def\<close>)
  moreover have "syscall_entry_stub dispatcher syscall_stack c =
      (let c' = fold pop_reg (rev syscall_saved) d in c'\<lparr>regs := (regs c')(RSP := regs c RSP)\<rparr>)"
    by (simp add: syscall_entry_stub_def Let_def d_def q_def p_def c0_def)
  ultimately show ?thesis using assms(2) n(1) by (auto simp: Let_def c0_def)
qed

section \<open>System call registers\<close>

lemma msr_halves: "push_bit 32 (ucast (ucast (drop_bit 32 v) :: u32)) OR ucast (ucast v :: u32) = (v :: u64)"
proof (rule bit_word_eqI)
  fix n assume "n < LENGTH(64)"
  then consider "n < 32" | "32 \<le> n" "n < 64" "32 + (n - 32) = n" by fastforce
  then show "bit (push_bit 32 (ucast (ucast (drop_bit 32 v) :: u32)) OR ucast (ucast v :: u32) :: u64) n \<longleftrightarrow> bit v n"
    by cases (auto simp: bit_simps)
qed

lemma msr_access [simp]: "rdmsr m r = m r" "wrmsr r v m = m(r := v)"
  by (simp_all add: rdmsr_def wrmsr_def msr_halves Let_def)

text \<open>The selectors \<^verbatim>\<open>sysretq\<close> derives from \<^verbatim>\<open>STAR\<close> are the user selectors of the descriptor table, entry runs
  in the kernel segment at the entry point with interrupts masked, and the other bits of \<^verbatim>\<open>EFER\<close> stay.\<close>

lemma syscall_init_selectors:
  fixes m :: "u32 \<Rightarrow> u64" and entry :: u64
  defines "m' \<equiv> syscall_init entry m"
  shows "drop_bit 48 (m' IA32_STAR) + 8 = USER_DATA_SELECTOR" "drop_bit 48 (m' IA32_STAR) + 16 = USER_CODE_SELECTOR"
    and "drop_bit 32 (m' IA32_STAR) AND 0xFFFF = ucast KERNEL_CODE_SELECTOR"
    and "m' IA32_LSTAR = entry" "m' IA32_FMASK = 0x200" "m' IA32_EFER = m IA32_EFER OR 1"
  unfolding m'_def by (simp_all add: syscall_init_def)

section \<open>Properties\<close>

text \<open>C28: where interrupts lead.  After the tables are built, exception \<open>v\<close> reaches \<^verbatim>\<open>__exception_stub_v\<close> and
  interrupt line \<open>n\<close>, through the vector the controllers were programmed with, \<^verbatim>\<open>__irq_stub_(32 + n)\<close>.  From
  ring 3 they run on the ring 0 stack of the task state segment, in the kernel on the current stack;
  a double fault has its own stack in both cases.  The other vectors are not present, and the task
  state segment descriptor holds the address of the segment.\<close>

theorem interrupts_reach_handlers:
  assumes "gdt_init ring0_stack df_stack tss_base gdt_base \<lparr>GDT = gdt_initial, TSS = tss_initial, gdtr = None, task_register = None,
      data_segments = None\<rparr> = Inr d"
    and "idt_init address idt_base (replicate IDT_ENTRIES idt_missing) = (idt, lim, b)"
  defines "stack \<equiv> \<lambda>cpl rsp. (if cpl = 3 then of_nat (ring0_stack + STACK_SIZE) else rsp) AND - 16"
  shows "(\<forall>cpl rsp. \<forall>v<32. gate_target idt (TSS d) cpl rsp v = Some (address (ExceptionStub v),
        if v = 8 then of_nat (df_stack + STACK_SIZE) AND - 16 else stack cpl rsp)) \<and>
    (\<forall>cpl rsp. \<forall>n<IRQ_COUNT. gate_target idt (TSS d) cpl rsp (pic_vector (pic_init s) n) =
        Some (address (IrqStub (32 + n)), stack cpl rsp)) \<and>
    (\<forall>cpl rsp. \<forall>v\<ge>48. gate_target idt (TSS d) cpl rsp v = None) \<and> unat lim = 16 * length idt - 1 \<and>
    tss_base_of (GDT d ! 5) (GDT d ! 6) = tss_base \<and> map ((!) (GDT d)) [0..<5] = map ((!) gdt_initial) [0..<5]"
proof -
  obtain low high where t: "tss_descriptor tss_base (of_nat (TSS_SIZE - 1)) = (low, high)" by (cases "tss_descriptor tss_base (of_nat (TSS_SIZE - 1))")
  have G: "length gdt_initial = 7" by (simp add: gdt_initial_def)
  have rep: "replicate 3 (0 :: u64) = [0, 0, 0]" "replicate 7 (0 :: u64) = 0 # replicate 6 0" by (simp_all add: numeral_eq_Suc)
  have d: "TSS d = tss_initial\<lparr>tss_rsp := [of_nat (ring0_stack + STACK_SIZE), 0, 0],
      tss_ist := of_nat (df_stack + STACK_SIZE) # replicate 6 0\<rparr>" "GDT d = gdt_initial[5 := low, 6 := high]"
    using assms(1) t by (auto simp: gdt_init_def init_tss_def init_tss_descriptor_def stack_top_def add_usize_def tss_initial_def rep
      Let_def split: if_splits)
  have len: "length idt = IDT_ENTRIES" and lim: "lim = of_nat (16 * IDT_ENTRIES - 1)"
    using assms(2) by (auto simp: idt_init_def init_entries_def init_exceptions_nth(1) init_irqs_nth(1))
  have idt: "idt ! v = (if v < 32 then set_handler (address (ExceptionStub v)) (if v = 8 then DOUBLE_FAULT_IST_INDEX else 0)
      else if v < 48 then set_handler (address (IrqStub v)) 0 else idt_missing)" if "v < IDT_ENTRIES" for v
    using assms(2) that by (auto simp: idt_init_def init_entries_def init_exceptions_nth init_irqs_nth stub_tables)
  have gate: "gate_target idt (TSS d) cpl rsp v = (if v < 32 then Some (address (ExceptionStub v),
        if v = 8 then of_nat (df_stack + STACK_SIZE) AND - 16 else stack cpl rsp)
      else if v < 48 then Some (address (IrqStub v), stack cpl rsp) else None)" for cpl rsp v
    using len idt [of v] d(1) by (cases "v < 32"; cases "v < 48"; cases "v = 8"; cases "v < IDT_ENTRIES")
      (simp_all add: gate_target_def interrupt_stack_def stack_def Let_def set_handler_fields idt_missing_def bit_numeral_rec)
  have vec: "pic_vector (pic_init s) n = 32 + n" for n by (simp add: pic_vector_def pic_init_effect)
  have "tss_base_of (GDT d ! 5) (GDT d ! 6) = tss_base" using tss_base_of_descriptor [OF t] G by (simp add: d(2))
  then show ?thesis using len lim G by (simp add: gate vec d(2) upt_rec)
qed

theorem interrupts_reach_handlers_witness:
  "\<exists>d idt lim. gdt_init 0x200000 0x300000 0x5000 0x6000 \<lparr>GDT = gdt_initial, TSS = tss_initial, gdtr = None, task_register = None,
      data_segments = None\<rparr> = Inr d \<and>
    idt_init (case_stub (\<lambda>n. 100 + of_nat n) (\<lambda>n. 200 + of_nat n)) 0x7000 (replicate IDT_ENTRIES idt_missing) = (idt, lim, 0x7000) \<and>
    gate_target idt (TSS d) 0 0x9000 8 = Some (108, 0x304000) \<and> gate_target idt (TSS d) 3 0x9000 14 = Some (114, 0x204000) \<and>
    gate_target idt (TSS d) 0 0x9008 14 = Some (114, 0x9000) \<and> gate_target idt (TSS d) 3 0x9000 36 = Some (236, 0x204000)"
proof -
  let ?d0 = "\<lparr>GDT = gdt_initial, TSS = tss_initial, gdtr = None, task_register = None, data_segments = None\<rparr>"
  let ?a = "case_stub (\<lambda>n. 100 + of_nat n) (\<lambda>n. 200 + of_nat n) :: stub \<Rightarrow> u64"
  obtain d where d: "gdt_init 0x200000 0x300000 0x5000 0x6000 ?d0 = Inr d"
    by (simp add: gdt_init_def init_tss_def stack_top_def add_usize_def USIZE_MAX_def run_simps Let_def del: upt_rec_numeral)
  obtain idt lim b where i: "idt_init ?a 0x7000 (replicate IDT_ENTRIES idt_missing) = (idt, lim, b)"
    by (cases "idt_init ?a 0x7000 (replicate IDT_ENTRIES idt_missing)")
  have b: "b = 0x7000" using i by (simp add: idt_init_def)
  obtain p :: pics where True by blast
  note R = interrupts_reach_handlers [OF d i, of p]
  have e: "gate_target idt (TSS d) cpl rsp v = Some (100 + of_nat v, if v = 8 then of_nat (0x300000 + STACK_SIZE) AND - 16
      else (if cpl = 3 then of_nat (0x200000 + STACK_SIZE) else rsp) AND - 16)" if "v < 32" for cpl rsp v
    using R that by simp
  have "pic_vector (pic_init p) 4 = 36" by (simp add: pic_vector_def pic_init_effect)
  then have "gate_target idt (TSS d) 3 0x9000 36 = Some (?a (IrqStub 36), of_nat (0x200000 + STACK_SIZE) AND - 16)"
    using conjunct1 [OF conjunct2 [OF R], rule_format, of 4 3 "0x9000"] by simp
  then show ?thesis using e [of 8 0 "0x9000"] e [of 14 3 "0x9000"] e [of 14 0 "0x9008"] d i b by simp
qed

text \<open>C12: the interrupt handler.  From a consistent scheduler state every interrupt line is handled without a
  panic and acknowledged exactly once, at both controllers for a line of the second one.  A timer
  interrupt counts one tick and is exactly a tick of the scheduler; every other line leaves the
  processes alone.  The serial line takes all received bytes into the input buffer.\<close>

theorem irq_handled_once:
  assumes "n < IRQ_COUNT" "sched_inv (machine_of st)" "ring_inv (SERIAL_INPUT (console_of st))"
  shows "\<exists>ctl st'. irq_handler (of_nat (pic_vector (pic_init s) n)) scancode st = Inr (ctl, st') \<and>
    eois (pic1 (pics_of st')) = eois (pic1 (pics_of st)) + 1 \<and>
    eois (pic2 (pics_of st')) = eois (pic2 (pics_of st)) + (if 8 \<le> n then 1 else 0) \<and>
    timer_ticks st' = timer_ticks st + (if n = 0 then 1 else 0) \<and>
    (if n = 0 then on_timer_tick (machine_of st) = Inr (ctl, machine_of st') \<and> console_of st' = console_of st
     else ctl = None \<and> machine_of st' = machine_of st) \<and>
    sched_inv (machine_of st') \<and> ring_inv (SERIAL_INPUT (console_of st')) \<and>
    (let input = ring_contents (SERIAL_INPUT (console_of st)) @ (if n = 4 then rx (com1 (console_of st)) else [])
     in ring_contents (SERIAL_INPUT (console_of st')) = drop (length input - 255) input)"
proof -
  have vec: "pic_vector (pic_init s) n = 32 + n" by (simp add: pic_vector_def pic_init_effect)
  have keep: "drop (length (ring_contents q) - 255) (ring_contents q) = ring_contents q" if "ring_inv q" for q
    using ring.bounded [OF that] by simp
  obtain ctl m where tick: "on_timer_tick (machine_of st) = Inr (ctl, m)" "sched_inv m" by (rule on_timer_tick_keeps [OF assms(2)])
  obtain c where serial: "handle_serial_rx_interrupt (console_of st) = Inr c" "ring_inv (SERIAL_INPUT c)"
    "ring_contents (SERIAL_INPUT c) = ring.keep (ring_contents (SERIAL_INPUT (console_of st)) @ rx (com1 (console_of st)))"
    by (rule rx_interrupt_keeps [OF assms(3)])
  show ?thesis
    unfolding vec irq_handler_def irq_number [OF assms(1)]
    using tick serial assms(2,3) keep [OF assms(3)]
    by (cases "n = 0"; cases "n = 1"; cases "n = 4") (simp_all add: Let_def end_of_interrupt_effect timer_ticks_def ring.keep_def)
qed

theorem irq_handled_once_witness:
  "\<exists>st :: irq_state. \<exists>ctl st'. irq_handler 36 0 st = Inr (ctl, st') \<and> ctl = None \<and> eois (pic1 (pics_of st')) = eois (pic1 (pics_of st)) + 1 \<and>
     ring_contents (SERIAL_INPUT (console_of st')) = [104, 105]"
proof -
  obtain b f b' where booted: "booted (demo_machine f b')" by (rule demo_booted)
  obtain m where "proc_init (demo_machine f b') = Inr m" "sys_inv m" by (rule proc_init_sys_inv [OF booted])
  then have m: "sched_inv m" by (simp add: sys_inv_def)
  define p where "p = \<lparr>icw_stage = 0, vector_offset = 32, cascade = 4, mode = 1, imr = 0, eois = 0\<rparr>"
  define s where "s = \<lparr>pic1 = p, pic2 = p, io_waits = 0\<rparr>"
  define st where "st = \<lparr>machine_of = m, console_of = demo_console, pics_of = s, TIMER_TICKS = 0\<rparr>"
  have ring: "ring_inv (SERIAL_INPUT demo_console)" "ring_contents (SERIAL_INPUT demo_console) = []"
    by (simp_all add: ring_inv_def serial_input_new_def ring_contents_def ring_length_def)
  have "(4 :: nat) < IRQ_COUNT" "sched_inv (machine_of st)" "ring_inv (SERIAL_INPUT (console_of st))" using m ring by (simp_all add: st_def)
  from irq_handled_once [OF this, of s 0] obtain ctl st' where h: "irq_handler (of_nat (pic_vector (pic_init s) 4)) 0 st = Inr (ctl, st')"
    "ctl = None" "eois (pic1 (pics_of st')) = eois (pic1 (pics_of st)) + 1" "ring_contents (SERIAL_INPUT (console_of st')) = [104, 105]"
    using ring(2) by (auto simp: Let_def st_def)
  moreover have "of_nat (pic_vector (pic_init s) 4) = (36 :: u64)" by (simp add: pic_vector_def pic_init_effect)
  ultimately show ?thesis by auto
qed

text \<open>Masks.  After initialisation, unmasking a list of lines opens exactly those lines, and the cascade
  line when one of them belongs to the second controller.\<close>

lemma unmask_opens_exactly:
  assumes "\<forall>i\<in>set ls. i < IRQ_COUNT" "n < IRQ_COUNT"
  shows "line_open (fold unmask_irq ls (pic_init s)) n \<longleftrightarrow> n \<in> set ls \<or> n = 2 \<and> (\<exists>m\<in>set ls. 8 \<le> m)"
  using unmasked_bits [OF assms(1), of s] assms(2) by (auto simp: line_open_def not_less)

text \<open>The words of a \<^verbatim>\<open>TrapFrame\<close> in memory order.  Entering user mode with a frame gives the processor
  exactly its registers, selectors and flags.\<close>

definition frame_words :: "trap_frame \<Rightarrow> u64 list" where
  "frame_words tf = t_gprs tf @ [t_rip tf, t_cs tf, t_rflags tf, t_rsp tf, t_ss tf]"

lemma enter_user_loads:
  assumes "length (t_gprs tf) = 15" "\<forall>i<20. cells c (regs c RDI + 8 * of_nat i) = frame_words tf ! i"
  shows "map (i_regs (enter_user c)) frame_regs = t_gprs tf" "i_regs (enter_user c) RSP = t_rsp tf"
    "i_rip (enter_user c) = t_rip tf" "i_cs (enter_user c) = t_cs tf" "i_rflags (enter_user c) = t_rflags tf"
    "i_ss (enter_user c) = t_ss tf"
proof -
  define a where "a = regs c RDI"
  have w: "map (\<lambda>i. cells c (a + 8 * of_nat i)) [0..<20] = frame_words tf"
    using assms by (intro nth_equalityI) (simp_all add: frame_words_def a_def)
  have u: "[0..<20] = [0..<15] @ [15..<20]" using upt_add_eq_append [of 0 15 5] by simp
  have "map (\<lambda>i. cells c (a + 8 * of_nat i)) [0..<15] = t_gprs tf"
      and t: "map (\<lambda>i. cells c (a + 8 * of_nat i)) [15..<20] = [t_rip tf, t_cs tf, t_rflags tf, t_rsp tf, t_ss tf]"
    using w assms(1) unfolding frame_words_def u map_append by (simp_all add: append_eq_append_conv)
  moreover have "map (i_regs (enter_user c)) frame_regs = map (\<lambda>i. cells c (a + 8 * of_nat i)) [0..<15]"
    by (simp add: enter_user_def iretq_def frame_regs_def pop_reg_def mov_def Let_def a_def upt_rec add.assoc)
  ultimately show "map (i_regs (enter_user c)) frame_regs = t_gprs tf" by simp
  show "i_regs (enter_user c) RSP = t_rsp tf" "i_rip (enter_user c) = t_rip tf" "i_cs (enter_user c) = t_cs tf"
      "i_rflags (enter_user c) = t_rflags tf" "i_ss (enter_user c) = t_ss tf"
    using t by (simp_all add: enter_user_def iretq_def frame_regs_def pop_reg_def mov_def Let_def a_def upt_rec add.assoc)
qed

text \<open>C29: the interrupt stub.  When the handler, entered with the vector in \<^verbatim>\<open>rdi\<close> on an aligned stack, keeps
  \<^verbatim>\<open>rbx\<close> and the frame of its caller as the calling convention demands, the interrupted code gets every
  register and its stack pointer back.\<close>

theorem irq_stub_restores:
  assumes "\<forall>c'. regs c' RDI = v \<and> regs c' RSP = regs c' RBX AND - 16 \<longrightarrow>
    regs (handler c') RBX = regs c' RBX \<and>
    (\<forall>i<15. cells (handler c') (regs c' RBX + 8 * of_nat i) = cells c' (regs c' RBX + 8 * of_nat i))"
  shows "regs (irq_stub handler v c) r = regs c r"
proof -
  define p where "p = fold push_reg saved_regs c"
  define q where "q = p\<lparr>regs := (regs p)(RBX := regs p RSP, RSP := regs p RSP AND - 16, RDI := v)\<rparr>"
  define d where "d = (handler q)\<lparr>regs := (regs (handler q))(RSP := regs (handler q) RBX)\<rparr>"
  have "irq_stub handler v c = fold pop_reg (rev saved_regs) d"
    by (simp add: irq_stub_def Let_def p_def q_def d_def fun_upd_twist)
  moreover have h: "regs d RSP = regs p RSP" "\<forall>i<15. cells d (regs d RSP + 8 * of_nat i) = cells p (regs d RSP + 8 * of_nat i)"
    using assms [rule_format, of q] by (simp_all add: d_def q_def)
  have "regs (fold pop_reg (rev saved_regs) d) r = (if r = RSP \<or> r \<in> set saved_regs then regs c r else regs d r)"
    by (rule pop_restores) (use h in \<open>simp_all add: saved_regs_def p_def [unfolded saved_regs_def]\<close>)
  moreover have "r = RSP \<or> r \<in> set saved_regs" by (cases r) (simp_all add: saved_regs_def)
  ultimately show ?thesis by simp
qed

theorem irq_stub_restores_witness:
  "\<forall>c r. regs (irq_stub (\<lambda>c'. c'\<lparr>regs := (\<lambda>r. if r = RBX then regs c' RBX else 0)\<rparr>) 32 c) r = regs c r"
  by (intro allI irq_stub_restores) simp


end
