(* ===== verification/Shell.thy ===== *)
theory Shell
  imports Syscall Commands Trap "HOL-Library.Sublist"
begin

text \<open>
  The shell of src/src/main.rs: line editing, jobs, and running commands.  The kernel is the locked
  globals of the system calls (\<open>sys\<close>) over the world of the interrupt handlers: processes, console,
  interrupt controllers and tick counter.  The line is a string of the ASCII characters the shell
  accepts, so white space is the space character and the control characters of \<open>is_space\<close>.
\<close>

section \<open>State\<close>

type_synonym kernel_state = "irq_state sys"

datatype job_kind = SleepJob | CountJob

record job =
  job_id :: usize
  job_name :: string
  jkind :: job_kind
  remaining :: nat
  total :: nat
  background :: bool

record shell =
  line :: string
  jobs :: "job list"
  active :: "job option"
  next_job_id :: usize
  last_second :: usize

definition shell_new :: shell where
  "shell_new = \<lparr>line = '''', jobs = [], active = None, next_job_id = 1, last_second = 0\<rparr>"

section \<open>Output\<close>

definition put :: "data \<Rightarrow> kernel_state \<Rightarrow> kernel_state" where
  "put bs st = st\<lparr>world := (world st)\<lparr>console_of := (console_of (world st))\<lparr>com1 := serial_write bs (com1 (console_of (world st)))\<rparr>\<rparr>\<rparr>"

abbreviation crlf :: string where "crlf \<equiv> [CHR 0x0D, CHR 0x0A]"

abbreviation say :: "string \<Rightarrow> kernel_state \<Rightarrow> kernel_state" where "say s \<equiv> put (str_bytes s)"

definition log_message :: "log_level \<Rightarrow> string list \<Rightarrow> kernel_state \<Rightarrow> kernel_state" where
  "log_message level pieces st =
     st\<lparr>world := (world st)\<lparr>console_of := printk level (map str_bytes pieces) (console_of (world st))\<rparr>\<rparr>"

definition print_prompt :: "kernel_state \<Rightarrow> kernel_state" where
  "print_prompt st = say ''zeronix:/home$ '' st"

text \<open>The hooks the kernel registers for system calls.\<close>

definition serial_console_write :: "data \<Rightarrow> irq_state \<Rightarrow> irq_state" where
  "serial_console_write bs w = w\<lparr>console_of := (console_of w)\<lparr>com1 := serial_write bs (com1 (console_of w))\<rparr>\<rparr>"

definition exec_program :: "data \<Rightarrow> irq_state \<Rightarrow> (sys_result \<times> irq_state) run" where
  "exec_program img w =
     rbind (spawn_elf img (machine_of w)) (\<lambda>(r, m). Inr (case r of Inl _ \<Rightarrow> Inl InvalidArgument
       | Inr p \<Rightarrow> Inr (unat (pid (procs m ! p))), w\<lparr>machine_of := m\<rparr>))"

definition exit_hook :: "usize \<Rightarrow> irq_state \<Rightarrow> irq_state run" where
  "exit_hook status w = rbind (exit_current (machine_of w)) (\<lambda>(ctl, m). Inr (w\<lparr>machine_of := m\<rparr>))"

text \<open>\<^verbatim>\<open>with_runtime_fs\<close> of src/src/syscall.rs.\<close>

definition with_runtime_fs :: "(ramfs \<Rightarrow> ('a \<times> ramfs) run) \<Rightarrow> 'w sys \<Rightarrow> ('a option \<times> 'w sys) run" where
  "with_runtime_fs f st =
     rbind (acquire (KERNEL_FS st)) (\<lambda>l.
     case inner l of None \<Rightarrow> Inr (None, st\<lparr>KERNEL_FS := spin_unlock l\<rparr>)
     | Some fs \<Rightarrow> rbind (f fs) (\<lambda>(r, fs). Inr (Some r, st\<lparr>KERNEL_FS := spin_unlock (l\<lparr>inner := Some fs\<rparr>)\<rparr>)))"

section \<open>Jobs\<close>

definition tick_job :: "job \<Rightarrow> kernel_state \<Rightarrow> (job \<times> kernel_state) run" where
  "tick_job j st =
     (if remaining j = 0 then Inr (j, st)
      else
        let j = j\<lparr>remaining := remaining j - 1\<rparr> in
        if jkind j = CountJob then
          rbind (sub_usize (total j) (remaining j)) (\<lambda>now. Inr (j, say (job_name j @ '': '' @ dec now @ crlf) st))
        else Inr (j, st))"

text \<open>The active job, then the loop over the background jobs, which takes out the ones that end.\<close>

definition tick_active :: "shell \<Rightarrow> kernel_state \<Rightarrow> (shell \<times> kernel_state) run" where
  "tick_active sh st =
     (case active sh of None \<Rightarrow> Inr (sh, st)
      | Some j \<Rightarrow> rbind (tick_job j st) (\<lambda>(j, st).
          if remaining j = 0 then Inr (sh\<lparr>active := None\<rparr>, print_prompt (say (job_name j @ '' done'' @ crlf) st))
          else Inr (sh\<lparr>active := Some j\<rparr>, st)))"

fun tick_jobs :: "job list \<Rightarrow> bool \<Rightarrow> kernel_state \<Rightarrow> (job list \<times> kernel_state) run" where
  "tick_jobs [] prompt st = Inr ([], st)"
| "tick_jobs (j # js) prompt st =
     rbind (tick_job j st) (\<lambda>(j, st).
     if remaining j = 0 then
       let st = say (crlf @ ''['' @ dec (job_id j) @ ''] done '' @ job_name j @ crlf) st;
           st = (if prompt then print_prompt st else st)
       in tick_jobs js prompt st
     else rbind (tick_jobs js prompt st) (\<lambda>(js, st). Inr (j # js, st)))"

definition tick_one_second :: "shell \<Rightarrow> kernel_state \<Rightarrow> (shell \<times> kernel_state) run" where
  "tick_one_second sh st =
     rbind (tick_active sh st) (\<lambda>(sh, st).
     rbind (tick_jobs (jobs sh) (active sh = None) st) (\<lambda>(js, st).
     Inr (sh\<lparr>jobs := js\<rparr>, st)))"

lemma tick_one_second_last: "tick_one_second sh st = Inr (sh', st') \<Longrightarrow> last_second sh' = last_second sh"
  by (auto simp: tick_one_second_def tick_active_def rbind_eq_Inr_iff split: option.splits if_splits)

function poll_loop :: "usize \<Rightarrow> shell \<Rightarrow> kernel_state \<Rightarrow> (shell \<times> kernel_state) run" where
  "poll_loop seconds sh st =
     (if last_second sh < seconds then
        rbind (tick_one_second (sh\<lparr>last_second := last_second sh + 1\<rparr>) st) (\<lambda>(sh, st). poll_loop seconds sh st)
      else Inr (sh, st))"
  by pat_completeness auto
termination
  by (relation "measure (\<lambda>(seconds, sh, st). seconds - last_second sh)") (auto dest: tick_one_second_last)

declare poll_loop.simps [simp del]

definition poll_jobs :: "shell \<Rightarrow> kernel_state \<Rightarrow> (shell \<times> kernel_state) run" where
  "poll_jobs sh st = poll_loop (unat (timer_ticks (world st)) div 100) sh st"

definition suspend_active_job :: "shell \<Rightarrow> kernel_state \<Rightarrow> shell \<times> kernel_state" where
  "suspend_active_job sh st =
     (case active sh of None \<Rightarrow> (sh, st)
      | Some j \<Rightarrow>
        let j = j\<lparr>background := True\<rparr>;
            st = say (crlf @ ''['' @ dec (job_id j) @ ''] stopped '' @ job_name j @ crlf) st
        in (sh\<lparr>active := None, jobs := jobs sh @ [j]\<rparr>, print_prompt st))"

fun print_job_lines :: "job list \<Rightarrow> kernel_state \<Rightarrow> kernel_state" where
  "print_job_lines [] st = st"
| "print_job_lines (j # js) st =
     print_job_lines js (say (''['' @ dec (job_id j) @ ''] '' @ job_name j @ '' '' @ dec (remaining j) @ ''s remaining'' @ crlf) st)"

definition print_jobs :: "shell \<Rightarrow> kernel_state \<Rightarrow> kernel_state" where
  "print_jobs sh st = (if jobs sh = [] then say (''no background jobs'' @ crlf) st else print_job_lines (jobs sh) st)"

text \<open>\<open>take_job n js\<close> is the first job with number \<open>n\<close> and the others: \<^verbatim>\<open>position\<close> and \<^verbatim>\<open>remove\<close>.\<close>

fun take_job :: "usize \<Rightarrow> job list \<Rightarrow> (job \<times> job list) option" where
  "take_job n [] = None"
| "take_job n (j # js) = (if job_id j = n then Some (j, js) else map_option (\<lambda>(k, ks). (k, j # ks)) (take_job n js))"

definition foreground_job :: "string option \<Rightarrow> shell \<Rightarrow> kernel_state \<Rightarrow> shell \<times> kernel_state" where
  "foreground_job arg sh st =
     (case Option.bind arg parse_u64 of None \<Rightarrow> (sh, say (''usage: fg <job-id>'' @ crlf) st)
      | Some n \<Rightarrow>
        (case take_job n (jobs sh) of None \<Rightarrow> (sh, say (''fg: no such job'' @ crlf) st)
         | Some (j, js) \<Rightarrow>
            (sh\<lparr>jobs := js, active := Some (j\<lparr>background := False\<rparr>)\<rparr>, say (job_name j @ '' foreground'' @ crlf) st)))"

definition job_seconds :: "string list \<Rightarrow> nat" where
  "job_seconds words = max 1 (case (if 1 < length words then parse_u32 (words ! 1) else None) of None \<Rightarrow> 5 | Some n \<Rightarrow> n)"

definition enter_job :: "string \<Rightarrow> nat \<Rightarrow> bool \<Rightarrow> shell \<Rightarrow> kernel_state \<Rightarrow> (shell \<times> kernel_state) run" where
  "enter_job command seconds bg sh st =
     (let j = \<lparr>job_id = next_job_id sh, job_name = command, jkind = (if command = ''count'' then CountJob else SleepJob),
                remaining = seconds, total = seconds, background = bg\<rparr> in
      rbind (add_usize (next_job_id sh) 1) (\<lambda>nxt.
      let sh = sh\<lparr>next_job_id := nxt\<rparr> in
      if bg then Inr (sh\<lparr>jobs := jobs sh @ [j]\<rparr>, say (''['' @ dec (job_id j) @ ''] '' @ job_name j @ crlf) st)
      else Inr (sh\<lparr>active := Some j\<rparr>, say (job_name j @ '' running; Ctrl-Z sends it to background'' @ crlf) st)))"

definition start_long_job :: "string \<Rightarrow> string list \<Rightarrow> bool \<Rightarrow> shell \<Rightarrow> kernel_state \<Rightarrow> (shell \<times> kernel_state) run" where
  "start_long_job command words bg sh st =
     rbind (with_runtime_fs (\<lambda>fs. rbind (load_program command fs) (\<lambda>r. Inr (r, fs))) st) (\<lambda>(loaded, st).
     case loaded of None \<Rightarrow> Inr (sh, say (''shell: filesystem is not initialized'' @ crlf) st)
     | Some (Inl _) \<Rightarrow> Inr (sh, say (''shell: executable not found'' @ crlf) st)
     | Some (Inr _) \<Rightarrow> enter_job command (job_seconds words) bg sh st)"

section \<open>Running a line\<close>

text \<open>\<^verbatim>\<open>trim\<close>, \<^verbatim>\<open>trim_end\<close> and \<^verbatim>\<open>trim_start_matches("/bin/")\<close>.\<close>

definition trim_end :: "string \<Rightarrow> string" where
  "trim_end s = rev (dropWhile is_space (rev s))"

definition trim :: "string \<Rightarrow> string" where
  "trim s = trim_end (dropWhile is_space s)"

function trim_bin :: "string \<Rightarrow> string" where
  "trim_bin s = (if take 5 s = ''/bin/'' then trim_bin (drop 5 s) else s)"
  by pat_completeness auto
termination
proof (relation "measure length")
  fix s :: string
  assume "take 5 s = ''/bin/''"
  then have "s \<noteq> []" by auto
  then show "(drop 5 s, s) \<in> measure length" by simp
qed simp

declare trim_bin.simps [simp del]

definition run_elf :: "string option \<Rightarrow> kernel_state \<Rightarrow> kernel_state run" where
  "run_elf program st =
     (case program of None \<Rightarrow> Inr (say (''usage: run <program>'' @ crlf) st)
      | Some p \<Rightarrow>
        rbind (with_runtime_fs (\<lambda>fs. Inr (fs_read (''/bin/'' @ trim_bin p) fs, fs)) st) (\<lambda>(img, st).
        case img of Some (Inr img) \<Rightarrow>
          rbind (spawn_elf img (machine_of (world st))) (\<lambda>(r, m).
          let st = st\<lparr>world := (world st)\<lparr>machine_of := m\<rparr>\<rparr> in
          Inr (case r of Inr q \<Rightarrow> say (''started pid '' @ dec (unat (pid (procs m ! q))) @ crlf) st
               | Inl _ \<Rightarrow> say (''run: invalid executable'' @ crlf) st))
        | _ \<Rightarrow> Inr (say (''run: executable not found'' @ crlf) st)))"

definition word_opt :: "string list \<Rightarrow> nat \<Rightarrow> string option" where
  "word_opt words i = (if i < length words then Some (words ! i) else None)"

definition run_shell_command :: "string \<Rightarrow> bool \<Rightarrow> shell \<Rightarrow> kernel_state \<Rightarrow> (bool \<times> shell \<times> kernel_state) run" where
  "run_shell_command ln bg sh st =
     (let words = split_whitespace ln in
      case words of [] \<Rightarrow> Inr (True, sh, st)
      | command # _ \<Rightarrow>
        if command = ''jobs'' then Inr (True, sh, print_jobs sh st)
        else if command = ''fg'' then Inr (True, foreground_job (word_opt words 1) sh st)
        else if command = ''run'' \<or> command = ''exec'' then rbind (run_elf (word_opt words 1) st) (\<lambda>st. Inr (True, sh, st))
        else if command = ''sleep'' \<or> command = ''count'' then
          rbind (start_long_job command words bg sh st) (\<lambda>(sh, st). Inr (True, sh, st))
        else Inr (False, sh, st))"

text \<open>The debug format of a command error.\<close>

definition show_fs_error :: "fs_error \<Rightarrow> string" where
  "show_fs_error e = (case e of InvalidPath \<Rightarrow> ''InvalidPath'' | NotFound \<Rightarrow> ''NotFound'' | AlreadyExists \<Rightarrow> ''AlreadyExists''
     | NotDirectory \<Rightarrow> ''NotDirectory'' | IsDirectory \<Rightarrow> ''IsDirectory'' | DirectoryNotEmpty \<Rightarrow> ''DirectoryNotEmpty'')"

definition show_command_error :: "command_error \<Rightarrow> string" where
  "show_command_error e = (case e of Empty \<Rightarrow> ''Empty'' | Unknown \<Rightarrow> ''Unknown'' | MissingArgument \<Rightarrow> ''MissingArgument''
     | BadExecutable \<Rightarrow> ''BadExecutable'' | Fs f \<Rightarrow> ''Fs('' @ show_fs_error f @ '')'')"

definition run_line :: "shell \<Rightarrow> kernel_state \<Rightarrow> (shell \<times> kernel_state) run" where
  "run_line sh st =
     (let ln = trim (line sh) in
      if ln = [] then Inr (sh, st)
      else
        let bg = (last ln = CHR ''&'');
            ln = (if bg then trim_end (butlast ln) else ln) in
        if ln = [] then Inr (sh, st)
        else
          rbind (run_shell_command ln bg sh st) (\<lambda>(handled, sh, st).
          if handled then Inr (sh, st)
          else
            rbind (with_runtime_fs (run_command ln []) st) (\<lambda>(result, st).
            Inr (sh, case result of None \<Rightarrow> say (''shell: filesystem is not initialized'' @ crlf) st
              | Some (Inr out) \<Rightarrow> put (stderr out) (put (stdout out) st)
              | Some (Inl e) \<Rightarrow> log_message LogError [''shell command failed: '', show_command_error e] st))))"

definition handle_byte :: "byte \<Rightarrow> shell \<Rightarrow> kernel_state \<Rightarrow> (shell \<times> kernel_state) run" where
  "handle_byte b sh st =
     (if active sh \<noteq> None then Inr (if b = 26 then suspend_active_job sh st else (sh, st))
      else if b = 13 \<or> b = 10 then
        rbind (run_line sh (say crlf st)) (\<lambda>(sh, st). Inr (sh\<lparr>line := ''''\<rparr>, print_prompt st))
      else if b = 8 \<or> b = 127 then
        Inr (if line sh \<noteq> [] then (sh\<lparr>line := butlast (line sh)\<rparr>, put [8, 32, 8] st) else (sh, st))
      else if (33 \<le> b \<and> b \<le> 126) \<or> b = 32 then
        Inr (sh\<lparr>line := line sh @ [char_of (unat b)]\<rparr>, put [b] st)
      else Inr (sh, st))"

text \<open>The loop of \<^verbatim>\<open>kernel_main\<close> over the received bytes, and one round of it after a halt.  Every read takes
  a byte out of the buffer, which holds at most 255.\<close>

fun handle_input :: "nat \<Rightarrow> shell \<Rightarrow> kernel_state \<Rightarrow> (shell \<times> kernel_state) run" where
  "handle_input 0 sh st = Inl Diverge"
| "handle_input (Suc n) sh st =
     rbind (read_serial_byte (console_of (world st))) (\<lambda>(b, c).
     let st = st\<lparr>world := (world st)\<lparr>console_of := c\<rparr>\<rparr> in
     case b of None \<Rightarrow> Inr (sh, st)
     | Some b \<Rightarrow> rbind (handle_byte b sh st) (\<lambda>(sh, st). handle_input n sh st))"

definition main_round :: "shell \<Rightarrow> kernel_state \<Rightarrow> (shell \<times> kernel_state) run" where
  "main_round sh st = rbind (poll_jobs sh st) (\<lambda>(sh, st). handle_input SERIAL_INPUT_CAPACITY sh st)"


section \<open>Output\<close>

text \<open>What has gone out on the serial line, and that bytes written to it are sent.\<close>

definition sent :: "kernel_state \<Rightarrow> data" where
  "sent st = tx (com1 (console_of (world st)))"

definition sending :: "kernel_state \<Rightarrow> bool" where
  "sending st \<longleftrightarrow> \<not> bit (lcr (com1 (console_of (world st)))) 7"

lemma put_simps [simp]:
  "sending st \<Longrightarrow> sent (put bs st) = sent st @ bs" "sending st \<Longrightarrow> sending (put bs st)"
  "machine_of (world (put bs st)) = machine_of (world st)" "timer_ticks (world (put bs st)) = timer_ticks (world st)"
  "SERIAL_INPUT (console_of (world (put bs st))) = SERIAL_INPUT (console_of (world st))"
  "KERNEL_FS (put bs st) = KERNEL_FS st" "KERNEL_FD_TABLE (put bs st) = KERNEL_FD_TABLE st"
  by (simp_all add: put_def sent_def sending_def serial_write_simps timer_ticks_def)

definition prompt_text :: data where
  "prompt_text = str_bytes ''zeronix:/home$ ''"

lemma print_prompt_put: "print_prompt st = put prompt_text st"
  by (simp add: print_prompt_def prompt_text_def)

section \<open>Jobs\<close>

definition job_ok :: "bool \<Rightarrow> job \<Rightarrow> bool" where
  "job_ok bg j \<longleftrightarrow> 0 < remaining j \<and> remaining j \<le> total j \<and> total j < 2 ^ 32 \<and> background j = bg \<and>
     job_name j = (case jkind j of SleepJob \<Rightarrow> ''sleep'' | CountJob \<Rightarrow> ''count'')"

text \<open>Numbers of jobs are unique and below the counter; a job on the list is in the background, the active one is not.\<close>

definition shell_inv :: "shell \<Rightarrow> bool" where
  "shell_inv sh \<longleftrightarrow> (\<forall>j\<in>set (jobs sh). job_ok True j) \<and> (\<forall>j\<in>set_option (active sh). job_ok False j) \<and>
     distinct (map job_id ((case active sh of None \<Rightarrow> [] | Some j \<Rightarrow> [j]) @ jobs sh)) \<and>
     (\<forall>j\<in>set (jobs sh) \<union> set_option (active sh). job_id j < next_job_id sh)"

text \<open>What a job prints while it runs, and when it ends.\<close>

definition count_text :: "job \<Rightarrow> data" where
  "count_text j = (case jkind j of SleepJob \<Rightarrow> []
     | CountJob \<Rightarrow> str_bytes (job_name j @ '': '' @ dec (total j - (remaining j - 1)) @ crlf))"

definition done_text :: "job \<Rightarrow> data" where
  "done_text j = str_bytes (crlf @ ''['' @ dec (job_id j) @ ''] done '' @ job_name j @ crlf)"

lemma put_Nil [simp]: "put [] st = st"
  by (simp add: put_def)

lemma put_put [simp]: "put as (put bs st) = put (bs @ as) st"
proof -
  have "serial_write as (serial_write bs u) = serial_write (bs @ as) u" for u by (induction bs u rule: serial_write.induct) simp_all
  then show ?thesis by (simp add: put_def)
qed

lemma tick_job_put:
  assumes "0 < remaining j" "remaining j \<le> total j"
  shows "tick_job j st = Inr (j\<lparr>remaining := remaining j - 1\<rparr>, put (count_text j) st)"
  using assms by (cases "jkind j") (simp_all add: tick_job_def count_text_def sub_usize_def Let_def)

text \<open>One second of the background jobs, and of the active job, on lists.\<close>

definition step_jobs :: "job list \<Rightarrow> job list" where
  "step_jobs js = map (\<lambda>j. j\<lparr>remaining := remaining j - 1\<rparr>) (filter (\<lambda>j. 1 < remaining j) js)"

definition job_text :: "bool \<Rightarrow> job \<Rightarrow> data" where
  "job_text prompt j = count_text j @ (if remaining j = 1 then done_text j @ (if prompt then prompt_text else []) else [])"

lemma tick_jobs_put:
  "\<forall>j\<in>set js. job_ok True j \<Longrightarrow> tick_jobs js prompt st = Inr (step_jobs js, put (concat (map (job_text prompt) js)) st)"
proof (induction js arbitrary: st)
  case (Cons j js)
  then have j: "tick_job j st = Inr (j\<lparr>remaining := remaining j - 1\<rparr>, put (count_text j) st)" "0 < remaining j"
    by (simp_all add: tick_job_put job_ok_def)
  have js: "tick_jobs js prompt st = Inr (step_jobs js, put (concat (map (job_text prompt) js)) st)" for st using Cons by simp
  show ?case
    using j(2) by (cases "remaining j = 1")
      (auto simp: j(1) js step_jobs_def job_text_def [of prompt j] done_text_def print_prompt_put Let_def)
qed (simp add: step_jobs_def)

definition step_shell :: "shell \<Rightarrow> shell" where
  "step_shell sh = sh\<lparr>active := (case active sh of None \<Rightarrow> None
       | Some j \<Rightarrow> if 1 < remaining j then Some (j\<lparr>remaining := remaining j - 1\<rparr>) else None), jobs := step_jobs (jobs sh)\<rparr>"

lemma tick_one_second_put:
  assumes "shell_inv sh"
  obtains pre prompt where "tick_one_second sh st = Inr (step_shell sh, put (pre @ concat (map (job_text prompt) (jobs sh))) st)"
proof -
  have js: "tick_jobs (jobs sh) prompt st' = Inr (step_jobs (jobs sh), put (concat (map (job_text prompt) (jobs sh))) st')" for prompt st'
    using assms by (intro tick_jobs_put) (simp add: shell_inv_def)
  show thesis
  proof (cases "active sh")
    case None
    then show thesis
      using js that [of "[]" True] by (simp add: tick_one_second_def tick_active_def step_shell_def)
  next
    case (Some j)
    then have "0 < remaining j" "remaining j \<le> total j" using assms by (auto simp: shell_inv_def job_ok_def)
    then show thesis
      using js Some that [of "count_text j @ (if remaining j = 1 then str_bytes (job_name j @ '' done'' @ crlf) @ prompt_text else [])" "remaining j = 1"]
      by (cases "remaining j = 1") (simp_all add: tick_one_second_def tick_active_def tick_job_put step_shell_def print_prompt_put)
  qed
qed

section \<open>Time\<close>

definition elapse :: "nat \<Rightarrow> shell \<Rightarrow> shell" where
  "elapse k sh = sh\<lparr>active := Option.bind (active sh) (\<lambda>j. if k < remaining j then Some (j\<lparr>remaining := remaining j - k\<rparr>) else None),
     jobs := map (\<lambda>j. j\<lparr>remaining := remaining j - k\<rparr>) (filter (\<lambda>j. k < remaining j) (jobs sh)), last_second := last_second sh + k\<rparr>"

lemma elapse_0: "elapse 0 sh = sh" if "shell_inv sh"
proof -
  have "filter (\<lambda>j. 0 < remaining j) (jobs sh) = jobs sh" "\<forall>j\<in>set_option (active sh). 0 < remaining j"
    using that by (auto simp: shell_inv_def job_ok_def filter_id_conv)
  then show ?thesis by (cases "active sh") (simp_all add: elapse_def)
qed

lemma elapse_step: "elapse k (step_shell (sh\<lparr>last_second := Suc (last_second sh)\<rparr>)) = elapse (Suc k) sh"
proof -
  have "map (\<lambda>j. j\<lparr>remaining := remaining j - k\<rparr>) (filter (\<lambda>j. k < remaining j) (step_jobs js)) =
      map (\<lambda>j. j\<lparr>remaining := remaining j - Suc k\<rparr>) (filter (\<lambda>j. Suc k < remaining j) js)" for js
    by (induction js) (auto simp: step_jobs_def)
  then show ?thesis
    by (cases "active sh") (auto simp: elapse_def step_shell_def)
qed

lemma shell_inv_cong: "jobs sh' = jobs sh \<Longrightarrow> active sh' = active sh \<Longrightarrow> next_job_id sh' = next_job_id sh \<Longrightarrow> shell_inv sh \<Longrightarrow> shell_inv sh'"
  by (simp add: shell_inv_def)

lemma step_shell_inv:
  assumes "shell_inv sh"
  shows "shell_inv (step_shell sh)"
proof -
  have ids: "map job_id (step_jobs js) = map job_id (filter (\<lambda>j. 1 < remaining j) js)" for js by (simp add: step_jobs_def comp_def)
  have set: "j \<in> set (step_jobs js) \<Longrightarrow> \<exists>i\<in>set js. j = i\<lparr>remaining := remaining i - 1\<rparr> \<and> 1 < remaining i" for j js
    by (auto simp: step_jobs_def)
  show ?thesis
  proof (cases "active sh")
    case None
    then show ?thesis using assms by (auto simp: shell_inv_def step_shell_def ids distinct_map_filter job_ok_def dest!: set)
  next
    case (Some j)
    then show ?thesis using assms by (auto simp: shell_inv_def step_shell_def ids distinct_map_filter job_ok_def dest!: set)
  qed
qed

lemma done_text_remaining: "done_text (j\<lparr>remaining := n\<rparr>) = done_text j"
  by (simp add: done_text_def)

lemma sublist_right: "sublist as bs \<Longrightarrow> sublist as (bs @ cs)" "sublist as cs \<Longrightarrow> sublist as (bs @ cs)"
  by (meson sublist_append_leftI sublist_append_rightI sublist_order.order_trans)+

lemma job_text_done: "j \<in> set js \<Longrightarrow> remaining j = 1 \<Longrightarrow> sublist (done_text j) (concat (map (job_text prompt) js))"
proof (induction js)
  case (Cons i js)
  show ?case
  proof (cases "i = j")
    case True
    then have "job_text prompt i = count_text j @ done_text j @ (if prompt then prompt_text else [])" using Cons.prems(2) by (simp add: job_text_def)
    then show ?thesis by (simp add: sublist_appendI)
  next
    case False
    then show ?thesis using Cons by (simp add: sublist_right(2))
  qed
qed simp

lemma poll_loop_elapse:
  assumes "shell_inv sh" "last_second sh + k = seconds"
  shows "\<exists>out. poll_loop seconds sh st = Inr (elapse k sh, put out st) \<and>
    (\<forall>j\<in>set (jobs sh). remaining j \<le> k \<longrightarrow> sublist (done_text j) out)"
  using assms
proof (induction k arbitrary: sh st)
  case 0
  then have "\<forall>j\<in>set (jobs sh). 0 < remaining j" by (auto simp: shell_inv_def job_ok_def)
  then show ?case using 0 by (intro exI [of _ "[]"]) (subst poll_loop.simps, auto simp: elapse_0)
next
  case (Suc k)
  define s1 where "s1 = sh\<lparr>last_second := Suc (last_second sh)\<rparr>"
  have i1: "shell_inv s1" using Suc.prems(1) by (simp add: s1_def shell_inv_def)
  obtain pre prompt where t: "tick_one_second s1 st = Inr (step_shell s1, put (pre @ concat (map (job_text prompt) (jobs s1))) st)"
    by (rule tick_one_second_put [OF i1])
  define o1 where "o1 = pre @ concat (map (job_text prompt) (jobs s1))"
  have "last_second (step_shell s1) + k = seconds" using Suc.prems(2) by (simp add: s1_def step_shell_def)
  then obtain out where out: "poll_loop seconds (step_shell s1) (put o1 st) = Inr (elapse k (step_shell s1), put out (put o1 st))"
    "\<forall>j\<in>set (jobs (step_shell s1)). remaining j \<le> k \<longrightarrow> sublist (done_text j) out"
    using Suc.IH [OF step_shell_inv [OF i1]] by blast
  have "poll_loop seconds sh st = Inr (elapse (Suc k) sh, put (o1 @ out) st)"
    using Suc.prems(2) t out(1) elapse_step [of k sh] by (subst poll_loop.simps) (simp add: s1_def [symmetric] o1_def)
  moreover have "sublist (done_text j) (o1 @ out)" if j: "j \<in> set (jobs sh)" "remaining j \<le> Suc k" for j
  proof (cases "remaining j = 1")
    case True
    then have "sublist (done_text j) o1" using job_text_done [of j "jobs s1" prompt] j(1) unfolding o1_def s1_def by (simp add: sublist_right(2))
    then show ?thesis by (rule sublist_right)
  next
    case False
    then have "1 < remaining j" using Suc.prems(1) j(1) by (fastforce simp: shell_inv_def job_ok_def)
    then have "j\<lparr>remaining := remaining j - 1\<rparr> \<in> set (jobs (step_shell s1))" using j(1) by (auto simp: step_shell_def step_jobs_def s1_def)
    then have "sublist (done_text (j\<lparr>remaining := remaining j - 1\<rparr>)) out" using out(2) j(2) by fastforce
    then show ?thesis by (simp add: done_text_remaining sublist_right(2))
  qed
  ultimately show ?case by blast
qed

lemma poll_loop_done: "seconds \<le> last_second sh \<Longrightarrow> poll_loop seconds sh st = Inr (sh, st)"
  by (subst poll_loop.simps) simp

section \<open>The invariant\<close>

lemma elapse_inv: "shell_inv sh \<Longrightarrow> shell_inv (elapse k sh)"
proof (induction k arbitrary: sh)
  case (Suc k)
  have "shell_inv (sh\<lparr>last_second := Suc (last_second sh)\<rparr>)" using Suc.prems by (simp add: shell_inv_def)
  then have "shell_inv (elapse k (step_shell (sh\<lparr>last_second := Suc (last_second sh)\<rparr>)))" by (intro Suc.IH step_shell_inv)
  then show ?case by (simp add: elapse_step)
qed (simp add: elapse_0)

lemma poll_jobs_elapse:
  fixes st :: kernel_state
  assumes "shell_inv sh"
  defines "k \<equiv> unat (timer_ticks (world st)) div 100 - last_second sh"
  shows "\<exists>out. poll_jobs sh st = Inr (elapse k sh, put out st) \<and> (\<forall>j\<in>set (jobs sh). remaining j \<le> k \<longrightarrow> sublist (done_text j) out)"
proof (cases "last_second sh \<le> unat (timer_ticks (world st)) div 100")
  case True
  then have "last_second sh + k = unat (timer_ticks (world st)) div 100" by (simp add: k_def)
  then show ?thesis using poll_loop_elapse [OF assms(1)] by (simp add: poll_jobs_def)
next
  case False
  moreover have "\<forall>j\<in>set (jobs sh). 0 < remaining j" using assms(1) by (auto simp: shell_inv_def job_ok_def)
  ultimately show ?thesis
    using elapse_0 [OF assms(1)] by (intro exI [of _ "[]"]) (auto simp: poll_jobs_def poll_loop_done k_def)
qed

lemma suspend_inv: "shell_inv sh \<Longrightarrow> shell_inv (fst (suspend_active_job sh st))"
  by (cases "active sh") (auto simp: suspend_active_job_def shell_inv_def job_ok_def Let_def)

lemma take_job_Some:
  "take_job n js = Some (j, ks) \<Longrightarrow> \<exists>xs ys. js = xs @ j # ys \<and> ks = xs @ ys \<and> job_id j = n \<and> n \<notin> job_id ` set xs"
proof (induction js arbitrary: ks)
  case (Cons i js)
  show ?case
  proof (cases "job_id i = n")
    case True
    then show ?thesis using Cons.prems by (intro exI [of _ "[]"] exI [of _ js]) simp
  next
    case False
    then obtain ks' where t: "take_job n js = Some (j, ks')" "ks = i # ks'" using Cons.prems by auto
    obtain xs ys where "js = xs @ j # ys \<and> ks' = xs @ ys \<and> job_id j = n \<and> n \<notin> job_id ` set xs" using Cons.IH [OF t(1)] by blast
    then show ?thesis using t False by (intro exI [of _ "i # xs"] exI [of _ ys]) auto
  qed
qed simp

lemma take_job_None: "take_job n js = None \<longleftrightarrow> n \<notin> job_id ` set js"
  by (induction js) auto

lemma foreground_inv:
  assumes "shell_inv sh" "active sh = None"
  shows "shell_inv (fst (foreground_job arg sh st))"
proof (cases "Option.bind arg parse_u64")
  case (Some n)
  show ?thesis
  proof (cases "take_job n (jobs sh)")
    case (Some r)
    then obtain j js where "take_job n (jobs sh) = Some (j, js)" by (cases r) simp
    moreover obtain xs ys where "jobs sh = xs @ j # ys" "js = xs @ ys" using take_job_Some [OF calculation] by blast
    ultimately show ?thesis using \<open>Option.bind arg parse_u64 = Some n\<close> assms
      by (auto simp: foreground_job_def shell_inv_def job_ok_def)
  qed (use Some assms in \<open>simp add: foreground_job_def\<close>)
qed (use assms in \<open>simp add: foreground_job_def\<close>)

lemma parse_u32_bound: "parse_u32 s = Some n \<Longrightarrow> n < 2 ^ 32"
  using parse_digits_bound [of 32 0 s n] by (simp add: parse_u32_def)

lemma enter_job_inv:
  assumes "enter_job command seconds bg sh st = Inr (sh', st')" "shell_inv sh" "active sh = None" "command \<in> {''sleep'', ''count''}"
    and "0 < seconds" "seconds < 2 ^ 32"
  shows "shell_inv sh'"
proof -
  define j where "j = \<lparr>job_id = next_job_id sh, job_name = command, jkind = (if command = ''count'' then CountJob else SleepJob),
                remaining = seconds, total = seconds, background = bg\<rparr>"
  have j: "job_ok bg j" "job_id j = next_job_id sh" using assms(4-6) by (auto simp: job_ok_def j_def)
  have "sh' = (if bg then sh\<lparr>next_job_id := next_job_id sh + 1, jobs := jobs sh @ [j]\<rparr> else sh\<lparr>next_job_id := next_job_id sh + 1, active := Some j\<rparr>)"
    using assms(1) unfolding enter_job_def j_def [symmetric] Let_def
    by (cases bg) (simp_all only: rbind_eq_Inr_iff add_usize_def if_True if_False prod.inject sum.inject split: if_split_asm, auto)
  then show ?thesis using assms(2,3) j by (auto simp: shell_inv_def less_Suc_eq)
qed

lemma start_long_job_inv:
  assumes "start_long_job command words bg sh st = Inr (sh', st')" "shell_inv sh" "active sh = None" "command \<in> {''sleep'', ''count''}"
  shows "shell_inv sh'"
proof -
  have s: "0 < job_seconds words" "job_seconds words < 2 ^ 32" using parse_u32_bound by (auto simp: job_seconds_def split: option.splits)
  obtain loaded st1 where l: "with_runtime_fs (\<lambda>fs. rbind (load_program command fs) (\<lambda>r. Inr (r, fs))) st = Inr (loaded, st1)"
    using assms(1) unfolding start_long_job_def by (elim rbind_eq_InrE) (metis prod.exhaust)
  show ?thesis
    using assms(1) enter_job_inv [OF _ assms(2-4) s] assms(2) unfolding start_long_job_def l rbind_simps prod.case
    by (cases loaded; cases "the loaded") (simp_all only: option.case sum.case sum.inject prod.inject option.sel)
qed

lemma if_eqE:
  assumes "(if P then a else b) = c" obtains "P" "a = c" | "\<not> P" "b = c"
  using assms by (cases P) simp_all

lemma run_line_inv:
  assumes "run_line sh st = Inr (sh', st')" "shell_inv sh" "active sh = None"
  shows "shell_inv sh'"
proof -
  have fg: "foreground_job a sh st = (sh2, st2) \<Longrightarrow> shell_inv sh2" for a sh2 st2 using foreground_inv [OF assms(2,3), of a st] by simp
  have "shell_inv sh2" if r: "run_shell_command ln bg sh st = Inr (h, sh2, st2)" for ln bg h sh2 st2
  proof (cases "split_whitespace ln")
    case (Cons command ws)
    have "sh2 = sh \<or> (\<exists>a. foreground_job a sh st = (sh2, st2)) \<or>
        ((command = ''sleep'' \<or> command = ''count'') \<and> start_long_job command (command # ws) bg sh st = Inr (sh2, st2))"
      using r unfolding run_shell_command_def Let_def Cons list.case by (elim if_eqE) (auto simp: rbind_eq_Inr_iff)
    then show ?thesis using assms(2) by (auto dest: fg start_long_job_inv [OF _ assms(2,3)])
  qed (use r assms in \<open>simp add: run_shell_command_def\<close>)
  then show ?thesis
    using assms(1,2) by (auto simp: run_line_def Let_def rbind_eq_Inr_iff split: if_splits)
qed

lemma handle_byte_inv:
  assumes "handle_byte b sh st = Inr (sh', st')" "shell_inv sh"
  shows "shell_inv sh'"
proof (cases "active sh = None")
  case True
  have l: "shell_inv (s\<lparr>line := x\<rparr>) \<longleftrightarrow> shell_inv s" for s x by (simp add: shell_inv_def)
  show ?thesis
    using assms True by (auto simp: handle_byte_def l rbind_eq_Inr_iff dest: run_line_inv split: if_splits)
next
  case False
  then show ?thesis using assms suspend_inv [OF assms(2), of st] by (auto simp: handle_byte_def split: if_splits)
qed

section \<open>Typed commands\<close>

definition printable :: "char \<Rightarrow> bool" where
  "printable c \<longleftrightarrow> 32 \<le> (of_char c :: byte) \<and> of_char c \<le> (126 :: byte)"

definition idle :: "shell \<Rightarrow> bool" where
  "idle sh \<longleftrightarrow> active sh = None \<and> jobs sh = []"

lemma poll_loop_idle: "idle sh \<Longrightarrow> \<exists>n. poll_loop seconds sh st = Inr (sh\<lparr>last_second := n\<rparr>, st)"
proof (induction "seconds - last_second sh" arbitrary: sh)
  case 0
  then show ?case by (intro exI [of _ "last_second sh"]) (simp add: poll_loop_done)
next
  case (Suc k)
  define s1 where "s1 = sh\<lparr>last_second := Suc (last_second sh)\<rparr>"
  have s1: "idle s1" "k = seconds - last_second s1" using Suc.hyps(2) Suc.prems by (simp_all add: s1_def idle_def)
  have "tick_one_second s1 st = Inr (s1, st)" using s1(1) by (simp add: tick_one_second_def tick_active_def idle_def)
  then have "poll_loop seconds sh st = poll_loop seconds s1 st"
    using Suc.hyps(2) by (subst poll_loop.simps) (auto simp: s1_def [symmetric])
  then show ?case using Suc.hyps(1) [OF s1(2,1)] by (auto simp: s1_def)
qed

text \<open>The state of the kernel as far as typing a command is concerned.\<close>

definition console_state :: "data \<Rightarrow> data \<Rightarrow> ramfs \<Rightarrow> kernel_state \<Rightarrow> bool" where
  "console_state input printed fs st \<longleftrightarrow> ring_inv (SERIAL_INPUT (console_of (world st))) \<and>
     ring_contents (SERIAL_INPUT (console_of (world st))) = input \<and> sending st \<and> sent st = printed \<and>
     KERNEL_FS st = \<lparr>locked = False, inner = Some fs\<rparr>"

lemma console_put: "console_state input printed fs st \<Longrightarrow> console_state input (printed @ bs) fs (put bs st)"
  by (simp add: console_state_def)

lemma read_byte_step:
  assumes "console_state (b # bs) printed fs st"
  obtains c where "read_serial_byte (console_of (world st)) = Inr (Some b, c)"
    "console_state bs printed fs (st\<lparr>world := (world st)\<lparr>console_of := c\<rparr>\<rparr>)"
proof -
  obtain q where "serial_pop (SERIAL_INPUT (console_of (world st))) = Inr (Some b, q)" "ring_inv q" "ring_contents q = bs"
    using ring.pop_law [of "SERIAL_INPUT (console_of (world st))" b bs] assms by (auto simp: console_state_def)
  then show thesis
    using assms by (intro that [of "(console_of (world st))\<lparr>SERIAL_INPUT := q\<rparr>"])
      (simp_all add: read_serial_byte_def console_state_def sending_def sent_def)
qed

lemma read_byte_end:
  assumes "console_state [] printed fs st"
  shows "handle_input (Suc n) sh st = Inr (sh, st)"
  using ring.pop_empty [of "SERIAL_INPUT (console_of (world st))"] assms
  by (simp add: console_state_def read_serial_byte_def Let_def)

lemma char_of_unat: "char_of (unat (of_char c :: byte)) = c"
proof -
  have "unat (of_nat (of_char c) :: byte) = of_char c" using nat_of_char_less_256 [of c] by (simp add: unsigned_of_nat take_bit_nat_eq_self)
  then show ?thesis by (simp add: of_nat_of_char)
qed

lemma handle_printable:
  assumes "printable c" "active sh = None"
  shows "handle_byte (of_char c) sh st = Inr (sh\<lparr>line := line sh @ [c]\<rparr>, put [of_char c] st)"
proof -
  have r: "32 \<le> (of_char c :: byte)" "(of_char c :: byte) \<le> 126" using assms(1) by (simp_all add: printable_def)
  then have "(of_char c :: byte) \<notin> {13, 10, 8, 127}" by auto
  moreover have "33 \<le> (of_char c :: byte) \<and> (of_char c :: byte) \<le> 126 \<or> (of_char c :: byte) = 32" 
  proof -
    have "(of_char c :: byte) = 32 \<or> 32 < (of_char c :: byte)" using r(1) by (auto simp: order_le_less)
    then show ?thesis using r(2) by (auto simp: word_less_nat_alt word_le_nat_alt)
  qed
  moreover have "char_of (unat (of_char c :: byte)) = c" by (rule char_of_unat)
  ultimately show ?thesis using assms(2) unfolding handle_byte_def by simp
qed

lemma type_text:
  assumes "\<forall>c\<in>set w. printable c" "active sh = None" "console_state (str_bytes w @ rest) printed fs st"
  shows "\<exists>st'. handle_input (length w + n) sh st = handle_input n (sh\<lparr>line := line sh @ w\<rparr>) st' \<and>
    console_state rest (printed @ str_bytes w) fs st' \<and> machine_of (world st') = machine_of (world st)"
  using assms
proof (induction w arbitrary: sh st printed)
  case Nil
  then show ?case by (intro exI [of _ st]) (simp add: str_bytes_def)
next
  case (Cons c w)
  have "console_state (of_char c # (str_bytes w @ rest)) printed fs st" using Cons.prems(3) by (simp add: str_bytes_def)
  then obtain cs where r: "read_serial_byte (console_of (world st)) = Inr (Some (of_char c), cs)"
    "console_state (str_bytes w @ rest) printed fs (st\<lparr>world := (world st)\<lparr>console_of := cs\<rparr>\<rparr>)" by (rule read_byte_step)
  define st1 where "st1 = st\<lparr>world := (world st)\<lparr>console_of := cs\<rparr>\<rparr>"
  have "handle_byte (of_char c) sh st1 = Inr (sh\<lparr>line := line sh @ [c]\<rparr>, put [of_char c] st1)"
    using Cons.prems by (intro handle_printable) simp_all
  then have "handle_input (length (c # w) + n) sh st = handle_input (length w + n) (sh\<lparr>line := line sh @ [c]\<rparr>) (put [of_char c] st1)"
    by (simp add: r(1) st1_def Let_def)
  moreover have "console_state (str_bytes w @ rest) (printed @ [of_char c]) fs (put [of_char c] st1)"
    using r(2) unfolding st1_def by (rule console_put)
  ultimately show ?case
    using Cons.IH [of "sh\<lparr>line := line sh @ [c]\<rparr>" "printed @ [of_char c]" "put [of_char c] st1"] Cons.prems(1,2)
    by (simp add: str_bytes_def st1_def)
qed

definition reply :: "command_error + command_output \<Rightarrow> data" where
  "reply r = (case r of Inr out \<Rightarrow> stdout out @ stderr out
     | Inl e \<Rightarrow> str_bytes (''[ERROR] shell command failed: '' @ show_command_error e @ [CHR 0x0A]))"

definition shell_builtins :: "string list" where
  "shell_builtins = [''jobs'', ''fg'', ''run'', ''exec'', ''sleep'', ''count'']"

lemma str_bytes_simps [simp]: "str_bytes (a @ b) = str_bytes a @ str_bytes b" "str_bytes (c # a) = of_char c # str_bytes a" "str_bytes [] = []"
  by (simp_all add: str_bytes_def)

lemma str_bytes_no_zero: "\<forall>c\<in>set s. of_char c \<noteq> (0 :: byte) \<Longrightarrow> takeWhile (\<lambda>b. b \<noteq> 0) (str_bytes s) = str_bytes s"
  by (induction s) auto

lemma show_command_error_no_zero: "takeWhile (\<lambda>b. b \<noteq> 0) (str_bytes (show_command_error e)) = str_bytes (show_command_error e)"
proof -
  have "takeWhile (\<lambda>b. b \<noteq> 0) (str_bytes (show_fs_error f) @ [41]) = str_bytes (show_fs_error f) @ [41]" for f
    by (cases f) (simp_all add: show_fs_error_def)
  then show ?thesis by (cases e) (simp_all add: show_command_error_def)
qed

lemma console_log:
  assumes "console_state input printed fs st"
  shows "console_state input (printed @ reply (Inl e)) fs (log_message LogError [''shell command failed: '', show_command_error e] st)"
proof -
  define c where "c = console_of (world st)"
  have c: "\<not> bit (lcr (com1 c)) 7" using assms by (simp add: console_state_def sending_def c_def)
  have "tx (com1 (printk LogError (map str_bytes [''shell command failed: '', show_command_error e]) c)) = tx (com1 c) @ reply (Inl e)"
    unfolding printk_output [OF c] by (cases "CURRENT_LEVEL c") (simp_all add: reply_def level_prefix_def show_command_error_no_zero)
  moreover have "lcr (com1 (printk LogError ps c)) = lcr (com1 c)" for ps
    using c by (simp add: printk_def serial_puts_simps puts_all_simps)
  ultimately show ?thesis using assms by (simp add: console_state_def log_message_def sending_def sent_def c_def)
qed

lemma run_line_command:
  assumes "trim (line sh) = ln" "ln \<noteq> []" "last ln \<noteq> CHR ''&''" "split_whitespace ln = command # ws" "command \<notin> set shell_builtins"
    and "console_state input printed fs st" "run_command ln [] fs = Inr (r, fs')"
  shows "\<exists>st'. run_line sh st = Inr (sh, st') \<and> console_state input (printed @ reply r) fs' st' \<and> machine_of (world st') = machine_of (world st)"
proof -
  have "run_shell_command ln False sh st = Inr (False, sh, st)"
    using assms(4,5) by (simp add: run_shell_command_def shell_builtins_def)
  moreover define st1 where "st1 = st\<lparr>KERNEL_FS := \<lparr>locked = False, inner = Some fs'\<rparr>\<rparr>"
  have "with_runtime_fs (run_command ln []) st = Inr (Some r, st1)"
    using assms(6,7) by (simp add: with_runtime_fs_def console_state_def st1_def)
  moreover have st1: "console_state input printed fs' st1" "machine_of (world st1) = machine_of (world st)"
    using assms(6) by (simp_all add: console_state_def st1_def sending_def sent_def)
  ultimately have run: "run_line sh st = Inr (sh, case r of Inr out \<Rightarrow> put (stdout out @ stderr out) st1
      | Inl e \<Rightarrow> log_message LogError [''shell command failed: '', show_command_error e] st1)"
    using assms(1-3) by (simp add: run_line_def Let_def split: sum.split)
  show ?thesis
  proof (cases r)
    case (Inl e)
    then show ?thesis using run st1 console_log [OF st1(1), of e] by (simp add: log_message_def)
  next
    case (Inr out)
    then show ?thesis using run st1 console_put [OF st1(1), of "stdout out @ stderr out"] by (simp add: reply_def)
  qed
qed

section \<open>Properties\<close>

text \<open>The shell between two calls, whatever the kernel did meanwhile.\<close>

inductive shell_step :: "shell \<Rightarrow> shell \<Rightarrow> bool" where
  byte: "handle_byte b sh st = Inr (sh', st') \<Longrightarrow> shell_step sh sh'"
| poll: "poll_jobs sh st = Inr (sh', st') \<Longrightarrow> shell_step sh sh'"

lemma shell_step_inv: "shell_step sh sh' \<Longrightarrow> shell_inv sh \<Longrightarrow> shell_inv sh'"
proof (induction rule: shell_step.induct)
  case (byte b sh st sh' st')
  then show ?case by (rule handle_byte_inv)
next
  case (poll sh st sh' st')
  then show ?case using poll_jobs_elapse [OF poll.prems, of st] elapse_inv [OF poll.prems] by auto
qed

lemma shell_reachable_inv: "shell_step\<^sup>*\<^sup>* shell_new sh \<Longrightarrow> shell_inv sh"
proof (induction rule: rtranclp_induct)
  case base
  show ?case by (simp add: shell_inv_def shell_new_def)
next
  case (step sh sh')
  then show ?case using shell_step_inv by blast
qed

text \<open>C32: jobs of the shell.  Whatever bytes are typed and however much time passes between them, job
  numbers stay unique and below the counter, every job has between one second and its total left, a
  job is on the background list or in the foreground but not both, polling never panics, and \<^verbatim>\<open>fg\<close> with
  the number of a background job brings exactly that job to the foreground.\<close>

theorem shell_jobs_consistent:
  assumes "shell_step\<^sup>*\<^sup>* shell_new sh"
  shows "(\<forall>j\<in>set (jobs sh). 0 < remaining j \<and> remaining j \<le> total j \<and> background j) \<and>
    (\<forall>j\<in>set_option (active sh). 0 < remaining j \<and> remaining j \<le> total j \<and> \<not> background j \<and> job_id j \<notin> job_id ` set (jobs sh)) \<and>
    distinct (map job_id (jobs sh)) \<and> (\<forall>j\<in>set (jobs sh) \<union> set_option (active sh). job_id j < next_job_id sh) \<and>
    no_panic (poll_jobs sh st) \<and>
    (\<forall>j\<in>set (jobs sh). job_id j < 2 ^ 64 \<longrightarrow> (let (sh', st') = foreground_job (Some (dec (job_id j))) sh st in
       active sh' = Some (j\<lparr>background := False\<rparr>) \<and> set (jobs sh') = set (jobs sh) - {j}))"
proof -
  have inv: "shell_inv sh" by (rule shell_reachable_inv [OF assms])
  have "let (sh', st') = foreground_job (Some (dec (job_id j))) sh st in
       active sh' = Some (j\<lparr>background := False\<rparr>) \<and> set (jobs sh') = set (jobs sh) - {j}"
    if j: "j \<in> set (jobs sh)" "job_id j < 2 ^ 64" for j
  proof -
    have p: "parse_u64 (dec (job_id j)) = Some (job_id j)" unfolding parse_u64_def by (rule parse_dec [OF j(2)])
    have d: "distinct (map job_id (jobs sh))" using inv by (simp add: shell_inv_def)
    obtain i js where t: "take_job (job_id j) (jobs sh) = Some (i, js)" using take_job_None [of "job_id j" "jobs sh"] j(1) by auto
    obtain xs ys where x: "jobs sh = xs @ i # ys" "js = xs @ ys" "job_id i = job_id j" using take_job_Some [OF t] by blast
    have "i = j" using d x j(1) by (auto simp: distinct_map inj_on_def)
    then have "set js = set (jobs sh) - {j}" using d x by auto
    then show ?thesis using p t \<open>i = j\<close> by (simp add: foreground_job_def)
  qed
  moreover have "no_panic (poll_jobs sh st)" using poll_jobs_elapse [OF inv, of st] by (auto simp: no_panic_def)
  moreover have "job_id j \<notin> job_id ` set (jobs sh)" if "active sh = Some j" for j using inv that by (auto simp: shell_inv_def)
  ultimately show ?thesis using inv by (auto simp: shell_inv_def job_ok_def)
qed

theorem shell_jobs_consistent_witness:
  "shell_step\<^sup>*\<^sup>* shell_new shell_new \<and> (\<forall>st. no_panic (poll_jobs shell_new st))"
  using shell_jobs_consistent [OF rtranclp.rtrancl_refl] by simp

text \<open>C33: time.  Polling after \<open>k\<close> more seconds of the timer takes \<open>k\<close> seconds off every job: exactly the jobs
  with more than \<open>k\<close> seconds left stay, in their order, and the end of every other background job is
  reported on the console.\<close>

theorem jobs_run_their_time:
  assumes "shell_step\<^sup>*\<^sup>* shell_new sh" "sending st"
    and "k = unat (timer_ticks (world st)) div 100 - last_second sh"
  shows "\<exists>sh' st' out. poll_jobs sh st = Inr (sh', st') \<and> sent st' = sent st @ out \<and>
    jobs sh' = map (\<lambda>j. j\<lparr>remaining := remaining j - k\<rparr>) (filter (\<lambda>j. k < remaining j) (jobs sh)) \<and>
    active sh' = Option.bind (active sh) (\<lambda>j. if k < remaining j then Some (j\<lparr>remaining := remaining j - k\<rparr>) else None) \<and>
    last_second sh' = last_second sh + k \<and> line sh' = line sh \<and>
    (\<forall>j\<in>set (jobs sh). remaining j \<le> k \<longrightarrow>
      sublist (str_bytes (crlf @ ''['' @ dec (job_id j) @ ''] done '' @ job_name j @ crlf)) out)"
proof -
  obtain out where "poll_jobs sh st = Inr (elapse k sh, put out st)" "\<forall>j\<in>set (jobs sh). remaining j \<le> k \<longrightarrow> sublist (done_text j) out"
    using poll_jobs_elapse [OF shell_reachable_inv [OF assms(1)], of st] unfolding assms(3) by blast
  then show ?thesis
    using assms(2) by (intro exI [of _ "elapse k sh"] exI [of _ "put out st"] exI [of _ out]) (simp add: elapse_def done_text_def)
qed

text \<open>C9: a command typed at the prompt.  When the shell is idle (no foreground and no background job), the received
  bytes are a line of printable characters and a
  carriage return, and the line is not one of the job commands, a round of the main loop echoes the
  line, runs it as a command on the kernel file system, prints what the command printed (or the
  error), and shows the prompt again; the processes are not touched.\<close>

theorem typed_command_runs:
  assumes "idle sh" "line sh = []" "console_state (str_bytes w @ [13]) printed fs st" "\<forall>c\<in>set w. printable c"
    and "trim w = ln" "ln \<noteq> []" "last ln \<noteq> CHR ''&''" "split_whitespace ln = command # ws" "command \<notin> set shell_builtins"
    and "run_command ln [] fs = Inr (r, fs')"
  shows "\<exists>sh' st'. main_round sh st = Inr (sh', st') \<and> idle sh' \<and> line sh' = [] \<and>
    console_state [] (printed @ str_bytes w @ str_bytes crlf @ reply r @ prompt_text) fs' st' \<and>
    machine_of (world st') = machine_of (world st)"
proof -
  obtain n where poll: "poll_jobs sh st = Inr (sh\<lparr>last_second := n\<rparr>, st)" using poll_loop_idle [OF assms(1)] unfolding poll_jobs_def by blast
  define s0 where "s0 = sh\<lparr>last_second := n\<rparr>"
  define s1 where "s1 = s0\<lparr>line := w\<rparr>"
  have s: "active s0 = None" "line s0 = []" "active s1 = None" "line s1 = w" using assms(1,2) by (simp_all add: s0_def s1_def idle_def)
  have "length (str_bytes w @ [13]) \<le> 255" using ring.bounded assms(3) unfolding console_state_def by metis
  then have len: "length w + 1 \<le> 255" by (simp add: str_bytes_def)
  then have fuel: "SERIAL_INPUT_CAPACITY = length w + Suc (Suc (254 - length w))" by simp
  obtain st1 where st1: "handle_input SERIAL_INPUT_CAPACITY s0 st = handle_input (Suc (Suc (254 - length w))) s1 st1"
      "console_state [13] (printed @ str_bytes w) fs st1" "machine_of (world st1) = machine_of (world st)"
  proof -
    obtain st1 where "handle_input (length w + Suc (Suc (254 - length w))) s0 st = handle_input (Suc (Suc (254 - length w))) (s0\<lparr>line := line s0 @ w\<rparr>) st1"
      "console_state [13] (printed @ str_bytes w) fs st1" "machine_of (world st1) = machine_of (world st)"
      using type_text [OF assms(4) s(1) assms(3), of "Suc (Suc (254 - length w))"] by blast
    then show thesis by (intro that [of st1]) (simp_all only: fuel [symmetric] s1_def s(2) append_Nil)
  qed
  obtain c where c: "read_serial_byte (console_of (world st1)) = Inr (Some 13, c)"
      "console_state [] (printed @ str_bytes w) fs (st1\<lparr>world := (world st1)\<lparr>console_of := c\<rparr>\<rparr>)" by (rule read_byte_step [OF st1(2)])
  define st2 where "st2 = say crlf (st1\<lparr>world := (world st1)\<lparr>console_of := c\<rparr>\<rparr>)"
  have "console_state [] ((printed @ str_bytes w) @ str_bytes crlf) fs st2" unfolding st2_def by (rule console_put [OF c(2)])
  then obtain st3 where st3: "run_line s1 st2 = Inr (s1, st3)" "machine_of (world st3) = machine_of (world st2)"
      "console_state [] (((printed @ str_bytes w) @ str_bytes crlf) @ reply r) fs' st3"
    using run_line_command [OF _ assms(6-9) _ assms(10)] s(4) assms(5) by metis
  have fin: "console_state [] ((((printed @ str_bytes w) @ str_bytes crlf) @ reply r) @ prompt_text) fs' (print_prompt st3)"
    unfolding print_prompt_put by (rule console_put [OF st3(3)])
  have "handle_byte 13 s1 (st1\<lparr>world := (world st1)\<lparr>console_of := c\<rparr>\<rparr>) = Inr (s1\<lparr>line := ''''\<rparr>, print_prompt st3)"
    using st3(1) s(3) by (simp add: handle_byte_def st2_def)
  then have "main_round sh st = Inr (s1\<lparr>line := ''''\<rparr>, print_prompt st3)"
    using poll st1(1) c(1) read_byte_end [OF fin] by (simp add: main_round_def s0_def [symmetric] Let_def)
  moreover have "machine_of (world (print_prompt st3)) = machine_of (world st)"
    using st3(2) st1(3) by (simp add: print_prompt_put st2_def)
  ultimately show ?thesis using fin assms(1) by (simp add: idle_def s1_def s0_def)
qed

abbreviation demo_kernel :: "ramfs \<Rightarrow> machine \<Rightarrow> data \<Rightarrow> kernel_state" where
  "demo_kernel fs m input \<equiv> \<lparr>KERNEL_FS = spin_new (Some fs), KERNEL_FD_TABLE = spin_new (Some fd_table_new),
     CONSOLE_WRITE = spin_new None, EXEC_PROGRAM = spin_new None, EXIT_CURRENT = spin_new None, user_mem = (\<lambda>_. 0),
     world = \<lparr>machine_of = m,
       console_of = demo_console\<lparr>SERIAL_INPUT := \<lparr>buf = input @ replicate (256 - length input) 0, head = 0, tail = length input\<rparr>\<rparr>,
       pics_of = \<lparr>pic1 = \<lparr>icw_stage = 0, vector_offset = 32, cascade = 4, mode = 1, imr = 0, eois = 0\<rparr>,
         pic2 = \<lparr>icw_stage = 0, vector_offset = 40, cascade = 2, mode = 1, imr = 0, eois = 0\<rparr>, io_waits = 0\<rparr>,
       TIMER_TICKS = 0\<rparr>\<rparr>"

text \<open>A line typed into a new shell, and the job it starts.\<close>

lemma reach_text: "\<forall>c\<in>set w. printable c \<Longrightarrow> shell_step\<^sup>*\<^sup>* shell_new (shell_new\<lparr>line := w\<rparr>)"
proof (induction w rule: rev_induct)
  case Nil
  have "shell_new\<lparr>line := []\<rparr> = shell_new" by (simp add: shell_new_def)
  then show ?case by simp
next
  case (snoc c w)
  have "handle_byte (of_char c) (shell_new\<lparr>line := w\<rparr>) st = Inr (shell_new\<lparr>line := w @ [c]\<rparr>, put [of_char c] st)" for st
    using snoc.prems handle_printable [of c "shell_new\<lparr>line := w\<rparr>" st] by (simp add: shell_new_def)
  then have step: "shell_step (shell_new\<lparr>line := w\<rparr>) (shell_new\<lparr>line := w @ [c]\<rparr>)" by (rule shell_step.byte)
  have "shell_step\<^sup>*\<^sup>* shell_new (shell_new\<lparr>line := w\<rparr>)" using snoc.prems by (intro snoc.IH) simp
  then show ?case using step by (rule rtranclp.rtrancl_into_rtrancl)
qed

definition demo_job :: job where
  "demo_job = \<lparr>job_id = 1, job_name = ''sleep'', jkind = SleepJob, remaining = 2, total = 2, background = True\<rparr>"

lemma demo_job_starts:
  assumes "installed fs Sleep"
  shows "shell_step\<^sup>*\<^sup>* shell_new (shell_new\<lparr>jobs := [demo_job], next_job_id := 2\<rparr>)"
proof -
  have "\<forall>c\<in>set ''sleep 2 &''. printable c" by (simp add: printable_def)
  then have "shell_step\<^sup>*\<^sup>* shell_new (shell_new\<lparr>line := ''sleep 2 &''\<rparr>)" by (rule reach_text)
  moreover have "shell_step (shell_new\<lparr>line := ''sleep 2 &''\<rparr>) (shell_new\<lparr>jobs := [demo_job], next_job_id := 2\<rparr>)"
  proof -
    define sh where "sh = shell_new\<lparr>line := ''sleep 2 &''\<rparr>"
    define sh' where "sh' = sh\<lparr>jobs := [demo_job], next_job_id := 2\<rparr>"
    define st where "st = demo_kernel fs undefined []"
    have sh: "active sh = None" "line sh = ''sleep 2 &''" "sh'\<lparr>line := []\<rparr> = shell_new\<lparr>jobs := [demo_job], next_job_id := 2\<rparr>"
      by (simp_all add: sh_def sh'_def shell_new_def)
    have st: "KERNEL_FS st = \<lparr>locked = False, inner = Some fs\<rparr>" by (simp add: st_def spin_new_def)
    have words: "trim ''sleep 2 &'' = ''sleep 2 &''" "trim_end ''sleep 2 '' = ''sleep 2''" "split_whitespace ''sleep 2'' = [''sleep'', ''2'']"
      by code_simp+
    have "dec 2 = ''2''" by code_simp
    then have secs: "job_seconds [''sleep'', ''2''] = 2" using parse_dec [of 2 32] by (simp add: job_seconds_def parse_u32_def)
    have load: "load_program ''sleep'' fs = Inr (Inr Sleep)" using load_program_installed [OF assms] by simp
    have "\<exists>st2. enter_job ''sleep'' 2 True sh st1 = Inr (sh', st2)" for st1
      by (simp add: enter_job_def sh_def sh'_def shell_new_def demo_job_def add_usize_def USIZE_MAX_def)
    moreover have "start_long_job ''sleep'' [''sleep'', ''2''] True sh (say crlf st) =
        enter_job ''sleep'' 2 True sh ((say crlf st)\<lparr>KERNEL_FS := \<lparr>locked = False, inner = Some fs\<rparr>\<rparr>)"
      by (simp add: start_long_job_def with_runtime_fs_def st load secs del: str_bytes_simps)
    ultimately obtain st2 where "start_long_job ''sleep'' [''sleep'', ''2''] True sh (say crlf st) = Inr (sh', st2)" by metis
    then have "run_shell_command ''sleep 2'' True sh (say crlf st) = Inr (True, sh', st2)" by (simp add: run_shell_command_def words)
    then have "run_line sh (say crlf st) = Inr (sh', st2)" by (simp add: run_line_def sh words)
    then have "handle_byte 13 sh st = Inr (shell_new\<lparr>jobs := [demo_job], next_job_id := 2\<rparr>, print_prompt st2)"
      by (simp add: handle_byte_def sh)
    then show ?thesis unfolding sh_def by (rule shell_step.byte)
  qed
  ultimately show ?thesis by (rule rtranclp.rtrancl_into_rtrancl)
qed

theorem jobs_run_their_time_witness:
  "\<exists>fs. \<forall>m. \<exists>sh' st' out. poll_jobs (shell_new\<lparr>jobs := [demo_job], next_job_id := 2\<rparr>)
       ((demo_kernel fs m [])\<lparr>world := (world (demo_kernel fs m []))\<lparr>TIMER_TICKS := 200\<rparr>\<rparr>) = Inr (sh', st') \<and>
     jobs sh' = [] \<and> sent st' = out \<and> sublist (str_bytes (crlf @ ''[1] done sleep'' @ crlf)) out"
proof -
  have v: "view demo_fs [''bin''] = Some KDir" "\<forall>p. view demo_fs [''bin'', program_name p] \<noteq> Some KDir"
    by (simp_all add: view_def node_view_def demo_fs_def)
  obtain fs where "\<forall>p. \<exists>img e. fs_read (''/bin/'' @ program_name p) fs = Inr img \<and> elf_parse img = Inr (Inr e) \<and>
      elf_program e = p \<and> elf_entry e = program_entry p"
    using install_programs_all [OF v] by (elim exE conjE) (rule that)
  then have fs: "installed fs Sleep" unfolding installed_def by metis
  show ?thesis
  proof (intro exI [of _ fs] allI)
  fix m
  let ?st = "(demo_kernel fs m [])\<lparr>world := (world (demo_kernel fs m []))\<lparr>TIMER_TICKS := 200\<rparr>\<rparr>"
  have "sending ?st" "sent ?st = []" by (simp_all add: sending_def sent_def)
  moreover have "dec 1 = ''1''" by code_simp
  ultimately show "\<exists>sh' st' out. poll_jobs (shell_new\<lparr>jobs := [demo_job], next_job_id := 2\<rparr>) ?st = Inr (sh', st') \<and>
     jobs sh' = [] \<and> sent st' = out \<and> sublist (str_bytes (crlf @ ''[1] done sleep'' @ crlf)) out"
    using jobs_run_their_time [OF demo_job_starts [OF fs], of ?st 2]
    by (auto simp: shell_new_def timer_ticks_def demo_job_def)
  qed
qed

theorem typed_command_runs_witness:
  "\<forall>m. \<exists>sh' st'. main_round shell_new (demo_kernel demo_fs m (str_bytes ''nope x'' @ [13])) = Inr (sh', st') \<and>
     sent st' = str_bytes ''nope x'' @ [13, 10] @ str_bytes (''[ERROR] shell command failed: Unknown'' @ [CHR 0x0A]) @ prompt_text"
proof
  fix m
  let ?in = "str_bytes ''nope x'' @ [13]" and ?st = "demo_kernel demo_fs m (str_bytes ''nope x'' @ [13])"
  have ring: "ring_inv (SERIAL_INPUT (console_of (world ?st)))" "ring_contents (SERIAL_INPUT (console_of (world ?st))) = ?in"
    by (simp_all add: ring_inv_def ring_contents_def ring_length_def upt_rec)
  then have c: "console_state ?in [] demo_fs ?st" by (simp add: console_state_def sending_def sent_def spin_new_def)
  have "split_whitespace ''nope x'' = [''nope'', ''x'']" "trim ''nope x'' = ''nope x''" by code_simp+
  moreover have "run_command ''nope x'' [] demo_fs = Inr (Inl Unknown, demo_fs)"
    by (simp add: run_command_def calculation dispatch_command_def load_program_def from_name_def all_programs_def)
  moreover have "\<forall>c\<in>set ''nope x''. printable c" by (simp add: printable_def)
  ultimately show "\<exists>sh' st'. main_round shell_new ?st = Inr (sh', st') \<and>
     sent st' = str_bytes ''nope x'' @ [13, 10] @ str_bytes (''[ERROR] shell command failed: Unknown'' @ [CHR 0x0A]) @ prompt_text"
    using typed_command_runs [of shell_new "''nope x''" "[]" demo_fs ?st "''nope x''" "''nope''" "[''x'']" "Inl Unknown" demo_fs] c
    by (auto simp: idle_def shell_new_def console_state_def reply_def show_command_error_def shell_builtins_def)
qed

end
