(* ===== verification/Boot.thy ===== *)
theory Boot
  imports Shell
begin

text \<open>
  The start of the kernel: \<^verbatim>\<open>kernel_main\<close> of src/src/main.rs up to its main loop, and the first user
  program of src/src/user.rs.

  What the boot loader, the linker and the assembly files decide is collected in \<open>boot_env\<close>: the
  result of reading the Multiboot2 information, the address ranges of the kernel image, and the
  addresses of stacks, tables and stubs.  The collections of the \<^verbatim>\<open>alloc\<close> crate decide how often the kernel heap
  runs out of blocks and takes a chunk from the page allocator: \<open>heap_chunks\<close> gives the number of chunks for
  the file system and the descriptor table (0), the kernel process (1), the smoke program (2), and the
  first and the second user process (3 and 4).  The stack pointer of the task state segment appears both in
  the descriptor tables (\<open>tss_rsp\<close>) and, for the scheduler, as \<open>tss_rsp0\<close> of the machine; initialising
  the tables sets both.
\<close>

section \<open>The first user program\<close>

definition smoke_message :: data where
  "smoke_message = str_bytes (crlf @ ''user syscall write ok'' @ crlf @ ''zeronix:/home$ '')"

definition syscall_write_smoke_program :: "data run" where
  "syscall_write_smoke_program =
     (let code = [];
          code = code @ [0xb8] @ le_bytes 4 6;
          code = code @ [0xbf] @ le_bytes 4 1;
          lea_start = length code;
          code = code @ [0x48, 0x8d, 0x35, 0, 0, 0, 0];
          lea_next = length code;
          code = code @ [0xba] @ le_bytes 4 (length smoke_message);
          code = code @ [0x0f, 0x05];
          code = code @ [0xeb, 0xfe];
          message_offset = length code;
          displacement = message_offset - lea_next
      in rbind (write_slice code (lea_start + 3) (le_bytes 4 displacement)) (\<lambda>code.
         Inr (code @ smoke_message)))"

section \<open>Start of the kernel\<close>

abbreviation MAX_SUPPORTED_PAGES :: nat where "MAX_SUPPORTED_PAGES \<equiv> 131072"
abbreviation MULTIBOOT2_MAGIC :: u32 where "MULTIBOOT2_MAGIC \<equiv> 0x36d76289"

record boot_env =
  boot_information :: "(usize \<times> memory_area list option) option"
  kernel_range :: "usize \<times> usize"
  bootdata_range :: "usize \<times> usize"
  sections :: kernel_sections
  ring0_stack :: usize
  double_fault_stack :: usize
  tss_address :: u64
  gdt_address :: u64
  idt_address :: u64
  syscall_entry :: u64
  stub_address :: "stub \<Rightarrow> u64"
  heap_chunks :: "nat \<Rightarrow> nat"

record booted_kernel =
  bk_kernel :: kernel_state
  bk_descriptors :: descriptors
  bk_idt :: "idt_entry list"
  bk_idtr :: "u16 \<times> u64"
  bk_msrs :: "u32 \<Rightarrow> u64"
  bk_pit :: pit
  bk_shell :: shell

definition expect :: "string \<Rightarrow> 'a option \<Rightarrow> 'a run" where
  "expect msg x = (case x of None \<Rightarrow> Inl (Expect msg) | Some a \<Rightarrow> Inr a)"

text \<open>The page allocator and the kernel page table.\<close>

definition metadata_pages :: "memory_area list \<Rightarrow> nat" where
  "metadata_pages areas =
     (let max_phys = fold max (map (\<lambda>a. snd (snd a)) areas) 0;
          total_pages = (max_phys + PAGE_SIZE - 1) div PAGE_SIZE
      in min total_pages MAX_SUPPORTED_PAGES)"

definition boot_memory :: "boot_env \<Rightarrow> usize \<Rightarrow> machine \<Rightarrow> machine run" where
  "boot_memory env mbi_start m =
     rbind (expect ''Failed to parse Multiboot2 info'' (boot_information env)) (\<lambda>(total_size, mem_map).
     rbind (expect ''No memory map from GRUB'' mem_map) (\<lambda>areas.
     rbind (add_usize mbi_start total_size) (\<lambda>mbi_end.
     let reserved = [kernel_range env, bootdata_range env, (mbi_start, mbi_end)] in
     rbind (buddy_new (metadata_pages areas) areas reserved) (\<lambda>b.
     rbind (init_kernel_page_table (sections env) areas (kernel_range env) (bootdata_range env) (mbi_start, mbi_end)
              (m\<lparr>vm_buddy := Some b\<rparr>)) (\<lambda>(addr, m).
     Inr (switch_cr3 addr m))))))"

text \<open>The kernel process and the two user programs started at boot.\<close>

definition boot_processes :: "(nat \<Rightarrow> nat) \<Rightarrow> machine \<Rightarrow> machine run" where
  "boot_processes chunks m =
     rbind (proc_init m) (\<lambda>m.
     rbind (heap_grows (chunks 1) m) (\<lambda>m.
     rbind syscall_write_smoke_program (\<lambda>syscall_smoke.
     rbind (heap_grows (chunks 2) m) (\<lambda>m.
     rbind (spawn_user syscall_smoke m) (\<lambda>(_, m).
     rbind (heap_grows (chunks 3) m) (\<lambda>m.
     rbind (spawn_user [0xeb, 0xfe] m) (\<lambda>(_, m).
     heap_grows (chunks 4) m)))))))"

definition on_world :: "(irq_state \<Rightarrow> irq_state) \<Rightarrow> kernel_state \<Rightarrow> kernel_state" where
  "on_world f k = k\<lparr>world := f (world k)\<rparr>"

definition kernel_main :: "boot_env \<Rightarrow> usize \<Rightarrow> u32 \<Rightarrow> kernel_state \<Rightarrow> (u32 \<Rightarrow> u64) \<Rightarrow> booted_kernel run" where
  "kernel_main env mbi_ptr magic k msrs =
     (let k = log_message LogInfo [''Welcome to Zeronix!''] k in
      rbind (guard (magic = MULTIBOOT2_MAGIC) (Assertion ''Not loaded by Multiboot2!'')) (\<lambda>_.
      rbind (boot_memory env mbi_ptr (machine_of (world k))) (\<lambda>m.
      rbind (gdt_init (ring0_stack env) (double_fault_stack env) (tss_address env) (gdt_address env)
               \<lparr>GDT = gdt_initial, TSS = tss_initial, gdtr = None, task_register = None, data_segments = None\<rparr>) (\<lambda>d.
      let m = m\<lparr>tss_rsp0 := unat (tss_rsp (TSS d) ! 0)\<rparr>;
          msrs = syscall_init (syscall_entry env) msrs in
      rbind (init_runtime_fs k) (\<lambda>k.
      rbind (heap_grows (heap_chunks env 0) m) (\<lambda>m.
      rbind (set_console_write serial_console_write k) (\<lambda>k.
      rbind (set_process_hooks exec_program exit_hook k) (\<lambda>k.
      let (idt, idtr) = idt_init (stub_address env) (idt_address env) (replicate IDT_ENTRIES idt_missing) in
      rbind (boot_processes (heap_chunks env) m) (\<lambda>m.
      let k = on_world (\<lambda>w. w\<lparr>pics_of := pic_init (pics_of w)\<rparr>) k;
          k = on_world (\<lambda>w. w\<lparr>console_of := init_serial_interrupts (console_of w)\<rparr>) k;
          k = on_world (\<lambda>w. w\<lparr>pics_of := unmask_irq 0 (pics_of w)\<rparr>) k;
          k = on_world (\<lambda>w. w\<lparr>pics_of := unmask_irq 1 (pics_of w)\<rparr>) k;
          k = on_world (\<lambda>w. w\<lparr>pics_of := unmask_irq 4 (pics_of w)\<rparr>) k;
          m = m\<lparr>iflag := True\<rparr>;
          k = on_world (\<lambda>w. w\<lparr>machine_of := m\<rparr>) k;
          k = log_message LogInfo [''Zeronix boot successfully!''] k
      in Inr \<lparr>bk_kernel = print_prompt k, bk_descriptors = d, bk_idt = idt, bk_idtr = idtr, bk_msrs = msrs,
              bk_pit = init_100hz, bk_shell = shell_new\<rparr>)))))))))"


section \<open>The smoke program\<close>

lemma length_smoke_message: "length smoke_message = 40"
  by (simp add: smoke_message_def str_bytes_def)

lemma smoke_program_bytes:
  "syscall_write_smoke_program = Inr ([0xb8, 6, 0, 0, 0, 0xbf, 1, 0, 0, 0, 0x48, 0x8d, 0x35, 9, 0, 0, 0, 0xba, 40, 0, 0, 0,
     0x0f, 0x05, 0xeb, 0xfe] @ smoke_message)"
  by code_simp

section \<open>Memory\<close>

text \<open>A memory map the allocator can take: available areas do not overlap and end below the address space.\<close>

fun map_ok :: "memory_area list \<Rightarrow> bool" where
  "map_ok [] \<longleftrightarrow> True"
| "map_ok ((t, start, fin) # areas) \<longleftrightarrow> map_ok areas \<and> (t = 1 \<longrightarrow> start + PAGE_SIZE \<le> USIZE_MAX \<and> fin \<le> USIZE_MAX \<and>
     list_all (\<lambda>a. fst a = 1 \<longrightarrow> fin \<le> fst (snd a) \<or> snd (snd a) \<le> start) areas)"

lemma areas_ok_pages:
  assumes "map_ok areas" "\<forall>a\<in>set areas. snd (snd a) \<le> p" "n = min ((p + PAGE_SIZE - 1) div PAGE_SIZE) MAX_SUPPORTED_PAGES"
  shows "areas_ok n areas"
  using assms(1,2)
proof (induction areas rule: map_ok.induct)
  case (2 t start fin areas)
  have "fin \<le> p" using "2.prems"(2) by simp
  then have "fin \<le> n * PAGE_SIZE \<or> 1024 dvd n" unfolding assms(3) by (cases "(p + PAGE_SIZE - 1) div PAGE_SIZE \<le> MAX_SUPPORTED_PAGES") auto
  then show ?case using 2 by auto
qed simp

lemma areas_ok_metadata: "map_ok areas \<Longrightarrow> areas_ok (metadata_pages areas) areas"
proof (rule areas_ok_pages)
  have "x \<in> set xs \<Longrightarrow> x \<le> fold max xs (y :: nat)" "y \<le> fold max xs y" for x xs y
    by (induction xs arbitrary: y) (auto intro: order_trans [OF max.cobounded1] order_trans [OF max.cobounded2])
  note le = this
  show "\<forall>a\<in>set areas. snd (snd a) \<le> fold max (map (\<lambda>a. snd (snd a)) areas) 0" by (intro ballI le(1)) simp
qed (simp_all add: metadata_pages_def Let_def)

lemma boot_memory_effect:
  assumes "boot_memory env mbi_start m = Inr m'" "boot_information env = Some (sz, Some areas)" "map_ok areas"
    and "reserved_ok [kernel_range env, bootdata_range env, (mbi_start, mbi_start + sz)]"
  obtains b mem pml4 where "m' = switch_cr3 pml4 (m\<lparr>pt_mem := mem, vm_buddy := Some b, KERNEL_PML4 := pml4\<rparr>)"
    "vm_inv {pml4} mem b" "all_leaves supervisor mem pml4"
proof -
  have mbi: "add_usize mbi_start sz = Inr (mbi_start + sz)"
    using assms(4) by (auto simp: reserved_ok_def add_usize_def)
  define reserved where "reserved = [kernel_range env, bootdata_range env, (mbi_start, mbi_start + sz)]"
  have "metadata_pages areas < 2 ^ 32" by (simp add: metadata_pages_def Let_def min_less_iff_disj)
  then obtain b where b: "buddy_new (metadata_pages areas) areas reserved = Inr b" "buddy_inv b"
    using buddy_new_correct [OF _ _ areas_ok_metadata [OF assms(3)], of reserved] assms(4) unfolding reserved_def by blast
  obtain pml4 m1 where i: "init_kernel_page_table (sections env) areas (kernel_range env) (bootdata_range env) (mbi_start, mbi_start + sz)
      (m\<lparr>vm_buddy := Some b\<rparr>) = Inr (pml4, m1)" "m' = switch_cr3 pml4 m1"
    using assms(1) b(1) unfolding boot_memory_def
    by (auto simp: assms(2) expect_def mbi reserved_def [symmetric] rbind_eq_Inr_iff Let_def)
  obtain b' where b': "vm_buddy m1 = Some b'" "vm_inv {pml4} (pt_mem m1) b'" "KERNEL_PML4 m1 = pml4"
      "all_leaves (\<lambda>e. supervisor e \<and> write_xor_execute e) (pt_mem m1) pml4"
    using init_kernel_page_table_leaves [OF _ b(2) i(1)] by auto
  have "m1 = m\<lparr>pt_mem := pt_mem m1, vm_buddy := vm_buddy m1, KERNEL_PML4 := KERNEL_PML4 m1\<rparr>"
    using i(1) unfolding init_kernel_page_table_def with_buddy_def by (auto simp: rbind_eq_Inr_iff case_prod_beta)
  then have m': "m' = switch_cr3 pml4 (m\<lparr>pt_mem := pt_mem m1, vm_buddy := Some b', KERNEL_PML4 := pml4\<rparr>)" using b'(1,3) i(2) by simp
  have "all_leaves supervisor (pt_mem m1) pml4" using b'(4) by (auto simp: all_leaves_def)
  then show thesis by (rule that [OF m' b'(2)])
qed

section \<open>Processes\<close>

lemma sys_inv_iflag: "sys_inv m \<Longrightarrow> sys_inv (m\<lparr>iflag := b\<rparr>)"
  unfolding sys_inv_def
  by (intro conjI, erule conjE, erule sched_inv_cong; simp?) (auto intro: space_inv_cong [of m] simp: same_spaces_def)

lemma spawn_boot:
  assumes "sys_inv m" "unat (next_pid m) < 2 ^ 25" "spawn_user code m = Inr (r, m')"
  shows "sys_inv m' \<and> ready_queue m' = ready_queue m @ [length (procs m)] \<and> length (procs m') = Suc (length (procs m)) \<and>
    next_pid m' = next_pid m + 1"
proof -
  have inv: "sys_inv m'" by (rule sys_inv_spawn_user [OF assms(1,3,2)])
  obtain as where i: "sched_inv m" "vm_ok (sys_roots m) m" "KERNEL_PML4 m \<noteq> 0" "KERNEL_PML4 m \<in> sys_roots m"
      "all_leaves supervisor (pt_mem m) (KERNEL_PML4 m)" "bootdata_pages m = Inr as" "\<forall>a\<in>set as. user_half a"
    using assms(1) by (auto simp: sys_inv_def space_inv_def sys_roots_def)
  show ?thesis
    by (rule spawn_user_effect [OF i(1,2) refl i(3-5) assms(2) i(6,7) assms(3)]) (use inv in simp)
qed

text \<open>Heap chunks come out of the free frames and change nothing else.\<close>

lemma heap_grows_taken: "heap_grows n m = Inr m' \<Longrightarrow> frames_taken m m'"
proof (induction n arbitrary: m)
  case 0
  then show ?case by (simp add: frames_taken_refl)
next
  case (Suc n)
  then obtain m1 where "heap_grow m = Inr m1" "heap_grows n m1 = Inr m'" by (auto simp: rbind_eq_Inr_iff)
  then show ?case using heap_grow_effect [of m m1] Suc.IH [of m1] unfolding frames_taken_def by (metis (no_types, lifting) rtranclp_trans)
qed

lemma heap_grows_keeps:
  assumes "heap_grows n m = Inr m'"
  shows "vm_only m m'" "pt_mem m' = pt_mem m" "vm_ok R m \<Longrightarrow> vm_ok R m'" "sys_inv m \<Longrightarrow> sys_inv m'" "booted m \<Longrightarrow> booted m'"
proof -
  note f = frames_taken_ok [OF heap_grows_taken [OF assms]]
  show "vm_only m m'" "pt_mem m' = pt_mem m" "vm_ok R m \<Longrightarrow> vm_ok R m'" by (fact f)+
  show "sys_inv m'" if "sys_inv m"
    using assms that
  proof (induction n arbitrary: m)
    case (Suc n)
    then obtain m1 where m1: "heap_grow m = Inr m1" "heap_grows n m1 = Inr m'" by (auto simp: rbind_eq_Inr_iff)
    then show ?case using Suc.IH [OF m1(2) sys_inv_heap_grow [OF Suc.prems(2) m1(1)]] by simp
  qed simp
  show "booted m'" if "booted m"
  proof -
    have top: "ring0_top m' = ring0_top m" by (subst f(1) [unfolded vm_only_def]) simp
    have "vm_ok {KERNEL_PML4 m} m'" using f(3) that by (simp add: booted_def)
    then show ?thesis using that vm_only_simps [OF f(1)] f(2) top by (simp add: booted_def bootdata_pages_def)
  qed
qed

lemma boot_processes_effect:
  assumes "booted m" "next_pid m = 1" "boot_processes chunks m = Inr m'"
  shows "sys_inv m' \<and> ready_queue m' = [1, 2] \<and> length (procs m') = 3"
proof -
  obtain code m0 h1 h2 r1 m1 h3 r2 m2 where s: "proc_init m = Inr m0" "heap_grows (chunks 1) m0 = Inr h1" "heap_grows (chunks 2) h1 = Inr h2"
      "spawn_user code h2 = Inr (r1, m1)" "heap_grows (chunks 3) m1 = Inr h3" "spawn_user [0xeb, 0xfe] h3 = Inr (r2, m2)" "heap_grows (chunks 4) m2 = Inr m'"
    using assms(3) by (auto simp: boot_processes_def rbind_eq_Inr_iff)
  have m0: "next_pid m0 = 1" "ready_queue m0 = []" "length (procs m0) = 1"
    using s(1) assms(1,2) by (auto simp: proc_init_def booted_def kernel_pml4_def new_proc_def Let_def)
  have "sys_inv m0" by (rule proc_init_sys_inv [OF assms(1)]) (use s(1) in simp)
  then have h2: "sys_inv h2" "next_pid h2 = 1" "ready_queue h2 = []" "length (procs h2) = 1"
    using heap_grows_keeps(4) [OF s(2)] heap_grows_keeps(4) [OF s(3)] vm_only_simps [OF heap_grows_keeps(1) [OF s(2)]]
      vm_only_simps [OF heap_grows_keeps(1) [OF s(3)]] m0 by simp_all
  then have "sys_inv m1" "ready_queue m1 = [1]" "length (procs m1) = 2" "next_pid m1 = 2" using spawn_boot [OF _ _ s(4)] by auto
  then have h3: "sys_inv h3" "ready_queue h3 = [1]" "length (procs h3) = 2" "next_pid h3 = 2"
    using heap_grows_keeps(4) [OF s(5)] vm_only_simps [OF heap_grows_keeps(1) [OF s(5)]] by simp_all
  then have "sys_inv m2" "ready_queue m2 = [1, 2]" "length (procs m2) = 3" using spawn_boot [OF h3(1) _ s(6)] by auto
  then show ?thesis using heap_grows_keeps(4) [OF s(7)] vm_only_simps [OF heap_grows_keeps(1) [OF s(7)]] by simp
qed

section \<open>The file system\<close>

lemma init_runtime_fs_effect:
  assumes "init_runtime_fs k = Inr k'"
  obtains fs where "KERNEL_FS k' = \<lparr>locked = False, inner = Some fs\<rparr>" "\<forall>p. installed fs p" "world k' = world k"
    "KERNEL_FD_TABLE k' = \<lparr>locked = False, inner = Some fd_table_new\<rparr>"
    "fs_read ''/home/readme.txt'' fs = Inr (str_bytes (''Welcome to Zeronix shell.'' @ [CHR 0x0A]))"
proof -
  define text1 where "text1 = str_bytes (''Welcome to Zeronix shell.'' @ [CHR 0x0A])"
  have v: "view demo_fs [''bin''] = Some KDir" "\<forall>p. view demo_fs [''bin'', program_name p] \<noteq> Some KDir"
    by (simp_all add: view_def node_view_def demo_fs_def)
  have new: "ramfs_new = Inr demo_fs" by (simp add: ramfs_new_eq demo_fs_def)
  obtain fs0 where fs0: "install_programs demo_fs = Inr fs0"
    "\<forall>p. \<exists>img e. fs_read (''/bin/'' @ program_name p) fs0 = Inr img \<and> elf_parse img = Inr (Inr e) \<and>
      elf_program e = p \<and> elf_entry e = program_entry p"
    "\<forall>q. (\<nexists>p. q = [''bin'', program_name p]) \<longrightarrow> view fs0 q = view demo_fs q"
    using install_programs_all [OF v] by (elim exE conjE) (rule that)
  have inst0: "installed fs0 p" for p using fs0(2) unfolding installed_def by metis
  have path: "split_path ''/home/readme.txt'' = Inr [''home'', ''readme.txt'']" by (simp add: split_path_def)
  have "view fs0 [''home''] = Some KDir" "view fs0 [''home'', ''readme.txt''] = None"
    using fs0(3) by (simp_all add: view_def node_view_def demo_fs_def)
  then have "fst (fs_write ''/home/readme.txt'' d fs0) = Inr ()" for d
    using fs_write_result(2) [OF path, of d fs0]
    by (cases "fs_write ''/home/readme.txt'' d fs0"; cases "fst (fs_write ''/home/readme.txt'' d fs0)") (auto simp: writable_def)
  then obtain fs where fs: "fs_write ''/home/readme.txt'' text1 fs0 = (Inr (), fs)" by (metis prod.collapse)
  have eff: "fs_file fs q = (if same_path ''/home/readme.txt'' q then Some text1 else fs_file fs0 q)" for q
    using ram.wr_ok [OF fs] by simp
  have "\<not> same_path ''/home/readme.txt'' (''/bin/'' @ program_name p)" for p
    using path bin_path [of p] by (simp add: same_path_def)
  then have "fs_file fs (''/bin/'' @ program_name p) = fs_file fs0 (''/bin/'' @ program_name p)" for p using eff by simp
  then have inst: "\<forall>p. installed fs p" using inst0 by (auto simp: installed_def ram.rd_file)
  have "fs_read ''/home/readme.txt'' fs = Inr text1" using eff [of "''/home/readme.txt''"] path by (simp add: ram.rd_file same_path_def)
  then show thesis
    using assms fs that [of fs] inst
    unfolding init_runtime_fs_def new text1_def [symmetric] rbind_simps fs0(1)
    by (cases "locked (KERNEL_FS k)"; cases "locked (KERNEL_FD_TABLE k)") (auto simp: Let_def)
qed

end
