(* ===== verification/User_Code.thy ===== *)
theory User_Code
  imports Boot
begin

text \<open>
  Machine code of the user programs.  The processor model covers the instructions src/src/user.rs emits
  (\<^verbatim>\<open>mov r32, imm32\<close>, \<^verbatim>\<open>lea r64, [rip + disp32]\<close>, \<^verbatim>\<open>syscall\<close>, \<^verbatim>\<open>jmp rel8\<close>) and \<^verbatim>\<open>nop\<close>, decoded from the bytes in
  user memory as the instruction set reference encodes them; any other byte sequence is an undefined
  operation here.  None of them changes the flags, which are a parameter.
\<close>

unbundle bit_operations_syntax

section \<open>Instructions\<close>

datatype instr = MovImm reg u32 | LeaRip reg u32 | JmpShort u8 | SyscallInstr | Nop

definition reg_of :: "u8 \<Rightarrow> reg" where
  "reg_of n = [RAX, RCX, RDX, RBX, RSP, RBP, RSI, RDI] ! unat (n AND 7)"

definition imm32 :: "data \<Rightarrow> u32" where
  "imm32 bs = of_nat (from_le (take 4 bs))"

text \<open>The instruction at the start of the bytes and its length.\<close>

fun decode :: "data \<Rightarrow> (instr \<times> nat) option" where
  "decode [] = None"
| "decode (b # bs) =
     (if b = 0x90 then Some (Nop, 1)
      else if b AND 0xf8 = 0xb8 then (if 4 \<le> length bs then Some (MovImm (reg_of b) (imm32 bs), 5) else None)
      else case bs of [] \<Rightarrow> None
      | c # cs \<Rightarrow>
        if b = 0xeb then Some (JmpShort c, 2)
        else if b = 0x0f then (if c = 0x05 then Some (SyscallInstr, 2) else None)
        else if b = 0x48 \<and> c = 0x8d then
          (case cs of [] \<Rightarrow> None
           | modrm # ds \<Rightarrow> if modrm AND 0xc7 = 0x05 \<and> 4 \<le> length ds then Some (LeaRip (reg_of (drop_bit 3 modrm)) (imm32 ds), 7) else None)
        else None)"

section \<open>Execution\<close>

type_synonym user_state = "u64 \<times> (reg \<Rightarrow> u64)"

datatype user_event = Next user_state | EntersKernel user_state | UndefinedOp

definition fetch_bytes :: "(usize \<Rightarrow> byte) \<Rightarrow> u64 \<Rightarrow> data" where
  "fetch_bytes mem rip = map (\<lambda>i. mem (unat (rip + of_nat i))) [0..<15]"

text \<open>A 32-bit \<^verbatim>\<open>mov\<close> clears the upper half; displacements are signed and count from the next instruction;
  \<^verbatim>\<open>syscall\<close> leaves that address in \<^verbatim>\<open>rcx\<close> and the flags in \<^verbatim>\<open>r11\<close>.\<close>

definition user_step :: "u64 \<Rightarrow> (usize \<Rightarrow> byte) \<Rightarrow> user_state \<Rightarrow> user_event" where
  "user_step rflags mem s = (case s of (rip, r) \<Rightarrow>
     (case decode (fetch_bytes mem rip) of None \<Rightarrow> UndefinedOp
      | Some (i, n) \<Rightarrow>
        let after = rip + of_nat n in
        (case i of
           MovImm d v \<Rightarrow> Next (after, r(d := ucast v))
         | LeaRip d disp \<Rightarrow> Next (after, r(d := after + scast disp))
         | JmpShort disp \<Rightarrow> Next (after + scast disp, r)
         | SyscallInstr \<Rightarrow> EntersKernel (after, r(RCX := after, R11 := rflags))
         | Nop \<Rightarrow> Next (after, r))))"

fun run_user :: "nat \<Rightarrow> u64 \<Rightarrow> (usize \<Rightarrow> byte) \<Rightarrow> user_state \<Rightarrow> user_event" where
  "run_user 0 rflags mem s = Next s"
| "run_user (Suc n) rflags mem s = (case user_step rflags mem s of Next s' \<Rightarrow> run_user n rflags mem s' | e \<Rightarrow> e)"

lemma fetch_loaded:
  assumes "user_slice mem base (length code) = code" "k + 15 \<le> length code" "base + length code \<le> 2 ^ 64"
  shows "fetch_bytes mem (of_nat (base + k)) = take 15 (drop k code)"
proof (rule nth_equalityI)
  fix i assume "i < length (fetch_bytes mem (of_nat (base + k)))"
  then have i: "i < 15" by (simp add: fetch_bytes_def)
  have "unat (of_nat (base + k) + of_nat i :: u64) = base + (k + i)"
    using assms(2,3) i by (simp add: unsigned_of_nat take_bit_nat_eq_self add.assoc flip: of_nat_add)
  then have "fetch_bytes mem (of_nat (base + k)) ! i = mem (base + (k + i))" using i by (simp add: fetch_bytes_def del: upt_rec_numeral)
  also have "\<dots> = user_slice mem base (length code) ! (k + i)" using assms(2) i by (simp add: user_slice_def)
  also have "\<dots> = code ! (k + i)" by (simp only: assms(1))
  finally show "fetch_bytes mem (of_nat (base + k)) ! i = take 15 (drop k code) ! i" using i assms(2) by simp
qed (use assms(2) in \<open>simp add: fetch_bytes_def\<close>)

section \<open>The system call entry\<close>

text \<open>The result of \<^verbatim>\<open>__syscall_dispatch\<close> reaches the user program in \<^verbatim>\<open>rax\<close>.\<close>

lemma syscall_entry_result:
  obtains q where "regs q RDI = regs c RAX" "regs q RSI = regs c RDI" "regs q RDX = regs c RSI" "regs q RCX = regs c RDX"
    "regs (syscall_entry_stub dispatcher syscall_stack c) RAX = regs (dispatcher q) RAX"
proof -
  define p where "p = fold push_reg syscall_saved (c\<lparr>regs := (regs c)(RSP := syscall_stack + 16384)\<rparr>)"
  define q where "q = mov R8 R10 (mov R9 R8 (mov RCX RBX (mov RDX RAX (mov RBX RDX (mov RSI RBX (mov RAX RSI (mov RDI RAX (mov RBX RDI p))))))))"
  have p: "regs p x = regs c x" if "x \<noteq> RSP" for x using that by (simp add: p_def syscall_saved_def push_reg_def Let_def)
  have "regs (fold pop_reg (rev syscall_saved) d) RAX = regs d RAX" for d by (simp add: syscall_saved_def pop_reg_def)
  then have "regs (syscall_entry_stub dispatcher syscall_stack c) RAX = regs (dispatcher q) RAX"
    by (simp add: syscall_entry_stub_def Let_def q_def p_def)
  then show thesis by (intro that [of q]) (simp_all add: q_def mov_def p)
qed

text \<open>\<open>compiled st D\<close>: the compiled dispatcher, called on a kernel in state \<open>st\<close>, follows the calling convention: it leaves
  its caller's frame alone and returns the value of \<open>syscall_dispatch\<close> on its four argument registers.\<close>

definition compiled :: "'w sys \<Rightarrow> (cpu_state \<Rightarrow> cpu_state) \<Rightarrow> bool" where
  "compiled st D \<longleftrightarrow> (\<forall>c. regs (D c) RSP = regs c RSP \<and>
     (\<forall>i<8. cells (D c) (regs c RSP + 8 * of_nat i) = cells c (regs c RSP + 8 * of_nat i)) \<and>
     (\<forall>v st'. syscall_dispatch (unat (regs c RDI)) (unat (regs c RSI)) (unat (regs c RDX)) (unat (regs c RCX)) st = Inr (Some v, st') \<longrightarrow>
        regs (D c) RAX = of_int v))"

lemma compiled_entry:
  assumes "compiled st D" "syscall_dispatch (unat (r RAX)) (unat (r RDI)) (unat (r RSI)) (unat (r RDX)) st = Inr (Some v, st')"
  shows "regs (syscall_entry_stub D syscall_stack \<lparr>regs = r, cells = m\<rparr>) RAX = of_int v"
    and "regs (syscall_entry_stub D syscall_stack \<lparr>regs = r, cells = m\<rparr>) RCX = r RCX"
proof -
  show "regs (syscall_entry_stub D syscall_stack \<lparr>regs = r, cells = m\<rparr>) RAX = of_int v"
    by (rule syscall_entry_result [of "\<lparr>regs = r, cells = m\<rparr>" D syscall_stack]) (use assms in \<open>simp add: compiled_def\<close>)
  have conv: "regs (D c) RSP = regs c RSP \<and> (\<forall>i<8. cells (D c) (regs c RSP + 8 * of_nat i) = cells c (regs c RSP + 8 * of_nat i))" for c
    using assms(1) by (simp add: compiled_def)
  have "regs (syscall_entry_stub D syscall_stack \<lparr>regs = r, cells = m\<rparr>) RCX = regs \<lparr>regs = r, cells = m\<rparr> RCX"
    by (rule syscall_entry_restores) (use conv in blast, simp add: syscall_saved_def)
  then show "regs (syscall_entry_stub D syscall_stack \<lparr>regs = r, cells = m\<rparr>) RCX = r RCX" by simp
qed

section \<open>The smoke program\<close>

text \<open>Each of its instructions, decoded from the bytes that follow its address.\<close>

lemma smoke_decodes:
  assumes "syscall_write_smoke_program = Inr code"
  shows "length code = 66" "drop 26 code = smoke_message"
    "decode (take 15 (drop 0 code)) = Some (MovImm RAX 6, 5)" "decode (take 15 (drop 5 code)) = Some (MovImm RDI 1, 5)"
    "decode (take 15 (drop 10 code)) = Some (LeaRip RSI 9, 7)" "decode (take 15 (drop 17 code)) = Some (MovImm RDX 40, 5)"
    "decode (take 15 (drop 22 code)) = Some (SyscallInstr, 2)" "decode (take 15 (drop 24 code)) = Some (JmpShort 0xfe, 2)"
proof -
  have code: "code = [0xb8, 6, 0, 0, 0, 0xbf, 1, 0, 0, 0, 0x48, 0x8d, 0x35, 9, 0, 0, 0, 0xba, 40, 0, 0, 0,
     0x0f, 0x05, 0xeb, 0xfe] @ smoke_message" using assms [unfolded smoke_program_bytes] by (simp only: sum.inject)
  show "length code = 66" "drop 26 code = smoke_message" by (simp_all add: code length_smoke_message)
  show "decode (take 15 (drop 0 code)) = Some (MovImm RAX 6, 5)" "decode (take 15 (drop 5 code)) = Some (MovImm RDI 1, 5)"
    "decode (take 15 (drop 10 code)) = Some (LeaRip RSI 9, 7)" "decode (take 15 (drop 17 code)) = Some (MovImm RDX 40, 5)"
    "decode (take 15 (drop 22 code)) = Some (SyscallInstr, 2)" "decode (take 15 (drop 24 code)) = Some (JmpShort 0xfe, 2)"
    by (simp_all add: code reg_of_def imm32_def)
qed

text \<open>From its first instruction it reaches the system call with the arguments of a \<^verbatim>\<open>write\<close> of its message; after the
  return it jumps to the same jump.\<close>

lemma smoke_runs:
  assumes "syscall_write_smoke_program = Inr code" "user_slice mem base (length code) = code" "base + length code \<le> 2 ^ 64"
  shows "run_user 5 rflags mem (of_nat base, r) = EntersKernel (of_nat (base + 24),
      r(RAX := 6, RDI := 1, RSI := of_nat (base + 26), RDX := 40, RCX := of_nat (base + 24), R11 := rflags))"
    and "user_step rflags mem (of_nat (base + 24), r) = Next (of_nat (base + 24), r)"
proof -
  note d = smoke_decodes [OF assms(1)]
  have at: "user_step rflags mem (of_nat (base + k), r) =
      (let after = of_nat (base + (k + n)) in case i of MovImm d v \<Rightarrow> Next (after, r(d := ucast v))
         | LeaRip d disp \<Rightarrow> Next (after, r(d := after + scast disp)) | JmpShort disp \<Rightarrow> Next (after + scast disp, r)
         | SyscallInstr \<Rightarrow> EntersKernel (after, r(RCX := after, R11 := rflags)) | Nop \<Rightarrow> Next (after, r))"
    if "decode (take 15 (drop k code)) = Some (i, n)" "k \<le> 24" for k i n and r :: "reg \<Rightarrow> u64"
    using fetch_loaded [OF assms(2) _ assms(3), of k] that d(1) unfolding user_step_def prod.case add.assoc [of base k n, symmetric] of_nat_add [of "base + k" n] by simp
  have lea: "of_nat (base + 17) + scast (9 :: u32) = (of_nat (base + 26) :: u64)" by simp
  have step: "user_step rflags mem (of_nat base, r) = Next (of_nat (base + 5), r(RAX := 6))"
    "user_step rflags mem (of_nat (base + 5), r) = Next (of_nat (base + 10), r(RDI := 1))"
    "user_step rflags mem (of_nat (base + 10), r) = Next (of_nat (base + 17), r(RSI := of_nat (base + 26)))"
    "user_step rflags mem (of_nat (base + 17), r) = Next (of_nat (base + 22), r(RDX := 40))"
    "user_step rflags mem (of_nat (base + 22), r) = EntersKernel (of_nat (base + 24), r(RCX := of_nat (base + 24), R11 := rflags))"
    for r :: "reg \<Rightarrow> u64"
    using at [OF d(3), of r] at [OF d(4), of r] at [OF d(5), of r] at [OF d(6), of r] at [OF d(7), of r] lea
    by (simp_all add: Let_def del: of_nat_add)
  have "scast (0xfe :: u8) = (- 2 :: u64)" by code_simp
  then show "user_step rflags mem (of_nat (base + 24), r) = Next (of_nat (base + 24), r)" using at [OF d(8)] by (simp add: Let_def)
  have "run_user (Suc (Suc (Suc (Suc (Suc 0))))) rflags mem (of_nat base, r) = EntersKernel (of_nat (base + 24),
      r(RAX := 6, RDI := 1, RSI := of_nat (base + 26), RDX := 40, RCX := of_nat (base + 24), R11 := rflags))"
    unfolding run_user.simps step user_event.case ..
  moreover have "5 = Suc (Suc (Suc (Suc (Suc 0))))" by simp
  ultimately show "run_user 5 rflags mem (of_nat base, r) = EntersKernel (of_nat (base + 24),
      r(RAX := 6, RDI := 1, RSI := of_nat (base + 26), RDX := 40, RCX := of_nat (base + 24), R11 := rflags))"
    by metis
qed

end
