(* ===== verification/Boot_Total.thy ===== *)
theory Boot_Total
  imports Boot
begin

text \<open>
  Which panics the start of the kernel can end in.  With address ranges inside the address space and
  free locks, building the kernel page table and starting the first processes fails only for lack of
  memory.
\<close>

section \<open>The kernel page table\<close>

abbreviation "oom \<equiv> Expect ''out of memory for page table''"

text \<open>A state of the mapper that the functions below keep.\<close>

abbreviation mapper_ok :: "phys_addr \<Rightarrow> pt_memory \<times> buddy \<Rightarrow> bool" where
  "mapper_ok r s \<equiv> vm_inv {r} (fst s) (snd s)"

text \<open>\<open>maps_ok r f\<close>: on a good state \<open>f\<close> gives a good state or runs out of memory.\<close>

definition maps_ok :: "phys_addr \<Rightarrow> (pt_memory \<times> buddy \<Rightarrow> (pt_memory \<times> buddy) run) \<Rightarrow> bool" where
  "maps_ok r f \<longleftrightarrow> (\<forall>s. mapper_ok r s \<longrightarrow> (case f s of Inl e \<Rightarrow> e = oom | Inr s' \<Rightarrow> mapper_ok r s'))"

lemma maps_ok_Inr: "maps_ok r Inr"
  by (simp add: maps_ok_def)

lemma maps_ok_rbind: "maps_ok r f \<Longrightarrow> maps_ok r g \<Longrightarrow> maps_ok r (\<lambda>s. rbind (f s) g)"
  unfolding maps_ok_def
proof (intro allI impI)
  fix s assume f: "\<forall>s. mapper_ok r s \<longrightarrow> (case f s of Inl e \<Rightarrow> e = oom | Inr s' \<Rightarrow> mapper_ok r s')"
    and g: "\<forall>s. mapper_ok r s \<longrightarrow> (case g s of Inl e \<Rightarrow> e = oom | Inr s' \<Rightarrow> mapper_ok r s')" and s: "mapper_ok r s"
  show "case rbind (f s) g of Inl e \<Rightarrow> e = oom | Inr s' \<Rightarrow> mapper_ok r s'"
    using f [rule_format, OF s] g [rule_format] by (cases "f s") simp_all
qed

lemma maps_ok_map_page: "maps_ok r (map_page r v p fl)"
  unfolding maps_ok_def
proof (intro allI impI)
  fix s assume "mapper_ok r s"
  then have inv: "vm_inv {r} (fst s) (snd s)" by simp
  show "case map_page r v p fl s of Inl e \<Rightarrow> e = oom | Inr s' \<Rightarrow> mapper_ok r s'"
    by (rule map_page_effect [OF inv singletonI, of v p fl]) (auto simp: map_effect_def)
qed

lemma maps_ok_pages:
  assumes "\<forall>a\<in>set as. \<exists>x. place a = Inr x"
  shows "maps_ok r (map_pages r fl place as)"
  using assms
proof (induction "as")
  case Nil
  have "map_pages r fl place [] = Inr" by (rule ext) simp
  then show ?case using maps_ok_Inr by simp
next
  case (Cons a "as")
  then obtain v p where "place a = Inr (v, p)" by auto
  then have "map_pages r fl place (a # as) = (\<lambda>s. rbind (map_page r v p fl s) (map_pages r fl place as))" by (rule_tac ext) simp
  then show ?case using maps_ok_rbind [OF maps_ok_map_page Cons.IH] Cons.prems by simp
qed

lemma page_steps_bounds: "a \<in> set (page_steps x y) \<Longrightarrow> x \<le> a \<and> a < y"
proof -
  assume "a \<in> set (page_steps x y)"
  then obtain i where "a = x + i * PAGE_SIZE" "i < (y - x + (PAGE_SIZE - 1)) div PAGE_SIZE" by (auto simp: page_steps_def)
  then show "x \<le> a \<and> a < y" by auto
qed

lemma vm_align_bounds:
  assumes "x + PAGE_SIZE \<le> USIZE_MAX"
  obtains y where "vm_align_up x PAGE_SIZE = Inr y"
  using assms by (simp add: vm_align_up_def run_simps USIZE_MAX_def)

lemma vm_align_down_ge:
  assumes "KERNEL_VMA \<le> x" "x \<le> USIZE_MAX"
  shows "KERNEL_VMA \<le> vm_align_down x PAGE_SIZE"
proof -
  have "vm_align_down x PAGE_SIZE = x - x mod 2 ^ 12"
    using and_not_mask [of 12 x] assms(2) by (simp add: vm_align_down_def)
  moreover have "KERNEL_VMA mod 2 ^ 12 = 0" by simp
  ultimately show ?thesis using assms(1) by (simp add: minus_mod_eq_div_mult)
qed

lemma maps_ok_set_range:
  assumes "KERNEL_VMA \<le> x" "x \<le> USIZE_MAX" "y + PAGE_SIZE \<le> USIZE_MAX"
  shows "maps_ok r (set_range r x y fl)"
proof -
  obtain z where z: "vm_align_up y PAGE_SIZE = Inr z" by (rule vm_align_bounds [OF assms(3)])
  have place: "\<forall>a\<in>set (page_steps (vm_align_down x PAGE_SIZE) z). \<exists>p. rbind (sub_usize a KERNEL_VMA) (\<lambda>p. Inr (a, p)) = Inr p"
  proof
    fix a assume "a \<in> set (page_steps (vm_align_down x PAGE_SIZE) z)"
    then have "KERNEL_VMA \<le> a" using page_steps_bounds vm_align_down_ge [OF assms(1,2)] order_trans by blast
    then show "\<exists>p. rbind (sub_usize a KERNEL_VMA) (\<lambda>p. Inr (a, p)) = Inr p" by (simp add: sub_usize_def)
  qed
  have "set_range r x y fl = map_pages r fl (\<lambda>a. rbind (sub_usize a KERNEL_VMA) (\<lambda>p. Inr (a, p))) (page_steps (vm_align_down x PAGE_SIZE) z)"
    by (rule ext) (simp only: set_range_def z rbind_simps)
  then show ?thesis using maps_ok_pages [OF place] by simp
qed

lemma maps_ok_identity:
  assumes "y + PAGE_SIZE \<le> USIZE_MAX"
  shows "maps_ok r (set_identity_range r x y fl)"
proof -
  obtain z where z: "vm_align_up y PAGE_SIZE = Inr z" by (rule vm_align_bounds [OF assms])
  have "set_identity_range r x y fl = map_pages r fl (\<lambda>a. Inr (a, a)) (page_steps (vm_align_down x PAGE_SIZE) z)"
    by (rule ext) (simp only: set_identity_range_def z rbind_simps)
  then show ?thesis using maps_ok_pages [of "page_steps (vm_align_down x PAGE_SIZE) z" "\<lambda>a. Inr (a, a)"] by simp
qed

text \<open>Available memory must have its image above \<open>KERNEL_VMA\<close> inside the address space.\<close>

lemma maps_ok_areas:
  assumes "\<forall>a\<in>set areas. fst a = 1 \<longrightarrow> snd (snd a) + KERNEL_VMA \<le> USIZE_MAX"
  shows "maps_ok r (map_areas r areas)"
  using assms
proof (induction areas)
  case Nil
  have "map_areas r [] = Inr" by (rule ext) simp
  then show ?case using maps_ok_Inr by simp
next
  case (Cons a areas)
  obtain t start fin where a: "a = (t, start, fin)" by (cases a)
  define f where "f = (if t = 1 then map_pages r (PRESENT OR WRITABLE OR NX)
      (\<lambda>phys. rbind (add_usize phys KERNEL_VMA) (\<lambda>v. Inr (v, phys))) (page_steps start fin) else Inr)"
  have "\<exists>p. rbind (add_usize x KERNEL_VMA) (\<lambda>v. Inr (v, x)) = Inr p" if "t = 1" "x \<in> set (page_steps start fin)" for x
    using page_steps_bounds [OF that(2)] Cons.prems that(1) by (auto simp: a add_usize_def)
  then have f: "maps_ok r f" unfolding f_def using maps_ok_pages maps_ok_Inr by auto
  have "map_areas r (a # areas) = (\<lambda>s. rbind (f s) (map_areas r areas))" by (rule ext) (simp add: a f_def)
  then show ?case using maps_ok_rbind [OF f Cons.IH] Cons.prems by simp
qed

text \<open>The ranges of the image lie where the linker script puts them.\<close>

definition high_range :: "usize \<Rightarrow> usize \<Rightarrow> bool" where
  "high_range x y \<longleftrightarrow> KERNEL_VMA \<le> x \<and> x \<le> y \<and> y + PAGE_SIZE \<le> USIZE_MAX"

definition sections_ok :: "kernel_sections \<Rightarrow> bool" where
  "sections_ok secs \<longleftrightarrow> high_range (text_start secs) (text_end secs) \<and> high_range (rodata_start secs) (rodata_end secs) \<and>
     high_range (data_start secs) (data_end secs) \<and> high_range (bss_start secs) (bss_end secs)"

lemma init_kernel_page_table_panics:
  assumes "vm_buddy st = Some b" "buddy_inv b" "sections_ok secs"
    and "\<forall>a\<in>set areas. fst a = 1 \<longrightarrow> snd (snd a) + KERNEL_VMA \<le> USIZE_MAX"
    and "fst kern \<le> snd kern" "snd kern + KERNEL_VMA + PAGE_SIZE \<le> USIZE_MAX"
    and "snd bd + PAGE_SIZE \<le> USIZE_MAX" "snd mbi + PAGE_SIZE \<le> USIZE_MAX"
  shows "panics_in {oom, Expect ''no memory for PML4''} (init_kernel_page_table secs areas kern bd mbi st)"
proof -
  obtain r b0 where al: "allocate_below 0 EARLY_PAGE_TABLE_LIMIT b = Inr (r, b0)"
    using frame_source.alloc_total [OF assms(2)] by (metis prod.exhaust)
  show ?thesis
  proof (cases r)
    case None
    then show ?thesis by (simp add: panics_in_def init_kernel_page_table_def with_buddy_def assms(1) expect_frame_def al)
  next
    case (Some f)
    have f: "f + PAGE_SIZE \<le> EARLY_PAGE_TABLE_LIMIT" using frame_source.alloc_some [OF assms(2) al [unfolded Some]] by auto
    have e: "allocate_below 0 EARLY_PAGE_TABLE_LIMIT b = Inr (Some f, b0)" using al Some by simp
    have v: "phys_to_virt f = Inr (f + KERNEL_VMA)" using f by (simp add: phys_to_virt_def run_simps USIZE_MAX_def)
    have k: "add_usize (fst kern) KERNEL_VMA = Inr (fst kern + KERNEL_VMA)" "add_usize (snd kern) KERNEL_VMA = Inr (snd kern + KERNEL_VMA)"
      using assms(5,6) by (simp_all add: add_usize_def)
    have sr: "maps_ok f (set_range f x y fl)" if "high_range x y" for x y fl
      using that by (intro maps_ok_set_range) (auto simp: high_range_def)
    have hk: "high_range (fst kern + KERNEL_VMA) (snd kern + KERNEL_VMA)" using assms(5,6) by (simp add: high_range_def)
    define F where "F = (\<lambda>s. rbind (map_areas f areas s) (\<lambda>s.
      rbind (set_range f (fst kern + KERNEL_VMA) (snd kern + KERNEL_VMA) (PRESENT OR WRITABLE OR NX OR GLOBAL) s) (\<lambda>s.
      rbind (set_identity_range f (fst bd) (snd bd) (PRESENT OR WRITABLE OR NX) s) (\<lambda>s.
      rbind (set_identity_range f (fst mbi) (snd mbi) (PRESENT OR WRITABLE OR NX) s) (\<lambda>s.
      rbind (set_range f (text_start secs) (text_end secs) (PRESENT OR GLOBAL) s) (\<lambda>s.
      rbind (set_range f (rodata_start secs) (rodata_end secs) (PRESENT OR NX OR GLOBAL) s) (\<lambda>s.
      rbind (set_range f (data_start secs) (data_end secs) (PRESENT OR WRITABLE OR NX OR GLOBAL) s)
        (set_range f (bss_start secs) (bss_end secs) (PRESENT OR WRITABLE OR NX OR GLOBAL)))))))))"
    have "maps_ok f F"
      unfolding F_def using assms(3,4,7,8) hk
      by (intro maps_ok_rbind maps_ok_areas maps_ok_identity sr) (simp_all add: sections_ok_def)
    then have "case F (fill_table f (pt_mem st), b0) of Inl e \<Rightarrow> e = oom | Inr s' \<Rightarrow> mapper_ok f s'"
      using empty_root(1) [OF assms(2) e, of "pt_mem st"] unfolding maps_ok_def by simp
    moreover have "init_kernel_page_table secs areas kern bd mbi st =
        rbind (F (fill_table f (pt_mem st), b0)) (\<lambda>(m, b). Inr (f, st\<lparr>pt_mem := m, vm_buddy := Some b, KERNEL_PML4 := f\<rparr>))"
      unfolding init_kernel_page_table_def with_buddy_def assms(1) option.case expect_frame_def e rbind_simps prod.case v k F_def rbind_assoc ..
    ultimately show ?thesis by (auto simp: panics_in_def rbind_eq_Inl_iff split: sum.splits)
  qed
qed

section \<open>The whole start\<close>

lemma spawn_user_panics_inv:
  assumes "sys_inv m" "unat (next_pid m) < 2 ^ 25" "length code \<le> PAGE_SIZE"
  shows "panics_in spawn_panics (spawn_user code m)"
proof -
  obtain as where i: "sched_inv m" "vm_ok (sys_roots m) m" "KERNEL_PML4 m \<noteq> 0" "KERNEL_PML4 m \<in> sys_roots m" "bootdata_pages m = Inr as"
    using assms(1) by (auto simp: sys_inv_def space_inv_def sys_roots_def)
  have "current m \<noteq> None" by (rule sched_invE [OF i(1)]) simp
  then show ?thesis by (rule spawn_user_panics [OF i(2) _ refl i(3,4) assms(2) i(5) assms(3)])
qed

abbreviation "heap_exhausted \<equiv> Assertion ''allocation error''"

lemma heap_grows_panics: "vm_ok R m \<Longrightarrow> panics_in {heap_exhausted} (heap_grows n m)"
proof (induction n arbitrary: m)
  case (Suc n)
  have "panics_in {heap_exhausted} (heap_grow m)"
    by (rule take_frames_cases [OF Suc.prems, of "''You must init buddy allocator before allocating heap memory''" CHUNK_ORDER])
      (simp_all add: heap_grow_def panics_in_def)
  moreover have "panics_in {heap_exhausted} (heap_grows n m')" if "heap_grow m = Inr m'" for m'
    using Suc.IH frames_taken_ok(3) [OF heap_grow_effect [OF that]] Suc.prems by blast
  ultimately show ?case unfolding heap_grows.simps by (rule panics_in_rbind)
qed (simp add: panics_in_def)

lemma sys_inv_vm_ok: "sys_inv m \<Longrightarrow> vm_ok (sys_roots m) m"
  by (simp add: sys_inv_def space_inv_def)

lemma panics_in_mono: "panics_in S m \<Longrightarrow> S \<subseteq> S' \<Longrightarrow> panics_in S' m"
  by (auto simp: panics_in_def)

lemma boot_processes_panics:
  assumes "booted m" "next_pid m = 1"
  shows "panics_in (insert heap_exhausted spawn_panics) (boot_processes chunks m)"
proof -
  obtain m0 where m0: "proc_init m = Inr m0" "sys_inv m0" by (rule proc_init_sys_inv [OF assms(1)])
  have pid0: "next_pid m0 = 1"
    using m0(1) assms by (auto simp: proc_init_def booted_def kernel_pml4_def new_proc_def Let_def)
  obtain code where code: "syscall_write_smoke_program = Inr code" "length code \<le> PAGE_SIZE"
    using smoke_program_bytes length_smoke_message by simp
  have grow: "panics_in (insert heap_exhausted spawn_panics) (heap_grows n x)" if "sys_inv x" for n x
    by (rule panics_in_mono [OF heap_grows_panics [OF sys_inv_vm_ok [OF that]]]) simp
  have grown: "sys_inv y \<and> next_pid y = next_pid x" if "sys_inv x" "heap_grows n x = Inr y" for n x y
    using heap_grows_keeps(1,4) [OF that(2)] that(1) vm_only_simps(10) by blast
  have spawn: "panics_in (insert heap_exhausted spawn_panics) (spawn_user c x)"
    if "sys_inv x" "unat (next_pid x) < 2 ^ 25" "length c \<le> PAGE_SIZE" for c x
    by (rule panics_in_mono [OF spawn_user_panics_inv [OF that]]) blast
  show ?thesis
    unfolding boot_processes_def m0(1) code(1) rbind_simps
  proof (intro panics_in_rbind_pair panics_in_rbind, goal_cases)
    case 1
    show ?case by (rule grow [OF m0(2)])
  next
    case (2 h1)
    show ?case using grow grown [OF m0(2) 2] by blast
  next
    case (3 h1 h2)
    then have "sys_inv h2 \<and> next_pid h2 = 1" using grown m0(2) pid0 by metis
    then show ?case using code(2) by (intro spawn) simp_all
  next
    case (4 h1 h2 r m1)
    then have "sys_inv h2 \<and> next_pid h2 = 1" using grown m0(2) pid0 by metis
    then show ?case using grow spawn_boot [OF _ _ 4(3)] by simp
  next
    case (5 h1 h2 r m1 h3)
    then have "sys_inv h2 \<and> next_pid h2 = 1" using grown m0(2) pid0 by metis
    then have "sys_inv m1 \<and> next_pid m1 = 2" using spawn_boot [OF _ _ 5(3)] by simp
    then have "sys_inv h3 \<and> next_pid h3 = 2" using grown [OF _ 5(4)] by simp
    then show ?case by (intro spawn) simp_all
  next
    case (6 h1 h2 r m1 h3 r2 m2)
    then have "sys_inv h2 \<and> next_pid h2 = 1" using grown m0(2) pid0 by metis
    then have "sys_inv m1 \<and> next_pid m1 = 2" using spawn_boot [OF _ _ 6(3)] by simp
    then have "sys_inv h3 \<and> next_pid h3 = 2" using grown [OF _ 6(4)] by simp
    then show ?case using grow spawn_boot [OF _ _ 6(5)] by simp
  qed
qed

text \<open>The addresses the kernel is started with.\<close>

definition env_ok :: "boot_env \<Rightarrow> usize \<Rightarrow> bool" where
  "env_ok env mbi_ptr \<longleftrightarrow> (\<exists>sz areas. boot_information env = Some (sz, Some areas) \<and> map_ok areas \<and>
     (\<forall>a\<in>set areas. fst a = 1 \<longrightarrow> snd (snd a) + KERNEL_VMA \<le> USIZE_MAX) \<and>
     reserved_ok [kernel_range env, bootdata_range env, (mbi_ptr, mbi_ptr + sz)]) \<and>
   snd (kernel_range env) + KERNEL_VMA + PAGE_SIZE \<le> USIZE_MAX \<and> snd (bootdata_range env) < 2 ^ 46 \<and>
   sections_ok (sections env) \<and> ring0_stack env + STACK_SIZE \<le> USIZE_MAX \<and> double_fault_stack env + STACK_SIZE \<le> USIZE_MAX"

text \<open>The static variables before the first instruction of \<^verbatim>\<open>kernel_main\<close>.\<close>

definition at_reset :: "boot_env \<Rightarrow> kernel_state \<Rightarrow> bool" where
  "at_reset env k \<longleftrightarrow> KERNEL_FS k = spin_new None \<and> KERNEL_FD_TABLE k = spin_new None \<and> CONSOLE_WRITE k = spin_new None \<and>
     EXEC_PROGRAM k = spin_new None \<and> EXIT_CURRENT k = spin_new None \<and>
     (let m = machine_of (world k) in procs m = [] \<and> ready_queue m = [] \<and> current m = None \<and> next_pid m = 1 \<and>
        bootdata m = bootdata_range env \<and> ring0_top m = ring0_stack env + STACK_SIZE) \<and>
     SERIAL_INPUT (console_of (world k)) = serial_input_new"

definition boot_panics :: "panic set" where
  "boot_panics = {Expect ''no memory for PML4'', Assertion ''kernel page table is not initialized'', heap_exhausted} \<union> spawn_panics"

lemma bootdata_pages_low:
  assumes "fst (bootdata m) < snd (bootdata m)" "snd (bootdata m) < 2 ^ 46"
  obtains as where "bootdata_pages m = Inr as" "\<forall>a\<in>set as. user_half a"
proof -
  define e where "e = snd (bootdata m) + PAGE_SIZE - 1"
  have "e AND not_usize (PAGE_SIZE - 1) \<le> e" using and_not_mask [of 12 e] assms(2) by (simp add: e_def USIZE_MAX_def)
  then have "\<forall>a\<in>set (page_steps (proc_align_down (fst (bootdata m)) PAGE_SIZE) (e AND not_usize (PAGE_SIZE - 1))). user_half a"
    using assms(2) by (auto dest!: page_steps_bounds simp: e_def)
  then show thesis using assms(2) by (intro that [of "page_steps (proc_align_down (fst (bootdata m)) PAGE_SIZE) (e AND not_usize (PAGE_SIZE - 1))"])
      (auto simp: bootdata_pages_def run_simps USIZE_MAX_def e_def)
qed

lemma boot_memory_panics:
  assumes "env_ok env mbi_ptr"
  shows "panics_in boot_panics (boot_memory env mbi_ptr m)"
proof -
  obtain sz areas where info: "boot_information env = Some (sz, Some areas)" "map_ok areas"
      "\<forall>a\<in>set areas. fst a = 1 \<longrightarrow> snd (snd a) + KERNEL_VMA \<le> USIZE_MAX"
      "reserved_ok [kernel_range env, bootdata_range env, (mbi_ptr, mbi_ptr + sz)]"
    and bounds: "sections_ok (sections env)" "snd (kernel_range env) + KERNEL_VMA + PAGE_SIZE \<le> USIZE_MAX"
    using assms by (auto simp: env_ok_def)
  have r: "add_usize mbi_ptr sz = Inr (mbi_ptr + sz)" "fst (kernel_range env) \<le> snd (kernel_range env)"
    "snd (bootdata_range env) + PAGE_SIZE \<le> USIZE_MAX" "snd (mbi_ptr, mbi_ptr + sz) + PAGE_SIZE \<le> USIZE_MAX"
    using info(4) by (auto simp: reserved_ok_def add_usize_def)
  have "metadata_pages areas < 2 ^ 32" by (simp add: metadata_pages_def Let_def min_less_iff_disj)
  then obtain b where b: "buddy_new (metadata_pages areas) areas [kernel_range env, bootdata_range env, (mbi_ptr, mbi_ptr + sz)] = Inr b" "buddy_inv b"
    using buddy_new_correct [OF _ info(4) areas_ok_metadata [OF info(2)]] by blast
  have "panics_in {oom, Expect ''no memory for PML4''} (init_kernel_page_table (sections env) areas (kernel_range env) (bootdata_range env)
      (mbi_ptr, mbi_ptr + sz) (m\<lparr>vm_buddy := Some b\<rparr>))"
    by (rule init_kernel_page_table_panics [OF _ b(2) bounds(1) info(3) r(2) bounds(2) r(3,4)]) simp
  then have "panics_in boot_panics (init_kernel_page_table (sections env) areas (kernel_range env) (bootdata_range env)
      (mbi_ptr, mbi_ptr + sz) (m\<lparr>vm_buddy := Some b\<rparr>))"
    unfolding panics_in_def boot_panics_def spawn_panics_def by blast
  then show ?thesis
    unfolding boot_memory_def info(1) expect_def option.case prod.case rbind_simps r(1) Let_def b(1)
    by (intro panics_in_rbind_pair) (simp_all add: panics_in_def)
qed

lemma init_runtime_fs_ok:
  assumes "\<not> locked (KERNEL_FS k)" "\<not> locked (KERNEL_FD_TABLE k)"
  obtains k' where "init_runtime_fs k = Inr k'" "CONSOLE_WRITE k' = CONSOLE_WRITE k" "EXEC_PROGRAM k' = EXEC_PROGRAM k"
    "EXIT_CURRENT k' = EXIT_CURRENT k"
proof -
  have v: "view demo_fs [''bin''] = Some KDir" "\<forall>p. view demo_fs [''bin'', program_name p] \<noteq> Some KDir"
    by (simp_all add: view_def node_view_def demo_fs_def)
  obtain fs where fs: "install_programs demo_fs = Inr fs" using install_programs_all [OF v] by blast
  have new: "ramfs_new = Inr demo_fs" by (simp add: ramfs_new_eq demo_fs_def)
  define fs' where "fs' = snd (fs_write ''/home/readme.txt'' (str_bytes (''Welcome to Zeronix shell.'' @ [CHR 0x0A])) fs)"
  have "init_runtime_fs k = Inr (k\<lparr>KERNEL_FS := spin_unlock ((KERNEL_FS k)\<lparr>locked := True, inner := Some fs'\<rparr>),
      KERNEL_FD_TABLE := spin_unlock ((KERNEL_FD_TABLE k)\<lparr>locked := True, inner := Some fd_table_new\<rparr>)\<rparr>)"
    unfolding init_runtime_fs_def new rbind_simps fs fs'_def [symmetric] by (simp add: assms Let_def)
  then show thesis by (rule that) simp_all
qed

lemma gdt_init_ok:
  assumes "ring0 + STACK_SIZE \<le> USIZE_MAX" "df + STACK_SIZE \<le> USIZE_MAX"
  obtains d where "gdt_init ring0 df tb gb \<lparr>GDT = gdt_initial, TSS = tss_initial, gdtr = None, task_register = None, data_segments = None\<rparr> = Inr d"
    "unat (tss_rsp (TSS d) ! 0) = ring0 + STACK_SIZE"
proof -
  have "unat (of_nat (ring0 + STACK_SIZE) :: u64) = ring0 + STACK_SIZE"
    using assms(1) by (simp add: unsigned_of_nat take_bit_nat_eq_self USIZE_MAX_def del: of_nat_add)
  then show thesis using assms that
    by (simp add: gdt_init_def init_tss_def init_tss_descriptor_def stack_top_def add_usize_def tss_initial_def Let_def
      split: prod.splits del: of_nat_add)
qed

lemma log_message_keeps [simp]:
  "machine_of (world (log_message l ps k)) = machine_of (world k)" "pics_of (world (log_message l ps k)) = pics_of (world k)"
  "KERNEL_FS (log_message l ps k) = KERNEL_FS k" "KERNEL_FD_TABLE (log_message l ps k) = KERNEL_FD_TABLE k"
  "CONSOLE_WRITE (log_message l ps k) = CONSOLE_WRITE k" "EXEC_PROGRAM (log_message l ps k) = EXEC_PROGRAM k"
  "EXIT_CURRENT (log_message l ps k) = EXIT_CURRENT k"
  by (simp_all add: log_message_def)

lemma booted_after_memory:
  assumes "env_ok env mbi_ptr" "at_reset env k" "boot_memory env mbi_ptr (machine_of (world k)) = Inr m" "KERNEL_PML4 m \<noteq> 0"
  shows "booted (m\<lparr>tss_rsp0 := ring0_stack env + STACK_SIZE\<rparr>)" "next_pid (m\<lparr>tss_rsp0 := ring0_stack env + STACK_SIZE\<rparr>) = 1"
proof -
  define m0 where "m0 = machine_of (world k)"
  have m0: "procs m0 = []" "ready_queue m0 = []" "current m0 = None" "next_pid m0 = 1" "bootdata m0 = bootdata_range env"
      "ring0_top m0 = ring0_stack env + STACK_SIZE"
    using assms(2) by (simp_all add: at_reset_def Let_def m0_def)
  obtain sz areas where info: "boot_information env = Some (sz, Some areas)" "map_ok areas"
      "reserved_ok [kernel_range env, bootdata_range env, (mbi_ptr, mbi_ptr + sz)]"
    using assms(1) by (auto simp: env_ok_def)
  obtain b mem pml4 where m: "m = switch_cr3 pml4 (m0\<lparr>pt_mem := mem, vm_buddy := Some b, KERNEL_PML4 := pml4\<rparr>)"
    "vm_inv {pml4} mem b" "all_leaves supervisor mem pml4"
    using boot_memory_effect [OF assms(3) info] unfolding m0_def by metis
  have bd: "fst (bootdata m0) < snd (bootdata m0)" "snd (bootdata m0) < 2 ^ 46"
    using info(3) assms(1) by (simp_all add: m0(5) reserved_ok_def env_ok_def)
  obtain as where "bootdata_pages m0 = Inr as" "\<forall>a\<in>set as. user_half a" by (rule bootdata_pages_low [OF bd])
  then show "booted (m\<lparr>tss_rsp0 := ring0_stack env + STACK_SIZE\<rparr>)"
    using m m0 assms(4) by (simp add: booted_def switch_cr3_def vm_ok_def bootdata_pages_def)
  show "next_pid (m\<lparr>tss_rsp0 := ring0_stack env + STACK_SIZE\<rparr>) = 1" using m(1) m0(4) by (simp add: switch_cr3_def)
qed

lemma boot_processes_uninit: "current m = None \<Longrightarrow> KERNEL_PML4 m = 0 \<Longrightarrow> boot_processes chunks m = Inl (Assertion ''kernel page table is not initialized'')"
  by (simp add: boot_processes_def proc_init_def kernel_pml4_def)

lemma kernel_main_steps:
  assumes "env_ok env mbi_ptr" "at_reset env k"
  obtains k1 k2 k3 F where "init_runtime_fs (log_message LogInfo [''Welcome to Zeronix!''] k) = Inr k1"
    "set_console_write serial_console_write k1 = Inr k2" "set_process_hooks exec_program exit_hook k2 = Inr k3"
    "kernel_main env mbi_ptr MULTIBOOT2_MAGIC k msrs = rbind (boot_memory env mbi_ptr (machine_of (world k)))
       (\<lambda>m. rbind (heap_grows (heap_chunks env 0) (m\<lparr>tss_rsp0 := ring0_stack env + STACK_SIZE\<rparr>)) (\<lambda>m.
       rbind (boot_processes (heap_chunks env) m) (\<lambda>m'. Inr (F m'))))"
    "\<forall>m'. bk_shell (F m') = shell_new"
    "\<forall>m'. bk_kernel (F m') = print_prompt (log_message LogInfo [''Zeronix boot successfully!'']
          (k3\<lparr>world := (world k3)\<lparr>console_of := init_serial_interrupts (console_of (world k3)),
             pics_of := fold unmask_irq [0, 1, 4] (pic_init (pics_of (world k3))), machine_of := m'\<lparr>iflag := True\<rparr>\<rparr>\<rparr>))"
proof -
  define k0 where "k0 = log_message LogInfo [''Welcome to Zeronix!''] k"
  have locks: "\<not> locked (KERNEL_FS k0)" "\<not> locked (KERNEL_FD_TABLE k0)" "\<not> locked (CONSOLE_WRITE k0)" "\<not> locked (EXEC_PROGRAM k0)"
      "\<not> locked (EXIT_CURRENT k0)"
    using assms(2) by (simp_all add: k0_def at_reset_def spin_new_def Let_def)
  have mk: "machine_of (world k0) = machine_of (world k)" by (simp add: k0_def)
  obtain k1 where k1: "init_runtime_fs k0 = Inr k1" "CONSOLE_WRITE k1 = CONSOLE_WRITE k0" "EXEC_PROGRAM k1 = EXEC_PROGRAM k0"
      "EXIT_CURRENT k1 = EXIT_CURRENT k0" by (rule init_runtime_fs_ok [OF locks(1,2)])
  obtain k2 where k2: "set_console_write serial_console_write k1 = Inr k2" "EXEC_PROGRAM k2 = EXEC_PROGRAM k1" "EXIT_CURRENT k2 = EXIT_CURRENT k1"
    using k1(2) locks(3) by (simp add: set_console_write_def)
  obtain k3 where k3: "set_process_hooks exec_program exit_hook k2 = Inr k3"
    using k1(3,4) k2(2,3) locks(4,5) by (simp add: set_process_hooks_def Let_def)
  have stacks: "ring0_stack env + STACK_SIZE \<le> USIZE_MAX" "double_fault_stack env + STACK_SIZE \<le> USIZE_MAX" using assms(1) by (simp_all add: env_ok_def)
  obtain d where d: "gdt_init (ring0_stack env) (double_fault_stack env) (tss_address env) (gdt_address env)
      \<lparr>GDT = gdt_initial, TSS = tss_initial, gdtr = None, task_register = None, data_segments = None\<rparr> = Inr d"
      "unat (tss_rsp (TSS d) ! 0) = ring0_stack env + STACK_SIZE" by (rule gdt_init_ok [OF stacks])
  have main: "kernel_main env mbi_ptr MULTIBOOT2_MAGIC k msrs =
      rbind (boot_memory env mbi_ptr (machine_of (world k))) (\<lambda>m. rbind (heap_grows (heap_chunks env 0) (m\<lparr>tss_rsp0 := ring0_stack env + STACK_SIZE\<rparr>)) (\<lambda>m.
       rbind (boot_processes (heap_chunks env) m) (\<lambda>m'.
      Inr \<lparr>bk_kernel = print_prompt (log_message LogInfo [''Zeronix boot successfully!'']
          (k3\<lparr>world := (world k3)\<lparr>console_of := init_serial_interrupts (console_of (world k3)),
             pics_of := fold unmask_irq [0, 1, 4] (pic_init (pics_of (world k3))), machine_of := m'\<lparr>iflag := True\<rparr>\<rparr>\<rparr>)), bk_descriptors = d,
          bk_idt = fst (idt_init (stub_address env) (idt_address env) (replicate IDT_ENTRIES idt_missing)),
          bk_idtr = snd (idt_init (stub_address env) (idt_address env) (replicate IDT_ENTRIES idt_missing)),
          bk_msrs = syscall_init (syscall_entry env) msrs, bk_pit = init_100hz, bk_shell = shell_new\<rparr>)))"
    unfolding kernel_main_def k0_def [symmetric]
    by (simp add: guard_def d k1(1) k2(1) k3 on_world_def case_prod_beta Let_def mk)
  show thesis
    by (rule that [OF k1(1) [unfolded k0_def] k2(1) k3 main]) simp_all
qed

lemma kernel_main_outcome:
  assumes "env_ok env mbi_ptr" "at_reset env k"
  shows "case kernel_main env mbi_ptr MULTIBOOT2_MAGIC k msrs of Inl e \<Rightarrow> e \<in> boot_panics
    | Inr bk \<Rightarrow> \<exists>k1 k2 k3 m m'. init_runtime_fs (log_message LogInfo [''Welcome to Zeronix!''] k) = Inr k1 \<and>
        set_console_write serial_console_write k1 = Inr k2 \<and> set_process_hooks exec_program exit_hook k2 = Inr k3 \<and>
        booted m \<and> next_pid m = 1 \<and> boot_processes (heap_chunks env) m = Inr m' \<and> bk_shell bk = shell_new \<and>
        bk_kernel bk = print_prompt (log_message LogInfo [''Zeronix boot successfully!'']
          (k3\<lparr>world := (world k3)\<lparr>console_of := init_serial_interrupts (console_of (world k3)),
             pics_of := fold unmask_irq [0, 1, 4] (pic_init (pics_of (world k3))), machine_of := m'\<lparr>iflag := True\<rparr>\<rparr>\<rparr>))"
proof -
  obtain k1 k2 k3 F where s: "init_runtime_fs (log_message LogInfo [''Welcome to Zeronix!''] k) = Inr k1"
      "set_console_write serial_console_write k1 = Inr k2" "set_process_hooks exec_program exit_hook k2 = Inr k3"
    and main: "kernel_main env mbi_ptr MULTIBOOT2_MAGIC k msrs = rbind (boot_memory env mbi_ptr (machine_of (world k)))
       (\<lambda>m. rbind (heap_grows (heap_chunks env 0) (m\<lparr>tss_rsp0 := ring0_stack env + STACK_SIZE\<rparr>)) (\<lambda>m.
       rbind (boot_processes (heap_chunks env) m) (\<lambda>m'. Inr (F m'))))"
    and F: "\<forall>m'. bk_shell (F m') = shell_new"
      "\<forall>m'. bk_kernel (F m') = print_prompt (log_message LogInfo [''Zeronix boot successfully!'']
          (k3\<lparr>world := (world k3)\<lparr>console_of := init_serial_interrupts (console_of (world k3)),
             pics_of := fold unmask_irq [0, 1, 4] (pic_init (pics_of (world k3))), machine_of := m'\<lparr>iflag := True\<rparr>\<rparr>\<rparr>))"
    by (rule kernel_main_steps [OF assms, of msrs])
  have cur: "current (machine_of (world k)) = None" using assms(2) by (simp add: at_reset_def Let_def)
  show ?thesis
  proof (cases "boot_memory env mbi_ptr (machine_of (world k))")
    case (Inl e)
    then show ?thesis using boot_memory_panics [OF assms(1), of "machine_of (world k)"] by (simp add: main panics_in_def)
  next
    case (Inr m)
    define m2 where "m2 = m\<lparr>tss_rsp0 := ring0_stack env + STACK_SIZE\<rparr>"
    obtain sz areas where info: "boot_information env = Some (sz, Some areas)" "map_ok areas"
        "reserved_ok [kernel_range env, bootdata_range env, (mbi_ptr, mbi_ptr + sz)]"
      using assms(1) by (auto simp: env_ok_def)
    obtain R where m2: "current m2 = None" "vm_ok R m2"
      by (rule boot_memory_effect [OF Inr info]) (use cur in \<open>simp add: switch_cr3_def m2_def vm_ok_def\<close>)
    note start = main [unfolded Inr rbind_simps m2_def [symmetric]]
    show ?thesis
    proof (cases "heap_grows (heap_chunks env 0) m2")
      case (Inl e)
      then show ?thesis using heap_grows_panics [OF m2(2), of "heap_chunks env 0"] by (simp add: start panics_in_def boot_panics_def)
    next
      case (Inr m3)
      note keep = heap_grows_keeps [OF Inr] vm_only_simps [OF heap_grows_keeps(1) [OF Inr]]
      show ?thesis
      proof (cases "KERNEL_PML4 m = 0")
        case True
        then have "current m3 = None" "KERNEL_PML4 m3 = 0" using m2(1) keep(8,12) by (simp_all add: m2_def)
        then show ?thesis unfolding start Inr rbind_simps by (simp add: boot_processes_uninit boot_panics_def)
      next
        case False
        have b: "booted m3" "next_pid m3 = 1"
          using booted_after_memory [OF assms \<open>boot_memory env mbi_ptr (machine_of (world k)) = Inr m\<close> False, folded m2_def] keep by simp_all
        show ?thesis
        proof (cases "boot_processes (heap_chunks env) m3")
          case (Inl e)
          then show ?thesis using boot_processes_panics [OF b, of "heap_chunks env"] by (simp add: start Inr panics_in_def boot_panics_def)
        next
          case p: (Inr m')
          show ?thesis
            unfolding start Inr rbind_simps p sum.case
            by (intro exI [of _ k1] exI [of _ k2] exI [of _ k3] exI [of _ m3] exI [of _ m'] conjI b p s(1-3) F [rule_format])
        qed
      qed
    qed
  qed
qed

end
