(* ===== verification/Boot_Supply.thy ===== *)
theory Boot_Supply
  imports Boot_Total Proc_Supply
begin

text \<open>
  The start of the kernel with enough memory.  \<open>enough_memory\<close> counts, on the memory map, the pages below
  the early limit that page tables, frames and heap chunks need and the 4 MiB runs above it; then
  \<^verbatim>\<open>kernel_main\<close> of src/src/main.rs reaches its main loop.
\<close>

section \<open>The kernel page table\<close>

definition page_span :: "usize \<Rightarrow> usize \<Rightarrow> virt_addr set" where
  "page_span x y = {vm_align_down x PAGE_SIZE..<y + PAGE_SIZE}"

definition kernel_addresses ::
  "kernel_sections \<Rightarrow> memory_area list \<Rightarrow> usize \<times> usize \<Rightarrow> usize \<times> usize \<Rightarrow> usize \<times> usize \<Rightarrow> virt_addr set" where
  "kernel_addresses secs areas kern bd mbi =
     (\<Union>a\<in>set (filter (\<lambda>a. fst a = 1) areas). {fst (snd a) + KERNEL_VMA..<snd (snd a) + KERNEL_VMA}) \<union>
     page_span (fst kern + KERNEL_VMA) (snd kern + KERNEL_VMA) \<union> page_span (fst bd) (snd bd) \<union> page_span (fst mbi) (snd mbi) \<union>
     page_span (text_start secs) (text_end secs) \<union> page_span (rodata_start secs) (rodata_end secs) \<union>
     page_span (data_start secs) (data_end secs) \<union> page_span (bss_start secs) (bss_end secs)"

lemma finite_kernel_addresses [simp]: "finite (kernel_addresses secs areas kern bd mbi)"
  by (simp add: kernel_addresses_def page_span_def)

lemma vm_align_up_bound:
  assumes "y + PAGE_SIZE \<le> USIZE_MAX"
  obtains z where "vm_align_up y PAGE_SIZE = Inr z" "z \<le> y + PAGE_SIZE"
proof -
  have "(y + PAGE_SIZE - 1) AND not_usize (PAGE_SIZE - 1) \<le> y + PAGE_SIZE - 1"
    using and_not_mask [of 12 "y + PAGE_SIZE - 1"] assms by simp
  then show thesis using that assms by (simp add: vm_align_up_def run_simps USIZE_MAX_def)
qed

lemma page_steps_span:
  assumes "a \<in> set (page_steps (vm_align_down x PAGE_SIZE) z)" "z \<le> y + PAGE_SIZE"
  shows "a \<in> page_span x y"
  using page_steps_bounds [OF assms(1)] assms(2) by (simp add: page_span_def)

lemma supplies_set_range:
  assumes "KERNEL_VMA \<le> x" "x \<le> USIZE_MAX" "y + PAGE_SIZE \<le> USIZE_MAX" "page_span x y \<subseteq> V"
  shows "supplies n g (tables_for V) r (set_range r x y fl)"
proof -
  obtain z where z: "vm_align_up y PAGE_SIZE = Inr z" "z \<le> y + PAGE_SIZE" by (rule vm_align_up_bound [OF assms(3)])
  have "\<forall>a\<in>set (page_steps (vm_align_down x PAGE_SIZE) z). \<exists>v p. rbind (sub_usize a KERNEL_VMA) (\<lambda>p. Inr (a, p)) = Inr (v, p) \<and> table_paths v \<subseteq> tables_for V"
  proof
    fix a assume a: "a \<in> set (page_steps (vm_align_down x PAGE_SIZE) z)"
    then have "KERNEL_VMA \<le> a" using page_steps_bounds vm_align_down_ge [OF assms(1,2)] order_trans by blast
    moreover have "table_paths a \<subseteq> tables_for V" using page_steps_span [OF a z(2)] assms(4) by (intro table_paths_sub) blast
    ultimately show "\<exists>v p. rbind (sub_usize a KERNEL_VMA) (\<lambda>p. Inr (a, p)) = Inr (v, p) \<and> table_paths v \<subseteq> tables_for V"
      by (simp add: sub_usize_def)
  qed
  then have "supplies n g (tables_for V) r (map_pages r fl (\<lambda>a. rbind (sub_usize a KERNEL_VMA) (\<lambda>p. Inr (a, p))) (page_steps (vm_align_down x PAGE_SIZE) z))"
    by (rule supplies_pages)
  moreover have "set_range r x y fl = map_pages r fl (\<lambda>a. rbind (sub_usize a KERNEL_VMA) (\<lambda>p. Inr (a, p))) (page_steps (vm_align_down x PAGE_SIZE) z)"
    by (rule ext) (simp only: set_range_def z(1) rbind_simps)
  ultimately show ?thesis by simp
qed

lemma supplies_identity:
  assumes "y + PAGE_SIZE \<le> USIZE_MAX" "page_span x y \<subseteq> V"
  shows "supplies n g (tables_for V) r (set_identity_range r x y fl)"
proof -
  obtain z where z: "vm_align_up y PAGE_SIZE = Inr z" "z \<le> y + PAGE_SIZE" by (rule vm_align_up_bound [OF assms(1)])
  have "\<forall>a\<in>set (page_steps (vm_align_down x PAGE_SIZE) z). \<exists>v p. Inr (a, a) = (Inr (v, p) :: (usize \<times> usize) run) \<and> table_paths v \<subseteq> tables_for V"
    using page_steps_span [OF _ z(2)] assms(2) table_paths_sub by (metis subsetD)
  then have "supplies n g (tables_for V) r (map_pages r fl (\<lambda>a. Inr (a, a)) (page_steps (vm_align_down x PAGE_SIZE) z))"
    by (rule supplies_pages)
  moreover have "set_identity_range r x y fl = map_pages r fl (\<lambda>a. Inr (a, a)) (page_steps (vm_align_down x PAGE_SIZE) z)"
    by (rule ext) (simp only: set_identity_range_def z(1) rbind_simps)
  ultimately show ?thesis by simp
qed

lemma supplies_areas:
  assumes "\<forall>a\<in>set areas. fst a = 1 \<longrightarrow> snd (snd a) + KERNEL_VMA \<le> USIZE_MAX \<and> {fst (snd a) + KERNEL_VMA..<snd (snd a) + KERNEL_VMA} \<subseteq> V"
  shows "supplies n g (tables_for V) r (map_areas r areas)"
  using assms
proof (induction areas)
  case Nil
  have "map_areas r [] = Inr" by (rule ext) simp
  then show ?case using supplies_Inr by simp
next
  case (Cons a areas)
  obtain t start fin where a: "a = (t, start, fin)" by (cases a)
  define place where "place = (\<lambda>phys. rbind (add_usize phys KERNEL_VMA) (\<lambda>v. Inr (v, phys)))"
  define f where "f = (if t = 1 then map_pages r (PRESENT OR WRITABLE OR NX) place (page_steps start fin) else Inr)"
  have "\<exists>v p. place x = Inr (v, p) \<and> table_paths v \<subseteq> tables_for V" if x: "t = 1" "x \<in> set (page_steps start fin)" for x
  proof -
    have b: "start \<le> x" "x < fin" using page_steps_bounds [OF x(2)] by auto
    have V: "fin + KERNEL_VMA \<le> USIZE_MAX" "{start + KERNEL_VMA..<fin + KERNEL_VMA} \<subseteq> V" using Cons.prems x(1) by (simp_all add: a)
    have "x + KERNEL_VMA \<in> V" by (rule subsetD [OF V(2)]) (use b in simp)
    then show ?thesis using table_paths_sub b(2) V(1) by (simp add: place_def add_usize_def)
  qed
  then have f: "supplies n g (tables_for V) r f"
    unfolding f_def using supplies_pages [of "page_steps start fin" place "tables_for V"] supplies_Inr by auto
  have "map_areas r (a # areas) = (\<lambda>s. rbind (f s) (map_areas r areas))" by (rule ext) (simp add: a f_def place_def)
  then show ?case using supplies_rbind [OF f Cons.IH] Cons.prems by simp
qed

lemma init_kernel_page_table_total:
  assumes b: "vm_buddy st = Some b" "buddy_inv b" and secs: "sections_ok secs"
    and areas: "\<forall>a\<in>set areas. fst a = 1 \<longrightarrow> snd (snd a) + KERNEL_VMA \<le> USIZE_MAX"
    and kern: "fst kern \<le> snd kern" "snd kern + KERNEL_VMA + PAGE_SIZE \<le> USIZE_MAX"
    and ids: "snd bd + PAGE_SIZE \<le> USIZE_MAX" "snd mbi + PAGE_SIZE \<le> USIZE_MAX"
    and room: "Suc (card (tables_for (kernel_addresses secs areas kern bd mbi)) + n) \<le> low_free EARLY_PAGE_TABLE_LIMIT b"
      "g \<le> card (big_blocks EARLY_PAGE_TABLE_LIMIT b)"
  obtains f m b' b0 where "init_kernel_page_table secs areas kern bd mbi st = Inr (f, st\<lparr>pt_mem := m, vm_buddy := Some b', KERNEL_PML4 := f\<rparr>)"
    "n \<le> low_free EARLY_PAGE_TABLE_LIMIT b'" "g \<le> card (big_blocks EARLY_PAGE_TABLE_LIMIT b')"
    "allocate_below 0 EARLY_PAGE_TABLE_LIMIT b = Inr (Some f, b0)"
proof -
  define V where "V = kernel_addresses secs areas kern bd mbi"
  have fin: "finite (tables_for V)" by (simp add: V_def)
  obtain f b0 where e: "allocate_below 0 EARLY_PAGE_TABLE_LIMIT b = Inr (Some f, b0)" "supplied n g (tables_for V) {f} f (fill_table f (pt_mem st), b0)"
    by (rule supplied_root [OF b(2) fin room [folded V_def], of "pt_mem st"])
  have f: "f + PAGE_SIZE \<le> EARLY_PAGE_TABLE_LIMIT" using frame_source.alloc_some [OF b(2) e(1)] by auto
  have v: "phys_to_virt f = Inr (f + KERNEL_VMA)" using f by (simp add: phys_to_virt_def run_simps USIZE_MAX_def)
  have k: "add_usize (fst kern) KERNEL_VMA = Inr (fst kern + KERNEL_VMA)" "add_usize (snd kern) KERNEL_VMA = Inr (snd kern + KERNEL_VMA)"
    using kern by (simp_all add: add_usize_def)
  have sr: "supplies n g (tables_for V) f (set_range f x y fl)" if "high_range x y" "page_span x y \<subseteq> V" for x y fl
    using that by (intro supplies_set_range) (auto simp: high_range_def)
  have hk: "high_range (fst kern + KERNEL_VMA) (snd kern + KERNEL_VMA)" using kern by (simp add: high_range_def)
  have spans: "page_span (fst kern + KERNEL_VMA) (snd kern + KERNEL_VMA) \<subseteq> V" "page_span (fst bd) (snd bd) \<subseteq> V" "page_span (fst mbi) (snd mbi) \<subseteq> V"
    "page_span (text_start secs) (text_end secs) \<subseteq> V" "page_span (rodata_start secs) (rodata_end secs) \<subseteq> V"
    "page_span (data_start secs) (data_end secs) \<subseteq> V" "page_span (bss_start secs) (bss_end secs) \<subseteq> V"
    unfolding V_def kernel_addresses_def by blast+
  have av: "\<forall>a\<in>set areas. fst a = 1 \<longrightarrow> snd (snd a) + KERNEL_VMA \<le> USIZE_MAX \<and> {fst (snd a) + KERNEL_VMA..<snd (snd a) + KERNEL_VMA} \<subseteq> V"
    using areas unfolding V_def kernel_addresses_def by auto
  define F where "F = (\<lambda>s. rbind (map_areas f areas s) (\<lambda>s.
      rbind (set_range f (fst kern + KERNEL_VMA) (snd kern + KERNEL_VMA) (PRESENT OR WRITABLE OR NX OR GLOBAL) s) (\<lambda>s.
      rbind (set_identity_range f (fst bd) (snd bd) (PRESENT OR WRITABLE OR NX) s) (\<lambda>s.
      rbind (set_identity_range f (fst mbi) (snd mbi) (PRESENT OR WRITABLE OR NX) s) (\<lambda>s.
      rbind (set_range f (text_start secs) (text_end secs) (PRESENT OR GLOBAL) s) (\<lambda>s.
      rbind (set_range f (rodata_start secs) (rodata_end secs) (PRESENT OR NX OR GLOBAL) s) (\<lambda>s.
      rbind (set_range f (data_start secs) (data_end secs) (PRESENT OR WRITABLE OR NX OR GLOBAL) s)
        (set_range f (bss_start secs) (bss_end secs) (PRESENT OR WRITABLE OR NX OR GLOBAL)))))))))"
  have hs: "high_range (text_start secs) (text_end secs)" "high_range (rodata_start secs) (rodata_end secs)"
    "high_range (data_start secs) (data_end secs)" "high_range (bss_start secs) (bss_end secs)" using secs by (simp_all add: sections_ok_def)
  have "supplies n g (tables_for V) f F"
    unfolding F_def by (intro supplies_rbind supplies_areas supplies_identity sr av hk hs spans ids)
  then obtain m b' where F: "F (fill_table f (pt_mem st), b0) = Inr (m, b')" "supplied n g (tables_for V) {f} f (m, b')"
    using e(2) unfolding supplies_def by fastforce
  have "init_kernel_page_table secs areas kern bd mbi st =
      rbind (F (fill_table f (pt_mem st), b0)) (\<lambda>(m, b). Inr (f, st\<lparr>pt_mem := m, vm_buddy := Some b, KERNEL_PML4 := f\<rparr>))"
    unfolding init_kernel_page_table_def with_buddy_def b(1) option.case expect_frame_def e(1) rbind_simps prod.case v k F_def rbind_assoc ..
  then have "init_kernel_page_table secs areas kern bd mbi st = Inr (f, st\<lparr>pt_mem := m, vm_buddy := Some b', KERNEL_PML4 := f\<rparr>)"
    unfolding F(1) by simp
  then show thesis by (rule that) (use F(2) e(1) in \<open>simp_all add: supplied_def\<close>)
qed

section \<open>The memory the start needs\<close>

text \<open>The heap chunks taken during the start, the pages below the early limit for the two user processes and,
  at worst, these chunks.\<close>

definition boot_chunks :: "boot_env \<Rightarrow> nat" where
  "boot_chunks env = sum_list (map (heap_chunks env) [0, 1, 2, 3, 4])"

definition boot_need :: "boot_env \<Rightarrow> nat" where
  "boot_need env = spawn_need (bootdata_range env) 1 + spawn_need (bootdata_range env) 2 + 1024 * boot_chunks env"

text \<open>\<open>page_zero_spared\<close>: the kernel root does not fall on page 0, which \<^verbatim>\<open>kernel_pml4\<close> would take for a missing root.\<close>

definition enough_memory :: "boot_env \<Rightarrow> usize \<Rightarrow> bool" where
  "enough_memory env mbi_ptr \<longleftrightarrow> (\<exists>sz areas. boot_information env = Some (sz, Some areas) \<and>
     (let mbi = (mbi_ptr, mbi_ptr + sz); reserved = [kernel_range env, bootdata_range env, mbi];
          n = metadata_pages areas; pages = area_pages reserved areas \<inter> {..<n}
      in page_zero_spared EARLY_PAGE_TABLE_LIMIT n reserved areas \<and>
         Suc (card (tables_for (kernel_addresses (sections env) areas (kernel_range env) (bootdata_range env) mbi)) + boot_need env)
           \<le> card (pages \<inter> low_pages EARLY_PAGE_TABLE_LIMIT) \<and>
         6 + boot_chunks env \<le> card {p \<in> area_runs n reserved areas. EARLY_PAGE_TABLE_LIMIT \<le> p * PAGE_SIZE}))"

lemma boot_memory_total:
  assumes "env_ok env mbi_ptr" "enough_memory env mbi_ptr"
  obtains m' where "boot_memory env mbi_ptr m = Inr m'" "KERNEL_PML4 m' \<noteq> 0" "bootdata m' = bootdata m"
    "room_for (boot_need env) (6 + boot_chunks env) m'"
proof -
  obtain sz areas where info: "boot_information env = Some (sz, Some areas)" "map_ok areas"
      "\<forall>a\<in>set areas. fst a = 1 \<longrightarrow> snd (snd a) + KERNEL_VMA \<le> USIZE_MAX"
      "reserved_ok [kernel_range env, bootdata_range env, (mbi_ptr, mbi_ptr + sz)]"
    and bounds: "sections_ok (sections env)" "snd (kernel_range env) + KERNEL_VMA + PAGE_SIZE \<le> USIZE_MAX"
    using assms(1) by (auto simp: env_ok_def)
  have r: "add_usize mbi_ptr sz = Inr (mbi_ptr + sz)" "fst (kernel_range env) \<le> snd (kernel_range env)"
    "snd (bootdata_range env) + PAGE_SIZE \<le> USIZE_MAX" "snd (mbi_ptr, mbi_ptr + sz) + PAGE_SIZE \<le> USIZE_MAX"
    using info(4) by (auto simp: reserved_ok_def add_usize_def)
  define reserved where "reserved = [kernel_range env, bootdata_range env, (mbi_ptr, mbi_ptr + sz)]"
  define n where "n = metadata_pages areas"
  define need where "need = boot_need env"
  have mem: "page_zero_spared EARLY_PAGE_TABLE_LIMIT n reserved areas"
      "Suc (card (tables_for (kernel_addresses (sections env) areas (kernel_range env) (bootdata_range env) (mbi_ptr, mbi_ptr + sz))) + need)
        \<le> card (area_pages reserved areas \<inter> {..<n} \<inter> low_pages EARLY_PAGE_TABLE_LIMIT)"
      "6 + boot_chunks env \<le> card {p \<in> area_runs n reserved areas. EARLY_PAGE_TABLE_LIMIT \<le> p * PAGE_SIZE}"
    using assms(2) unfolding enough_memory_def info(1) Let_def reserved_def n_def need_def by auto
  have "n < 2 ^ 32" by (simp add: n_def metadata_pages_def Let_def min_less_iff_disj)
  then obtain b where b: "buddy_new n areas reserved = Inr b" "buddy_inv b" "free_pages b = area_pages reserved areas \<inter> {..<n}"
      "area_runs n reserved areas \<subseteq> free_blocks (metadata b) {} 10"
      "free_blocks (metadata b) {} 0 \<subseteq> area_singles n reserved areas"
    using buddy_new_correct [OF _ info(4) areas_ok_metadata [OF info(2)], folded reserved_def n_def] by blast
  have low: "Suc (card (tables_for (kernel_addresses (sections env) areas (kernel_range env) (bootdata_range env) (mbi_ptr, mbi_ptr + sz))) + need)
      \<le> low_free EARLY_PAGE_TABLE_LIMIT b" using mem(2) by (simp only: low_free_def b(3))
  have "{p \<in> area_runs n reserved areas. EARLY_PAGE_TABLE_LIMIT \<le> p * PAGE_SIZE} \<subseteq> big_blocks EARLY_PAGE_TABLE_LIMIT b"
    using b(4) by (auto simp: big_blocks_def)
  then have big: "6 + boot_chunks env \<le> card (big_blocks EARLY_PAGE_TABLE_LIMIT b)" by (rule order_trans [OF mem(3) card_mono [OF finite_big_blocks]])
  obtain f mm b' b0 where i: "init_kernel_page_table (sections env) areas (kernel_range env) (bootdata_range env) (mbi_ptr, mbi_ptr + sz)
        (m\<lparr>vm_buddy := Some b\<rparr>) = Inr (f, m\<lparr>vm_buddy := Some b\<rparr>\<lparr>pt_mem := mm, vm_buddy := Some b', KERNEL_PML4 := f\<rparr>)"
      "need \<le> low_free EARLY_PAGE_TABLE_LIMIT b'" "6 + boot_chunks env \<le> card (big_blocks EARLY_PAGE_TABLE_LIMIT b')"
      "allocate_below 0 EARLY_PAGE_TABLE_LIMIT b = Inr (Some f, b0)"
    by (rule init_kernel_page_table_total [OF _ b(2) bounds(1) info(3) r(2) bounds(2) r(3,4) low big, of "m\<lparr>vm_buddy := Some b\<rparr>"]) simp
  have "f \<noteq> 0" by (rule first_page_nonzero [OF b(2,3,5) mem(1) _ i(4)]) (simp add: USIZE_MAX_def)
  define m' where "m' = switch_cr3 f (m\<lparr>pt_mem := mm, vm_buddy := Some b', KERNEL_PML4 := f\<rparr>)"
  have "boot_memory env mbi_ptr m = Inr m'"
    unfolding boot_memory_def info(1) expect_def option.case prod.case rbind_simps r(1) Let_def
      reserved_def [symmetric] n_def [symmetric] b(1) i(1) by (simp add: m'_def)
  then show thesis by (rule that) (use i(2,3) \<open>f \<noteq> 0\<close> in \<open>simp_all add: m'_def switch_cr3_def room_for_def need_def\<close>)
qed

lemma spawn_user_room:
  assumes "sys_inv m" "unat (next_pid m) < 2 ^ 25" "length code \<le> PAGE_SIZE" "room_for (spawn_need (bootdata m) (next_pid m) + n) (3 + g) m"
  obtains r m' where "spawn_user code m = Inr (r, m')" "room_for n g m'" "sys_inv m'" "next_pid m' = next_pid m + 1" "bootdata m' = bootdata m"
proof -
  obtain as where i: "sched_inv m" "vm_ok (sys_roots m) m" "KERNEL_PML4 m \<noteq> 0" "KERNEL_PML4 m \<in> sys_roots m"
      "all_leaves supervisor (pt_mem m) (KERNEL_PML4 m)" "bootdata_pages m = Inr as" "\<forall>a\<in>set as. user_half a"
    using assms(1) by (auto simp: sys_inv_def space_inv_def sys_roots_def)
  have cur: "current m \<noteq> None" by (rule sched_invE [OF i(1)]) simp
  obtain r m' where s: "spawn_user code m = Inr (r, m')" "room_for n g m'"
    by (rule spawn_user_total [OF i(2) cur i(3,4) assms(2) i(6) assms(3,4)])
  have "bootdata m' = bootdata m"
    by (rule spawn_user_effect [OF i(1,2) refl i(3-5) assms(2) i(6,7) s(1)]) simp
  then show thesis using that [OF s] spawn_boot [OF assms(1,2) s(1)] by blast
qed

lemma heap_grows_room:
  assumes "sys_inv m" "room_for (n + 1024 * h) (g + h) m"
  obtains m' where "heap_grows h m = Inr m'" "room_for n g m'" "sys_inv m'" "next_pid m' = next_pid m" "bootdata m' = bootdata m"
proof -
  obtain m' where m': "heap_grows h m = Inr m'" "room_for n g m'" by (rule heap_grows_total [OF sys_inv_vm_ok [OF assms(1)] assms(2)])
  show thesis
    by (rule that [OF m']) (use heap_grows_keeps(4) [OF m'(1)] assms(1) vm_only_simps [OF heap_grows_keeps(1) [OF m'(1)]] in simp_all)
qed

lemma boot_processes_total:
  assumes "booted m" "next_pid m = 1"
    and "room_for (spawn_need (bootdata m) 1 + spawn_need (bootdata m) 2 + 1024 * (c 1 + c 2 + c 3 + c 4)) (6 + (c 1 + c 2 + c 3 + c 4)) m"
  obtains m' where "boot_processes c m = Inr m'"
proof -
  define s1 s2 where "s1 = spawn_need (bootdata m) 1" and "s2 = spawn_need (bootdata m) 2"
  obtain m0 where m0: "proc_init m = Inr m0" "sys_inv m0" by (rule proc_init_sys_inv [OF assms(1)])
  have keep: "next_pid m0 = 1" "bootdata m0 = bootdata m" "vm_buddy m0 = vm_buddy m"
    using m0(1) assms(1,2) by (auto simp: proc_init_def booted_def kernel_pml4_def new_proc_def Let_def)
  obtain code where code: "syscall_write_smoke_program = Inr code" "length code \<le> PAGE_SIZE"
    using smoke_program_bytes length_smoke_message by simp
  have r0: "room_for (s1 + s2 + 1024 * (c 2 + c 3 + c 4) + 1024 * c 1) (6 + (c 2 + c 3 + c 4) + c 1) m0"
    using assms(3) room_cong [OF keep(3)] by (simp add: s1_def s2_def algebra_simps)
  obtain h1 where h1: "heap_grows (c 1) m0 = Inr h1" "room_for (s1 + s2 + 1024 * (c 2 + c 3 + c 4)) (6 + (c 2 + c 3 + c 4)) h1"
      "sys_inv h1" "next_pid h1 = next_pid m0" "bootdata h1 = bootdata m0" by (rule heap_grows_room [OF m0(2) r0])
  have r1: "room_for (s1 + s2 + 1024 * (c 3 + c 4) + 1024 * c 2) (6 + (c 3 + c 4) + c 2) h1" using h1(2) by (simp add: algebra_simps)
  obtain h2 where h2: "heap_grows (c 2) h1 = Inr h2" "room_for (s1 + s2 + 1024 * (c 3 + c 4)) (6 + (c 3 + c 4)) h2"
      "sys_inv h2" "next_pid h2 = next_pid h1" "bootdata h2 = bootdata h1" by (rule heap_grows_room [OF h1(3) r1])
  have p2: "next_pid h2 = 1" "bootdata h2 = bootdata m" using h1(4,5) h2(4,5) keep by simp_all
  obtain q1 m1 where m1: "spawn_user code h2 = Inr (q1, m1)" "room_for (s2 + 1024 * (c 3 + c 4)) (3 + (c 3 + c 4)) m1" "sys_inv m1"
      "next_pid m1 = 2" "bootdata m1 = bootdata m"
    by (rule spawn_user_room [OF h2(3) _ code(2), of "s2 + 1024 * (c 3 + c 4)" "3 + (c 3 + c 4)"])
      (use h2(2) p2 in \<open>simp_all add: s1_def add.assoc [symmetric]\<close>)
  have r3: "room_for (s2 + 1024 * c 4 + 1024 * c 3) (3 + c 4 + c 3) m1" using m1(2) by (simp add: algebra_simps)
  obtain h3 where h3: "heap_grows (c 3) m1 = Inr h3" "room_for (s2 + 1024 * c 4) (3 + c 4) h3" "sys_inv h3" "next_pid h3 = next_pid m1"
      "bootdata h3 = bootdata m1" by (rule heap_grows_room [OF m1(3) r3])
  obtain q2 m2 where m2: "spawn_user [0xeb, 0xfe] h3 = Inr (q2, m2)" "room_for (0 + 1024 * c 4) (0 + c 4) m2" "sys_inv m2"
    by (rule spawn_user_room [OF h3(3), of "[0xeb, 0xfe]" "1024 * c 4" "c 4"]) (use h3 m1(4,5) in \<open>simp_all add: s2_def\<close>)
  obtain m' where "heap_grows (c 4) m2 = Inr m'" by (rule heap_grows_room [OF m2(3,2)])
  then show thesis using that unfolding boot_processes_def m0(1) code(1) rbind_simps h1(1) h2(1) m1(1) prod.case h3(1) m2(1) by simp
qed

lemma kernel_main_total:
  assumes "env_ok env mbi_ptr" "at_reset env k" "enough_memory env mbi_ptr"
  obtains bk where "kernel_main env mbi_ptr MULTIBOOT2_MAGIC k msrs = Inr bk"
proof -
  obtain F where main: "kernel_main env mbi_ptr MULTIBOOT2_MAGIC k msrs = rbind (boot_memory env mbi_ptr (machine_of (world k)))
       (\<lambda>m. rbind (heap_grows (heap_chunks env 0) (m\<lparr>tss_rsp0 := ring0_stack env + STACK_SIZE\<rparr>)) (\<lambda>m.
       rbind (boot_processes (heap_chunks env) m) (\<lambda>m'. Inr (F m'))))"
    by (rule kernel_main_steps [OF assms(1,2), of msrs])
  obtain m where m: "boot_memory env mbi_ptr (machine_of (world k)) = Inr m" "KERNEL_PML4 m \<noteq> 0" "bootdata m = bootdata (machine_of (world k))"
      "room_for (boot_need env) (6 + boot_chunks env) m"
    by (rule boot_memory_total [OF assms(1,3), of "machine_of (world k)"])
  have bd: "bootdata m = bootdata_range env" using m(3) assms(2) by (simp add: at_reset_def Let_def)
  define m2 where "m2 = m\<lparr>tss_rsp0 := ring0_stack env + STACK_SIZE\<rparr>"
  have b: "booted m2" "next_pid m2 = 1" using booted_after_memory [OF assms(1,2) m(1,2)] by (simp_all add: m2_def)
  define c where "c = heap_chunks env"
  define rest where "rest = c 1 + c 2 + c 3 + c 4"
  have all: "boot_chunks env = rest + c 0" by (simp add: boot_chunks_def rest_def c_def)
  have room: "room_for (spawn_need (bootdata m2) 1 + spawn_need (bootdata m2) 2 + 1024 * rest + 1024 * c 0) (6 + rest + c 0) m2"
    using m(4) room_cong [of m2 m] by (simp add: m2_def bd boot_need_def all algebra_simps)
  obtain m3 where m3: "heap_grows (c 0) m2 = Inr m3" "room_for (spawn_need (bootdata m2) 1 + spawn_need (bootdata m2) 2 + 1024 * rest) (6 + rest) m3"
    by (rule heap_grows_total [OF _ room, of "{KERNEL_PML4 m2}"]) (use b(1) in \<open>simp add: booted_def\<close>)
  have b3: "booted m3" "next_pid m3 = 1" "bootdata m3 = bootdata m2"
    using heap_grows_keeps(5) [OF m3(1) b(1)] vm_only_simps [OF heap_grows_keeps(1) [OF m3(1)]] b(2) by simp_all
  obtain m' where "boot_processes c m3 = Inr m'" by (rule boot_processes_total [OF b3(1,2)]) (use m3(2) in \<open>simp add: b3(3) rest_def\<close>)
  then show thesis using that m3(1) by (simp add: main m(1) m2_def c_def)
qed

end
