(* ===== verification/Kernel_Table.thy ===== *)
theory Kernel_Table
  imports Boot_Supply
begin

text \<open>
  What the kernel page table maps.  \<open>kernel_maps\<close> lists the mappings of \<^verbatim>\<open>init_kernel_page_table\<close>
  (src/src/mem/page.rs) in the order of the code; the table that is built translates every address the way
  the last mapping of its page says.
\<close>

unbundle bit_operations_syntax

section \<open>Mappings in order\<close>

type_synonym page_map = "virt_addr \<times> phys_addr \<times> entry_flags"

definition apply_map :: "page_map \<Rightarrow> (virt_addr \<Rightarrow> u64 option) \<Rightarrow> virt_addr \<Rightarrow> u64 option" where
  "apply_map x L = (case x of (v, p, fl) \<Rightarrow> \<lambda>w. if same_page v w then Some (pte_set_addr p (fl OR PRESENT)) else L w)"

definition apply_maps :: "page_map list \<Rightarrow> (virt_addr \<Rightarrow> u64 option) \<Rightarrow> virt_addr \<Rightarrow> u64 option" where
  "apply_maps xs = fold apply_map xs"

text \<open>The last mapping that covers an address decides its entry.\<close>

lemma apply_maps_last:
  "apply_maps xs L w = (case find (\<lambda>x. same_page (fst x) w) (rev xs) of
     Some (v, p, fl) \<Rightarrow> Some (pte_set_addr p (fl OR PRESENT)) | None \<Rightarrow> L w)"
  by (induction xs rule: rev_induct) (auto simp: apply_maps_def apply_map_def)

definition maps_as :: "phys_addr \<Rightarrow> page_map list \<Rightarrow> (pt_memory \<times> buddy \<Rightarrow> (pt_memory \<times> buddy) run) \<Rightarrow> bool" where
  "maps_as r xs f \<longleftrightarrow> (\<forall>s s'. mapper_ok r s \<longrightarrow> f s = Inr s' \<longrightarrow>
     mapper_ok r s' \<and> lookup (fst s') r = apply_maps xs (lookup (fst s) r))"

lemma maps_as_Inr: "maps_as r [] Inr"
  by (simp add: maps_as_def apply_maps_def)

lemma maps_as_rbind:
  assumes "maps_as r xs f" "maps_as r ys g" shows "maps_as r (xs @ ys) (\<lambda>s. rbind (f s) g)"
  unfolding maps_as_def
proof (intro allI impI)
  fix s s' assume s: "mapper_ok r s" and run: "rbind (f s) g = Inr s'"
  obtain s1 where s1: "f s = Inr s1" "g s1 = Inr s'" using run by (auto simp: rbind_eq_Inr_iff)
  have a: "mapper_ok r s1" "lookup (fst s1) r = apply_maps xs (lookup (fst s) r)"
    using assms(1) s s1(1) unfolding maps_as_def by blast+
  have "mapper_ok r s'" "lookup (fst s') r = apply_maps ys (lookup (fst s1) r)"
    using assms(2) a(1) s1(2) unfolding maps_as_def by blast+
  then show "mapper_ok r s' \<and> lookup (fst s') r = apply_maps (xs @ ys) (lookup (fst s) r)"
    by (simp add: a(2) apply_maps_def)
qed

lemma maps_as_map_page: "maps_as r [(v, p, fl)] (map_page r v p fl)"
  unfolding maps_as_def
proof (intro allI impI)
  fix s s' assume s: "mapper_ok r s" and run: "map_page r v p fl s = Inr s'"
  show "mapper_ok r s' \<and> lookup (fst s') r = apply_maps [(v, p, fl)] (lookup (fst s) r)"
  proof (rule map_page_effect [OF s singletonI, of v p fl], goal_cases)
    case 1
    then show ?thesis using run by simp
  next
    case (2 m' b')
    then have s': "s' = (m', b')" using run by simp
    note D = map_effectD [OF 2(2) singletonI]
    show ?thesis using D(1) D(4) by (auto simp: s' apply_maps_def apply_map_def)
  qed
qed

lemma maps_as_pages:
  assumes "\<And>a x. place a = Inr x \<Longrightarrow> x = (v a, p a)"
  shows "maps_as r (map (\<lambda>a. (v a, p a, fl)) as) (map_pages r fl place as)"
proof (induction "as")
  case Nil
  have "map_pages r fl place [] = Inr" by (rule ext) simp
  then show ?case using maps_as_Inr by simp
next
  case (Cons a "as")
  show ?case
  proof (cases "place a")
    case (Inl e)
    then show ?thesis by (simp add: maps_as_def)
  next
    case (Inr x)
    then have "x = (v a, p a)" using assms by blast
    then have "map_pages r fl place (a # as) = (\<lambda>s. rbind (map_page r (v a) (p a) fl s) (map_pages r fl place as))"
      by (rule_tac ext) (simp add: Inr)
    then show ?thesis using maps_as_rbind [OF maps_as_map_page Cons.IH] by simp
  qed
qed

section \<open>The ranges of the kernel\<close>

definition range_pages :: "usize \<Rightarrow> usize \<Rightarrow> usize list" where
  "range_pages x y = page_steps (vm_align_down x PAGE_SIZE) ((y + PAGE_SIZE - 1) AND not_usize (PAGE_SIZE - 1))"

definition area_maps :: "memory_area list \<Rightarrow> page_map list" where
  "area_maps areas = concat (map (\<lambda>(t, start, fin). if t = 1 then map (\<lambda>a. (a + KERNEL_VMA, a, PRESENT OR WRITABLE OR NX)) (page_steps start fin) else []) areas)"

definition high_maps :: "usize \<Rightarrow> usize \<Rightarrow> entry_flags \<Rightarrow> page_map list" where
  "high_maps x y fl = map (\<lambda>a. (a, a - KERNEL_VMA, fl)) (range_pages x y)"

definition identity_maps :: "usize \<Rightarrow> usize \<Rightarrow> entry_flags \<Rightarrow> page_map list" where
  "identity_maps x y fl = map (\<lambda>a. (a, a, fl)) (range_pages x y)"

definition kernel_maps :: "kernel_sections \<Rightarrow> memory_area list \<Rightarrow> usize \<times> usize \<Rightarrow> usize \<times> usize \<Rightarrow> usize \<times> usize \<Rightarrow> page_map list" where
  "kernel_maps secs areas kern bd mbi =
     area_maps areas @
     high_maps (fst kern + KERNEL_VMA) (snd kern + KERNEL_VMA) (PRESENT OR WRITABLE OR NX OR GLOBAL) @
     identity_maps (fst bd) (snd bd) (PRESENT OR WRITABLE OR NX) @
     identity_maps (fst mbi) (snd mbi) (PRESENT OR WRITABLE OR NX) @
     high_maps (text_start secs) (text_end secs) (PRESENT OR GLOBAL) @
     high_maps (rodata_start secs) (rodata_end secs) (PRESENT OR NX OR GLOBAL) @
     high_maps (data_start secs) (data_end secs) (PRESENT OR WRITABLE OR NX OR GLOBAL) @
     high_maps (bss_start secs) (bss_end secs) (PRESENT OR WRITABLE OR NX OR GLOBAL)"

lemma vm_align_up_value: "vm_align_up y PAGE_SIZE = Inr z \<Longrightarrow> z = (y + PAGE_SIZE - 1) AND not_usize (PAGE_SIZE - 1)"
  by (auto simp: vm_align_up_def rbind_eq_Inr_iff add_usize_def sub_usize_def split: if_splits)

lemma maps_as_set_range: "maps_as r (high_maps x y fl) (set_range r x y fl)"
proof (cases "vm_align_up y PAGE_SIZE")
  case (Inl e)
  then show ?thesis by (simp add: maps_as_def set_range_def)
next
  case (Inr z)
  have "set_range r x y fl = map_pages r fl (\<lambda>a. rbind (sub_usize a KERNEL_VMA) (\<lambda>p. Inr (a, p))) (range_pages x y)"
    by (rule ext) (simp only: set_range_def Inr rbind_simps range_pages_def vm_align_up_value [OF Inr])
  moreover have "maps_as r (map (\<lambda>a. (a, a - KERNEL_VMA, fl)) (range_pages x y))
      (map_pages r fl (\<lambda>a. rbind (sub_usize a KERNEL_VMA) (\<lambda>p. Inr (a, p))) (range_pages x y))"
    by (rule maps_as_pages) (auto simp: sub_usize_def split: if_splits)
  ultimately show ?thesis by (simp add: high_maps_def)
qed

lemma maps_as_identity: "maps_as r (identity_maps x y fl) (set_identity_range r x y fl)"
proof (cases "vm_align_up y PAGE_SIZE")
  case (Inl e)
  then show ?thesis by (simp add: maps_as_def set_identity_range_def)
next
  case (Inr z)
  have "set_identity_range r x y fl = map_pages r fl (\<lambda>a. Inr (a, a)) (range_pages x y)"
    by (rule ext) (simp only: set_identity_range_def Inr rbind_simps range_pages_def vm_align_up_value [OF Inr])
  moreover have "maps_as r (map (\<lambda>a. (a, a, fl)) (range_pages x y)) (map_pages r fl (\<lambda>a. Inr (a, a)) (range_pages x y))"
    by (rule maps_as_pages) simp
  ultimately show ?thesis by (simp add: identity_maps_def)
qed

lemma maps_as_areas: "maps_as r (area_maps areas) (map_areas r areas)"
proof (induction areas)
  case Nil
  have "map_areas r [] = Inr" by (rule ext) simp
  then show ?case using maps_as_Inr by (simp add: area_maps_def)
next
  case (Cons a areas)
  obtain t start fin where a: "a = (t, start, fin)" by (cases a)
  define f where "f = (if t = 1 then map_pages r (PRESENT OR WRITABLE OR NX)
      (\<lambda>phys. rbind (add_usize phys KERNEL_VMA) (\<lambda>v. Inr (v, phys))) (page_steps start fin) else Inr)"
  define xs where "xs = (if t = 1 then map (\<lambda>a. (a + KERNEL_VMA, a, PRESENT OR WRITABLE OR NX)) (page_steps start fin) else [])"
  have "maps_as r (map (\<lambda>a. (a + KERNEL_VMA, a, PRESENT OR WRITABLE OR NX)) (page_steps start fin)) (map_pages r (PRESENT OR WRITABLE OR NX)
      (\<lambda>phys. rbind (add_usize phys KERNEL_VMA) (\<lambda>v. Inr (v, phys))) (page_steps start fin))"
    by (rule maps_as_pages) (auto simp: add_usize_def split: if_splits)
  then have f: "maps_as r xs f" unfolding f_def xs_def using maps_as_Inr by auto
  have "map_areas r (a # areas) = (\<lambda>s. rbind (f s) (map_areas r areas))" by (rule ext) (simp add: a f_def)
  moreover have "area_maps (a # areas) = xs @ area_maps areas" by (simp add: area_maps_def a xs_def)
  ultimately show ?case using maps_as_rbind [OF f Cons.IH] by simp
qed

lemma kernel_table_lookup:
  assumes b: "vm_buddy st = Some b" "buddy_inv b" and run: "init_kernel_page_table secs areas kern bd mbi st = Inr (f, st')"
  shows "lookup (pt_mem st') f = apply_maps (kernel_maps secs areas kern bd mbi) (\<lambda>_. None)"
proof -
  obtain b0 where e: "allocate_below 0 EARLY_PAGE_TABLE_LIMIT b = Inr (Some f, b0)"
    using run unfolding init_kernel_page_table_def with_buddy_def b(1) expect_frame_def
    by (auto simp: rbind_eq_Inr_iff split: option.splits)
  define F where "F = (\<lambda>s. rbind (map_areas f areas s) (\<lambda>s.
      rbind (set_range f (fst kern + KERNEL_VMA) (snd kern + KERNEL_VMA) (PRESENT OR WRITABLE OR NX OR GLOBAL) s) (\<lambda>s.
      rbind (set_identity_range f (fst bd) (snd bd) (PRESENT OR WRITABLE OR NX) s) (\<lambda>s.
      rbind (set_identity_range f (fst mbi) (snd mbi) (PRESENT OR WRITABLE OR NX) s) (\<lambda>s.
      rbind (set_range f (text_start secs) (text_end secs) (PRESENT OR GLOBAL) s) (\<lambda>s.
      rbind (set_range f (rodata_start secs) (rodata_end secs) (PRESENT OR NX OR GLOBAL) s) (\<lambda>s.
      rbind (set_range f (data_start secs) (data_end secs) (PRESENT OR WRITABLE OR NX OR GLOBAL) s)
        (set_range f (bss_start secs) (bss_end secs) (PRESENT OR WRITABLE OR NX OR GLOBAL)))))))))"
  have m: "maps_as f (kernel_maps secs areas kern bd mbi) F"
    unfolding F_def kernel_maps_def by (intro maps_as_rbind maps_as_areas maps_as_set_range maps_as_identity)
  obtain b' where r: "F (fill_table f (pt_mem st), b0) = Inr (pt_mem st', b')"
    using run unfolding init_kernel_page_table_def with_buddy_def b(1) option.case expect_frame_def e rbind_simps prod.case F_def
    by (auto simp: rbind_eq_Inr_iff add_usize_Inr)
  have "mapper_ok f (fill_table f (pt_mem st), b0)" using empty_root(1) [OF b(2) e] by simp
  then have "lookup (pt_mem st') f = apply_maps (kernel_maps secs areas kern bd mbi) (lookup (fill_table f (pt_mem st)) f)"
    using m r unfolding maps_as_def by fastforce
  moreover have "lookup (fill_table f (pt_mem st)) f = (\<lambda>_. None)" using empty_root(2) [OF b(2) e] by (intro ext) simp
  ultimately show ?thesis by simp
qed

section \<open>An example\<close>

definition demo_env :: boot_env where
  "demo_env = \<lparr>boot_information = Some (0x1000, Some map_32),
     kernel_range = (0x100000, 0x180000), bootdata_range = (0x180000, 0x190000),
     sections = \<lparr>text_start = KERNEL_VMA + 0x100000, text_end = KERNEL_VMA + 0x120000, rodata_start = KERNEL_VMA + 0x120000,
       rodata_end = KERNEL_VMA + 0x130000, data_start = KERNEL_VMA + 0x130000, data_end = KERNEL_VMA + 0x140000,
       bss_start = KERNEL_VMA + 0x140000, bss_end = KERNEL_VMA + 0x180000\<rparr>,
     ring0_stack = KERNEL_VMA + 0x140000, double_fault_stack = KERNEL_VMA + 0x144000, tss_address = 0x5000, gdt_address = 0x6000,
     idt_address = 0x7000, syscall_entry = 0x8000, stub_address = case_stub (\<lambda>n. 0x9000 + of_nat n * 32) (\<lambda>n. 0xa000 + of_nat n * 64),
     heap_chunks = (\<lambda>i. if i = 0 then 1 else 0)\<rparr>"

lemma high_span: "page_span (KERNEL_VMA + x) (KERNEL_VMA + y) \<subseteq> {KERNEL_VMA..<KERNEL_VMA + 17 * 2 ^ 21}" if "x \<le> 0x2000000" "y \<le> 0x2000000"
  using vm_align_down_ge [of "KERNEL_VMA + x"] that by (auto simp: page_span_def USIZE_MAX_def)

lemma demo_addresses:
  "kernel_addresses (sections demo_env) map_32 (kernel_range demo_env) (bootdata_range demo_env) (0x300000, 0x301000) \<subseteq>
     {KERNEL_VMA..<KERNEL_VMA + 17 * 2 ^ 21} \<union> {0..<2 * 2 ^ 21}"
proof -
  have "page_span x y \<subseteq> {0..<2 * 2 ^ 21}" if "y < 0x3ff000" for x y using that by (auto simp: page_span_def)
  note low = this [of "0x190000" "0x180000"] this [of "0x301000" "0x300000"]
  note high = high_span [of "0x100000" "0x180000"] high_span [of "0x100000" "0x120000"] high_span [of "0x120000" "0x130000"]
    high_span [of "0x130000" "0x140000"] high_span [of "0x140000" "0x180000"]
  have "{0x100000 + KERNEL_VMA..<0x2000000 + KERNEL_VMA} \<subseteq> {KERNEL_VMA..<KERNEL_VMA + 17 * 2 ^ 21}" by auto
  then show ?thesis
    unfolding kernel_addresses_def demo_env_def map_32_def
    using low high by (simp add: le_supI1 le_supI2)
qed

lemma demo_tables:
  "card (tables_for (kernel_addresses (sections demo_env) map_32 (kernel_range demo_env) (bootdata_range demo_env) (0x300000, 0x301000))) \<le> 57"
proof -
  have "card (tables_for {KERNEL_VMA..<KERNEL_VMA + 17 * 2 ^ 21}) \<le> 3 * 17" by (rule card_tables_for [of _ "KERNEL_VMA div 2 ^ 21"]) simp
  moreover have "card (tables_for {0..<2 * 2 ^ 21}) \<le> 3 * 2" by (rule card_tables_for [of _ 0]) simp
  moreover have "card (tables_for (kernel_addresses (sections demo_env) map_32 (kernel_range demo_env) (bootdata_range demo_env) (0x300000, 0x301000))) \<le>
      card (tables_for ({KERNEL_VMA..<KERNEL_VMA + 17 * 2 ^ 21} \<union> {0..<2 * 2 ^ 21}))"
    by (intro card_mono tables_for_mono demo_addresses) simp
  ultimately show "card (tables_for (kernel_addresses (sections demo_env) map_32 (kernel_range demo_env) (bootdata_range demo_env) (0x300000, 0x301000))) \<le> 57"
    using card_tables_Un [of "{KERNEL_VMA..<KERNEL_VMA + 17 * 2 ^ 21}" "{0..<2 * 2 ^ 21}"] by linarith
qed

section \<open>The table\<close>

definition table_ranges_ok :: "kernel_sections \<Rightarrow> memory_area list \<Rightarrow> usize \<times> usize \<Rightarrow> usize \<times> usize \<Rightarrow> usize \<times> usize \<Rightarrow> bool" where
  "table_ranges_ok secs areas kern bd mbi \<longleftrightarrow> sections_ok secs \<and> (\<forall>a\<in>set areas. fst a = 1 \<longrightarrow> snd (snd a) + KERNEL_VMA \<le> USIZE_MAX) \<and>
     fst kern \<le> snd kern \<and> snd kern + KERNEL_VMA + PAGE_SIZE \<le> USIZE_MAX \<and> snd bd + PAGE_SIZE \<le> USIZE_MAX \<and> snd mbi + PAGE_SIZE \<le> USIZE_MAX"

text \<open>C13: with ranges inside the address space the kernel page table is built unless the frames below the
  early limit do not suffice for its tables.  It is made of frames the allocator gave out; it translates
  every address as the last of the mappings \<open>kernel_maps\<close> for its page says, and no other address; every
  page is closed to ring 3, and no page is both writable and executable, whatever the memory map, the
  sections and the order in which ranges overlap.\<close>

theorem kernel_page_table_protects:
  assumes "vm_buddy st = Some b" "buddy_inv b" "table_ranges_ok secs areas kern bd mbi"
  shows "case init_kernel_page_table secs areas kern bd mbi st of
      Inl e \<Rightarrow> e \<in> {oom, Expect ''no memory for PML4''} \<and>
        low_free EARLY_PAGE_TABLE_LIMIT b \<le> card (tables_for (kernel_addresses secs areas kern bd mbi))
    | Inr (pml4, st') \<Rightarrow> \<exists>b'. vm_buddy st' = Some b' \<and> vm_inv {pml4} (pt_mem st') b' \<and> KERNEL_PML4 st' = pml4 \<and>
        lookup (pt_mem st') pml4 = apply_maps (kernel_maps secs areas kern bd mbi) (\<lambda>_. None) \<and>
        (\<forall>v. \<not> user_access (pt_mem st') pml4 v) \<and>
        (\<forall>v e. lookup (pt_mem st') pml4 v = Some e \<longrightarrow> \<not> has_flag e WRITABLE \<or> has_flag e NX)"
proof (cases "init_kernel_page_table secs areas kern bd mbi st")
  case (Inl e)
  have w: "sections_ok secs" "\<forall>a\<in>set areas. fst a = 1 \<longrightarrow> snd (snd a) + KERNEL_VMA \<le> USIZE_MAX" "fst kern \<le> snd kern"
      "snd kern + KERNEL_VMA + PAGE_SIZE \<le> USIZE_MAX" "snd bd + PAGE_SIZE \<le> USIZE_MAX" "snd mbi + PAGE_SIZE \<le> USIZE_MAX"
    using assms(3) by (simp_all add: table_ranges_ok_def)
  have "\<not> Suc (card (tables_for (kernel_addresses secs areas kern bd mbi)) + 0) \<le> low_free EARLY_PAGE_TABLE_LIMIT b"
    using init_kernel_page_table_total [OF assms(1,2) w, of 0 0] Inl by (metis sum.distinct(1) zero_le)
  then show ?thesis using init_kernel_page_table_panics [OF assms(1,2) w] Inl by (auto simp: panics_in_def)
next
  case (Inr x)
  then obtain pml4 st' where run: "init_kernel_page_table secs areas kern bd mbi st = Inr (pml4, st')" by (cases x) simp
  show ?thesis
    unfolding run sum.case prod.case
    using init_kernel_page_table_leaves [OF assms(1,2) run] kernel_table_lookup [OF assms(1,2) run]
    by (auto simp: all_leaves_def user_access_def)
qed

theorem kernel_page_table_protects_witness:
  "\<exists>b pml4 st'. buddy_new 8448 map_32 reserved_32 = Inr b \<and>
     init_kernel_page_table (sections demo_env) map_32 (kernel_range demo_env) (bootdata_range demo_env) (0x300000, 0x301000)
       \<lparr>pt_mem = (\<lambda>_. 0), vm_buddy = Some b, KERNEL_PML4 = 0\<rparr> = Inr (pml4, st') \<and> (\<forall>v. \<not> user_access (pt_mem st') pml4 v)"
proof -
  obtain b where d: "buddy_new 8448 map_32 reserved_32 = Inr b" "buddy_inv b" "1024 \<le> low_free EARLY_PAGE_TABLE_LIMIT b"
    by (rule buddy_32)
  have "table_ranges_ok (sections demo_env) map_32 (kernel_range demo_env) (bootdata_range demo_env) (0x300000, 0x301000)"
    by (simp add: table_ranges_ok_def demo_env_def map_32_def sections_ok_def high_range_def USIZE_MAX_def)
  then show ?thesis
    using kernel_page_table_protects [where st = "\<lparr>pt_mem = (\<lambda>_. 0), vm_buddy = Some b, KERNEL_PML4 = 0\<rparr>" and b = b, OF _ d(2)] demo_tables d(1,3)
    by (fastforce split: sum.splits)
qed

end
