(* ===== verification/Boot_Example.thy ===== *)
theory Boot_Example
  imports Kernel_Table
begin

text \<open>
  A machine for the start of the kernel: 64 MiB with the memory map of an ordinary PC, conventional memory from
  address 0 to the extended BIOS data area included, and a kernel heap that takes one chunk.
\<close>

definition map_pc :: "memory_area list" where
  "map_pc = [(1, 0, 0x9fc00), (2, 0x9fc00, 0x100000), (1, 0x100000, 0x4000000), (2, 0x4000000, 0x4100000)]"

definition pc_env :: boot_env where
  "pc_env = demo_env\<lparr>boot_information := Some (0x1000, Some map_pc)\<rparr>"

text \<open>The static variables and the devices at power-on.\<close>

definition demo_reset :: kernel_state where
  "demo_reset = \<lparr>KERNEL_FS = spin_new None, KERNEL_FD_TABLE = spin_new None, CONSOLE_WRITE = spin_new None,
     EXEC_PROGRAM = spin_new None, EXIT_CURRENT = spin_new None, user_mem = (\<lambda>_. 0),
     world = \<lparr>machine_of = \<lparr>pt_mem = (\<lambda>_. 0), vm_buddy = None, KERNEL_PML4 = 0, procs = [], ready_queue = [],
         next_pid = 1, current = None, iflag = False, cr3 = 0, tss_rsp0 = 0, cpu = context_new, suspended_if = (\<lambda>_. False),
         frame_bytes = (\<lambda>_. 0), trap_frames = (\<lambda>_. None), bootdata = (0x180000, 0x190000), ring0_top = KERNEL_VMA + 0x144000\<rparr>,
       console_of = demo_console,
       pics_of = \<lparr>pic1 = \<lparr>icw_stage = 0, vector_offset = 8, cascade = 4, mode = 1, imr = 0, eois = 0\<rparr>,
         pic2 = \<lparr>icw_stage = 0, vector_offset = 0x70, cascade = 2, mode = 1, imr = 0, eois = 0\<rparr>, io_waits = 0\<rparr>, TIMER_TICKS = 0\<rparr>\<rparr>"

lemma pages_pc:
  "area_pages reserved_32 map_pc = usable reserved_32 0 0x9fc00 \<union> usable reserved_32 0x100000 0x4000000"
  "area_runs n reserved_32 map_pc = runs_in (usable reserved_32 0 0x9fc00 \<inter> {..<n}) \<union> runs_in (usable reserved_32 0x100000 0x4000000 \<inter> {..<n})"
  "area_singles n reserved_32 map_pc = singles (usable reserved_32 0 0x9fc00 \<inter> {..<n}) \<union> singles (usable reserved_32 0x100000 0x4000000 \<inter> {..<n})"
  by (simp_all add: area_pages_def area_runs_def area_singles_def map_pc_def)

text \<open>Page 0 is offered, but together with page 1, and page 158 is the last of its area.\<close>

lemma zero_pc: "0 \<in> area_pages reserved_32 map_pc \<inter> {..<16640}" "page_zero_spared 8388608 16640 reserved_32 map_pc"
proof -
  show "0 \<in> area_pages reserved_32 map_pc \<inter> {..<16640}" unfolding pages_pc by (simp add: usable_def reserved_32_def)
  have "0 \<notin> area_singles 16640 reserved_32 map_pc" unfolding pages_pc by (simp add: singles_def usable_def reserved_32_def)
  moreover have "158 \<in> area_pages reserved_32 map_pc \<inter> {..<16640} \<inter> low_pages 8388608" "partner 158 \<notin> area_pages reserved_32 map_pc"
    unfolding pages_pc by (simp_all add: usable_def reserved_32_def low_pages_def partner_def)
  ultimately show "page_zero_spared 8388608 16640 reserved_32 map_pc" unfolding page_zero_spared_def Let_def by blast
qed

lemma low_pc: "1183 \<le> card (area_pages reserved_32 map_pc \<inter> {..<16640} \<inter> low_pages 8388608)"
proof -
  have "{0..<159} \<union> {1024..<2048} \<subseteq> area_pages reserved_32 map_pc \<inter> {..<16640} \<inter> low_pages 8388608"
    unfolding pages_pc by (auto simp: usable_def reserved_32_def low_pages_def)
  then have "card ({0..<159} \<union> {1024..<2048 :: nat}) \<le> card (area_pages reserved_32 map_pc \<inter> {..<16640} \<inter> low_pages 8388608)"
    by (intro card_mono) auto
  moreover have "card ({0..<159} \<union> {1024..<2048 :: nat}) = 1183" by (subst card_Un_disjoint) auto
  ultimately show ?thesis by simp
qed

lemma runs_pc: "7 \<le> card {p \<in> area_runs 16640 reserved_32 map_pc. 8388608 \<le> p * PAGE_SIZE}"
proof -
  have "(\<lambda>i. 2048 + 1024 * i) ` {..<7} \<subseteq> {p \<in> area_runs 16640 reserved_32 map_pc. 8388608 \<le> p * PAGE_SIZE}"
    unfolding pages_pc runs_in_def by (auto simp: usable_def reserved_32_def)
  moreover have "finite {p \<in> area_runs 16640 reserved_32 map_pc. 8388608 \<le> p * PAGE_SIZE}"
    by (rule finite_subset [of _ "{..<16640}"]) (use runs_in_sub in \<open>auto simp: pages_pc\<close>)
  ultimately have "card ((\<lambda>i :: nat. 2048 + 1024 * i) ` {..<7}) \<le> card {p \<in> area_runs 16640 reserved_32 map_pc. 8388608 \<le> p * PAGE_SIZE}"
    by (rule card_mono [rotated])
  moreover have "inj_on (\<lambda>i :: nat. 2048 + 1024 * i) {..<7}" by (rule inj_onI) simp
  ultimately show ?thesis by (simp add: card_image)
qed

lemma pc_addresses:
  "kernel_addresses (sections pc_env) map_pc (kernel_range pc_env) (bootdata_range pc_env) (0x300000, 0x301000) \<subseteq>
     {KERNEL_VMA..<KERNEL_VMA + 33 * 2 ^ 21} \<union> {0..<2 * 2 ^ 21}"
proof -
  define V where "V = {KERNEL_VMA..<KERNEL_VMA + 33 * 2 ^ 21} \<union> {0..<2 * 2 ^ 21 :: nat}"
  have "{KERNEL_VMA..<KERNEL_VMA + 17 * 2 ^ 21} \<union> {0..<2 * 2 ^ 21} \<subseteq> V" by (auto simp: V_def)
  with demo_addresses have "kernel_addresses (sections demo_env) map_32 (kernel_range demo_env) (bootdata_range demo_env) (0x300000, 0x301000) \<subseteq> V"
    by (rule order_trans)
  moreover have "{0 + KERNEL_VMA..<0x9fc00 + KERNEL_VMA} \<union> {0x100000 + KERNEL_VMA..<0x4000000 + KERNEL_VMA} \<subseteq> V" by (auto simp: V_def)
  ultimately show ?thesis
    unfolding V_def [symmetric] kernel_addresses_def pc_env_def map_pc_def map_32_def by simp
qed

lemma pc_tables:
  "card (tables_for (kernel_addresses (sections pc_env) map_pc (kernel_range pc_env) (bootdata_range pc_env) (0x300000, 0x301000))) \<le> 105"
proof -
  have "card (tables_for {KERNEL_VMA..<KERNEL_VMA + 33 * 2 ^ 21}) \<le> 3 * 33" by (rule card_tables_for [of _ "KERNEL_VMA div 2 ^ 21"]) simp
  moreover have "card (tables_for {0..<2 * 2 ^ 21}) \<le> 3 * 2" by (rule card_tables_for [of _ 0]) simp
  moreover have "card (tables_for (kernel_addresses (sections pc_env) map_pc (kernel_range pc_env) (bootdata_range pc_env) (0x300000, 0x301000))) \<le>
      card (tables_for ({KERNEL_VMA..<KERNEL_VMA + 33 * 2 ^ 21} \<union> {0..<2 * 2 ^ 21}))"
    by (intro card_mono tables_for_mono pc_addresses) simp
  ultimately show "card (tables_for (kernel_addresses (sections pc_env) map_pc (kernel_range pc_env) (bootdata_range pc_env) (0x300000, 0x301000))) \<le> 105"
    using card_tables_Un [of "{KERNEL_VMA..<KERNEL_VMA + 33 * 2 ^ 21}" "{0..<2 * 2 ^ 21}"] by linarith
qed

lemma pc_enough: "enough_memory pc_env 0x300000"
proof -
  have "spawn_need (bootdata_range pc_env) q \<le> 20" for q by (rule process_need) (simp add: pc_env_def demo_env_def)
  then have "spawn_need (bootdata_range pc_env) 1 + spawn_need (bootdata_range pc_env) 2 \<le> 20 + 20" by (intro add_mono)
  moreover have c: "boot_chunks pc_env = 1" by (simp add: boot_chunks_def pc_env_def demo_env_def)
  ultimately have need: "boot_need pc_env \<le> 1064" by (simp add: boot_need_def)
  have n: "metadata_pages map_pc = 16640" by (simp add: metadata_pages_def map_pc_def)
  have r: "[kernel_range pc_env, bootdata_range pc_env, (0x300000, 0x300000 + 0x1000)] = reserved_32" by (simp add: pc_env_def demo_env_def reserved_32_def)
  have i: "boot_information pc_env = Some (0x1000, Some map_pc)" by (simp add: pc_env_def)
  have low: "Suc (card (tables_for (kernel_addresses (sections pc_env) map_pc (kernel_range pc_env) (bootdata_range pc_env) (0x300000, 0x300000 + 0x1000))) +
      boot_need pc_env) \<le> card (area_pages reserved_32 map_pc \<inter> {..<16640} \<inter> low_pages EARLY_PAGE_TABLE_LIMIT)"
    using pc_tables need low_pc by simp
  have big: "6 + 1 \<le> card {p \<in> area_runs 16640 reserved_32 map_pc. EARLY_PAGE_TABLE_LIMIT \<le> p * PAGE_SIZE}" using runs_pc by simp
  show ?thesis
    unfolding enough_memory_def Let_def
    by (intro exI [of _ "0x1000"] exI [of _ map_pc]) (simp only: r n i c zero_pc(2) low big simp_thms)
qed

lemma pc_env_ok: "env_ok pc_env 0x300000"
  by (simp add: env_ok_def pc_env_def demo_env_def map_pc_def reserved_ok_def sections_ok_def high_range_def USIZE_MAX_def)

lemma pc_at_reset: "at_reset pc_env demo_reset"
  by (simp add: at_reset_def pc_env_def demo_env_def demo_reset_def)

end
