(* ===== verification/Spec2Isabelle.thy ===== *)
theory Spec2Isabelle
  imports Alloc_Layout Buddy_Theorems Kernel_Heap Proc_Supply Format Spin_Lock User_Code Boot_Example
begin

text \<open>
  \<^bold>\<open>Verification of Zeronix\<close>, a small x86-64 kernel in Rust (src/src).

  \<^bold>\<open>The program.\<close>  GRUB loads the kernel; boot.S enters long mode and calls \<^verbatim>\<open>kernel_main\<close> (src/src/main.rs).
  It builds the buddy allocator of page frames from the memory map, then the kernel page table in frames of
  that allocator; the kernel heap takes 4 MiB chunks from the same allocator.  It loads the descriptor
  tables, programs the interrupt controllers and the timer, creates a RAM file system with the built-in ELF
  programs, registers the hooks of the system calls, starts the first two user processes, and enters a loop
  that polls the serial line for the shell.  Timer interrupts drive a round-robin scheduler; user programs
  come back through the \<^verbatim>\<open>syscall\<close> instruction, which dispatches on the file system and the descriptor table.

  \<^bold>\<open>Conventions\<close> (\<open>Prelude\<close>).  The kernel runs as the dev profile: integer overflow, slice bounds and
  debug assertions panic.  A computation that may panic returns \<open>'a run\<close>, a sum whose left side is the
  panic; \<^verbatim>\<open>Result\<close> and \<^verbatim>\<open>Option\<close> are sums and options of their own.  \<^verbatim>\<open>usize\<close> is a natural number with the bound
  written out at every operation that can leave 64 bits; registers, page-table entries, flags and
  descriptors are words.  Mutable state is passed explicitly, pointer structures live in a memory from
  addresses to cells, and a lock is a record with the flag and its contents: taking a taken lock is
  \<open>Deadlock\<close>, since one processor spins for ever with interrupts off.

  \<^bold>\<open>Theories and sources.\<close>
  \<^item> \<open>Alloc_Layout\<close>: src/src/alloc_layout.rs.  Placement of an allocation in a block is sound, and accepts
    a block exactly when the required size fits.
  \<^item> \<open>Intrusive_List\<close>: src/src/list.rs.  Every operation on the pointers is the operation on the abstract
    list (\<open>clist\<close>); the four iteration macros end and visit every entry, the safe ones also when the body
    unlinks nodes.
  \<^item> \<open>Buddy\<close>: src/src/mem/page/pagealloc.rs, the definitions.  \<open>Buddy_Lists\<close> holds the free lists threaded
    through the metadata, \<open>Buddy_Inv\<close> and \<open>Buddy_Steps\<close> the invariant \<open>buddy_inv\<close> and the four steps
    every operation is made of, \<open>Buddy_Correct\<close> and \<open>Buddy_Dealloc\<close> allocation and release,
    \<open>Buddy_Init\<close> construction from the memory map, \<open>Buddy_Theorems\<close> the properties and conservation of
    pages over all sequences of calls, and \<open>Buddy_Supply\<close> how many requests memory lasts for and when the
    first page handed out is not page 0.
  \<^item> \<open>Heap_List\<close> and \<open>Kernel_Heap\<close>: src/src/mem/alloc.rs.  The linked free list refines an
    address-ordered list of blocks; live allocations stay disjoint and unchanged over all sequences of
    allocations and releases, and null is returned only when memory cannot serve the request.
  \<^item> \<open>Paging\<close>, \<open>Paging_Theorems\<close>, \<open>Paging_Supply\<close>: src/src/mem.rs, src/src/mem/page.rs,
    src/src/mem/page/pagemapper.rs.  The mapper updates one page of the address map \<open>lookup\<close>; the page
    tables of distinct roots stay apart (\<open>vm_inv\<close>); mapping fails only when fewer frames are free than
    tables are missing.  \<open>Kernel_Table\<close> shows what the finished kernel table translates.
  \<^item> \<open>Ram_Fs\<close>: src/src/fs/ramfs.rs.  The tree refines a map from paths to files and directories.
  \<^item> \<open>Fd_Table\<close>: src/src/syscall/fd.rs.  Positioned reads and writes, append, duplication.
  \<^item> \<open>Elf\<close>: src/src/user/elf.rs.  Built images parse back; parsing of any bytes is safe but for one overflow.
  \<^item> \<open>Commands\<close>: src/src/user/commands.rs.  Word splitting, redirection and every shell command.
  \<^item> \<open>Proc\<close>: src/src/task/proc.rs and proc_layout.rs, the definitions.  \<open>Proc_Sched\<close> holds the scheduler
    invariant and its order, \<open>Proc_Space\<close> the address spaces of user processes and the ways \<^verbatim>\<open>spawn_elf\<close> can
    end, \<open>Proc_System\<close> what \<^verbatim>\<open>spawn_user\<close> and \<^verbatim>\<open>spawn_elf\<close> build and the relation \<open>sys_step\<close>: all interleavings
    of both, kernel tasks, heap growth, ticks, yields and exits.  \<open>Proc_Supply\<close> gives the memory a
    process needs and the properties of reachable states; isolation is proved for images that load into
    the user half (\<open>user_space_program\<close>), which \<^verbatim>\<open>spawn_elf\<close> does not check, the scheduler for all images.
  \<^item> \<open>Stdio\<close>: src/src/stdio.rs over a UART that answers its line status and data registers.
  \<^item> \<open>Spin_Lock\<close>: src/src/lock/spin_lock.rs, as a step relation that interleaves threads.
  \<^item> \<open>Format\<close>: the number formats of \<^verbatim>\<open>format!\<close> that the kernel uses and the digit parsers of main.rs.
  \<^item> \<open>Syscall\<close>: src/src/syscall.rs, dispatch over the locked globals.
  \<^item> \<open>Trap\<close>: src/src/trap.rs, src/src/trap/ (gdt, idt, pic, pit), the assembly stubs of interrupts, of
    system calls and of the entry into user mode, and the registers of the \<^verbatim>\<open>syscall\<close> instruction.
    \<open>gate_target\<close> is the processor's choice of entry point and stack for a vector and a privilege level.
  \<^item> \<open>Shell\<close>: the line editor and the jobs of src/src/main.rs.  \<open>Boot\<close>: \<^verbatim>\<open>kernel_main\<close> and the first user
    program (src/src/user.rs); \<open>Boot_Total\<close> lists the panics of the start, \<open>Boot_Supply\<close> gives the memory
    with which there is none, \<open>Boot_Example\<close> the memory map of a PC with that memory.
  \<^item> \<open>User_Code\<close>: the instructions of the first user program, decoded from its bytes and executed up to the
    system call and after it.
  \<^item> This theory: the start of the kernel, the first user program on the console, and a command typed at
    the prompt, which rest on all the others.

  \<^bold>\<open>Interfaces.\<close>  \<open>page_allocator\<close> (interpreted on the buddy allocator as \<open>frame_source\<close>) is what page
  tables, heap and processes rely on: fresh blocks overlap no live ones, and a release frees exactly its
  block.  \<open>address_space\<close> (on the page tables, as \<open>paging\<close>) is what process creation uses: a sequence of
  mappings is a sequence of map updates.  \<open>file_store\<close> (on the RAM file system, as \<open>ram\<close>) gives the
  descriptor table and the commands reading after writing.  \<open>lossy_queue\<close> (on the receive ring buffer, as
  \<open>ring\<close>) is a queue that keeps its latest bytes.

  \<^bold>\<open>Loops and fuel.\<close>  Loops are structural recursion or functions with a termination measure where the code
  bounds them.  Fuel stands for loops over pointers or addresses, and every such loop is proved to return:
  \<^item> the walk of a buddy free list gets the length of the metadata, and a list has no repetition;
  \<^item> \<open>add_region_loop\<close> gets more than the bytes of the region, and each turn advances by a page;
  \<^item> a walk of the heap list needs more turns than the list has blocks, the allocation loop two rounds, since
    one growth serves the request or fails;
  \<^item> iteration over an intrusive list needs one turn more than it has nodes.
  Reachability properties hold for every run; those about process addresses ask for pids below
  \<open>2 ^ 25\<close>, beyond which user code would lie in the kernel half.

  \<^bold>\<open>Parameters.\<close>  What boot loader, linker and assembly decide is an argument: the memory map (the multiboot2
  crate's areas, as data), section and stack addresses, the address of each stub (the tables of
  stubs are modelled), and the compiled handlers the stubs call.  The collections of the \<^verbatim>\<open>alloc\<close> crate decide
  when the kernel heap asks the page allocator for a chunk: \<open>heap_chunks\<close> says how often during the start,
  and a running system may do so at any step.  Hypotheses such as \<open>env_ok\<close> and \<open>table_ranges_ok\<close> say that ranges lie inside the address
  space.

  \<^bold>\<open>Not modelled.\<close>  Page faults on bad user pointers (user memory is a total map); the sizes and
  addresses of the blocks behind \<^verbatim>\<open>Box\<close>, \<^verbatim>\<open>VecDeque\<close>, \<^verbatim>\<open>Vec\<close> and \<^verbatim>\<open>String\<close> inside the kernel (only the chunks they make the heap
  take; without one \<^verbatim>\<open>alloc_error\<close> panics, which the start accounts for and the other operations do not); overflow of a file
  offset, which needs a file of 2^64 bytes; white space beyond ASCII; instructions with no effect on
  the modelled state (\<^verbatim>\<open>hlt\<close>, TLB flushes, port delays); boot.S, the linker script and build.rs; module files
  that only declare modules; the unit tests of the sources.
\<close>

section \<open>Properties that span components\<close>

lemma lock_fields: "l\<lparr>inner := x, locked := b\<rparr> = \<lparr>locked = b, inner = x\<rparr>" for l :: "'a spin_lock"
  by (cases l) simp

lemma boot_console:
  fixes p :: pics and m :: machine
  assumes "init_runtime_fs (log_message LogInfo msg k) = Inr k1" "set_console_write serial_console_write k1 = Inr k2"
    "set_process_hooks exec_program exit_hook k2 = Inr k3" "SERIAL_INPUT (console_of (world k)) = serial_input_new"
  defines "k4 \<equiv> k3\<lparr>world := (world k3)\<lparr>console_of := init_serial_interrupts (console_of (world k3)), pics_of := p, machine_of := m\<rparr>\<rparr>"
  obtains fs xs where "console_state [] (xs @ prompt_text) fs (print_prompt (log_message LogInfo msg' k4))" "\<forall>q. installed fs q"
    "CONSOLE_WRITE k3 = \<lparr>locked = False, inner = Some serial_console_write\<rparr>" "EXEC_PROGRAM k3 = \<lparr>locked = False, inner = Some exec_program\<rparr>"
    "EXIT_CURRENT k3 = \<lparr>locked = False, inner = Some exit_hook\<rparr>" "KERNEL_FD_TABLE k3 = \<lparr>locked = False, inner = Some fd_table_new\<rparr>"
proof -
  obtain fs where fs: "KERNEL_FS k1 = \<lparr>locked = False, inner = Some fs\<rparr>" "\<forall>q. installed fs q" "world k1 = world (log_message LogInfo msg k)"
      "KERNEL_FD_TABLE k1 = \<lparr>locked = False, inner = Some fd_table_new\<rparr>"
    by (rule init_runtime_fs_effect [OF assms(1)])
  have k2: "k2 = k1\<lparr>CONSOLE_WRITE := \<lparr>locked = False, inner = Some serial_console_write\<rparr>\<rparr>"
    using assms(2) by (cases "locked (CONSOLE_WRITE k1)") (simp_all add: set_console_write_def spin_unlock_def lock_fields)
  have k3: "k3 = k2\<lparr>EXEC_PROGRAM := \<lparr>locked = False, inner = Some exec_program\<rparr>, EXIT_CURRENT := \<lparr>locked = False, inner = Some exit_hook\<rparr>\<rparr>"
    using assms(3) by (cases "locked (EXEC_PROGRAM k2)"; cases "locked (EXIT_CURRENT k2)")
      (simp_all add: set_process_hooks_def spin_unlock_def lock_fields Let_def)
  define c where "c = init_serial_interrupts (console_of (world k1))"
  have c: "\<not> bit (lcr (com1 c)) 7" "SERIAL_INPUT c = serial_input_new"
    using init_serial_interrupts_programs [of "console_of (world k1)"] fs(3) assms(4)
    by (simp_all add: c_def Let_def k3 k2 init_serial_interrupts_def log_message_def)
  define st where "st = log_message LogInfo msg' k4"
  have lcr: "lcr (com1 (printk LogInfo ps c)) = lcr (com1 c)" for ps using c(1) by (simp add: printk_def serial_puts_simps puts_all_simps)
  have "ring_inv serial_input_new" "ring_contents serial_input_new = []"
    by (simp_all add: ring_inv_def serial_input_new_def ring_contents_def ring_length_def)
  then have "console_state [] (sent st) fs st"
    using c fs(1) lcr by (simp add: console_state_def sending_def st_def log_message_def k4_def c_def [symmetric] k3 k2)
  then have "console_state [] (sent st @ prompt_text) fs (print_prompt st)" unfolding print_prompt_put by (rule console_put)
  then show thesis using fs(2,4) by (intro that [of "sent st" fs]) (simp_all add: st_def k3 k2)
qed

text \<open>C8: the start of the kernel.  With a sane memory map and image layout, \<^verbatim>\<open>kernel_main\<close> panics only for the
  wrong boot magic, for lack of memory (a heap chunk included) or for a kernel root in frame 0, and not when
  \<open>enough_memory\<close> holds: the memory map offers enough low pages and 4 MiB runs for the page tables, the frames of
  the two processes and the \<open>heap_chunks\<close>, and if it offers page 0 then together with page 1, while some other low
  page has no buddy to merge with (\<open>page_zero_spared\<close>).  Otherwise it reaches the main loop with interrupts on
  and the timer, keyboard and serial lines open and no other; the
  two user programs are ready behind the kernel process, and the invariant that isolates processes
  and keeps the scheduler consistent holds; every program is installed in the file system, the system
  call hooks are in place, all locks are free, and the prompt is the last thing on the console.\<close>

theorem kernel_boots:
  assumes "env_ok env mbi_ptr" "at_reset env k"
  shows "case kernel_main env mbi_ptr magic k msrs of
      Inl e \<Rightarrow> if magic = MULTIBOOT2_MAGIC then e \<in> boot_panics \<and> \<not> enough_memory env mbi_ptr
        else e = Assertion ''Not loaded by Multiboot2!''
    | Inr bk \<Rightarrow> magic = MULTIBOOT2_MAGIC \<and> bk_shell bk = shell_new \<and>
       (let k' = bk_kernel bk; m = machine_of (world k') in
        sys_inv m \<and> iflag m \<and> ready_queue m = [1, 2] \<and> length (procs m) = 3 \<and>
        (\<forall>n<IRQ_COUNT. line_open (pics_of (world k')) n \<longleftrightarrow> n \<in> {0, 1, 4}) \<and>
        (\<exists>fs printed. console_state [] (printed @ prompt_text) fs k' \<and> (\<forall>p. installed fs p)) \<and>
        KERNEL_FD_TABLE k' = \<lparr>locked = False, inner = Some fd_table_new\<rparr> \<and>
        CONSOLE_WRITE k' = \<lparr>locked = False, inner = Some serial_console_write\<rparr> \<and>
        EXEC_PROGRAM k' = \<lparr>locked = False, inner = Some exec_program\<rparr> \<and>
        EXIT_CURRENT k' = \<lparr>locked = False, inner = Some exit_hook\<rparr>)"
proof (cases "magic = MULTIBOOT2_MAGIC")
  case False
  then show ?thesis by (simp add: kernel_main_def guard_def Let_def)
next
  case True
  show ?thesis
  proof (cases "kernel_main env mbi_ptr MULTIBOOT2_MAGIC k msrs")
    case (Inl e)
    then have "\<not> enough_memory env mbi_ptr" using kernel_main_total [OF assms, of msrs] by (metis sum.distinct(1))
    then show ?thesis using kernel_main_outcome [OF assms, of msrs] True Inl by simp
  next
    case (Inr bk)
    obtain k1 k2 k3 m m' where s: "init_runtime_fs (log_message LogInfo [''Welcome to Zeronix!''] k) = Inr k1"
        "set_console_write serial_console_write k1 = Inr k2" "set_process_hooks exec_program exit_hook k2 = Inr k3"
        "booted m" "next_pid m = 1" "boot_processes (heap_chunks env) m = Inr m'" "bk_shell bk = shell_new"
        "bk_kernel bk = print_prompt (log_message LogInfo [''Zeronix boot successfully!'']
          (k3\<lparr>world := (world k3)\<lparr>console_of := init_serial_interrupts (console_of (world k3)),
             pics_of := fold unmask_irq [0, 1, 4] (pic_init (pics_of (world k3))), machine_of := m'\<lparr>iflag := True\<rparr>\<rparr>\<rparr>))"
      using kernel_main_outcome [OF assms, of msrs] unfolding Inr sum.case by (elim exE conjE) (rule that)
    have p: "sys_inv (m'\<lparr>iflag := True\<rparr>)" "ready_queue m' = [1, 2]" "length (procs m') = 3"
      using boot_processes_effect [OF s(4-6)] sys_inv_iflag by auto
    have ring: "SERIAL_INPUT (console_of (world k)) = serial_input_new" using assms(2) by (simp add: at_reset_def)
    have lines: "line_open (fold unmask_irq [0, 1, 4] (pic_init q)) n \<longleftrightarrow> n \<in> {0, 1, 4}" if "n < IRQ_COUNT" for n q
      using unmask_opens_exactly [of "[0, 1, 4]" n q] that by simp
    obtain fs printed where c: "console_state [] (printed @ prompt_text) fs (bk_kernel bk)" "\<forall>q. installed fs q"
        "CONSOLE_WRITE k3 = \<lparr>locked = False, inner = Some serial_console_write\<rparr>" "EXEC_PROGRAM k3 = \<lparr>locked = False, inner = Some exec_program\<rparr>"
        "EXIT_CURRENT k3 = \<lparr>locked = False, inner = Some exit_hook\<rparr>" "KERNEL_FD_TABLE k3 = \<lparr>locked = False, inner = Some fd_table_new\<rparr>"
      unfolding s(8) by (rule boot_console [OF s(1-3) ring])
    have keep: "machine_of (world (bk_kernel bk)) = m'\<lparr>iflag := True\<rparr>" "pics_of (world (bk_kernel bk)) = fold unmask_irq [0, 1, 4] (pic_init (pics_of (world k3)))"
        "CONSOLE_WRITE (bk_kernel bk) = CONSOLE_WRITE k3" "EXEC_PROGRAM (bk_kernel bk) = EXEC_PROGRAM k3"
        "EXIT_CURRENT (bk_kernel bk) = EXIT_CURRENT k3" "KERNEL_FD_TABLE (bk_kernel bk) = KERNEL_FD_TABLE k3"
      unfolding s(8) by (simp_all add: print_prompt_put put_def log_message_def)
    show ?thesis
      unfolding True Inr sum.case Let_def keep c(3-6)
      using p c(1,2) s(7) lines by auto
  qed
qed


theorem kernel_boots_witness:
  "\<forall>msrs. \<exists>bk. kernel_main pc_env 0x300000 MULTIBOOT2_MAGIC demo_reset msrs = Inr bk \<and> sys_inv (machine_of (world (bk_kernel bk))) \<and>
     ready_queue (machine_of (world (bk_kernel bk))) = [1, 2]"
proof
  fix msrs
  show "\<exists>bk. kernel_main pc_env 0x300000 MULTIBOOT2_MAGIC demo_reset msrs = Inr bk \<and> sys_inv (machine_of (world (bk_kernel bk))) \<and>
     ready_queue (machine_of (world (bk_kernel bk))) = [1, 2]"
    using kernel_boots [OF pc_env_ok pc_at_reset, of MULTIBOOT2_MAGIC msrs] pc_enough by (simp add: Let_def split: sum.splits)
qed

text \<open>C35: the first user program.  Loaded anywhere in user memory, with any register contents, the generated
  machine code runs from its first byte into a \<^verbatim>\<open>syscall\<close> instruction with the number, descriptor, address and
  length of a \<^verbatim>\<open>write\<close> of its own message in the registers; that call, through descriptor table and console
  hook, returns the length of the message, puts the message on the serial line and appends it to the
  captured standard output.  Behind the entry stub, with a compiled dispatcher that keeps the calling
  convention, the program finds that length in \<^verbatim>\<open>rax\<close> and continues with a jump to itself.\<close>

theorem smoke_program_prints:
  assumes "syscall_write_smoke_program = Inr code" "user_slice (user_mem st) base (length code) = code" "base + length code \<le> 2 ^ 64"
    and "io_ready st fs t" "fd_entry 1 t = Inr (Stdout d)" "inner (CONSOLE_WRITE st) = Some serial_console_write" "sending st"
    and "compiled st D"
  shows "\<exists>rip r' st' t'. run_user 5 rflags (user_mem st) (of_nat base, r) = EntersKernel (rip, r') \<and>
    syscall_dispatch (unat (r' RAX)) (unat (r' RDI)) (unat (r' RSI)) (unat (r' RDX)) st = Inr (Some (int (length smoke_message)), st') \<and>
    sent st' = sent st @ smoke_message \<and> io_ready st' fs t' \<and> fd_entry 1 t' = Inr (Stdout (d @ smoke_message)) \<and>
    (let u = regs (syscall_entry_stub D syscall_stack \<lparr>regs = r', cells = m\<rparr>) in
     u RAX = of_nat (length smoke_message) \<and> user_step rflags (user_mem st') (u RCX, u) = Next (u RCX, u))"
proof -
  note code = smoke_decodes(1,2) [OF assms(1)] length_smoke_message
  note run = smoke_runs(1) [OF assms(1-3), of rflags r]
  define r' where "r' = r(RAX := 6, RDI := 1, RSI := of_nat (base + 26), RDX := 40, RCX := of_nat (base + 24), R11 := rflags)"
  have "unat (of_nat (base + 26) :: u64) = base + 26"
    using assms(3) code(1) by (simp add: unsigned_of_nat take_bit_nat_eq_self del: of_nat_add)
  then have args: "unat (r' RAX) = 6" "unat (r' RDI) = 1" "unat (r' RSI) = base + 26" "unat (r' RDX) = 40" "r' RCX = of_nat (base + 24)"
    by (simp_all add: r'_def del: of_nat_add)
  have msg: "user_slice (user_mem st) (base + 26) 40 = smoke_message"
  proof (rule nth_equalityI)
    fix i assume "i < length (user_slice (user_mem st) (base + 26) 40)"
    then have "user_slice (user_mem st) base (length code) ! (26 + i) = user_mem st (base + (26 + i))" "26 + i < length code" "i < 40"
      using code(1) by (simp_all add: user_slice_def del: upt_rec_numeral)
    then show "user_slice (user_mem st) (base + 26) 40 ! i = smoke_message ! i"
      unfolding assms(2) code(2) [symmetric] by (simp add: user_slice_def add.assoc del: upt_rec_numeral)
  qed (simp add: code(3))
  define t' where "t' = t[1 := Some (Stdout (d @ smoke_message))]"
  have w: "fd_write 1 smoke_message (fs, t) = (Inr 40, fs, t')" using assms(5) by (simp add: fd_write_def t'_def code(3))
  have fd: "fd_entry 1 t' = Inr (Stdout (d @ smoke_message))" using assms(5) by (auto simp: fd_entry_iff t'_def)
  have "\<exists>st'. syscall_write 1 (base + 26) 40 st = Inr (Inr 40, st') \<and> sent st' = sent st @ smoke_message \<and> io_ready st' fs t' \<and> user_mem st' = user_mem st"
    unfolding syscall_write_def msg using assms(4,6,7) code(3)
    by (simp add: io_defs w [unfolded One_nat_def] fd_result_def mirror_console_write_def guard_def Let_def serial_console_write_def sent_def sending_def serial_write_simps)
  then obtain st' where st': "syscall_dispatch 6 1 (base + 26) 40 st = Inr (Some (int (length smoke_message)), st')"
      "sent st' = sent st @ smoke_message" "io_ready st' fs t'" "user_mem st' = user_mem st"
    by (auto simp: syscall_dispatch_def dispatch_def answered_Inr sint_small code(3))
  note return = compiled_entry [where r = r' and syscall_stack = syscall_stack and m = m, unfolded args(1-4), OF assms(8) st'(1)]
  show ?thesis
    unfolding run r'_def [symmetric] Let_def
    by (intro exI [of _ "of_nat (base + 24)"] exI [of _ r'] exI [of _ st'] exI [of _ t'])
      (use st' fd return args smoke_runs(2) [OF assms(1-3)] in \<open>simp add: code(3) del: of_nat_add\<close>)
qed

definition demo_dispatch :: "'w sys \<Rightarrow> cpu_state \<Rightarrow> cpu_state" where
  "demo_dispatch st c = (case syscall_dispatch (unat (regs c RDI)) (unat (regs c RSI)) (unat (regs c RDX)) (unat (regs c RCX)) st of
     Inr (Some v, st') \<Rightarrow> c\<lparr>regs := (regs c)(RAX := of_int v)\<rparr> | _ \<Rightarrow> c)"

theorem smoke_program_prints_witness:
  "\<forall>m. \<exists>code rip r' st'. syscall_write_smoke_program = Inr code \<and>
     (let st = (demo_kernel demo_fs m [])\<lparr>user_mem := write_user 0x600000 code (\<lambda>_. 0), CONSOLE_WRITE := spin_new (Some serial_console_write)\<rparr> in
      run_user 5 0x202 (user_mem st) (0x600000, \<lambda>_. 0) = EntersKernel (rip, r') \<and>
      syscall_dispatch (unat (r' RAX)) (unat (r' RDI)) (unat (r' RSI)) (unat (r' RDX)) st = Inr (Some 40, st') \<and> sent st' = smoke_message \<and>
      regs (syscall_entry_stub (demo_dispatch st) 0x9000 \<lparr>regs = r', cells = (\<lambda>_. 0)\<rparr>) RAX = 40)"
proof
  fix m
  obtain code where c: "syscall_write_smoke_program = Inr code" using smoke_program_bytes by blast
  define st where "st = (demo_kernel demo_fs m [])\<lparr>user_mem := write_user 0x600000 code (\<lambda>_. 0), CONSOLE_WRITE := spin_new (Some serial_console_write)\<rparr>"
  have u: "user_slice (user_mem st) 0x600000 (length code) = code" "0x600000 + length code \<le> 2 ^ 64"
    using smoke_decodes(1) [OF c] by (simp_all add: st_def write_user_slice)
  have i: "io_ready st demo_fs fd_table_new" "fd_entry 1 fd_table_new = Inr (Stdout [])"
    "inner (CONSOLE_WRITE st) = Some serial_console_write" "sending st" "sent st = []"
    by (simp_all add: st_def io_ready_def spin_new_def fd_entry_iff fd_table_new_def sending_def sent_def)
  have D: "compiled st (demo_dispatch st)" by (auto simp: compiled_def demo_dispatch_def split: sum.splits prod.splits option.splits)
  obtain rip r' st' where o: "run_user 5 0x202 (user_mem st) (of_nat 0x600000, \<lambda>_. 0) = EntersKernel (rip, r')"
      "syscall_dispatch (unat (r' RAX)) (unat (r' RDI)) (unat (r' RSI)) (unat (r' RDX)) st = Inr (Some (int (length smoke_message)), st')"
      "sent st' = sent st @ smoke_message"
      "regs (syscall_entry_stub (demo_dispatch st) 0x9000 \<lparr>regs = r', cells = (\<lambda>_. 0)\<rparr>) RAX = of_nat (length smoke_message)"
    using smoke_program_prints [OF c u i(1-4) D, of "0x202" "\<lambda>_. 0" "0x9000" "\<lambda>_. 0"] unfolding Let_def by blast
  have "run_user 5 0x202 (user_mem st) (0x600000, \<lambda>_. 0) = EntersKernel (rip, r') \<and>
      syscall_dispatch (unat (r' RAX)) (unat (r' RDI)) (unat (r' RSI)) (unat (r' RDX)) st = Inr (Some 40, st') \<and> sent st' = smoke_message \<and>
      regs (syscall_entry_stub (demo_dispatch st) 0x9000 \<lparr>regs = r', cells = (\<lambda>_. 0)\<rparr>) RAX = 40"
    using o i(5) by (simp add: length_smoke_message)
  then show "\<exists>code rip r' st'. syscall_write_smoke_program = Inr code \<and>
     (let st = (demo_kernel demo_fs m [])\<lparr>user_mem := write_user 0x600000 code (\<lambda>_. 0), CONSOLE_WRITE := spin_new (Some serial_console_write)\<rparr> in
      run_user 5 0x202 (user_mem st) (0x600000, \<lambda>_. 0) = EntersKernel (rip, r') \<and>
      syscall_dispatch (unat (r' RAX)) (unat (r' RDI)) (unat (r' RSI)) (unat (r' RDX)) st = Inr (Some 40, st') \<and> sent st' = smoke_message \<and>
      regs (syscall_entry_stub (demo_dispatch st) 0x9000 \<lparr>regs = r', cells = (\<lambda>_. 0)\<rparr>) RAX = 40)"
    using c unfolding Let_def st_def by blast
qed

end
